(* ===== verification/Kit_Prelude.thy ===== *)
theory Kit_Prelude
  imports Main "HOL-Library.Word" "HOL-Library.Monad_Syntax"
begin

unbundle bit_operations_syntax

text \<open>
  Shared vocabulary of the development: the C integer types of the target (LP64) as fixed-width
  words, addresses, the assertion primitive of \<^verbatim>\<open>lib-sxe-log/sxe-log.h\<close>, the relocatable
  pointer macros of \<^verbatim>\<open>lib-sxe-util/sxe-util.h\<close>, the collections of simplification rules the
  component theories extend, and the generic facts on lists, options and words they share.
\<close>

section \<open>C types\<close>

type_synonym u8 = "8 word"
type_synonym u16 = "16 word"
type_synonym u32 = "32 word"
type_synonym u64 = "64 word"
type_synonym addr = "64 word"
type_synonym bytes = "u8 list"

named_theorems list_ops \<open>definitions of the sxe-list operations\<close>
named_theorems pool_ops \<open>definitions of the sxe-pool operations\<close>
named_theorems heap_sel \<open>what a field of the heap reads after an update\<close>

section \<open>Assertions\<close>

text \<open>
  \<^verbatim>\<open>SXEA1(cond, ...)\<close> and \<^verbatim>\<open>SXEA6(cond, ...)\<close> call \<^verbatim>\<open>sxe_log_assert\<close>, which aborts the
  process, when \<open>cond\<close> is false. An aborted call is \<open>None\<close>. \<^verbatim>\<open>SXEA6\<close> is compiled only into
  debug builds: the models have it switched on, so that a call shown to return \<open>Some\<close> fires no
  assertion and behaves the same in a release build.
\<close>

definition SXEA1 :: "bool \<Rightarrow> unit option" where
  "SXEA1 con = (if con then Some () else None)"

definition SXEA6 :: "bool \<Rightarrow> unit option" where
  "SXEA6 con = (if con then Some () else None)"

lemma SXEA1_True [simp]: "SXEA1 True = Some ()"
  by (simp add: SXEA1_def)

lemma SXEA6_True [simp]: "SXEA6 True = Some ()"
  by (simp add: SXEA6_def)

lemma SXEA1_Some [simp]: "SXEA1 b = Some u \<longleftrightarrow> b"
  by (simp add: SXEA1_def)

lemma SXEA6_Some [simp]: "SXEA6 b = Some u \<longleftrightarrow> b"
  by (simp add: SXEA6_def)

lemma SXEA1_None [simp]: "SXEA1 b = None \<longleftrightarrow> \<not> b"
  by (simp add: SXEA1_def)

lemma SXEA6_None [simp]: "SXEA6 b = None \<longleftrightarrow> \<not> b"
  by (simp add: SXEA6_def)

lemma bind_SXEA1 [simp]: "b \<Longrightarrow> Option.bind (SXEA1 b) f = f ()"
  by (simp add: SXEA1_def)

lemma bind_SXEA6 [simp]: "b \<Longrightarrow> Option.bind (SXEA6 b) f = f ()"
  by (simp add: SXEA6_def)

lemma bind_SXEA_fails [simp]: "\<not> b \<Longrightarrow> Option.bind (SXEA1 b) f = None" "\<not> b \<Longrightarrow> Option.bind (SXEA6 b) f = None"
  by (simp_all add: SXEA1_def SXEA6_def)

section \<open>Return codes and C strings\<close>

datatype SXE_RETURN =
    SXE_RETURN_OK
  | SXE_RETURN_NO_SUCH_PROCESS
  | SXE_RETURN_ERROR_INTERRUPTED
  | SXE_RETURN_ERROR_WRITE_FAILED
  | SXE_RETURN_ERROR_COMMAND_NOT_RUN
  | SXE_RETURN_WARN_ALREADY_CLOSED
  | SXE_RETURN_WARN_WOULD_BLOCK
  | SXE_RETURN_ERROR_ALLOC
  | SXE_RETURN_ERROR_INVALID
  | SXE_RETURN_OUT_OF_RANGE
  | SXE_RETURN_DEADLOCK_WOULD_OCCUR
  | SXE_RETURN_ERROR_LOCK_NOT_TAKEN
  | SXE_RETURN_END_OF_FILE
  | SXE_RETURN_ERROR_BAD_MESSAGE
  | SXE_RETURN_ERROR_INCORRECT_STATE
  | SXE_RETURN_ERROR_ADDRESS_IN_USE
  | SXE_RETURN_NO_UNUSED_ELEMENTS
  | SXE_RETURN_ERROR_ALREADY_CONNECTED
  | SXE_RETURN_ERROR_NO_CONNECTION
  | SXE_RETURN_ERROR_TIMED_OUT
  | SXE_RETURN_WARN_ALREADY_INITIALIZED
  | SXE_RETURN_IN_PROGRESS
  | SXE_RETURN_ERROR_NOT_INITIALIZED
  | SXE_RETURN_UNCATEGORIZED
  | SXE_RETURN_EXPIRED_VALUE
  | SXE_RETURN_ERROR_INTERNAL
  | SXE_RETURN_INVALID_VALUE

text \<open>
  A C string argument is the list of its bytes before the terminating zero; the byte at its end is the
  terminator. \<open>ascii\<close> gives the bytes of a literal.
\<close>

definition c_at :: "bytes \<Rightarrow> nat \<Rightarrow> u8" where
  "c_at s i = (if i < length s then s ! i else 0)"

definition ascii :: "string \<Rightarrow> bytes" where
  "ascii s = map of_char s"

lemma c_at_append [simp]: "c_at (xs @ ys) i = (if i < length xs then xs ! i else c_at ys (i - length xs))"
  by (auto simp: c_at_def nth_append)

lemma c_at_nth: "i < length s \<Longrightarrow> c_at s i = s ! i"
  by (simp add: c_at_def)

section \<open>Buffers\<close>

text \<open>
  A buffer is the list of its cells. An access outside it is \<open>None\<close>, so a call shown to return \<open>Some\<close>
  stays within the memory it was given.
\<close>

definition peek :: "'a list \<Rightarrow> nat \<Rightarrow> 'a option" where
  "peek buf i = (if i < length buf then Some (buf ! i) else None)"

definition poke :: "'a list \<Rightarrow> nat \<Rightarrow> 'a \<Rightarrow> 'a list option" where
  "poke buf i v = (if i < length buf then Some (buf[i := v]) else None)"

lemma peek_in [simp]: "i < length buf \<Longrightarrow> peek buf i = Some (buf ! i)"
  by (simp add: peek_def)

lemma poke_in [simp]: "i < length buf \<Longrightarrow> poke buf i v = Some (buf[i := v])"
  by (simp add: poke_def)

lemma poke_out [simp]: "length buf \<le> i \<Longrightarrow> poke buf i v = None"
  by (simp add: poke_def)

lemma take_Suc_update: "n < length xs \<Longrightarrow> take (Suc n) (xs[n := v]) = take n xs @ [v]"
  by (simp add: take_Suc_conv_app_nth)

section \<open>Relocatable pointers\<close>

text \<open>
  Pointers inside a relocatable structure are kept relative to its base. Pointer arithmetic is
  modulo \<open>2 ^ 64\<close>, so fixing a relative pointer gives the pointer back whatever the base is.
\<close>

definition SXE_PTR_FIX :: "addr \<Rightarrow> addr \<Rightarrow> addr" where
  "SXE_PTR_FIX base ptr_rel = ptr_rel + base"

definition SXE_PTR_REL :: "addr \<Rightarrow> addr \<Rightarrow> addr" where
  "SXE_PTR_REL base ptr_fix = ptr_fix - base"

lemma PTR_FIX_REL [simp]: "SXE_PTR_FIX b (SXE_PTR_REL b p) = p"
  by (simp add: SXE_PTR_FIX_def SXE_PTR_REL_def)

lemma PTR_REL_FIX [simp]: "SXE_PTR_REL b (SXE_PTR_FIX b r) = r"
  by (simp add: SXE_PTR_FIX_def SXE_PTR_REL_def)

lemma PTR_REL_inject [simp]: "SXE_PTR_REL b p = SXE_PTR_REL b q \<longleftrightarrow> p = q"
  by (simp add: SXE_PTR_REL_def)

section \<open>Lists\<close>

lemma last_Cons_in_set: "last (x # xs) \<in> insert x (set xs)"
  by (metis last_in_set list.distinct(1) list.simps(15))

lemma hd_snoc_in_set: "hd (xs @ [x]) \<in> insert x (set xs)"
  by (cases xs) auto

lemma last_notin_butlast: "distinct xs \<Longrightarrow> xs \<noteq> [] \<Longrightarrow> last xs \<notin> set (butlast xs)"
  by (cases xs rule: rev_cases) auto

lemma remove1_middle: "x \<notin> set xs \<Longrightarrow> remove1 x (xs @ x # ys) = xs @ ys"
  by (simp add: remove1_append)

lemma option_eqI: "(\<And>v. x = Some v \<longleftrightarrow> y = Some v) \<Longrightarrow> x = y"
  by (cases x; cases y) auto

lemma in_set_concatI: "b < length xss \<Longrightarrow> x \<in> set (xss ! b) \<Longrightarrow> x \<in> set (concat xss)"
  by (auto intro: nth_mem)

lemma in_set_concatD: "x \<in> set (concat xss) \<Longrightarrow> \<exists>b < length xss. x \<in> set (xss ! b)"
  by (metis UN_E in_set_conv_nth set_concat)

section \<open>Words\<close>

lemma unat_plus_one_less:
  fixes x y :: "'a::len word"
  assumes "x < y"
  shows "unat (x + 1) = unat x + 1"
proof -
  have "unat x < unat y" using assms by (simp add: word_less_nat_alt)
  then have "unat x + 1 < 2 ^ LENGTH('a)" using unsigned_less [of y] by (metis Suc_eq_plus1 Suc_leI order_le_less_trans)
  then show ?thesis by (simp add: unat_word_ariths(1))
qed

lemma unat_plus_no_overflow:
  fixes x y :: "'a::len word"
  shows "unat x + unat y < 2 ^ LENGTH('a) \<Longrightarrow> unat (x + y) = unat x + unat y"
  by (simp add: unat_word_ariths(1))

lemma unat_mult_no_overflow:
  fixes x y :: "'a::len word"
  shows "unat x * unat y < 2 ^ LENGTH('a) \<Longrightarrow> unat (x * y) = unat x * unat y"
  by (simp add: unat_word_ariths(2))

lemma unat_ucast_u32 [simp]: "unat (ucast (i :: u32) :: u64) = unat i"
proof -
  have "unat i < 2 ^ 64" using unsigned_less [of i, where 'a = nat] by simp
  then show ?thesis by (simp add: unsigned_ucast_eq take_bit_nat_eq_self)
qed

end
