(* ===== verification/Sxe_List.thy ===== *)
theory Sxe_List
  imports Kit_Prelude
begin

text \<open>
  Model of \<^verbatim>\<open>lib-sxe-list/sxe-list.c\<close> and \<^verbatim>\<open>lib-sxe-list/sxe-list-walker.c\<close>: intrusive, doubly
  linked, circular lists with a sentinel and list-relative pointers.

  The heap is a pair of maps from addresses: the \<^verbatim>\<open>SXE_LIST_NODE\<close> at an address and the rest of
  the \<^verbatim>\<open>SXE_LIST\<close> (length and offset) at an address. The sentinel is the first member of an
  \<^verbatim>\<open>SXE_LIST\<close>, so the node at the address of the list is its sentinel. The heap is an extensible
  record, and the components above the lists add their own fields to it.
\<close>

section \<open>Data\<close>

record sxe_list_node =
  nxt :: addr
  prv :: addr
  node_id :: u32

record sxe_list_hdr =
  len :: u32
  offset :: u64

record list_heap =
  nodes :: "addr \<Rightarrow> sxe_list_node"
  hdrs :: "addr \<Rightarrow> sxe_list_hdr"

text \<open>Assignments to a member of a node or of a list header.\<close>

definition set_nxt :: "addr \<Rightarrow> addr \<Rightarrow> 'a list_heap_scheme \<Rightarrow> 'a list_heap_scheme" where
  "set_nxt p v h = h\<lparr>nodes := (nodes h)(p := (nodes h p)\<lparr>nxt := v\<rparr>)\<rparr>"

definition set_prv :: "addr \<Rightarrow> addr \<Rightarrow> 'a list_heap_scheme \<Rightarrow> 'a list_heap_scheme" where
  "set_prv p v h = h\<lparr>nodes := (nodes h)(p := (nodes h p)\<lparr>prv := v\<rparr>)\<rparr>"

definition set_node_id :: "addr \<Rightarrow> u32 \<Rightarrow> 'a list_heap_scheme \<Rightarrow> 'a list_heap_scheme" where
  "set_node_id p v h = h\<lparr>nodes := (nodes h)(p := (nodes h p)\<lparr>node_id := v\<rparr>)\<rparr>"

definition set_len :: "addr \<Rightarrow> u32 \<Rightarrow> 'a list_heap_scheme \<Rightarrow> 'a list_heap_scheme" where
  "set_len l v h = h\<lparr>hdrs := (hdrs h)(l := (hdrs h l)\<lparr>len := v\<rparr>)\<rparr>"

definition set_offset :: "addr \<Rightarrow> u64 \<Rightarrow> 'a list_heap_scheme \<Rightarrow> 'a list_heap_scheme" where
  "set_offset l v h = h\<lparr>hdrs := (hdrs h)(l := (hdrs h l)\<lparr>offset := v\<rparr>)\<rparr>"

definition NULL_REL :: "addr \<Rightarrow> addr" where
  "NULL_REL list = SXE_PTR_REL list 0"

definition NODE_PTR_FIX :: "addr \<Rightarrow> addr \<Rightarrow> addr" where
  "NODE_PTR_FIX list node = SXE_PTR_FIX list node"

definition SENTINEL_PTR_REL :: "addr \<Rightarrow> addr" where
  "SENTINEL_PTR_REL list = SXE_PTR_REL list list"

abbreviation HEAD :: "'a list_heap_scheme \<Rightarrow> addr \<Rightarrow> addr" where
  "HEAD h list \<equiv> nxt (nodes h list)"

abbreviation TAIL :: "'a list_heap_scheme \<Rightarrow> addr \<Rightarrow> addr" where
  "TAIL h list \<equiv> prv (nodes h list)"

section \<open>List operations\<close>

definition sxe_list_construct_impl ::
  "addr \<Rightarrow> u32 \<Rightarrow> u64 \<Rightarrow> 'a list_heap_scheme \<Rightarrow> 'a list_heap_scheme" where
  "sxe_list_construct_impl list ident off h =
     (let h = set_nxt list (SENTINEL_PTR_REL list) h;
          h = set_prv list (SENTINEL_PTR_REL list) h;
          h = set_node_id list ident h;
          h = set_len list 0 h
      in set_offset list off h)"

definition sxe_list_push :: "addr \<Rightarrow> addr \<Rightarrow> 'a list_heap_scheme \<Rightarrow> 'a list_heap_scheme" where
  "sxe_list_push list object h =
     (let node = object + offset (hdrs h list);
          h = set_nxt node (SENTINEL_PTR_REL list) h;
          h = set_prv node (TAIL h list) h;
          h = set_prv list (SXE_PTR_REL list node) h;
          h = set_nxt (NODE_PTR_FIX list (prv (nodes h node))) (SXE_PTR_REL list node) h;
          h = set_node_id node (node_id (nodes h list)) h
      in set_len list (len (hdrs h list) + 1) h)"

definition sxe_list_unshift :: "addr \<Rightarrow> addr \<Rightarrow> 'a list_heap_scheme \<Rightarrow> 'a list_heap_scheme" where
  "sxe_list_unshift list object h =
     (let node = object + offset (hdrs h list);
          h = set_prv node (SENTINEL_PTR_REL list) h;
          h = set_nxt node (HEAD h list) h;
          h = set_nxt list (SXE_PTR_REL list node) h;
          h = set_prv (NODE_PTR_FIX list (nxt (nodes h node))) (SXE_PTR_REL list node) h;
          h = set_node_id node (node_id (nodes h list)) h
      in set_len list (len (hdrs h list) + 1) h)"

definition sxe_list_remove ::
  "addr \<Rightarrow> addr \<Rightarrow> 'a list_heap_scheme \<Rightarrow> (addr \<times> 'a list_heap_scheme) option" where
  "sxe_list_remove list object h =
     do {
       SXEA1 (HEAD h list \<noteq> SENTINEL_PTR_REL list \<and> TAIL h list \<noteq> SENTINEL_PTR_REL list);
       SXEA1 (HEAD h list \<noteq> SENTINEL_PTR_REL list \<or> TAIL h list \<noteq> SENTINEL_PTR_REL list);
       let node = object + offset (hdrs h list);
       SXEA6 (node_id (nodes h node) = node_id (nodes h list));
       SXEA1 (nxt (nodes h node) \<noteq> NULL_REL list \<and> prv (nodes h node) \<noteq> NULL_REL list);
       let h = set_prv (NODE_PTR_FIX list (nxt (nodes h node))) (prv (nodes h node)) h;
       let h = set_nxt (NODE_PTR_FIX list (prv (nodes h node))) (nxt (nodes h node)) h;
       let h = set_prv node (NULL_REL list) h;
       let h = set_nxt node (NULL_REL list) h;
       let h = set_len list (len (hdrs h list) - 1) h;
       Some (object, h)
     }"

definition sxe_list_pop ::
  "addr \<Rightarrow> 'a list_heap_scheme \<Rightarrow> (addr \<times> 'a list_heap_scheme) option" where
  "sxe_list_pop list h =
     (let node = NODE_PTR_FIX list (TAIL h list)
      in if node = list
         then do { SXEA1 (HEAD h list = SENTINEL_PTR_REL list); Some (0, h) }
         else sxe_list_remove list (node - offset (hdrs h list)) h)"

definition sxe_list_shift ::
  "addr \<Rightarrow> 'a list_heap_scheme \<Rightarrow> (addr \<times> 'a list_heap_scheme) option" where
  "sxe_list_shift list h =
     (let node = NODE_PTR_FIX list (HEAD h list)
      in if node = list
         then do { SXEA1 (TAIL h list = SENTINEL_PTR_REL list); Some (0, h) }
         else sxe_list_remove list (node - offset (hdrs h list)) h)"

definition sxe_list_peek_head :: "addr \<Rightarrow> 'a list_heap_scheme \<Rightarrow> addr option" where
  "sxe_list_peek_head list h =
     (if HEAD h list = SENTINEL_PTR_REL list
      then do { SXEA1 (TAIL h list = SENTINEL_PTR_REL list); Some 0 }
      else do {
        SXEA1 (TAIL h list \<noteq> SENTINEL_PTR_REL list);
        SXEA1 (prv (nodes h (NODE_PTR_FIX list (HEAD h list))) = SENTINEL_PTR_REL list);
        let node = NODE_PTR_FIX list (HEAD h list);
        SXEA6 (node_id (nodes h node) = node_id (nodes h list));
        SXEA6 (nxt (nodes h (NODE_PTR_FIX list (TAIL h list))) = SENTINEL_PTR_REL list);
        Some (node - offset (hdrs h list))
      })"

definition sxe_list_peek_tail :: "addr \<Rightarrow> 'a list_heap_scheme \<Rightarrow> addr option" where
  "sxe_list_peek_tail list h =
     (if TAIL h list = SENTINEL_PTR_REL list
      then do { SXEA1 (HEAD h list = SENTINEL_PTR_REL list); Some 0 }
      else do {
        SXEA1 (HEAD h list \<noteq> SENTINEL_PTR_REL list);
        SXEA1 (nxt (nodes h (NODE_PTR_FIX list (TAIL h list))) = SENTINEL_PTR_REL list);
        let node = NODE_PTR_FIX list (TAIL h list);
        SXEA6 (node_id (nodes h node) = node_id (nodes h list));
        SXEA6 (prv (nodes h (NODE_PTR_FIX list (HEAD h list))) = SENTINEL_PTR_REL list);
        Some (node - offset (hdrs h list))
      })"

section \<open>Walkers\<close>

record sxe_list_walker =
  walk_list :: addr
  walk_back :: addr
  walk_node :: addr

definition sxe_list_walker_construct :: "addr \<Rightarrow> sxe_list_walker" where
  "sxe_list_walker_construct list = \<lparr>walk_list = list, walk_back = list, walk_node = list\<rparr>"

definition sxe_list_walker_back ::
  "'a list_heap_scheme \<Rightarrow> sxe_list_walker \<Rightarrow> addr \<times> sxe_list_walker" where
  "sxe_list_walker_back h w =
     (if walk_back w \<noteq> walk_list w
      then let w = w\<lparr>walk_node := walk_back w\<rparr>;
               w = w\<lparr>walk_back := walk_list w\<rparr>
           in (walk_node w - offset (hdrs h (walk_list w)), w)
      else (0, w))"

definition sxe_list_walker_find :: "'a list_heap_scheme \<Rightarrow> sxe_list_walker \<Rightarrow> addr" where
  "sxe_list_walker_find h w =
     (if walk_node w \<noteq> walk_list w then walk_node w - offset (hdrs h (walk_list w)) else 0)"

definition sxe_list_walker_step ::
  "'a list_heap_scheme \<Rightarrow> sxe_list_walker \<Rightarrow> addr \<times> sxe_list_walker" where
  "sxe_list_walker_step h w =
     (let w = w\<lparr>walk_back := walk_node w\<rparr>;
          w = w\<lparr>walk_node := SXE_PTR_FIX (walk_list w) (nxt (nodes h (walk_node w)))\<rparr>
      in if walk_node w \<noteq> walk_list w
         then (walk_node w - offset (hdrs h (walk_list w)), w)
         else (0, w))"

section \<open>Abstraction: the nodes of a list, head first\<close>

text \<open>
  \<open>links ns l ps\<close>: along the path \<open>ps\<close> every node's next pointer leads to its successor and every
  node's previous pointer to its predecessor, both relative to the list \<open>l\<close>.
\<close>

fun links :: "(addr \<Rightarrow> sxe_list_node) \<Rightarrow> addr \<Rightarrow> addr list \<Rightarrow> bool" where
  "links ns l (a # b # ps) \<longleftrightarrow>
     nxt (ns a) = SXE_PTR_REL l b \<and> prv (ns b) = SXE_PTR_REL l a \<and> links ns l (b # ps)"
| "links ns l ps \<longleftrightarrow> True"

text \<open>
  \<open>is_list h l xs\<close>: the heap holds at \<open>l\<close> a well formed list whose nodes are \<open>xs\<close>. The path from the
  sentinel through the nodes back to the sentinel is linked both ways, no node occurs twice or is the
  null address, every node carries the list's id and the length field counts the nodes.
\<close>

definition is_list :: "'a list_heap_scheme \<Rightarrow> addr \<Rightarrow> addr list \<Rightarrow> bool" where
  "is_list h l xs \<longleftrightarrow>
     distinct (l # xs) \<and> 0 \<notin> set (l # xs) \<and> links (nodes h) l (l # xs @ [l]) \<and>
     (\<forall>x\<in>set xs. node_id (nodes h x) = node_id (nodes h l)) \<and>
     len (hdrs h l) = of_nat (length xs)"

lemma nodes_set [heap_sel]:
  "nodes (set_nxt p v h) = (nodes h)(p := (nodes h p)\<lparr>nxt := v\<rparr>)"
  "nodes (set_prv p v h) = (nodes h)(p := (nodes h p)\<lparr>prv := v\<rparr>)"
  "nodes (set_node_id p i h) = (nodes h)(p := (nodes h p)\<lparr>node_id := i\<rparr>)"
  "nodes (set_len l n h) = nodes h"
  "nodes (set_offset l d h) = nodes h"
  by (simp_all add: set_nxt_def set_prv_def set_node_id_def set_len_def set_offset_def)

lemma hdrs_set [heap_sel]:
  "hdrs (set_nxt p v h) = hdrs h"
  "hdrs (set_prv p v h) = hdrs h"
  "hdrs (set_node_id p i h) = hdrs h"
  "hdrs (set_len l n h) = (hdrs h)(l := (hdrs h l)\<lparr>len := n\<rparr>)"
  "hdrs (set_offset l d h) = (hdrs h)(l := (hdrs h l)\<lparr>offset := d\<rparr>)"
  by (simp_all add: set_nxt_def set_prv_def set_node_id_def set_len_def set_offset_def)

lemma more_set [heap_sel]:
  "list_heap.more (set_nxt p v h) = list_heap.more h"
  "list_heap.more (set_prv p v h) = list_heap.more h"
  "list_heap.more (set_node_id p i h) = list_heap.more h"
  "list_heap.more (set_len l n h) = list_heap.more h"
  "list_heap.more (set_offset l d h) = list_heap.more h"
  by (simp_all add: set_nxt_def set_prv_def set_node_id_def set_len_def set_offset_def)

lemmas ptr_macros = NODE_PTR_FIX_def SENTINEL_PTR_REL_def NULL_REL_def

lemma links_append:
  "links ns l (ps @ a # qs) \<longleftrightarrow> links ns l (ps @ [a]) \<and> links ns l (a # qs)"
proof (induction ps)
  case Nil
  then show ?case by (cases qs) auto
next
  case (Cons p ps)
  then show ?case by (cases ps) auto
qed

text \<open>A path only reads the next pointers of all nodes but the last and the previous pointers of all
  but the first: this is the frame rule of every operation below.\<close>

lemma links_cong:
  assumes "\<And>a. a \<in> set (butlast ps) \<Longrightarrow> nxt (ns' a) = nxt (ns a)"
    and "\<And>b. b \<in> set (tl ps) \<Longrightarrow> prv (ns' b) = prv (ns b)"
  shows "links ns' l ps = links ns l ps"
  using assms
proof (induction ns l ps rule: links.induct)
  case (1 ns l a b ps)
  have "links ns' l (b # ps) = links ns l (b # ps)"
  proof (rule "1.IH")
    fix x assume "x \<in> set (butlast (b # ps))"
    then show "nxt (ns' x) = nxt (ns x)" using "1.prems"(1) by simp
  next
    fix x assume "x \<in> set (tl (b # ps))"
    then show "prv (ns' x) = prv (ns x)" using "1.prems"(2) by simp
  qed
  with 1 show ?case by simp
qed auto

lemma links_tl: "links ns l (p # ps) \<Longrightarrow> links ns l ps"
  by (cases ps) auto

lemma links_snoc2:
  "links ns l (ps @ [a, b]) \<longleftrightarrow>
     links ns l (ps @ [a]) \<and> nxt (ns a) = SXE_PTR_REL l b \<and> prv (ns b) = SXE_PTR_REL l a"
  using links_append [of ns l ps a "[b]"] by simp

lemma links_last:
  "links ns l (x # xs @ [b]) \<longleftrightarrow>
     links ns l (x # xs) \<and> nxt (ns (last (x # xs))) = SXE_PTR_REL l b \<and>
     prv (ns b) = SXE_PTR_REL l (last (x # xs))"
proof (cases xs rule: rev_cases)
  case Nil
  then show ?thesis by simp
next
  case (snoc ys y)
  then show ?thesis using links_snoc2 [of ns l "x # ys" y b] by simp
qed

lemma links_last2:
  "links ns l (x # xs @ [a, b]) \<longleftrightarrow>
     links ns l (x # xs) \<and> nxt (ns (last (x # xs))) = SXE_PTR_REL l a \<and>
     prv (ns a) = SXE_PTR_REL l (last (x # xs)) \<and>
     nxt (ns a) = SXE_PTR_REL l b \<and> prv (ns b) = SXE_PTR_REL l a"
  using links_last [of ns l x "xs @ [a]" b] links_last [of ns l x xs a] by auto

lemma links_join:
  assumes "links ns l (x # as)" and "links ns l (bs @ [b])"
    and "nxt (ns (last (x # as))) = SXE_PTR_REL l (hd (bs @ [b]))"
    and "prv (ns (hd (bs @ [b]))) = SXE_PTR_REL l (last (x # as))"
  shows "links ns l (x # (as @ bs) @ [b])"
proof -
  obtain y ys where ys: "bs @ [b] = y # ys" by (cases "bs @ [b]") auto
  have "links ns l (x # as @ [y])"
    using assms(1,3,4) ys unfolding links_last by simp
  then have "links ns l ((x # as) @ y # ys)"
    using links_append [of ns l "x # as" y ys] assms(2) ys by simp
  then show ?thesis using ys by (metis append_Cons append_assoc)
qed

lemma is_list_last:
  "is_list h l xs \<longleftrightarrow>
     distinct (l # xs) \<and> 0 \<notin> set (l # xs) \<and> links (nodes h) l (l # xs) \<and>
     HEAD h l = SXE_PTR_REL l (hd (xs @ [l])) \<and>
     TAIL h l = SXE_PTR_REL l (last (l # xs)) \<and>
     nxt (nodes h (last (l # xs))) = SXE_PTR_REL l l \<and>
     (\<forall>x\<in>set xs. node_id (nodes h x) = node_id (nodes h l)) \<and>
     len (hdrs h l) = of_nat (length xs)"
  unfolding is_list_def links_last by (cases xs) auto

section \<open>What each operation does to the list\<close>

lemma construct_is_list:
  "l \<noteq> 0 \<Longrightarrow> is_list (sxe_list_construct_impl l i off h) l []"
  by (simp add: is_list_def sxe_list_construct_impl_def heap_sel ptr_macros)

text \<open>The fields every operation leaves behind, given where the end it works on is.\<close>

lemma push_fields:
  assumes "TAIL h l = SXE_PTR_REL l t" and "node = object + offset (hdrs h l)"
    and "node \<noteq> l" and "node \<noteq> t"
  shows "nxt (nodes (sxe_list_push l object h) a) =
           (if a = t then SXE_PTR_REL l node else if a = node then SXE_PTR_REL l l else nxt (nodes h a))"
    and "prv (nodes (sxe_list_push l object h) a) =
           (if a = l then SXE_PTR_REL l node else if a = node then SXE_PTR_REL l t else prv (nodes h a))"
    and "node_id (nodes (sxe_list_push l object h) a) =
           (if a = node then node_id (nodes h l) else node_id (nodes h a))"
    and "hdrs (sxe_list_push l object h) = (hdrs h)(l := (hdrs h l)\<lparr>len := len (hdrs h l) + 1\<rparr>)"
    and "list_heap.more (sxe_list_push l object h) = list_heap.more h"
  using assms by (auto simp: sxe_list_push_def Let_def heap_sel ptr_macros)

lemma push_is_list:
  assumes "is_list h l xs" and "node = object + offset (hdrs h l)"
    and "node \<notin> set (l # xs)" and "node \<noteq> 0"
  shows "is_list (sxe_list_push l object h) l (xs @ [node])"
proof -
  let ?t = "last (l # xs)"
  let ?h = "sxe_list_push l object h"
  have inv: "distinct (l # xs)" "0 \<notin> set (l # xs)" "links (nodes h) l (l # xs)"
      "TAIL h l = SXE_PTR_REL l ?t"
      "\<forall>x\<in>set xs. node_id (nodes h x) = node_id (nodes h l)" "len (hdrs h l) = of_nat (length xs)"
    using assms(1) by (auto simp: is_list_last)
  have "?t \<in> insert l (set xs)" by (rule last_Cons_in_set)
  then have n: "node \<noteq> l" "node \<noteq> ?t" using assms(3) by auto
  note f = push_fields [OF inv(4) assms(2) n]
  have t: "?t \<notin> set (butlast (l # xs))" using inv(1) by (rule last_notin_butlast) simp
  have "links (nodes ?h) l (l # xs)"
    using inv(3)
  proof (rule links_cong [THEN iffD2, rotated 2])
    fix a assume a: "a \<in> set (butlast (l # xs))"
    then have "a \<in> set (l # xs)" by (rule in_set_butlastD)
    then show "nxt (nodes ?h a) = nxt (nodes h a)" using a t assms(3) by (auto simp: f(1))
  next
    fix b assume "b \<in> set (tl (l # xs))"
    then show "prv (nodes ?h b) = prv (nodes h b)" using inv(1) assms(3) by (auto simp: f(2))
  qed
  then have "links (nodes ?h) l (l # (xs @ [node]) @ [l])"
    using n by (simp add: links_last2 f del: links.simps)
  then show ?thesis
    using inv assms(3,4) by (auto simp: is_list_def f)
qed

lemma unshift_fields:
  assumes "HEAD h l = SXE_PTR_REL l s" and "node = object + offset (hdrs h l)"
    and "node \<noteq> l" and "node \<noteq> s"
  shows "nxt (nodes (sxe_list_unshift l object h) a) =
           (if a = l then SXE_PTR_REL l node else if a = node then SXE_PTR_REL l s else nxt (nodes h a))"
    and "prv (nodes (sxe_list_unshift l object h) a) =
           (if a = s then SXE_PTR_REL l node else if a = node then SXE_PTR_REL l l else prv (nodes h a))"
    and "node_id (nodes (sxe_list_unshift l object h) a) =
           (if a = node then node_id (nodes h l) else node_id (nodes h a))"
    and "hdrs (sxe_list_unshift l object h) = (hdrs h)(l := (hdrs h l)\<lparr>len := len (hdrs h l) + 1\<rparr>)"
    and "list_heap.more (sxe_list_unshift l object h) = list_heap.more h"
  using assms by (auto simp: sxe_list_unshift_def Let_def heap_sel ptr_macros)

lemma unshift_is_list:
  assumes "is_list h l xs" and "node = object + offset (hdrs h l)"
    and "node \<notin> set (l # xs)" and "node \<noteq> 0"
  shows "is_list (sxe_list_unshift l object h) l (node # xs)"
proof -
  let ?s = "hd (xs @ [l])"
  let ?h = "sxe_list_unshift l object h"
  have inv: "distinct (l # xs)" "0 \<notin> set (l # xs)" "links (nodes h) l (l # xs @ [l])"
      "\<forall>x\<in>set xs. node_id (nodes h x) = node_id (nodes h l)" "len (hdrs h l) = of_nat (length xs)"
    using assms(1) by (auto simp: is_list_def)
  have head: "HEAD h l = SXE_PTR_REL l ?s" using assms(1) by (simp add: is_list_last)
  have "?s \<in> insert l (set xs)" by (rule hd_snoc_in_set)
  then have n: "node \<noteq> l" "node \<noteq> ?s" using assms(3) by auto
  note f = unshift_fields [OF head assms(2) n]
  have "links (nodes h) l (xs @ [l])" using inv(3) by (cases xs) auto
  then have "links (nodes ?h) l (xs @ [l])"
  proof (rule links_cong [THEN iffD2, rotated 2])
    fix a assume "a \<in> set (butlast (xs @ [l]))"
    then show "nxt (nodes ?h a) = nxt (nodes h a)" using inv(1) assms(3) by (auto simp: f(1))
  next
    fix b assume "b \<in> set (tl (xs @ [l]))"
    then show "prv (nodes ?h b) = prv (nodes h b)"
      using inv(1) assms(3) by (cases xs) (auto simp: f(2))
  qed
  then have "links (nodes ?h) l (l # (node # xs) @ [l])"
    using n by (cases xs) (auto simp: f)
  then show ?thesis
    using inv assms(3,4) by (auto simp: is_list_def f)
qed

lemma remove_fields:
  assumes "nxt (nodes h node) = SXE_PTR_REL l s" and "prv (nodes h node) = SXE_PTR_REL l p"
    and "node = object + offset (hdrs h l)"
    and "node \<noteq> p" and "node \<noteq> s" and "sxe_list_remove l object h = Some (r, h')"
  shows "nxt (nodes h' a) =
           (if a = node then NULL_REL l else if a = p then SXE_PTR_REL l s else nxt (nodes h a))"
    and "prv (nodes h' a) =
           (if a = node then NULL_REL l else if a = s then SXE_PTR_REL l p else prv (nodes h a))"
    and "node_id (nodes h' a) = node_id (nodes h a)"
    and "hdrs h' = (hdrs h)(l := (hdrs h l)\<lparr>len := len (hdrs h l) - 1\<rparr>)"
    and "list_heap.more h' = list_heap.more h"
    and "r = object"
  using assms
  by (auto simp: sxe_list_remove_def Let_def heap_sel NODE_PTR_FIX_def bind_eq_Some_conv)

lemma is_list_neighbours:
  assumes "is_list h l (as @ node # bs)"
  shows "nxt (nodes h node) = SXE_PTR_REL l (hd (bs @ [l]))"
    and "prv (nodes h node) = SXE_PTR_REL l (last (l # as))"
    and "node \<noteq> hd (bs @ [l])" and "node \<noteq> last (l # as)"
proof -
  have L: "links (nodes h) l ((l # as) @ node # bs @ [l])" and d: "distinct (l # as @ node # bs)"
    using assms by (simp_all add: is_list_def)
  from L [THEN links_append [THEN iffD1]]
  have "links (nodes h) l (l # as @ [node])" "links (nodes h) l (node # bs @ [l])" by simp_all
  then show "nxt (nodes h node) = SXE_PTR_REL l (hd (bs @ [l]))"
    and "prv (nodes h node) = SXE_PTR_REL l (last (l # as))"
    by (cases bs, auto simp: links_last simp del: links.simps) (auto simp: links.simps)
  show "node \<noteq> hd (bs @ [l])" using d hd_snoc_in_set [of bs l] by auto
  show "node \<noteq> last (l # as)" using d last_Cons_in_set [of l as] by auto
qed

lemma remove_returns:
  assumes "is_list h l (as @ node # bs)" and "node = object + offset (hdrs h l)"
  shows "\<exists>h'. sxe_list_remove l object h = Some (object, h')"
proof -
  have l: "l \<noteq> 0" "0 \<notin> set (as @ node # bs)" "l \<notin> set (as @ node # bs)"
      "node_id (nodes h node) = node_id (nodes h l)"
    using assms(1) by (auto simp: is_list_def)
  have "hd ((as @ node # bs) @ [l]) \<in> set (as @ node # bs)" by (cases as) auto
  moreover have "last (l # as @ node # bs) \<in> set (as @ node # bs)"
    by (metis append_is_Nil_conv last_ConsR last_in_set list.distinct(1))
  ultimately have hd: "HEAD h l \<noteq> SXE_PTR_REL l l" "TAIL h l \<noteq> SXE_PTR_REL l l"
    using assms(1) l(3) unfolding is_list_last by (metis PTR_REL_inject)+
  have "nxt (nodes h node) \<noteq> NULL_REL l" "prv (nodes h node) \<noteq> NULL_REL l"
    using is_list_neighbours(1,2) [OF assms(1)] l(1,2) hd_snoc_in_set [of bs l] last_Cons_in_set [of l as]
    by (auto simp: NULL_REL_def simp del: last.simps)
  then show ?thesis
    using hd l(4) assms(2) by (simp add: sxe_list_remove_def Let_def ptr_macros)
qed


lemma remove_is_list:
  assumes "is_list h l (as @ node # bs)" and "node = object + offset (hdrs h l)"
    and "sxe_list_remove l object h = Some (r, h')"
  shows "is_list h' l (as @ bs)"
proof -
  let ?p = "last (l # as)" and ?s = "hd (bs @ [l])"
  note nb = is_list_neighbours [OF assms(1)]
  note f = remove_fields [OF nb(1,2) assms(2) nb(4,3) assms(3)]
  have inv: "distinct (l # as @ node # bs)" "0 \<notin> set (l # as @ node # bs)"
      "\<forall>x\<in>set (as @ node # bs). node_id (nodes h x) = node_id (nodes h l)"
      "len (hdrs h l) = of_nat (length (as @ node # bs))"
    using assms(1) by (auto simp: is_list_def)
  have "links (nodes h) l ((l # as) @ node # bs @ [l])" using assms(1) by (simp add: is_list_def)
  from this [THEN links_append [THEN iffD1]]
  have A: "links (nodes h) l (l # as @ [node])" and B: "links (nodes h) l (node # bs @ [l])"
    by simp_all
  have L: "links (nodes h) l (l # as)" "links (nodes h) l (bs @ [l])"
    using A [unfolded links_last] links_tl [OF B] by simp_all
  have p: "?p \<in> insert l (set as)" and s: "?s \<in> insert l (set bs)"
    by (rule last_Cons_in_set, rule hd_snoc_in_set)
  have pb: "?p \<notin> set (butlast (l # as))" using inv(1) by (intro last_notin_butlast) auto
  have "links (nodes h') l (l # as)"
    using L(1)
  proof (rule links_cong [THEN iffD2, rotated 2])
    fix a assume a: "a \<in> set (butlast (l # as))"
    then have "a \<in> set (l # as)" by (rule in_set_butlastD)
    then show "nxt (nodes h' a) = nxt (nodes h a)" using a pb inv(1) by (auto simp: f(1))
  next
    fix b assume "b \<in> set (tl (l # as))"
    then show "prv (nodes h' b) = prv (nodes h b)" using inv(1) s by (auto simp: f(2))
  qed
  moreover have "links (nodes h') l (bs @ [l])"
    using L(2)
  proof (rule links_cong [THEN iffD2, rotated 2])
    fix a assume "a \<in> set (butlast (bs @ [l]))"
    then show "nxt (nodes h' a) = nxt (nodes h a)" using p inv(1) by (auto simp: f(1))
  next
    fix b assume "b \<in> set (tl (bs @ [l]))"
    then show "prv (nodes h' b) = prv (nodes h b)" using inv(1) by (cases bs) (auto simp: f(2))
  qed
  moreover have "nxt (nodes h' ?p) = SXE_PTR_REL l ?s" "prv (nodes h' ?s) = SXE_PTR_REL l ?p"
    using nb(3,4) by (auto simp: f)
  ultimately have "links (nodes h') l (l # (as @ bs) @ [l])"
    by (rule links_join)
  then show ?thesis
    using inv by (auto simp: is_list_def f)
qed


text \<open>The frame: a list disjoint from everything an operation touches stays the same list. A list's
  nodes and its own address are all the operations on it read.\<close>

lemma is_list_frame:
  assumes "is_list h m ys" and "hdrs h' m = hdrs h m"
    and "\<And>a. a \<in> set (m # ys) \<Longrightarrow> nodes h' a = nodes h a"
  shows "is_list h' m ys"
proof -
  have "links (nodes h') m (m # ys @ [m]) = links (nodes h) m (m # ys @ [m])"
    by (rule links_cong) (auto simp: assms(3) dest!: in_set_butlastD)
  then show ?thesis using assms by (auto simp: is_list_def)
qed

lemma is_list_ends:
  assumes "is_list h l xs" and "xs \<noteq> []"
  shows "HEAD h l = SXE_PTR_REL l (hd xs)" and "TAIL h l = SXE_PTR_REL l (last xs)"
    and "prv (nodes h (hd xs)) = SXE_PTR_REL l l" and "nxt (nodes h (last xs)) = SXE_PTR_REL l l"
    and "hd xs \<noteq> l" and "last xs \<noteq> l"
    and "node_id (nodes h (hd xs)) = node_id (nodes h l)"
    and "node_id (nodes h (last xs)) = node_id (nodes h l)"
proof -
  obtain x ys where xs: "xs = x # ys" using assms(2) by (cases xs) auto
  have "l \<notin> set xs" and i: "\<And>x. x \<in> set xs \<Longrightarrow> node_id (nodes h x) = node_id (nodes h l)"
    using assms(1) by (simp_all add: is_list_def)
  moreover have m: "hd xs \<in> set xs" "last xs \<in> set xs" using assms(2) by simp_all
  ultimately show "hd xs \<noteq> l" and "last xs \<noteq> l"
    and "node_id (nodes h (hd xs)) = node_id (nodes h l)"
    and "node_id (nodes h (last xs)) = node_id (nodes h l)"
    by (metis, metis, simp_all)
  show "HEAD h l = SXE_PTR_REL l (hd xs)" and "TAIL h l = SXE_PTR_REL l (last xs)"
    and "nxt (nodes h (last xs)) = SXE_PTR_REL l l"
    using assms by (simp_all add: is_list_last)
  show "prv (nodes h (hd xs)) = SXE_PTR_REL l l"
    using assms(1) xs by (simp add: is_list_def)
qed

lemma peek_head_is_list:
  assumes "is_list h l xs"
  shows "sxe_list_peek_head l h = Some (if xs = [] then 0 else hd xs - offset (hdrs h l))"
proof (cases "xs = []")
  case True
  with assms show ?thesis by (simp add: sxe_list_peek_head_def is_list_def ptr_macros)
next
  case False
  then show ?thesis
    by (simp add: sxe_list_peek_head_def Let_def ptr_macros is_list_ends [OF assms False])
qed

lemma peek_tail_is_list:
  assumes "is_list h l xs"
  shows "sxe_list_peek_tail l h = Some (if xs = [] then 0 else last xs - offset (hdrs h l))"
proof (cases "xs = []")
  case True
  with assms show ?thesis by (simp add: sxe_list_peek_tail_def is_list_def ptr_macros)
next
  case False
  then show ?thesis
    by (simp add: sxe_list_peek_tail_def Let_def ptr_macros is_list_ends [OF assms False])
qed

lemma pop_is_list:
  assumes "is_list h l xs"
  shows "sxe_list_pop l h =
           (if xs = [] then Some (0, h) else sxe_list_remove l (last xs - offset (hdrs h l)) h)"
proof (cases "xs = []")
  case True
  with assms show ?thesis by (simp add: sxe_list_pop_def is_list_def ptr_macros)
next
  case False
  then show ?thesis by (simp add: sxe_list_pop_def ptr_macros is_list_ends [OF assms False])
qed

lemma shift_is_list:
  assumes "is_list h l xs"
  shows "sxe_list_shift l h =
           (if xs = [] then Some (0, h) else sxe_list_remove l (hd xs - offset (hdrs h l)) h)"
proof (cases "xs = []")
  case True
  with assms show ?thesis by (simp add: sxe_list_shift_def is_list_def ptr_macros)
next
  case False
  then show ?thesis by (simp add: sxe_list_shift_def ptr_macros is_list_ends [OF assms False])
qed

text \<open>The addresses an operation leaves alone.\<close>

lemma push_frame:
  assumes "is_list h l xs" and "node = object + offset (hdrs h l)" and "node \<notin> set (l # xs)"
    and "a \<notin> set (l # xs)" and "a \<noteq> node"
  shows "nodes (sxe_list_push l object h) a = nodes h a"
proof -
  have "TAIL h l = SXE_PTR_REL l (last (l # xs))" using assms(1) by (simp add: is_list_last)
  moreover have "last (l # xs) \<in> set (l # xs)" by (rule last_in_set) simp
  then have "node \<noteq> l" "node \<noteq> last (l # xs)" "a \<noteq> l" "a \<noteq> last (l # xs)"
    using assms(3,4) by (metis list.set_intros(1))+
  ultimately show ?thesis
    using push_fields(1-3) [of h l "last (l # xs)" node object a] assms(2,5)
    by (intro sxe_list_node.equality) simp_all
qed

lemma push_keeps_id:
  assumes "is_list h l xs" and "node = object + offset (hdrs h l)" and "node \<notin> set (l # xs)"
  shows "node_id (nodes (sxe_list_push l object h) a) =
    (if a = node then node_id (nodes h l) else node_id (nodes h a))"
proof -
  have "TAIL h l = SXE_PTR_REL l (last (l # xs))" using assms(1) by (simp add: is_list_last)
  moreover have "last (l # xs) \<in> set (l # xs)" by (rule last_in_set) simp
  then have "node \<noteq> l" "node \<noteq> last (l # xs)" using assms(3) by (metis list.set_intros(1))+
  ultimately show ?thesis using push_fields(3) assms(2) by blast
qed

lemma remove_frame:
  assumes "is_list h l (as @ node # bs)" and "node = object + offset (hdrs h l)"
    and "sxe_list_remove l object h = Some (r, h')" and "a \<notin> set (l # as @ node # bs)"
  shows "nodes h' a = nodes h a"
proof -
  note nb = is_list_neighbours [OF assms(1)]
  note f = remove_fields [OF nb(1,2) assms(2) nb(4,3) assms(3)]
  have "a \<noteq> node" "a \<noteq> last (l # as)" "a \<noteq> hd (bs @ [l])"
    using last_Cons_in_set [of l as] hd_snoc_in_set [of bs l] assms(4) by auto
  then show ?thesis by (intro sxe_list_node.equality) (simp_all add: f)
qed

lemma remove_keeps_id:
  assumes "sxe_list_remove l object h = Some (r, h')"
  shows "node_id (nodes h' a) = node_id (nodes h a)"
  using assms by (auto simp: sxe_list_remove_def Let_def heap_sel bind_eq_Some_conv)

section \<open>Walking a list\<close>

text \<open>The walker at a node of the list steps to the node's successor and remembers the node.\<close>

lemma walker_step_at:
  assumes "is_list h l (as @ node # bs)" and "walk_list w = l" and "walk_node w = node"
  shows "sxe_list_walker_step h w =
           (case bs of [] \<Rightarrow> 0 | b # _ \<Rightarrow> b - offset (hdrs h l),
            w\<lparr>walk_back := node, walk_node := hd (bs @ [l])\<rparr>)"
  using is_list_neighbours(1) [OF assms(1)] assms
  by (cases bs) (auto simp: sxe_list_walker_step_def is_list_def)

lemma walker_step_start:
  assumes "is_list h l xs" and "walk_list w = l" and "walk_node w = l"
  shows "sxe_list_walker_step h w =
           (case xs of [] \<Rightarrow> 0 | x # _ \<Rightarrow> x - offset (hdrs h l),
            w\<lparr>walk_back := l, walk_node := hd (xs @ [l])\<rparr>)"
  using assms by (cases xs) (auto simp: sxe_list_walker_step_def is_list_def)


section \<open>Lists of objects\<close>

text \<open>
  Clients see objects, not nodes: the node of an object lies at the list's offset inside it.
  \<open>obj_list h l obs\<close> says that the list at \<open>l\<close> holds the objects \<open>obs\<close>, head first.
\<close>

definition obj_list :: "'a list_heap_scheme \<Rightarrow> addr \<Rightarrow> addr list \<Rightarrow> bool" where
  "obj_list h l obs \<longleftrightarrow> is_list h l (map (\<lambda>ob. ob + offset (hdrs h l)) obs)"

text \<open>An object can be put on a list when its node is neither the null address nor the sentinel.\<close>

definition linkable :: "'a list_heap_scheme \<Rightarrow> addr \<Rightarrow> addr \<Rightarrow> bool" where
  "linkable h l ob \<longleftrightarrow> ob + offset (hdrs h l) \<noteq> 0 \<and> ob + offset (hdrs h l) \<noteq> l"

lemma obj_list_distinct: "obj_list h l obs \<Longrightarrow> distinct obs"
  by (auto simp: obj_list_def is_list_def distinct_map)

lemma obj_list_linkable: "obj_list h l obs \<Longrightarrow> ob \<in> set obs \<Longrightarrow> linkable h l ob"
  by (force simp: obj_list_def linkable_def is_list_def)

lemma hdrs_push [heap_sel]:
  "hdrs (sxe_list_push l ob h) = (hdrs h)(l := (hdrs h l)\<lparr>len := len (hdrs h l) + 1\<rparr>)"
  "hdrs (sxe_list_unshift l ob h) = (hdrs h)(l := (hdrs h l)\<lparr>len := len (hdrs h l) + 1\<rparr>)"
  by (simp_all add: sxe_list_push_def sxe_list_unshift_def Let_def heap_sel)

lemma hdrs_remove:
  "sxe_list_remove l ob h = Some (r, h') \<Longrightarrow>
     hdrs h' = (hdrs h)(l := (hdrs h l)\<lparr>len := len (hdrs h l) - 1\<rparr>)"
  by (auto simp: sxe_list_remove_def Let_def heap_sel bind_eq_Some_conv)

lemma linkable_push: "linkable (sxe_list_push l ob h) l = linkable h l"
  by (simp add: linkable_def heap_sel fun_eq_iff)

lemma push_obj_list:
  assumes "obj_list h l obs" and "linkable h l ob" and "ob \<notin> set obs"
  shows "obj_list (sxe_list_push l ob h) l (obs @ [ob])"
proof -
  have "ob + offset (hdrs h l) \<notin> set (l # map (\<lambda>ob. ob + offset (hdrs h l)) obs)"
    and "ob + offset (hdrs h l) \<noteq> 0"
    using assms by (auto simp: linkable_def)
  from push_is_list [OF assms(1) [unfolded obj_list_def] refl this] show ?thesis
    by (simp add: obj_list_def heap_sel)
qed

lemma unshift_obj_list:
  assumes "obj_list h l obs" and "linkable h l ob" and "ob \<notin> set obs"
  shows "obj_list (sxe_list_unshift l ob h) l (ob # obs)"
proof -
  have "ob + offset (hdrs h l) \<notin> set (l # map (\<lambda>ob. ob + offset (hdrs h l)) obs)"
    and "ob + offset (hdrs h l) \<noteq> 0"
    using assms by (auto simp: linkable_def)
  from unshift_is_list [OF assms(1) [unfolded obj_list_def] refl this] show ?thesis
    by (simp add: obj_list_def heap_sel)
qed

lemma remove_obj_list:
  assumes "obj_list h l obs" and "ob \<in> set obs"
  shows "\<exists>h'. sxe_list_remove l ob h = Some (ob, h') \<and> obj_list h' l (remove1 ob obs)"
proof -
  let ?f = "\<lambda>ob. ob + offset (hdrs h l)"
  obtain as bs where ob: "obs = as @ ob # bs" "ob \<notin> set as"
    using assms(2) by (meson split_list_first)
  then have L: "is_list h l (map ?f as @ ?f ob # map ?f bs)"
    using assms(1) by (simp add: obj_list_def)
  obtain h' where h': "sxe_list_remove l ob h = Some (ob, h')"
    using remove_returns [OF L refl] by blast
  have "is_list h' l (map ?f as @ map ?f bs)" using remove_is_list [OF L refl h'] .
  then have "obj_list h' l (remove1 ob obs)"
    using ob by (simp add: obj_list_def hdrs_remove [OF h'] remove1_middle)
  with h' show ?thesis by blast
qed

lemma shift_obj_list:
  assumes "obj_list h l (ob # obs)"
  shows "\<exists>h'. sxe_list_shift l h = Some (ob, h') \<and> obj_list h' l obs"
  using remove_obj_list [OF assms, of ob] shift_is_list [of h l] assms
  by (auto simp: obj_list_def)

lemma pop_obj_list:
  assumes "obj_list h l (obs @ [ob])"
  shows "\<exists>h'. sxe_list_pop l h = Some (ob, h') \<and> obj_list h' l obs"
proof -
  have "ob \<notin> set obs" using obj_list_distinct [OF assms] by simp
  then have "remove1 ob (obs @ [ob]) = obs" by (simp add: remove1_middle)
  then show ?thesis
    using remove_obj_list [OF assms, of ob] pop_is_list [of h l] assms by (auto simp: obj_list_def)
qed

section \<open>The interface of a double ended queue\<close>

text \<open>Taking \<open>n\<close> elements one after the other.\<close>

fun take_n :: "('h \<Rightarrow> ('e \<times> 'h) option) \<Rightarrow> nat \<Rightarrow> 'h \<Rightarrow> ('e list \<times> 'h) option" where
  "take_n f 0 h = Some ([], h)"
| "take_n f (Suc n) h = do { (x, h) \<leftarrow> f h; (xs, h) \<leftarrow> take_n f n h; Some (x # xs, h) }"

lemma take_n_snoc:
  "take_n f n h = Some (xs, h1) \<Longrightarrow> f h1 = Some (x, h2) \<Longrightarrow> take_n f (n + 1) h = Some (xs @ [x], h2)"
  by (induction n arbitrary: h xs) (auto simp: bind_eq_Some_conv)

lemma take_n_Cons:
  "f h = Some (x, h1) \<Longrightarrow> take_n f n h1 = Some (xs, h2) \<Longrightarrow> take_n f (Suc n) h = Some (x # xs, h2)"
  by simp

locale deque =
  fixes repr :: "'h \<Rightarrow> 'e list \<Rightarrow> bool"
    and ok :: "'h \<Rightarrow> 'e \<Rightarrow> bool"
    and push :: "'e \<Rightarrow> 'h \<Rightarrow> 'h"
    and unshift :: "'e \<Rightarrow> 'h \<Rightarrow> 'h"
    and shift :: "'h \<Rightarrow> ('e \<times> 'h) option"
    and pop :: "'h \<Rightarrow> ('e \<times> 'h) option"
  assumes push_repr: "repr h xs \<Longrightarrow> ok h x \<Longrightarrow> x \<notin> set xs \<Longrightarrow> repr (push x h) (xs @ [x])"
    and push_ok: "ok h y \<Longrightarrow> ok (push x h) y"
    and unshift_repr: "repr h xs \<Longrightarrow> ok h x \<Longrightarrow> x \<notin> set xs \<Longrightarrow> repr (unshift x h) (x # xs)"
    and shift_repr: "repr h (x # xs) \<Longrightarrow> \<exists>h'. shift h = Some (x, h') \<and> repr h' xs"
    and pop_repr: "repr h (xs @ [x]) \<Longrightarrow> \<exists>h'. pop h = Some (x, h') \<and> repr h' xs"
begin

lemma push_all:
  "repr h xs \<Longrightarrow> distinct (xs @ ys) \<Longrightarrow> (\<And>y. y \<in> set ys \<Longrightarrow> ok h y) \<Longrightarrow> repr (fold push ys h) (xs @ ys)"
proof (induction ys arbitrary: h xs)
  case Nil
  then show ?case by simp
next
  case (Cons y ys)
  have "repr (push y h) (xs @ [y])"
    by (rule push_repr) (use Cons.prems in auto)
  then have "repr (fold push ys (push y h)) ((xs @ [y]) @ ys)"
    by (rule Cons.IH) (use Cons.prems in \<open>auto intro: push_ok\<close>)
  then show ?case by simp
qed

lemma shift_all: "repr h xs \<Longrightarrow> \<exists>h'. take_n shift (length xs) h = Some (xs, h') \<and> repr h' []"
proof (induction xs arbitrary: h)
  case Nil
  then show ?case by simp
next
  case (Cons x xs)
  obtain h1 where h1: "shift h = Some (x, h1)" "repr h1 xs"
    using shift_repr [OF Cons.prems] by blast
  then show ?case using Cons.IH [OF h1(2)] by auto
qed

lemma pop_all: "repr h xs \<Longrightarrow> \<exists>h'. take_n pop (length xs) h = Some (rev xs, h') \<and> repr h' []"
proof (induction xs arbitrary: h rule: rev_induct)
  case Nil
  then show ?case by simp
next
  case (snoc x xs)
  obtain h1 where h1: "pop h = Some (x, h1)" "repr h1 xs"
    using pop_repr [OF snoc.prems] by blast
  then show ?case using snoc.IH [OF h1(2)] by auto
qed

lemma fifo:
  assumes "repr h []" and "distinct xs" and "\<And>x. x \<in> set xs \<Longrightarrow> ok h x"
  shows "\<exists>h'. take_n shift (length xs) (fold push xs h) = Some (xs, h') \<and> repr h' []"
  using shift_all [OF push_all [of h "[]" xs]] assms by simp

lemma lifo:
  assumes "repr h []" and "distinct xs" and "\<And>x. x \<in> set xs \<Longrightarrow> ok h x"
  shows "\<exists>h'. take_n pop (length xs) (fold push xs h) = Some (rev xs, h') \<and> repr h' []"
  using pop_all [OF push_all [of h "[]" xs]] assms by simp

end

interpretation list_deque: deque "\<lambda>h. obj_list h l" "\<lambda>h. linkable h l" "sxe_list_push l"
  "sxe_list_unshift l" "sxe_list_shift l" "sxe_list_pop l" for l
  by unfold_locales
    (auto simp: linkable_push intro: push_obj_list unshift_obj_list shift_obj_list pop_obj_list)


section \<open>Properties\<close>

text \<open>Walking from any node of a list visits the objects after it in order and then ends.\<close>

lemma walk_from:
  assumes "is_list h l (as @ node # bs)" and "walk_list w = l" and "walk_node w = node"
  shows "\<exists>w'. take_n (\<lambda>w. Some (sxe_list_walker_step h w)) (length bs + 1) w =
           Some (map (\<lambda>b. b - offset (hdrs h l)) bs @ [0], w') \<and> walk_node w' = l"
  using assms
proof (induction bs arbitrary: as node w)
  case Nil
  then show ?case by (simp add: walker_step_at)
next
  case (Cons b bs)
  let ?w = "w\<lparr>walk_back := node, walk_node := b\<rparr>"
  have step: "sxe_list_walker_step h w = (b - offset (hdrs h l), ?w)"
    using walker_step_at [OF Cons.prems] by simp
  have "is_list h l ((as @ [node]) @ b # bs)" using Cons.prems(1) by simp
  from Cons.IH [OF this, of ?w] show ?case using Cons.prems(2) step by auto
qed

lemma walk_start:
  assumes "is_list h l xs" and "walk_list w = l" and "walk_node w = l"
  shows "\<exists>w'. take_n (\<lambda>w. Some (sxe_list_walker_step h w)) (length xs + 1) w =
           Some (map (\<lambda>b. b - offset (hdrs h l)) xs @ [0], w') \<and> walk_node w' = l"
proof (cases xs)
  case Nil
  with assms show ?thesis by (simp add: walker_step_start)
next
  case (Cons x ys)
  let ?w = "w\<lparr>walk_back := l, walk_node := x\<rparr>"
  have step: "sxe_list_walker_step h w = (x - offset (hdrs h l), ?w)"
    using walker_step_start [OF assms] Cons by simp
  have "is_list h l ([] @ x # ys)" using assms(1) Cons by simp
  from walk_from [OF this, of ?w] show ?thesis using assms(2) Cons step by auto
qed

definition empty_list_heap :: list_heap where
  "empty_list_heap = \<lparr>nodes = (\<lambda>_. \<lparr>nxt = 0, prv = 0, node_id = 0\<rparr>), hdrs = (\<lambda>_. \<lparr>len = 0, offset = 0\<rparr>)\<rparr>"

text \<open>C1: first in, first out. Objects pushed onto a newly constructed list and then shifted off it
  come back in the order they were pushed, no assertion fires, and the list ends empty.\<close>

theorem sxe_list_fifo:
  assumes "l \<noteq> 0" and "distinct obs" and "\<And>ob. ob \<in> set obs \<Longrightarrow> ob + off \<noteq> 0 \<and> ob + off \<noteq> l"
  shows "\<exists>h'. take_n (sxe_list_shift l) (length obs)
             (fold (sxe_list_push l) obs (sxe_list_construct_impl l i off h)) = Some (obs, h') \<and>
           is_list h' l []"
proof -
  let ?h = "sxe_list_construct_impl l i off h"
  have "obj_list ?h l []" using construct_is_list [OF assms(1)] by (simp add: obj_list_def)
  moreover have "offset (hdrs ?h l) = off" by (simp add: sxe_list_construct_impl_def heap_sel)
  ultimately show ?thesis
    using list_deque.fifo [of ?h l obs] assms(2,3) by (auto simp: linkable_def obj_list_def)
qed

theorem sxe_list_fifo_witness:
  "\<exists>h'. take_n (sxe_list_shift 4096) (length [8192, 8256, 8224 :: addr])
     (fold (sxe_list_push 4096) [8192, 8256, 8224] (sxe_list_construct_impl 4096 7 8 empty_list_heap)) =
       Some ([8192, 8256, 8224], h') \<and> is_list h' 4096 []"
  by (rule sxe_list_fifo) auto

text \<open>A list of three nodes for the witnesses below.\<close>

definition list_of_three :: list_heap where
  "list_of_three = fold (sxe_list_push 4096) [8192, 8256, 8224]
     (sxe_list_construct_impl 4096 7 8 empty_list_heap)"

lemma list_of_three: "is_list list_of_three 4096 [8200, 8264, 8232]" "offset (hdrs list_of_three 4096) = 8"
proof -
  let ?h = "sxe_list_construct_impl 4096 7 8 empty_list_heap"
  have "obj_list ?h 4096 []" using construct_is_list [of 4096] by (simp add: obj_list_def)
  then have "obj_list list_of_three 4096 ([] @ [8192, 8256, 8224])"
    unfolding list_of_three_def
    by (rule list_deque.push_all) (auto simp: linkable_def sxe_list_construct_impl_def heap_sel)
  moreover show o: "offset (hdrs list_of_three 4096) = 8"
    by (simp add: list_of_three_def heap_sel sxe_list_construct_impl_def)
  ultimately show "is_list list_of_three 4096 [8200, 8264, 8232]" by (simp add: obj_list_def o)
qed

text \<open>C20: removing an object from anywhere in a list returns it without firing an assertion, unlinks
  exactly its node, keeps the order of the others, and leaves every list that shares no node with this
  one as it was.\<close>

theorem sxe_list_remove_correct:
  assumes "is_list h l (as @ node # bs)" and "node = object + offset (hdrs h l)"
  shows "\<exists>h'. sxe_list_remove l object h = Some (object, h') \<and> is_list h' l (as @ bs) \<and>
           (\<forall>m ys. is_list h m ys \<longrightarrow> set (m # ys) \<inter> set (l # as @ node # bs) = {} \<longrightarrow> is_list h' m ys)"
proof -
  obtain h' where h': "sxe_list_remove l object h = Some (object, h')"
    using remove_returns [OF assms] by blast
  have "is_list h' m ys"
    if m: "is_list h m ys" "set (m # ys) \<inter> set (l # as @ node # bs) = {}" for m ys
  proof (rule is_list_frame [OF m(1)])
    show "hdrs h' m = hdrs h m" using m(2) by (auto simp: hdrs_remove [OF h'])
    fix a assume "a \<in> set (m # ys)"
    then have "a \<notin> set (l # as @ node # bs)" using m(2) by blast
    then show "nodes h' a = nodes h a" by (rule remove_frame [OF assms h'])
  qed
  then show ?thesis using h' remove_is_list [OF assms h'] by blast
qed

theorem sxe_list_remove_correct_witness:
  "\<exists>h'. sxe_list_remove 4096 8256 list_of_three = Some (8256, h') \<and> is_list h' 4096 [8200, 8232]"
proof -
  have "is_list list_of_three 4096 ([8200] @ 8264 # [8232])" and "8264 = 8256 + offset (hdrs list_of_three 4096)"
    by (simp_all add: list_of_three)
  from sxe_list_remove_correct [OF this] show ?thesis by auto
qed

text \<open>A walker constructed on a list visits every object of it exactly once, head to tail, and
  then returns the null pointer.\<close>

lemma sxe_list_walk_all:
  assumes "is_list h l xs"
  shows "\<exists>w'. take_n (\<lambda>w. Some (sxe_list_walker_step h w)) (length xs + 1) (sxe_list_walker_construct l) =
           Some (map (\<lambda>b. b - offset (hdrs h l)) xs @ [0], w')"
  using walk_start [OF assms, of "sxe_list_walker_construct l"]
  by (auto simp: sxe_list_walker_construct_def)

end
