(* ===== verification/Sxe_Spinlock.thy ===== *)
theory Sxe_Spinlock
  imports Kit_Prelude
begin

text \<open>
  Model of \<^verbatim>\<open>lib-sxe-mmap/sxe-spinlock.h\<close>: a lock word that holds the thread id of its owner or 0.

  The functions are given twice. As sequential functions, a call of one thread: what the other threads
  do to the lock word while the thread yields is a parameter. As a step relation, where any number of
  threads run the same code one atomic instruction at a time in any order.
\<close>

section \<open>The calls of one thread\<close>

datatype SXE_SPINLOCK_STATUS =
    SXE_SPINLOCK_STATUS_NOT_TAKEN
  | SXE_SPINLOCK_STATUS_TAKEN
  | SXE_SPINLOCK_STATUS_ALREADY_TAKEN

text \<open>The compare and exchange gives the old value of the word and the new one.\<close>

definition InterlockedCompareExchange :: "u64 \<Rightarrow> u64 \<Rightarrow> u64 \<Rightarrow> u64 \<times> u64" where
  "InterlockedCompareExchange Destination Exchange Comperand =
     (Destination, if Destination = Comperand then Exchange else Destination)"

definition sxe_spinlock_construct :: u64 where
  "sxe_spinlock_construct = 0"

definition sxe_spinlock_force :: "u64 \<Rightarrow> u64 \<Rightarrow> u64" where
  "sxe_spinlock_force lock tid =
     (let (old, lock) = InterlockedCompareExchange lock tid tid
      in snd (InterlockedCompareExchange lock tid old))"

text \<open>\<open>yield n lock\<close> is the lock word after the other threads have run during the \<open>n\<close>th
  \<^verbatim>\<open>SXE_YIELD()\<close>.\<close>

function spinlock_loop ::
  "(u32 \<Rightarrow> u64 \<Rightarrow> u64) \<Rightarrow> u32 \<Rightarrow> u64 \<Rightarrow> u32 \<Rightarrow> u64 \<Rightarrow> SXE_SPINLOCK_STATUS \<times> u64" where
  "spinlock_loop yield count_max our_tid count lock =
     (if count < count_max
      then let (old_tid, lock) = InterlockedCompareExchange lock our_tid 0
           in if old_tid \<noteq> 0
              then if old_tid = our_tid
                   then (SXE_SPINLOCK_STATUS_ALREADY_TAKEN, lock)
                   else spinlock_loop yield count_max our_tid (count + 1) (yield count lock)
              else (SXE_SPINLOCK_STATUS_TAKEN, lock)
      else (SXE_SPINLOCK_STATUS_NOT_TAKEN, lock))"
  by pat_completeness auto
termination
  by (relation "measure (\<lambda>(yield, count_max, our_tid, count, lock). unat count_max - unat count)")
    (auto simp: unat_plus_one_less word_less_nat_alt intro: diff_less_mono2)

declare spinlock_loop.simps [simp del]

definition sxe_spinlock_take ::
  "(u32 \<Rightarrow> u64 \<Rightarrow> u64) \<Rightarrow> u32 \<Rightarrow> u64 \<Rightarrow> u64 \<Rightarrow> SXE_SPINLOCK_STATUS \<times> u64" where
  "sxe_spinlock_take yield count_max our_tid lock = spinlock_loop yield count_max our_tid 0 lock"

definition sxe_spinlock_give :: "u64 \<Rightarrow> u64 \<Rightarrow> u64 option" where
  "sxe_spinlock_give our_tid lock =
     (let (old_tid, lock) = InterlockedCompareExchange lock 0 our_tid
      in do { SXEA1 (old_tid = our_tid); Some lock })"

lemma spinlock_loop_owner:
  "spinlock_loop yield count_max our_tid count lock = (status, lock') \<Longrightarrow>
     status \<noteq> SXE_SPINLOCK_STATUS_NOT_TAKEN \<Longrightarrow> lock' = our_tid"
proof (induction yield count_max our_tid count lock rule: spinlock_loop.induct)
  case (1 yield count_max our_tid count lock)
  show ?case
  proof (cases "count < count_max \<and> lock \<noteq> 0 \<and> lock \<noteq> our_tid")
    case True
    then have "spinlock_loop yield count_max our_tid (count + 1) (yield count lock) = (status, lock')"
      using "1.prems"(1)
      by (simp add: spinlock_loop.simps [of _ _ _ count lock] InterlockedCompareExchange_def)
    then show ?thesis
      using "1.IH" True "1.prems"(2) by (simp add: InterlockedCompareExchange_def)
  next
    case False
    then show ?thesis
      using "1.prems"
      by (auto simp: spinlock_loop.simps [of _ _ _ count lock] InterlockedCompareExchange_def
          split: if_splits)
  qed
qed

lemma take_free:
  "count_max \<noteq> 0 \<Longrightarrow> sxe_spinlock_take yield count_max our_tid 0 = (SXE_SPINLOCK_STATUS_TAKEN, our_tid)"
  by (simp add: sxe_spinlock_take_def spinlock_loop.simps InterlockedCompareExchange_def
      word_neq_0_conv)

lemma take_own:
  "count_max \<noteq> 0 \<Longrightarrow> our_tid \<noteq> 0 \<Longrightarrow>
     sxe_spinlock_take yield count_max our_tid our_tid = (SXE_SPINLOCK_STATUS_ALREADY_TAKEN, our_tid)"
  by (simp add: sxe_spinlock_take_def spinlock_loop.simps InterlockedCompareExchange_def
      word_neq_0_conv)

lemma give_own [simp]: "sxe_spinlock_give our_tid our_tid = Some 0"
  by (simp add: sxe_spinlock_give_def InterlockedCompareExchange_def)

text \<open>A lock that another thread never gives up is not taken.\<close>

lemma spinlock_loop_stuck:
  assumes "other \<noteq> 0" and "other \<noteq> our_tid"
  shows "spinlock_loop (\<lambda>_ l. l) count_max our_tid count other = (SXE_SPINLOCK_STATUS_NOT_TAKEN, other)"
  using assms
proof (induction "\<lambda>(_ :: u32) (l :: u64). l" count_max our_tid count other rule: spinlock_loop.induct)
  case (1 count_max our_tid count lock)
  then show ?case
    by (simp add: spinlock_loop.simps [of _ _ _ count lock] InterlockedCompareExchange_def)
qed

section \<open>Many threads\<close>

text \<open>Where a thread is: outside the lock, about to make its next attempt, or holding the lock.\<close>

datatype lock_pc = Outside | Spinning u32 | Holding

record lock_sys =
  lock_word :: u64
  lock_pcs :: "u64 \<Rightarrow> lock_pc"

definition lock_init :: lock_sys where
  "lock_init = \<lparr>lock_word = sxe_spinlock_construct, lock_pcs = (\<lambda>_. Outside)\<rparr>"

text \<open>
  One rule per atomic action of \<^verbatim>\<open>sxe_spinlock_take\<close> and \<^verbatim>\<open>sxe_spinlock_give\<close>: the call, an attempt
  that finds the lock free, held by another thread, or held by the caller, giving up after the maximum
  number of attempts, and giving the lock back, which only happens when its assertion holds.
\<close>

inductive lock_step :: "u32 \<Rightarrow> lock_sys \<Rightarrow> lock_sys \<Rightarrow> bool" for count_max where
  call: "lock_pcs s t = Outside \<Longrightarrow> t \<noteq> 0 \<Longrightarrow>
     lock_step count_max s (s\<lparr>lock_pcs := (lock_pcs s)(t := Spinning 0)\<rparr>)"
| free: "lock_pcs s t = Spinning c \<Longrightarrow> c < count_max \<Longrightarrow>
     InterlockedCompareExchange (lock_word s) t 0 = (0, w) \<Longrightarrow>
     lock_step count_max s (s\<lparr>lock_word := w, lock_pcs := (lock_pcs s)(t := Holding)\<rparr>)"
| busy: "lock_pcs s t = Spinning c \<Longrightarrow> c < count_max \<Longrightarrow>
     InterlockedCompareExchange (lock_word s) t 0 = (old, w) \<Longrightarrow> old \<noteq> 0 \<Longrightarrow> old \<noteq> t \<Longrightarrow>
     lock_step count_max s (s\<lparr>lock_word := w, lock_pcs := (lock_pcs s)(t := Spinning (c + 1))\<rparr>)"
| again: "lock_pcs s t = Holding \<Longrightarrow> 0 < count_max \<Longrightarrow>
     InterlockedCompareExchange (lock_word s) t 0 = (t, w) \<Longrightarrow>
     lock_step count_max s (s\<lparr>lock_word := w\<rparr>)"
| quit: "lock_pcs s t = Spinning c \<Longrightarrow> \<not> c < count_max \<Longrightarrow>
     lock_step count_max s (s\<lparr>lock_pcs := (lock_pcs s)(t := Outside)\<rparr>)"
| give: "lock_pcs s t = Holding \<Longrightarrow> sxe_spinlock_give t (lock_word s) = Some w \<Longrightarrow>
     lock_step count_max s (s\<lparr>lock_word := w, lock_pcs := (lock_pcs s)(t := Outside)\<rparr>)"

inductive lock_reachable :: "u32 \<Rightarrow> lock_sys \<Rightarrow> bool" for count_max where
  start: "lock_reachable count_max lock_init"
| step: "lock_reachable count_max s \<Longrightarrow> lock_step count_max s s' \<Longrightarrow> lock_reachable count_max s'"

text \<open>The lock word names exactly the thread that holds the lock; no thread has id 0.\<close>

definition lock_inv :: "lock_sys \<Rightarrow> bool" where
  "lock_inv s \<longleftrightarrow> lock_pcs s 0 = Outside \<and> (\<forall>t. t \<noteq> 0 \<longrightarrow> (lock_pcs s t = Holding \<longleftrightarrow> lock_word s = t))"

lemma lock_inv_holder: "lock_inv s \<Longrightarrow> lock_pcs s t = Holding \<Longrightarrow> t \<noteq> 0 \<and> lock_word s = t"
  by (metis lock_inv_def lock_pc.distinct(3))

lemma lock_inv_init: "lock_inv lock_init"
  by (simp add: lock_inv_def lock_init_def sxe_spinlock_construct_def)

lemma lock_step_inv: "lock_step count_max s s' \<Longrightarrow> lock_inv s \<Longrightarrow> lock_inv s'"
proof (induction rule: lock_step.induct)
  case (give s t w)
  then have "t \<noteq> 0" "lock_word s = t" using lock_inv_holder by blast+
  then show ?case using give by (auto simp: lock_inv_def)
qed (auto simp: lock_inv_def InterlockedCompareExchange_def split: if_splits)

lemma lock_reachable_inv: "lock_reachable count_max s \<Longrightarrow> lock_inv s"
  by (induction rule: lock_reachable.induct) (blast intro: lock_inv_init lock_step_inv)+

section \<open>Properties\<close>

text \<open>C16: mutual exclusion. However the atomic instructions of any number of threads interleave, at
  most one thread holds the lock, and the thread that holds it can always give it back: the assertion
  in \<^verbatim>\<open>sxe_spinlock_give\<close> does not fire.\<close>

theorem spinlock_mutual_exclusion:
  assumes "lock_reachable count_max s" and "lock_pcs s t = Holding"
  shows "(lock_pcs s t' = Holding \<longrightarrow> t' = t) \<and> sxe_spinlock_give t (lock_word s) = Some 0"
  using lock_inv_holder [OF lock_reachable_inv [OF assms(1)]] assms(2) by auto

theorem spinlock_mutual_exclusion_witness:
  "sxe_spinlock_give 7 (lock_word (lock_init\<lparr>lock_word := 7,
       lock_pcs := ((lock_pcs lock_init)(7 := Spinning 0))(7 := Holding)\<rparr>)) = Some 0"
proof -
  let ?s1 = "lock_init\<lparr>lock_pcs := (lock_pcs lock_init)(7 := Spinning 0)\<rparr>"
  let ?s2 = "?s1\<lparr>lock_word := 7, lock_pcs := (lock_pcs ?s1)(7 := Holding)\<rparr>"
  have "lock_step 10 lock_init ?s1" by (rule lock_step.call) (simp_all add: lock_init_def)
  then have "lock_reachable 10 ?s1" by (rule lock_reachable.step [OF lock_reachable.start])
  moreover have "lock_step 10 ?s1 ?s2"
    by (rule lock_step.free [of _ _ 0])
      (simp_all add: lock_init_def sxe_spinlock_construct_def InterlockedCompareExchange_def)
  ultimately have "lock_reachable 10 ?s2" by (rule lock_reachable.step)
  from spinlock_mutual_exclusion [OF this, of 7] show ?thesis by simp
qed

end
