(* ===== verification/Sxe_Pool.thy ===== *)
theory Sxe_Pool
  imports Sxe_List Sxe_Spinlock
begin

text \<open>
  Model of \<^verbatim>\<open>lib-sxe-pool/sxe-pool.c\<close>, \<^verbatim>\<open>sxe-pool-private.h\<close> and \<^verbatim>\<open>sxe-pool-walker.c\<close>: fixed size
  arrays of elements, each of which is in one of a number of states, with a queue of elements per state.

  A pool is one block of memory: the \<^verbatim>\<open>SXE_POOL_IMPL\<close>, the array of user objects, the queue heads
  and the internal nodes. The heap of the lists is extended with the implementation structure at an
  address and the \<^verbatim>\<open>last\<close> member (time or count) of the \<^verbatim>\<open>SXE_POOL_NODE\<close> at an address; the sizes of
  the structures are those of the LP64 ABI, and \<open>timeout_list\<close> is the address of the static list
  \<^verbatim>\<open>sxe_pool_timeout_list\<close>. The calling thread (its id, the spin limit, what other
  threads do to the lock word while it yields) and the clock are the parameter \<open>env\<close>.
\<close>

section \<open>Data\<close>

definition SXE_POOL_LOCK_TAKEN :: u32 where "SXE_POOL_LOCK_TAKEN = 0"
definition SXE_POOL_NO_INDEX :: u32 where "SXE_POOL_NO_INDEX = - 1"
definition SXE_POOL_INCORRECT_STATE :: u32 where "SXE_POOL_INCORRECT_STATE = - 2"
definition SXE_POOL_LOCK_NOT_TAKEN :: u32 where "SXE_POOL_LOCK_NOT_TAKEN = - 3"
definition SXE_POOL_NAME_MAXIMUM_LENGTH :: nat where "SXE_POOL_NAME_MAXIMUM_LENGTH = 31"
definition SXE_POOL_OPTION_LOCKED :: u32 where "SXE_POOL_OPTION_LOCKED = 1"
definition SXE_POOL_OPTION_TIMED :: u32 where "SXE_POOL_OPTION_TIMED = 2"

lemmas pool_codes = SXE_POOL_LOCK_TAKEN_def SXE_POOL_NO_INDEX_def SXE_POOL_INCORRECT_STATE_def
  SXE_POOL_LOCK_NOT_TAKEN_def

definition SIZEOF_POOL_IMPL :: u64 where "SIZEOF_POOL_IMPL = 144"
definition SIZEOF_LIST :: u64 where "SIZEOF_LIST = 40"
definition SIZEOF_POOL_NODE :: u64 where "SIZEOF_POOL_NODE = 32"
definition OFFSETOF_TIMEOUT_NODE :: u64 where "OFFSETOF_TIMEOUT_NODE = 104"

lemmas pool_sizes = SIZEOF_POOL_IMPL_def SIZEOF_LIST_def SIZEOF_POOL_NODE_def

record sxe_pool_impl =
  spinlock :: u64
  pool_name :: string
  options :: u32
  number :: u32
  elem_size :: u64
  states :: u32
  nodes_rel :: addr
  queue_rel :: addr
  event_timeout :: addr
  caller_info :: addr
  state_timeouts :: "u64 list option"
  next_count :: u64
  state_to_string :: "u32 \<Rightarrow> string"

record pool_heap = list_heap +
  pools :: "addr \<Rightarrow> sxe_pool_impl"
  lasts :: "addr \<Rightarrow> u64"
  timeout_list :: addr
  timeout_count :: u32

record thread_env =
  tid :: u64
  spin_max :: u32
  yield :: "u32 \<Rightarrow> u64 \<Rightarrow> u64"
  now :: u64

definition SXE_POOL_ARRAY_TO_IMPL :: "addr \<Rightarrow> addr" where
  "SXE_POOL_ARRAY_TO_IMPL array = array - SIZEOF_POOL_IMPL"

definition SXE_POOL_IMPL_TO_ARRAY :: "addr \<Rightarrow> addr" where
  "SXE_POOL_IMPL_TO_ARRAY pool = pool + SIZEOF_POOL_IMPL"

text \<open>\<^verbatim>\<open>&SXE_POOL_NODES(pool)[i]\<close> and \<^verbatim>\<open>&SXE_POOL_QUEUE(pool)[s]\<close>.\<close>

definition SXE_POOL_NODES :: "'a pool_heap_scheme \<Rightarrow> addr \<Rightarrow> u32 \<Rightarrow> addr" where
  "SXE_POOL_NODES h pool i = SXE_PTR_FIX pool (nodes_rel (pools h pool)) + ucast i * SIZEOF_POOL_NODE"

definition SXE_POOL_QUEUE :: "'a pool_heap_scheme \<Rightarrow> addr \<Rightarrow> u32 \<Rightarrow> addr" where
  "SXE_POOL_QUEUE h pool s = SXE_PTR_FIX pool (queue_rel (pools h pool)) + ucast s * SIZEOF_LIST"

text \<open>\<^verbatim>\<open>(unsigned)(node - SXE_POOL_NODES(pool))\<close>\<close>

definition node_to_index :: "'a pool_heap_scheme \<Rightarrow> addr \<Rightarrow> addr \<Rightarrow> u32" where
  "node_to_index h pool node = ucast ((node - SXE_POOL_NODES h pool 0) div SIZEOF_POOL_NODE)"

definition set_pool ::
  "addr \<Rightarrow> (sxe_pool_impl \<Rightarrow> sxe_pool_impl) \<Rightarrow> 'a pool_heap_scheme \<Rightarrow> 'a pool_heap_scheme" where
  "set_pool pool f h = h\<lparr>pools := (pools h)(pool := f (pools h pool))\<rparr>"

definition set_last :: "addr \<Rightarrow> u64 \<Rightarrow> 'a pool_heap_scheme \<Rightarrow> 'a pool_heap_scheme" where
  "set_last node v h = h\<lparr>lasts := (lasts h)(node := v)\<rparr>"

abbreviation is_timed :: "'a pool_heap_scheme \<Rightarrow> addr \<Rightarrow> bool" where
  "is_timed h pool \<equiv> options (pools h pool) AND SXE_POOL_OPTION_TIMED \<noteq> 0"

abbreviation is_locked :: "'a pool_heap_scheme \<Rightarrow> addr \<Rightarrow> bool" where
  "is_locked h pool \<equiv> options (pools h pool) AND SXE_POOL_OPTION_LOCKED \<noteq> 0"

section \<open>Locking\<close>

definition sxe_pool_lock ::
  "thread_env \<Rightarrow> addr \<Rightarrow> 'a pool_heap_scheme \<Rightarrow> u32 \<times> 'a pool_heap_scheme" where
  "sxe_pool_lock env pool h =
     (if \<not> is_locked h pool then (SXE_POOL_LOCK_TAKEN, h)
      else let (status, lock) = sxe_spinlock_take (yield env) (spin_max env) (tid env) (spinlock (pools h pool));
               h = set_pool pool (spinlock_update (\<lambda>_. lock)) h
           in (if status \<noteq> SXE_SPINLOCK_STATUS_TAKEN then SXE_POOL_LOCK_NOT_TAKEN else SXE_POOL_LOCK_TAKEN, h))"

definition sxe_pool_unlock ::
  "thread_env \<Rightarrow> addr \<Rightarrow> 'a pool_heap_scheme \<Rightarrow> 'a pool_heap_scheme option" where
  "sxe_pool_unlock env pool h =
     (if \<not> is_locked h pool then Some h
      else do {
        lock \<leftarrow> sxe_spinlock_give (tid env) (spinlock (pools h pool));
        Some (set_pool pool (spinlock_update (\<lambda>_. lock)) h)
      })"

definition sxe_pool_override_locked :: "addr \<Rightarrow> 'a pool_heap_scheme \<Rightarrow> 'a pool_heap_scheme option" where
  "sxe_pool_override_locked array h =
     do {
       let pool = SXE_POOL_ARRAY_TO_IMPL array;
       SXEA6 (array \<noteq> 0);
       Some (if is_locked h pool
             then set_pool pool (spinlock_update (\<lambda>lock. sxe_spinlock_force lock 0)) h
             else h)
     }"

section \<open>Construction\<close>

fun decimal :: "nat \<Rightarrow> string" where
  "decimal n = (if n < 10 then [char_of (48 + n)] else decimal (n div 10) @ [char_of (48 + n mod 10)])"

declare decimal.simps [simp del]

definition sxe_pool_state_to_string :: "u32 \<Rightarrow> string" where
  "sxe_pool_state_to_string state = decimal (unat state)"

definition sxe_pool_size :: "u32 \<Rightarrow> u64 \<Rightarrow> u32 \<Rightarrow> u64" where
  "sxe_pool_size num sz sts =
     1 * SIZEOF_POOL_IMPL + ucast num * sz + ucast sts * SIZEOF_LIST + ucast num * SIZEOF_POOL_NODE"

primrec construct_queues :: "addr \<Rightarrow> nat \<Rightarrow> 'a pool_heap_scheme \<Rightarrow> 'a pool_heap_scheme" where
  "construct_queues pool 0 h = h"
| "construct_queues pool (Suc i) h =
     construct_queues pool i
       (sxe_list_construct_impl (SXE_POOL_QUEUE h pool (of_nat i)) (of_nat i) 0 h)"

primrec construct_free_list ::
  "addr \<Rightarrow> u64 \<Rightarrow> nat \<Rightarrow> 'a pool_heap_scheme \<Rightarrow> 'a pool_heap_scheme" where
  "construct_free_list pool current_time 0 h = h"
| "construct_free_list pool current_time (Suc i) h =
     (let node = SXE_POOL_NODES h pool (of_nat i);
          h = (if is_timed h pool then set_last node current_time h
               else let h = set_pool pool (next_count_update (\<lambda>c. c + 1)) h
                    in set_last node (next_count (pools h pool)) h)
      in construct_free_list pool current_time i (sxe_list_push (SXE_POOL_QUEUE h pool 0) node h))"

definition sxe_pool_construct ::
  "thread_env \<Rightarrow> addr \<Rightarrow> string \<Rightarrow> u32 \<Rightarrow> u64 \<Rightarrow> u32 \<Rightarrow> u32 \<Rightarrow> 'a pool_heap_scheme \<Rightarrow>
     addr \<times> 'a pool_heap_scheme" where
  "sxe_pool_construct env base name num sz sts opts h =
     (let pool = base;
          h = set_pool pool (\<lambda>p. p\<lparr>
                queue_rel := SIZEOF_POOL_IMPL + ucast num * sz,
                nodes_rel := SIZEOF_POOL_IMPL + ucast num * sz + ucast sts * SIZEOF_LIST,
                number := num, elem_size := sz, states := sts, options := opts,
                state_to_string := sxe_pool_state_to_string, state_timeouts := None\<rparr>) h;
          h = (if opts AND SXE_POOL_OPTION_LOCKED \<noteq> 0
               then set_pool pool (spinlock_update (\<lambda>_. sxe_spinlock_construct)) h else h);
          h = set_pool pool (pool_name_update (\<lambda>_. take SXE_POOL_NAME_MAXIMUM_LENGTH name)) h;
          h = set_pool pool (event_timeout_update (\<lambda>_. 0)) h;
          h = construct_queues pool (unat sts) h;
          h = (if opts AND SXE_POOL_OPTION_TIMED \<noteq> 0 then h
               else set_pool pool (next_count_update (\<lambda>_. 0)) h);
          h = construct_free_list pool (now env) (unat num) h
      in (SXE_POOL_IMPL_TO_ARRAY pool, h))"

definition sxe_pool_from_base :: "addr \<Rightarrow> addr" where
  "sxe_pool_from_base base = SXE_POOL_IMPL_TO_ARRAY base"

definition sxe_pool_to_base :: "addr \<Rightarrow> addr" where
  "sxe_pool_to_base array = SXE_POOL_ARRAY_TO_IMPL array"

text \<open>\<open>base\<close> is what \<^verbatim>\<open>kit_malloc\<close> returned.\<close>

definition sxe_pool_new ::
  "thread_env \<Rightarrow> addr \<Rightarrow> string \<Rightarrow> u32 \<Rightarrow> u64 \<Rightarrow> u32 \<Rightarrow> u32 \<Rightarrow> 'a pool_heap_scheme \<Rightarrow>
     (addr \<times> 'a pool_heap_scheme) option" where
  "sxe_pool_new env base name num sz sts opts h =
     do { SXEA1 (base \<noteq> 0); Some (sxe_pool_construct env base name num sz sts opts h) }"

definition sxe_pool_set_state_to_string ::
  "addr \<Rightarrow> (u32 \<Rightarrow> string) \<Rightarrow> 'a pool_heap_scheme \<Rightarrow> 'a pool_heap_scheme option" where
  "sxe_pool_set_state_to_string array f h =
     do {
       SXEA6 (array \<noteq> 0);
       Some (set_pool (SXE_POOL_ARRAY_TO_IMPL array) (state_to_string_update (\<lambda>_. f)) h)
     }"

section \<open>Queries\<close>

definition sxe_pool_get_name :: "addr \<Rightarrow> 'a pool_heap_scheme \<Rightarrow> string option" where
  "sxe_pool_get_name array h =
     do { SXEA6 (array \<noteq> 0); Some (pool_name (pools h (SXE_POOL_ARRAY_TO_IMPL array))) }"

definition sxe_pool_get_number_in_state :: "addr \<Rightarrow> u32 \<Rightarrow> 'a pool_heap_scheme \<Rightarrow> u32 option" where
  "sxe_pool_get_number_in_state array state h =
     do {
       let pool = SXE_POOL_ARRAY_TO_IMPL array;
       SXEA6 (array \<noteq> 0);
       Some (len (hdrs h (SXE_POOL_QUEUE h pool state)))
     }"

definition sxe_pool_index_to_state :: "addr \<Rightarrow> u32 \<Rightarrow> 'a pool_heap_scheme \<Rightarrow> u32 option" where
  "sxe_pool_index_to_state array i h =
     do {
       let pool = SXE_POOL_ARRAY_TO_IMPL array;
       SXEA1 (i < number (pools h pool));
       Some (node_id (nodes h (SXE_POOL_NODES h pool i)))
     }"

section \<open>Moving elements between states\<close>

definition sxe_pool_set_indexed_element_state_unlocked ::
  "thread_env \<Rightarrow> addr \<Rightarrow> u32 \<Rightarrow> u32 \<Rightarrow> u32 \<Rightarrow> bool \<Rightarrow> 'a pool_heap_scheme \<Rightarrow>
     (bool \<times> 'a pool_heap_scheme) option" where
  "sxe_pool_set_indexed_element_state_unlocked env array i old_state new_state on_incorrect_abort h =
     do {
       let pool = SXE_POOL_ARRAY_TO_IMPL array;
       SXEA6 (array \<noteq> 0);
       let node = SXE_POOL_NODES h pool i;
       if node_id (nodes h node) \<noteq> old_state
       then do { SXEA1 (\<not> on_incorrect_abort); Some (False, h) }
       else do {
         (_, h) \<leftarrow> sxe_list_remove (SXE_POOL_QUEUE h pool old_state) node h;
         let h = (if is_timed h pool then set_last node (now env) h
                  else let h = set_pool pool (next_count_update (\<lambda>c. c + 1)) h
                       in set_last node (next_count (pools h pool)) h);
         Some (True, sxe_list_push (SXE_POOL_QUEUE h pool new_state) node h)
       }
     }"

definition sxe_pool_set_indexed_element_state ::
  "thread_env \<Rightarrow> addr \<Rightarrow> u32 \<Rightarrow> u32 \<Rightarrow> u32 \<Rightarrow> 'a pool_heap_scheme \<Rightarrow>
     (u32 \<times> 'a pool_heap_scheme) option" where
  "sxe_pool_set_indexed_element_state env array i old_state new_state h =
     do {
       let pool = SXE_POOL_ARRAY_TO_IMPL array;
       SXEA6 (array \<noteq> 0);
       SXEA6 (i < number (pools h pool));
       SXEA6 (old_state \<le> states (pools h pool));
       SXEA6 (new_state \<le> states (pools h pool));
       let (result, h) = sxe_pool_lock env pool h;
       if result = SXE_POOL_LOCK_NOT_TAKEN then Some (result, h)
       else do {
         (ok, h) \<leftarrow> sxe_pool_set_indexed_element_state_unlocked env array i old_state new_state True h;
         SXEA1 ok;
         h \<leftarrow> sxe_pool_unlock env pool h;
         Some (result, h)
       }
     }"

text \<open>The in and out parameter \<^verbatim>\<open>new_state_inout\<close> is returned beside the result.\<close>

definition sxe_pool_try_to_set_indexed_element_state ::
  "thread_env \<Rightarrow> addr \<Rightarrow> u32 \<Rightarrow> u32 \<Rightarrow> u32 \<Rightarrow> 'a pool_heap_scheme \<Rightarrow>
     (u32 \<times> u32 \<times> 'a pool_heap_scheme) option" where
  "sxe_pool_try_to_set_indexed_element_state env array i old_state new_state_inout h =
     do {
       let pool = SXE_POOL_ARRAY_TO_IMPL array;
       SXEA6 (array \<noteq> 0);
       SXEA6 (i < number (pools h pool));
       SXEA6 (old_state \<le> states (pools h pool));
       SXEA6 (new_state_inout \<le> states (pools h pool));
       let (locked, h) = sxe_pool_lock env pool h;
       if locked = SXE_POOL_LOCK_NOT_TAKEN then Some (SXE_POOL_LOCK_NOT_TAKEN, new_state_inout, h)
       else do {
         (ok, h) \<leftarrow> sxe_pool_set_indexed_element_state_unlocked env array i old_state new_state_inout False h;
         (result, new_state_inout) \<leftarrow>
           (if ok then Some (i, new_state_inout)
            else do { st \<leftarrow> sxe_pool_index_to_state array i h; Some (SXE_POOL_INCORRECT_STATE, st) });
         h \<leftarrow> sxe_pool_unlock env pool h;
         Some (result, new_state_inout, h)
       }
     }"

definition sxe_pool_set_oldest_element_state ::
  "thread_env \<Rightarrow> addr \<Rightarrow> u32 \<Rightarrow> u32 \<Rightarrow> 'a pool_heap_scheme \<Rightarrow> (u32 \<times> 'a pool_heap_scheme) option" where
  "sxe_pool_set_oldest_element_state env array old_state new_state h =
     do {
       let pool = SXE_POOL_ARRAY_TO_IMPL array;
       SXEA6 (array \<noteq> 0);
       SXEA6 (old_state \<le> states (pools h pool));
       SXEA6 (new_state \<le> states (pools h pool));
       let (result, h) = sxe_pool_lock env pool h;
       if result = SXE_POOL_LOCK_NOT_TAKEN then Some (result, h)
       else do {
         node \<leftarrow> sxe_list_peek_head (SXE_POOL_QUEUE h pool old_state) h;
         (result, h) \<leftarrow>
           (if node = 0 then Some (SXE_POOL_NO_INDEX, h)
            else do {
              let result = node_to_index h pool node;
              (ok, h) \<leftarrow> sxe_pool_set_indexed_element_state_unlocked env array result old_state new_state True h;
              SXEA1 ok;
              Some (result, h)
            });
         h \<leftarrow> sxe_pool_unlock env pool h;
         Some (result, h)
       }
     }"

definition sxe_pool_touch_indexed_element ::
  "thread_env \<Rightarrow> addr \<Rightarrow> u32 \<Rightarrow> 'a pool_heap_scheme \<Rightarrow> (u32 \<times> 'a pool_heap_scheme) option" where
  "sxe_pool_touch_indexed_element env array i h =
     do {
       let pool = SXE_POOL_ARRAY_TO_IMPL array;
       SXEA6 (array \<noteq> 0);
       let (result, h) = sxe_pool_lock env pool h;
       if result = SXE_POOL_LOCK_NOT_TAKEN then Some (result, h)
       else do {
         let state = node_id (nodes h (SXE_POOL_NODES h pool i));
         (ok, h) \<leftarrow> sxe_pool_set_indexed_element_state_unlocked env array i state state True h;
         SXEA1 ok;
         h \<leftarrow> sxe_pool_unlock env pool h;
         Some (result, h)
       }
     }"

section \<open>The oldest element of a state\<close>

definition sxe_pool_get_oldest_element_index ::
  "thread_env \<Rightarrow> addr \<Rightarrow> u32 \<Rightarrow> 'a pool_heap_scheme \<Rightarrow> (u32 \<times> 'a pool_heap_scheme) option" where
  "sxe_pool_get_oldest_element_index env array state h =
     do {
       let pool = SXE_POOL_ARRAY_TO_IMPL array;
       SXEA6 (array \<noteq> 0);
       SXEA6 (state \<le> states (pools h pool));
       let (locked, h) = sxe_pool_lock env pool h;
       if locked = SXE_POOL_LOCK_NOT_TAKEN then Some (SXE_POOL_NO_INDEX, h)
       else do {
         node \<leftarrow> sxe_list_peek_head (SXE_POOL_QUEUE h pool state) h;
         let i = (if node = 0 then SXE_POOL_NO_INDEX else node_to_index h pool node);
         h \<leftarrow> sxe_pool_unlock env pool h;
         Some (i, h)
       }
     }"

definition sxe_pool_impl_get_oldest_element_time_or_count ::
  "thread_env \<Rightarrow> addr \<Rightarrow> u32 \<Rightarrow> 'a pool_heap_scheme \<Rightarrow> (u64 \<times> 'a pool_heap_scheme) option" where
  "sxe_pool_impl_get_oldest_element_time_or_count env pool state h =
     do {
       let (locked, h) = sxe_pool_lock env pool h;
       if locked = SXE_POOL_LOCK_NOT_TAKEN then Some (0, h)
       else do {
         node \<leftarrow> sxe_list_peek_head (SXE_POOL_QUEUE h pool state) h;
         let last_time = (if node = 0 then 0 else lasts h node);
         h \<leftarrow> sxe_pool_unlock env pool h;
         Some (last_time, h)
       }
     }"

definition sxe_pool_get_oldest_element_time ::
  "thread_env \<Rightarrow> addr \<Rightarrow> u32 \<Rightarrow> 'a pool_heap_scheme \<Rightarrow> (u64 \<times> 'a pool_heap_scheme) option" where
  "sxe_pool_get_oldest_element_time env array state h =
     do {
       let pool = SXE_POOL_ARRAY_TO_IMPL array;
       SXEA6 (array \<noteq> 0);
       SXEA1 (is_timed h pool);
       sxe_pool_impl_get_oldest_element_time_or_count env pool state h
     }"

definition sxe_pool_get_oldest_element_count ::
  "thread_env \<Rightarrow> addr \<Rightarrow> u32 \<Rightarrow> 'a pool_heap_scheme \<Rightarrow> (u64 \<times> 'a pool_heap_scheme) option" where
  "sxe_pool_get_oldest_element_count env array state h =
     do {
       let pool = SXE_POOL_ARRAY_TO_IMPL array;
       SXEA6 (array \<noteq> 0);
       SXEA1 (\<not> is_timed h pool);
       sxe_pool_impl_get_oldest_element_time_or_count env pool state h
     }"

definition sxe_pool_get_element_time_by_index :: "addr \<Rightarrow> u32 \<Rightarrow> 'a pool_heap_scheme \<Rightarrow> u64 option" where
  "sxe_pool_get_element_time_by_index array element h =
     do {
       let pool = SXE_POOL_ARRAY_TO_IMPL array;
       SXEA6 (array \<noteq> 0);
       SXEA1 (is_timed h pool);
       SXEA6 (element < number (pools h pool));
       Some (lasts h (SXE_POOL_NODES h pool element))
     }"

section \<open>Walking a state\<close>

record sxe_pool_walker =
  list_walker :: sxe_list_walker
  walker_pool :: addr
  walker_state :: u32
  walker_last :: u64

definition sxe_pool_walker_construct :: "addr \<Rightarrow> u32 \<Rightarrow> 'a pool_heap_scheme \<Rightarrow> sxe_pool_walker option" where
  "sxe_pool_walker_construct array state h =
     do {
       let pool = SXE_POOL_ARRAY_TO_IMPL array;
       SXEA1 (\<not> (is_locked h pool \<and> is_timed h pool));
       Some \<lparr>list_walker = sxe_list_walker_construct (SXE_POOL_QUEUE h pool state),
             walker_pool = pool, walker_state = state, walker_last = 0\<rparr>
     }"

text \<open>The loop of \<^verbatim>\<open>sxe_pool_walker_step\<close> that walks the queue again from its head; it would not end
  on a queue with a cycle that misses the sentinel.\<close>

partial_function (option) walker_rewalk ::
  "'a pool_heap_scheme \<Rightarrow> u64 \<Rightarrow> sxe_list_walker \<Rightarrow> (addr \<times> sxe_list_walker) option" where
  [code]: "walker_rewalk h since w =
     (let (node, w) = sxe_list_walker_step h w
      in if node = 0 then Some (0, w)
         else if lasts h node \<ge> since then Some (node, w)
         else walker_rewalk h since w)"

definition sxe_pool_walker_step ::
  "thread_env \<Rightarrow> sxe_pool_walker \<Rightarrow> 'a pool_heap_scheme \<Rightarrow>
     (u32 \<times> sxe_pool_walker \<times> 'a pool_heap_scheme) option" where
  "sxe_pool_walker_step env walker h =
     do {
       let pool = walker_pool walker;
       let (result, h) = sxe_pool_lock env pool h;
       if result = SXE_POOL_LOCK_NOT_TAKEN then Some (result, walker, h)
       else do {
         let node = sxe_list_walker_find h (list_walker walker);
         (node, lw) \<leftarrow>
           (if node \<noteq> 0 \<and> node_id (nodes h node) \<noteq> walker_state walker
            then let (node, lw) = sxe_list_walker_back h (list_walker walker)
                 in if node \<noteq> 0 \<and> node_id (nodes h node) = walker_state walker
                    then Some (sxe_list_walker_step h lw)
                    else walker_rewalk h (walker_last walker)
                           (sxe_list_walker_construct (SXE_POOL_QUEUE h pool (walker_state walker)))
            else Some (sxe_list_walker_step h (list_walker walker)));
         let walker = walker\<lparr>list_walker := lw\<rparr>;
         let (result, walker) =
           (if node \<noteq> 0 then (node_to_index h pool node, walker\<lparr>walker_last := lasts h node\<rparr>)
            else (SXE_POOL_NO_INDEX, walker));
         h \<leftarrow> sxe_pool_unlock env pool h;
         Some (result, walker, h)
       }
     }"

section \<open>Timeouts\<close>

text \<open>
  A timeout callback is called with the array, the index of the element and the caller's information.
  What the function at a callback address does to the heap is the parameter \<open>event\<close>.
\<close>

type_synonym 'h timeout_event = "addr \<Rightarrow> addr \<Rightarrow> u32 \<Rightarrow> addr \<Rightarrow> 'h \<Rightarrow> 'h option"

text \<open>\<open>base\<close> and \<open>timeouts_base\<close> are what the two calls of \<^verbatim>\<open>kit_malloc\<close> returned.\<close>

definition sxe_pool_new_with_timeouts ::
  "thread_env \<Rightarrow> addr \<Rightarrow> addr \<Rightarrow> string \<Rightarrow> u32 \<Rightarrow> u64 \<Rightarrow> u32 \<Rightarrow> u64 list \<Rightarrow> addr \<Rightarrow> addr \<Rightarrow>
     'a pool_heap_scheme \<Rightarrow> (addr \<times> 'a pool_heap_scheme) option" where
  "sxe_pool_new_with_timeouts env base timeouts_base name num sz sts timeouts callback info h =
     do {
       SXEA1 (callback \<noteq> 0);
       let h = (if timeout_count h = 0
                then sxe_list_construct_impl (timeout_list h) 0 OFFSETOF_TIMEOUT_NODE h else h);
       (array, h) \<leftarrow> sxe_pool_new env base name num sz sts SXE_POOL_OPTION_TIMED h;
       let pool = SXE_POOL_ARRAY_TO_IMPL array;
       let h = set_pool pool (event_timeout_update (\<lambda>_. callback)) h;
       let h = set_pool pool (caller_info_update (\<lambda>_. info)) h;
       SXEA1 (timeouts_base \<noteq> 0);
       let h = set_pool pool (state_timeouts_update (\<lambda>_. Some (take (unat sts) timeouts))) h;
       let h = sxe_list_push (timeout_list h) pool h;
       Some (array, h\<lparr>timeout_count := timeout_count h + 1\<rparr>)
     }"

text \<open>The \<^verbatim>\<open>for (;;)\<close> loop of \<^verbatim>\<open>sxe_pool_check_timeouts\<close> over the oldest elements of one state.\<close>

partial_function (option) check_state_timeout ::
  "'a pool_heap_scheme timeout_event \<Rightarrow> thread_env \<Rightarrow> u64 \<Rightarrow> addr \<Rightarrow> u32 \<Rightarrow> u64 \<Rightarrow> u32 \<Rightarrow> u64 \<Rightarrow>
     'a pool_heap_scheme \<Rightarrow> 'a pool_heap_scheme option" where
  [code]: "check_state_timeout event env time_now pool state timeout index_last time_last h =
     do {
       (i, h) \<leftarrow> sxe_pool_get_oldest_element_index env (SXE_POOL_IMPL_TO_ARRAY pool) state h;
       if i = SXE_POOL_NO_INDEX then Some h
       else do {
         (time_oldest, h) \<leftarrow> sxe_pool_get_oldest_element_time env (SXE_POOL_IMPL_TO_ARRAY pool) state h;
         SXEA1 (index_last \<noteq> i \<or> time_oldest \<noteq> time_last);
         if time_now - time_oldest < timeout then Some h
         else do {
           h \<leftarrow> event (event_timeout (pools h pool)) (SXE_POOL_IMPL_TO_ARRAY pool) i
                  (caller_info (pools h pool)) h;
           check_state_timeout event env time_now pool state timeout i time_oldest h
         }
       }
     }"

text \<open>The loop over the states of a pool, and the one over the pools with timeouts.\<close>

partial_function (option) check_pool_timeouts ::
  "'a pool_heap_scheme timeout_event \<Rightarrow> thread_env \<Rightarrow> u64 \<Rightarrow> addr \<Rightarrow> u32 \<Rightarrow>
     'a pool_heap_scheme \<Rightarrow> 'a pool_heap_scheme option" where
  [code]: "check_pool_timeouts event env time_now pool state h =
     (if state < states (pools h pool)
      then do {
        timeouts \<leftarrow> state_timeouts (pools h pool);
        if \<not> unat state < length timeouts then None
        else if timeouts ! unat state = 0 then check_pool_timeouts event env time_now pool (state + 1) h
        else do {
          h \<leftarrow> check_state_timeout event env time_now pool state (timeouts ! unat state) SXE_POOL_NO_INDEX 0 h;
          check_pool_timeouts event env time_now pool (state + 1) h
        }
      }
      else Some h)"

partial_function (option) check_pools ::
  "'a pool_heap_scheme timeout_event \<Rightarrow> thread_env \<Rightarrow> u64 \<Rightarrow> sxe_list_walker \<Rightarrow>
     'a pool_heap_scheme \<Rightarrow> 'a pool_heap_scheme option" where
  [code]: "check_pools event env time_now walker h =
     (let (pool, walker) = sxe_list_walker_step h walker
      in if pool = 0 then Some h
         else do {
           h \<leftarrow> check_pool_timeouts event env time_now pool 0 h;
           check_pools event env time_now walker h
         })"

definition sxe_pool_check_timeouts ::
  "'a pool_heap_scheme timeout_event \<Rightarrow> thread_env \<Rightarrow> 'a pool_heap_scheme \<Rightarrow> 'a pool_heap_scheme option" where
  "sxe_pool_check_timeouts event env h =
     check_pools event env (now env) (sxe_list_walker_construct (timeout_list h)) h"

text \<open>Deleting a pool; what \<^verbatim>\<open>kit_free\<close> does to the memory it is given is not part of the model.\<close>

definition sxe_pool_delete :: "addr \<Rightarrow> 'a pool_heap_scheme \<Rightarrow> 'a pool_heap_scheme option" where
  "sxe_pool_delete array h =
     do {
       let pool = SXE_POOL_ARRAY_TO_IMPL array;
       SXEA6 (array \<noteq> 0);
       if event_timeout (pools h pool) \<noteq> 0
       then do {
         (removed, h) \<leftarrow> sxe_list_remove (timeout_list h) pool h;
         SXEA1 (removed = pool);
         Some h
       }
       else Some h
     }"

end
