(* ===== verification/Sxe_Pool_Spec.thy ===== *)
theory Sxe_Pool_Spec
  imports Sxe_Pool
begin

text \<open>
  The pool's contract. Abstractly a pool is a function from states to queues of element indexes, oldest
  first, and its one operation moves an element from a state to the tail of another. \<open>pool_inv\<close> relates
  the heap to the abstract pool; every operation of \<^verbatim>\<open>sxe-pool.c\<close> is shown to implement the abstract
  one and to keep the relation, on every outcome of the lock.
\<close>

section \<open>Fields after an update\<close>

lemma pool_fields_set [heap_sel]:
  "pools (set_nxt p v h) = pools h" "lasts (set_nxt p v h) = lasts h"
  "pools (set_prv p v h) = pools h" "lasts (set_prv p v h) = lasts h"
  "pools (set_node_id p i h) = pools h" "lasts (set_node_id p i h) = lasts h"
  "pools (set_len l n h) = pools h" "lasts (set_len l n h) = lasts h"
  "pools (set_offset l d h) = pools h" "lasts (set_offset l d h) = lasts h"
  by (simp_all add: set_nxt_def set_prv_def set_node_id_def set_len_def set_offset_def)

lemma pool_fields_ops [heap_sel]:
  "pools (sxe_list_push l ob h) = pools h" "lasts (sxe_list_push l ob h) = lasts h"
  "pools (sxe_list_construct_impl l i d h) = pools h" "lasts (sxe_list_construct_impl l i d h) = lasts h"
  by (simp_all add: sxe_list_push_def sxe_list_construct_impl_def Let_def heap_sel)

lemma pool_fields_remove:
  assumes "sxe_list_remove l ob h = Some (r, h')"
  shows "pools h' = pools h" and "lasts h' = lasts h"
proof -
  have "(pools h', lasts h') = (pools h, lasts h)"
    using assms unfolding sxe_list_remove_def Let_def bind_eq_Some_conv
    by (elim exE conjE) (simp only: option.inject prod.inject, elim conjE, hypsubst, simp only: heap_sel)
  then show "pools h' = pools h" and "lasts h' = lasts h" by simp_all
qed

lemma set_pool_fields [heap_sel]:
  "nodes (set_pool p f h) = nodes h" "hdrs (set_pool p f h) = hdrs h" "lasts (set_pool p f h) = lasts h"
  "pools (set_pool p f h) = (pools h)(p := f (pools h p))"
  "nodes (set_last n v h) = nodes h" "hdrs (set_last n v h) = hdrs h" "pools (set_last n v h) = pools h"
  "lasts (set_last n v h) = (lasts h)(n := v)"
  by (simp_all add: set_pool_def set_last_def)

lemma set_pool_set_pool: "set_pool p f (set_pool p g h) = set_pool p (\<lambda>_. f (g (pools h p))) h"
  by (simp add: set_pool_def)

section \<open>The layout of a pool\<close>

text \<open>
  The relative pointers are those the constructor computes, there is a state, and the block the pool
  occupies does not wrap around the end of the address space.
\<close>

definition pool_layout :: "sxe_pool_impl \<Rightarrow> addr \<Rightarrow> bool" where
  "pool_layout P p \<longleftrightarrow>
     queue_rel P = SIZEOF_POOL_IMPL + ucast (number P) * elem_size P \<and>
     nodes_rel P = SIZEOF_POOL_IMPL + ucast (number P) * elem_size P + ucast (states P) * SIZEOF_LIST \<and>
     0 < states P \<and>
     unat p + 144 + unat (number P) * unat (elem_size P) + unat (states P) * 40 + unat (number P) * 32 < 2 ^ 64"

lemma unat_queue:
  assumes "pool_layout (pools h p) p" and "s \<le> states (pools h p)"
  shows "unat (SXE_POOL_QUEUE h p s) =
    unat p + 144 + unat (number (pools h p)) * unat (elem_size (pools h p)) + unat s * 40"
proof -
  have "unat s \<le> unat (states (pools h p))" using assms(2) by (simp add: word_le_nat_alt)
  then show ?thesis using assms(1)
    by (simp add: pool_layout_def SXE_POOL_QUEUE_def SXE_PTR_FIX_def pool_sizes unat_word_ariths)
qed

lemma unat_node:
  assumes "pool_layout (pools h p) p" and "i \<le> number (pools h p)"
  shows "unat (SXE_POOL_NODES h p i) =
    unat p + 144 + unat (number (pools h p)) * unat (elem_size (pools h p)) + unat (states (pools h p)) * 40 +
    unat i * 32"
proof -
  have "unat i \<le> unat (number (pools h p))" using assms(2) by (simp add: word_le_nat_alt)
  then show ?thesis using assms(1)
    by (simp add: pool_layout_def SXE_POOL_NODES_def SXE_PTR_FIX_def pool_sizes unat_word_ariths)
qed

lemma queue_inject:
  assumes "pool_layout (pools h p) p" and "s \<le> states (pools h p)" and "t \<le> states (pools h p)"
  shows "SXE_POOL_QUEUE h p s = SXE_POOL_QUEUE h p t \<longleftrightarrow> s = t"
proof
  assume "SXE_POOL_QUEUE h p s = SXE_POOL_QUEUE h p t"
  then have "unat s * 40 = unat t * 40" using unat_queue [OF assms(1,2)] unat_queue [OF assms(1,3)] by simp
  then show "s = t" by (simp add: word_unat_eq_iff)
qed simp

lemma node_inject:
  assumes "pool_layout (pools h p) p" and "i < number (pools h p)" and "j < number (pools h p)"
  shows "SXE_POOL_NODES h p i = SXE_POOL_NODES h p j \<longleftrightarrow> i = j"
proof
  assume "SXE_POOL_NODES h p i = SXE_POOL_NODES h p j"
  then have "unat i * 32 = unat j * 32"
    using unat_node [OF assms(1), of i] unat_node [OF assms(1), of j] assms(2,3) by simp
  then show "i = j" by (simp add: word_unat_eq_iff)
qed simp

lemma node_not_queue:
  assumes "pool_layout (pools h p) p" and "i < number (pools h p)" and "s < states (pools h p)"
  shows "SXE_POOL_NODES h p i \<noteq> SXE_POOL_QUEUE h p s"
proof
  assume "SXE_POOL_NODES h p i = SXE_POOL_QUEUE h p s"
  then have "unat (states (pools h p)) * 40 + unat i * 32 = unat s * 40"
    using unat_node [OF assms(1), of i] unat_queue [OF assms(1), of s] assms(2,3) by simp
  then show False using assms(3) by (simp add: word_less_nat_alt)
qed

lemma addr_nonzero:
  assumes "pool_layout (pools h p) p"
  shows "i \<le> number (pools h p) \<Longrightarrow> SXE_POOL_NODES h p i \<noteq> 0"
    and "s \<le> states (pools h p) \<Longrightarrow> SXE_POOL_QUEUE h p s \<noteq> 0"
    and "SXE_POOL_IMPL_TO_ARRAY p \<noteq> 0"
proof -
  show "SXE_POOL_NODES h p i \<noteq> 0" if "i \<le> number (pools h p)"
    using unat_node [OF assms that] by force
  show "SXE_POOL_QUEUE h p s \<noteq> 0" if "s \<le> states (pools h p)"
    using unat_queue [OF assms that] by force
  have "unat (SXE_POOL_IMPL_TO_ARRAY p) = unat p + 144"
    using assms by (simp add: pool_layout_def SXE_POOL_IMPL_TO_ARRAY_def pool_sizes unat_word_ariths)
  then show "SXE_POOL_IMPL_TO_ARRAY p \<noteq> 0" by force
qed

lemma ARRAY_TO_IMPL_TO_ARRAY [simp]: "SXE_POOL_ARRAY_TO_IMPL (SXE_POOL_IMPL_TO_ARRAY p) = p"
  by (simp add: SXE_POOL_ARRAY_TO_IMPL_def SXE_POOL_IMPL_TO_ARRAY_def)

lemma index_node:
  assumes "pool_layout (pools h p) p" and "i < number (pools h p)"
  shows "node_to_index h p (SXE_POOL_NODES h p i) = i"
proof -
  have "unat i * 32 < 2 ^ 64"
    using unsigned_less [of i, where 'a = nat] by simp
  moreover have "SXE_POOL_NODES h p i - SXE_POOL_NODES h p 0 = ucast i * 32"
    by (simp add: SXE_POOL_NODES_def pool_sizes)
  ultimately have "unat ((SXE_POOL_NODES h p i - SXE_POOL_NODES h p 0) div 32) = unat i"
    by (simp add: unat_div unat_word_ariths)
  then show ?thesis
    using unsigned_less [of i, where 'a = nat]
    by (simp add: word_unat_eq_iff node_to_index_def pool_sizes unsigned_ucast_eq take_bit_nat_eq_self)
qed

section \<open>The abstract pool and the invariant\<close>

type_synonym queues = "u32 \<Rightarrow> u32 list"

definition move :: "u32 \<Rightarrow> u32 \<Rightarrow> u32 \<Rightarrow> queues \<Rightarrow> queues" where
  "move i old new qs = (let qs = qs(old := remove1 i (qs old)) in qs(new := qs new @ [i]))"

abbreviation element_state :: "'a pool_heap_scheme \<Rightarrow> addr \<Rightarrow> u32 \<Rightarrow> u32" where
  "element_state h p i \<equiv> node_id (nodes h (SXE_POOL_NODES h p i))"

text \<open>The queue of a state is a well formed list of the nodes of exactly the elements in the state.\<close>

definition queue_inv :: "'a pool_heap_scheme \<Rightarrow> addr \<Rightarrow> u32 \<Rightarrow> u32 list \<Rightarrow> bool" where
  "queue_inv h p s ids \<longleftrightarrow>
     is_list h (SXE_POOL_QUEUE h p s) (map (SXE_POOL_NODES h p) ids) \<and>
     node_id (nodes h (SXE_POOL_QUEUE h p s)) = s \<and>
     offset (hdrs h (SXE_POOL_QUEUE h p s)) = 0 \<and>
     set ids = {i. i < number (pools h p) \<and> element_state h p i = s}"

definition pool_inv :: "'a pool_heap_scheme \<Rightarrow> addr \<Rightarrow> queues \<Rightarrow> bool" where
  "pool_inv h p qs \<longleftrightarrow>
     pool_layout (pools h p) p \<and>
     (\<forall>i < number (pools h p). element_state h p i < states (pools h p)) \<and>
     (\<forall>s < states (pools h p). queue_inv h p s (qs s))"

lemma pool_invD:
  assumes "pool_inv h p qs"
  shows "pool_layout (pools h p) p"
    and "i < number (pools h p) \<Longrightarrow> element_state h p i < states (pools h p)"
    and "s < states (pools h p) \<Longrightarrow> queue_inv h p s (qs s)"
  using assms by (simp_all add: pool_inv_def)

lemma queue_invD:
  assumes "queue_inv h p s ids"
  shows "is_list h (SXE_POOL_QUEUE h p s) (map (SXE_POOL_NODES h p) ids)"
    and "node_id (nodes h (SXE_POOL_QUEUE h p s)) = s"
    and "offset (hdrs h (SXE_POOL_QUEUE h p s)) = 0"
    and "distinct ids"
    and "i \<in> set ids \<longleftrightarrow> i < number (pools h p) \<and> element_state h p i = s"
proof -
  show L: "is_list h (SXE_POOL_QUEUE h p s) (map (SXE_POOL_NODES h p) ids)"
    using assms unfolding queue_inv_def by (rule conjunct1)
  have "distinct (map (SXE_POOL_NODES h p) ids)"
    using L unfolding is_list_def by (metis distinct.simps(2))
  then show "distinct ids" by (simp add: distinct_map)
  show "node_id (nodes h (SXE_POOL_QUEUE h p s)) = s"
    and "offset (hdrs h (SXE_POOL_QUEUE h p s)) = 0"
    and "i \<in> set ids \<longleftrightarrow> i < number (pools h p) \<and> element_state h p i = s"
    using assms unfolding queue_inv_def by blast+
qed

text \<open>What the queues read of a pool's implementation structure.\<close>

definition same_shape :: "sxe_pool_impl \<Rightarrow> sxe_pool_impl \<Rightarrow> bool" where
  "same_shape P Q \<longleftrightarrow>
     number P = number Q \<and> states P = states Q \<and> elem_size P = elem_size Q \<and> options P = options Q \<and>
     queue_rel P = queue_rel Q \<and> nodes_rel P = nodes_rel Q"

lemma same_shape_update [simp]:
  "same_shape (P\<lparr>spinlock := l\<rparr>) Q = same_shape P Q"
  "same_shape (P\<lparr>next_count := c\<rparr>) Q = same_shape P Q"
  "same_shape P P"
  by (simp_all add: same_shape_def)

lemma same_shape_addrs:
  assumes "same_shape (pools h' p) (pools h p)"
  shows "SXE_POOL_NODES h' p = SXE_POOL_NODES h p" and "SXE_POOL_QUEUE h' p = SXE_POOL_QUEUE h p"
    and "number (pools h' p) = number (pools h p)" and "states (pools h' p) = states (pools h p)"
    and "options (pools h' p) = options (pools h p)"
    and "pool_layout (pools h' p) p = pool_layout (pools h p) p"
  using assms
  by (auto simp: same_shape_def SXE_POOL_NODES_def SXE_POOL_QUEUE_def pool_layout_def fun_eq_iff)

lemma pool_inv_cong:
  assumes "same_shape (pools h' p) (pools h p)" and "nodes h' = nodes h" and "hdrs h' = hdrs h"
  shows "pool_inv h' p qs = pool_inv h p qs"
  using assms(2,3)
  by (simp add: pool_inv_def queue_inv_def same_shape_addrs [OF assms(1)] is_list_def)

section \<open>Moving nodes between queues\<close>

text \<open>
  Between the removal of a node and its insertion an element is in no queue, so the steps are stated for
  an invariant that allows this: the queues are well formed and share no element.
\<close>

definition queues_inv :: "'a pool_heap_scheme \<Rightarrow> addr \<Rightarrow> queues \<Rightarrow> bool" where
  "queues_inv h p qs \<longleftrightarrow>
     pool_layout (pools h p) p \<and>
     (\<forall>s < states (pools h p).
        is_list h (SXE_POOL_QUEUE h p s) (map (SXE_POOL_NODES h p) (qs s)) \<and>
        node_id (nodes h (SXE_POOL_QUEUE h p s)) = s \<and> offset (hdrs h (SXE_POOL_QUEUE h p s)) = 0 \<and>
        (\<forall>i \<in> set (qs s). i < number (pools h p) \<and> (\<forall>t < states (pools h p). i \<in> set (qs t) \<longrightarrow> t = s)))"

lemma queues_invD:
  assumes "queues_inv h p qs"
  shows "pool_layout (pools h p) p"
    and "s < states (pools h p) \<Longrightarrow> is_list h (SXE_POOL_QUEUE h p s) (map (SXE_POOL_NODES h p) (qs s))"
    and "s < states (pools h p) \<Longrightarrow> node_id (nodes h (SXE_POOL_QUEUE h p s)) = s"
    and "s < states (pools h p) \<Longrightarrow> offset (hdrs h (SXE_POOL_QUEUE h p s)) = 0"
    and "s < states (pools h p) \<Longrightarrow> i \<in> set (qs s) \<Longrightarrow> i < number (pools h p)"
    and "s < states (pools h p) \<Longrightarrow> t < states (pools h p) \<Longrightarrow> i \<in> set (qs s) \<Longrightarrow> i \<in> set (qs t) \<Longrightarrow> t = s"
  using assms unfolding queues_inv_def by blast+

lemma queues_invI:
  assumes "pool_layout (pools h p) p"
    and "\<And>s. s < states (pools h p) \<Longrightarrow> is_list h (SXE_POOL_QUEUE h p s) (map (SXE_POOL_NODES h p) (qs s))"
    and "\<And>s. s < states (pools h p) \<Longrightarrow> node_id (nodes h (SXE_POOL_QUEUE h p s)) = s"
    and "\<And>s. s < states (pools h p) \<Longrightarrow> offset (hdrs h (SXE_POOL_QUEUE h p s)) = 0"
    and "\<And>s i. s < states (pools h p) \<Longrightarrow> i \<in> set (qs s) \<Longrightarrow> i < number (pools h p)"
    and "\<And>s t i. s < states (pools h p) \<Longrightarrow> t < states (pools h p) \<Longrightarrow> i \<in> set (qs s) \<Longrightarrow>
      i \<in> set (qs t) \<Longrightarrow> t = s"
  shows "queues_inv h p qs"
  unfolding queues_inv_def using assms by blast

lemma is_list_member_id:
  "is_list h l xs \<Longrightarrow> x \<in> set xs \<Longrightarrow> node_id (nodes h x) = node_id (nodes h l)"
  unfolding is_list_def by blast

lemma is_list_distinct: "is_list h l xs \<Longrightarrow> distinct (l # xs)"
  unfolding is_list_def by blast

lemma queues_inv_of_pool_inv:
  assumes "pool_inv h p qs"
  shows "queues_inv h p qs"
proof -
  note q = queue_invD [OF pool_invD(3) [OF assms]]
  show ?thesis unfolding queues_inv_def
    by (intro conjI allI impI ballI pool_invD(1) [OF assms] q(1-3)) (auto simp: q(5))
qed

lemma pool_inv_of_queues_inv:
  assumes "queues_inv h p qs"
    and "\<And>i. i < number (pools h p) \<Longrightarrow> \<exists>s < states (pools h p). i \<in> set (qs s)"
  shows "pool_inv h p qs"
proof -
  note q = queues_invD [OF assms(1)]
  have id: "element_state h p i = s" if "s < states (pools h p)" "i \<in> set (qs s)" for s i
    using is_list_member_id [OF q(2) [OF that(1)], of "SXE_POOL_NODES h p i"] that(2) q(3) [OF that(1)]
    by simp
  have "element_state h p i < states (pools h p)" if "i < number (pools h p)" for i
    using assms(2) [OF that] id by metis
  moreover have "queue_inv h p s (qs s)" if s: "s < states (pools h p)" for s
    unfolding queue_inv_def
  proof (intro conjI q(2-4) s)
    show "set (qs s) = {i. i < number (pools h p) \<and> element_state h p i = s}"
      using q(5) [OF s] id [OF s] assms(2) id by blast
  qed
  ultimately show ?thesis using q(1) by (simp add: pool_inv_def)
qed

text \<open>The addresses of two queues and their nodes are disjoint.\<close>

lemma queue_addrs_disjoint:
  assumes "queues_inv h p qs" and "s < states (pools h p)" and "t < states (pools h p)" and "s \<noteq> t"
    and "a \<in> set (SXE_POOL_QUEUE h p s # map (SXE_POOL_NODES h p) (qs s))"
  shows "a \<notin> set (SXE_POOL_QUEUE h p t # map (SXE_POOL_NODES h p) (qs t))"
proof -
  note q = queues_invD [OF assms(1)]
  have "SXE_POOL_QUEUE h p s \<noteq> SXE_POOL_QUEUE h p t"
    using queue_inject [OF q(1)] assms(2-4) by simp
  moreover have "SXE_POOL_NODES h p i \<noteq> SXE_POOL_QUEUE h p u"
    if "i \<in> set (qs s) \<union> set (qs t)" "u < states (pools h p)" for i u
    using node_not_queue [OF q(1)] q(5) [OF assms(2)] q(5) [OF assms(3)] that by blast
  moreover have "SXE_POOL_NODES h p i \<noteq> SXE_POOL_NODES h p j" if "i \<in> set (qs s)" "j \<in> set (qs t)" for i j
  proof -
    have "i \<noteq> j" using q(6) [OF assms(2,3)] assms(4) that by blast
    then show ?thesis
      using node_inject [OF q(1)] q(5) [OF assms(2) that(1)] q(5) [OF assms(3) that(2)] by blast
  qed
  ultimately show ?thesis using assms(2,3,5) by fastforce
qed

lemma map_remove1_inj:
  "distinct xs \<Longrightarrow> x \<in> set xs \<Longrightarrow> \<exists>as bs. xs = as @ x # bs \<and> remove1 x xs = as @ bs"
  by (metis distinct.simps(2) distinct_append insert_iff list.set(2) not_distinct_conv_prefix remove1_middle split_list)

lemma remove_queues_inv:
  assumes "queues_inv h p qs" and "s < states (pools h p)" and "i \<in> set (qs s)"
  shows "\<exists>h'. sxe_list_remove (SXE_POOL_QUEUE h p s) (SXE_POOL_NODES h p i) h = Some (SXE_POOL_NODES h p i, h') \<and>
    pools h' = pools h \<and> lasts h' = lasts h \<and>
    (\<forall>a. node_id (nodes h' a) = node_id (nodes h a)) \<and>
    queues_inv h' p (qs(s := remove1 i (qs s)))"
proof -
  note q = queues_invD [OF assms(1)]
  let ?N = "SXE_POOL_NODES h p" and ?Q = "SXE_POOL_QUEUE h p"
  have "distinct (qs s)"
    using is_list_distinct [OF q(2) [OF assms(2)]] by (simp add: distinct_map)
  then obtain as bs where ab: "qs s = as @ i # bs" "remove1 i (qs s) = as @ bs"
    using map_remove1_inj assms(3) by metis
  have L: "is_list h (?Q s) (map ?N as @ ?N i # map ?N bs)" using q(2) [OF assms(2)] ab by simp
  have o: "?N i = ?N i + offset (hdrs h (?Q s))" using q(4) [OF assms(2)] by simp
  obtain h' where h': "sxe_list_remove (?Q s) (?N i) h = Some (?N i, h')"
    using remove_returns [OF L o] by blast
  note P = pool_fields_remove [OF h']
  have N: "SXE_POOL_NODES h' p = ?N" "SXE_POOL_QUEUE h' p = ?Q"
    by (rule same_shape_addrs, simp add: P)+
  have same: "is_list h' (?Q t) (map ?N (qs t))" if t: "t < states (pools h p)" "t \<noteq> s" for t
  proof (rule is_list_frame [OF q(2) [OF t(1)]])
    show "hdrs h' (?Q t) = hdrs h (?Q t)"
      using queue_inject [OF q(1), of t s] t assms(2) by (simp add: hdrs_remove [OF h'])
    fix a assume "a \<in> set (?Q t # map ?N (qs t))"
    from queue_addrs_disjoint [OF assms(1) t(1) assms(2) t(2) this]
    show "nodes h' a = nodes h a" using ab by (intro remove_frame [OF L o h']) simp
  qed
  have off: "offset (hdrs h' (?Q t)) = offset (hdrs h (?Q t))" for t
    by (simp add: hdrs_remove [OF h'])
  have "queues_inv h' p (qs(s := remove1 i (qs s)))"
  proof (rule queues_invI, unfold N P)
    show "is_list h' (?Q t) (map ?N ((qs(s := remove1 i (qs s))) t))" if "t < states (pools h p)" for t
      using same [OF that] remove_is_list [OF L o h'] ab by auto
  next
    fix t j assume t: "t < states (pools h p)" and "j \<in> set ((qs(s := remove1 i (qs s))) t)"
    then have j: "j \<in> set (qs t)" using notin_set_remove1 by (fastforce split: if_splits)
    then show "j < number (pools h p)" using q(5) t by blast
    fix u assume u: "u < states (pools h p)" and "j \<in> set ((qs(s := remove1 i (qs s))) u)"
    then have "j \<in> set (qs u)" using notin_set_remove1 by (fastforce split: if_splits)
    then show "u = t" using q(6) [OF t u j] by blast
  qed (simp_all add: q off remove_keeps_id [OF h'])
  with h' P remove_keeps_id [OF h'] show ?thesis by blast
qed

lemma push_queues_inv:
  assumes "queues_inv h p qs" and "s < states (pools h p)" and "i < number (pools h p)"
    and "\<And>t. t < states (pools h p) \<Longrightarrow> i \<notin> set (qs t)"
  defines "h' \<equiv> sxe_list_push (SXE_POOL_QUEUE h p s) (SXE_POOL_NODES h p i) h"
  shows "queues_inv h' p (qs(s := qs s @ [i]))"
proof -
  note q = queues_invD [OF assms(1)]
  let ?N = "SXE_POOL_NODES h p" and ?Q = "SXE_POOL_QUEUE h p"
  have P: "pools h' = pools h" by (simp add: h'_def heap_sel)
  have N: "SXE_POOL_NODES h' p = ?N" "SXE_POOL_QUEUE h' p = ?Q"
    by (rule same_shape_addrs, simp add: P)+
  have o: "?N i = ?N i + offset (hdrs h (?Q s))" using q(4) [OF assms(2)] by simp
  have new: "?N i \<notin> set (?Q t # map ?N (qs t))" if "t < states (pools h p)" for t
    using assms(4) [OF that] node_not_queue [OF q(1) assms(3) that] node_inject [OF q(1) assms(3)]
      q(5) [OF that] by auto
  note L = q(2) [OF assms(2)] and nz = addr_nonzero(1) [OF q(1) order_less_imp_le [OF assms(3)]]
  have same: "is_list h' (?Q t) (map ?N (qs t))" if t: "t < states (pools h p)" "t \<noteq> s" for t
  proof (rule is_list_frame [OF q(2) [OF t(1)]])
    show "hdrs h' (?Q t) = hdrs h (?Q t)"
      using queue_inject [OF q(1), of t s] t assms(2) by (simp add: h'_def heap_sel)
    fix a assume a: "a \<in> set (?Q t # map ?N (qs t))"
    then have "a \<noteq> ?N i" using new [OF t(1)] by metis
    with queue_addrs_disjoint [OF assms(1) t(1) assms(2) t(2) a]
    show "nodes h' a = nodes h a" unfolding h'_def
      using push_frame [OF L o new [OF assms(2)]] by blast
  qed
  have id: "node_id (nodes h' (?Q t)) = t" if "t < states (pools h p)" for t
    using push_keeps_id [OF L o new [OF assms(2)], of "?Q t"] node_not_queue [OF q(1) assms(3) that]
      q(3) [OF that] unfolding h'_def by simp
  have off: "offset (hdrs h' (?Q t)) = offset (hdrs h (?Q t))" for t
    by (simp add: h'_def heap_sel)
  show ?thesis
  proof (rule queues_invI, unfold N P)
    show "is_list h' (?Q t) (map ?N ((qs(s := qs s @ [i])) t))" if "t < states (pools h p)" for t
      using same [OF that] push_is_list [OF L o new [OF assms(2)] nz] by (auto simp: h'_def)
  next
    fix t j assume t: "t < states (pools h p)" and "j \<in> set ((qs(s := qs s @ [i])) t)"
    then have j: "j \<in> set (qs t) \<or> j = i \<and> t = s" by (auto split: if_splits)
    then show "j < number (pools h p)" using q(5) t assms(3) by blast
    fix u assume u: "u < states (pools h p)" and "j \<in> set ((qs(s := qs s @ [i])) u)"
    then have "j \<in> set (qs u) \<or> j = i \<and> u = s" by (auto split: if_splits)
    then show "u = t" using q(6) [OF t u] j assms(4) t u by blast
  qed (simp_all add: q off id)
qed

lemma queues_inv_cong:
  assumes "same_shape (pools h' p) (pools h p)" and "nodes h' = nodes h" and "hdrs h' = hdrs h"
  shows "queues_inv h' p qs = queues_inv h p qs"
  using assms(2,3)
  by (simp add: queues_inv_def same_shape_addrs [OF assms(1)] is_list_def)

lemma addrs_after [simp]:
  "SXE_POOL_QUEUE (set_last n v h) = SXE_POOL_QUEUE h" "SXE_POOL_NODES (set_last n v h) = SXE_POOL_NODES h"
  "SXE_POOL_QUEUE (set_pool p (next_count_update f) h) p' = SXE_POOL_QUEUE h p'"
  "SXE_POOL_NODES (set_pool p (next_count_update f) h) p' = SXE_POOL_NODES h p'"
  "SXE_POOL_QUEUE (sxe_list_push l ob h) = SXE_POOL_QUEUE h"
  "SXE_POOL_NODES (sxe_list_push l ob h) = SXE_POOL_NODES h"
  by (simp_all add: SXE_POOL_QUEUE_def SXE_POOL_NODES_def heap_sel fun_eq_iff)

text \<open>The effect of a move on the implementation structure: the insertion counter of an untimed pool.\<close>

definition bump :: "sxe_pool_impl \<Rightarrow> sxe_pool_impl" where
  "bump P = (if options P AND SXE_POOL_OPTION_TIMED \<noteq> 0 then P else P\<lparr>next_count := next_count P + 1\<rparr>)"

definition stamp :: "thread_env \<Rightarrow> sxe_pool_impl \<Rightarrow> u64" where
  "stamp env P = (if options P AND SXE_POOL_OPTION_TIMED \<noteq> 0 then now env else next_count P + 1)"

lemma bump_fields [simp]:
  "options (bump P) = options P" "number (bump P) = number P" "states (bump P) = states P"
  "spinlock (bump P) = spinlock P" "same_shape (bump P) P"
  by (simp_all add: bump_def)

lemma queues_move_covers:
  assumes "pool_inv h p qs" and "old < states (pools h p)" and "new < states (pools h p)"
    and "j < number (pools h p)"
  shows "\<exists>s < states (pools h p). j \<in> set (move i old new qs s)"
proof -
  let ?s = "element_state h p j"
  have s: "?s < states (pools h p)" using pool_invD(2) [OF assms(1,4)] .
  have j: "j \<in> set (qs ?s)" using queue_invD(5) [OF pool_invD(3) [OF assms(1) s]] assms(4) by blast
  show ?thesis
  proof (cases "j = i")
    case True
    then show ?thesis using assms(3) by (intro exI [of _ new]) (simp add: move_def)
  next
    case False
    then show ?thesis using j s by (intro exI [of _ ?s]) (auto simp: move_def Let_def in_set_remove1)
  qed
qed

lemma move_unlocked:
  assumes "pool_inv h p qs" and "i < number (pools h p)"
    and "element_state h p i = old" and "new < states (pools h p)"
  shows "\<exists>h'. sxe_pool_set_indexed_element_state_unlocked env (SXE_POOL_IMPL_TO_ARRAY p) i old new ab h =
      Some (True, h') \<and> pool_inv h' p (move i old new qs) \<and>
      pools h' = (pools h)(p := bump (pools h p)) \<and>
      lasts h' = (lasts h)(SXE_POOL_NODES h p i := stamp env (pools h p))"
proof -
  let ?N = "SXE_POOL_NODES h p" and ?Q = "SXE_POOL_QUEUE h p"
  have old: "old < states (pools h p)" using pool_invD(2) [OF assms(1,2)] assms(3) by simp
  have i: "i \<in> set (qs old)" using queue_invD(5) [OF pool_invD(3) [OF assms(1) old]] assms(2,3) by blast
  note q = queues_inv_of_pool_inv [OF assms(1)]
  obtain h1 where h1: "sxe_list_remove (?Q old) (?N i) h = Some (?N i, h1)"
      "pools h1 = pools h" "lasts h1 = lasts h" "queues_inv h1 p (qs(old := remove1 i (qs old)))"
    using remove_queues_inv [OF q old i] by blast
  define h2 where "h2 = (if is_timed h1 p then set_last (?N i) (now env) h1
      else set_last (?N i) (next_count (pools h1 p) + 1) (set_pool p (next_count_update (\<lambda>c. c + 1)) h1))"
  have h2: "nodes h2 = nodes h1" "hdrs h2 = hdrs h1" "pools h2 = (pools h)(p := bump (pools h p))"
      "lasts h2 = (lasts h)(?N i := stamp env (pools h p))"
    by (auto simp: h2_def h1 heap_sel bump_def stamp_def fun_eq_iff)
  have N: "SXE_POOL_NODES h2 p = ?N" "SXE_POOL_QUEUE h2 p = ?Q"
    by (rule same_shape_addrs, simp add: h2)+
  have q2: "queues_inv h2 p (qs(old := remove1 i (qs old)))"
    using h1(4) by (subst queues_inv_cong [of _ _ h1]) (simp_all add: h2 h1)
  let ?h = "sxe_list_push (?Q new) (?N i) h2"
  have dist: "i \<notin> set (remove1 i (qs old))"
    using queue_invD(4) [OF pool_invD(3) [OF assms(1) old]] by simp
  have "i \<notin> set ((qs(old := remove1 i (qs old))) t)" if "t < states (pools h2 p)" for t
  proof (cases "t = old")
    case False
    then have "i \<notin> set (qs t)" using that queues_invD(6) [OF q old _ i, of t] h2(3) by auto
    with False show ?thesis by simp
  qed (simp add: dist)
  then have q3: "queues_inv ?h p (move i old new qs)"
    using push_queues_inv [OF q2, of new i] assms(2,4) by (simp add: N h2 move_def Let_def)
  have "pool_inv ?h p (move i old new qs)"
    by (rule pool_inv_of_queues_inv [OF q3])
      (use queues_move_covers [OF assms(1) old assms(4)] in \<open>simp add: heap_sel h2\<close>)
  moreover have "sxe_pool_set_indexed_element_state_unlocked env (SXE_POOL_IMPL_TO_ARRAY p) i old new ab h =
      Some (True, ?h)"
  proof -
    have Q: "SXE_POOL_QUEUE h1 p = ?Q" by (rule same_shape_addrs) (simp add: h1)
    have arr: "SXE_POOL_IMPL_TO_ARRAY p \<noteq> 0" using addr_nonzero(3) [OF pool_invD(1) [OF assms(1)]] .
    show ?thesis
      by (simp add: sxe_pool_set_indexed_element_state_unlocked_def arr assms(3) h1(1) Q)
        (simp add: h2_def heap_sel Let_def Q)
  qed
  ultimately show ?thesis using h2(3,4) by (auto simp: heap_sel)
qed

section \<open>Taking and giving the lock\<close>

text \<open>Only the lock word of the pool differs.\<close>

definition only_lock :: "'a pool_heap_scheme \<Rightarrow> 'a pool_heap_scheme \<Rightarrow> addr \<Rightarrow> bool" where
  "only_lock h h' p \<longleftrightarrow> nodes h' = nodes h \<and> hdrs h' = hdrs h \<and> lasts h' = lasts h \<and>
     pools h' = (pools h)(p := (pools h p)\<lparr>spinlock := spinlock (pools h' p)\<rparr>)"

text \<open>After an operation the lock is free again. An operation only fails to get the lock when the pool
  is locked and the lock is held, or the thread may not try at all.\<close>

definition released :: "'a pool_heap_scheme \<Rightarrow> addr \<Rightarrow> bool" where
  "released h p \<longleftrightarrow> (is_locked h p \<longrightarrow> spinlock (pools h p) = 0)"

definition lock_busy :: "thread_env \<Rightarrow> 'a pool_heap_scheme \<Rightarrow> addr \<Rightarrow> bool" where
  "lock_busy env h p \<longleftrightarrow> is_locked h p \<and> (spinlock (pools h p) \<noteq> 0 \<or> spin_max env = 0)"

lemma released_not_busy: "released h p \<Longrightarrow> spin_max env \<noteq> 0 \<Longrightarrow> \<not> lock_busy env h p"
  by (auto simp: released_def lock_busy_def)

lemma only_lock_fields:
  assumes "only_lock h h' p"
  shows "same_shape (pools h' p) (pools h p)" and "bump (pools h' p) = (bump (pools h p))\<lparr>spinlock := spinlock (pools h' p)\<rparr>"
    and "stamp env (pools h' p) = stamp env (pools h p)"
    and "state_timeouts (pools h' p) = state_timeouts (pools h p)"
    and "event_timeout (pools h' p) = event_timeout (pools h p)"
    and "caller_info (pools h' p) = caller_info (pools h p)"
    and "p' \<noteq> p \<Longrightarrow> pools h' p' = pools h p'"
proof -
  have P: "pools h' p = (pools h p)\<lparr>spinlock := spinlock (pools h' p)\<rparr>"
    and o: "pools h' = (pools h)(p := (pools h p)\<lparr>spinlock := spinlock (pools h' p)\<rparr>)"
    using assms unfolding only_lock_def by (metis fun_upd_same)+
  show "same_shape (pools h' p) (pools h p)" by (subst P) simp
  show "bump (pools h' p) = (bump (pools h p))\<lparr>spinlock := spinlock (pools h' p)\<rparr>"
    by (subst P) (simp add: bump_def)
  show "stamp env (pools h' p) = stamp env (pools h p)" by (subst P) (simp add: stamp_def)
  show "state_timeouts (pools h' p) = state_timeouts (pools h p)" by (subst P) simp
  show "event_timeout (pools h' p) = event_timeout (pools h p)" by (subst P) simp
  show "caller_info (pools h' p) = caller_info (pools h p)" by (subst P) simp
  show "pools h' p' = pools h p'" if "p' \<noteq> p" using that by (subst o) simp
qed

lemma only_lock_refl [simp]: "only_lock h h p"
  by (simp add: only_lock_def)

lemma only_lock_set [simp]: "only_lock h (set_pool p (spinlock_update f) h) p"
  by (cases "pools h p") (simp add: only_lock_def heap_sel)

lemma only_lock_pool_inv:
  assumes "only_lock h h' p"
  shows "pool_inv h' p qs = pool_inv h p qs"
proof (rule pool_inv_cong [OF only_lock_fields(1) [OF assms]])
  show "nodes h' = nodes h" "hdrs h' = hdrs h" using assms by (simp_all add: only_lock_def)
qed

lemma pool_lock_cases:
  obtains (taken) h' where "sxe_pool_lock env p h = (SXE_POOL_LOCK_TAKEN, h')" and "only_lock h h' p"
      and "is_locked h p \<longrightarrow> spinlock (pools h' p) = tid env"
  | (not_taken) h' where "sxe_pool_lock env p h = (SXE_POOL_LOCK_NOT_TAKEN, h')" and "only_lock h h' p"
      and "lock_busy env h p"
proof (cases "is_locked h p")
  case False
  then show ?thesis using taken [of h] by (simp add: sxe_pool_lock_def)
next
  case True
  obtain st lock where t:
    "sxe_spinlock_take (yield env) (spin_max env) (tid env) (spinlock (pools h p)) = (st, lock)"
    by fastforce
  let ?h = "set_pool p (spinlock_update (\<lambda>_. lock)) h"
  show ?thesis
  proof (cases "st = SXE_SPINLOCK_STATUS_TAKEN")
    case st: True
    have "lock = tid env" using spinlock_loop_owner t st unfolding sxe_spinlock_take_def by blast
    then show ?thesis
      using taken [of ?h] True t st by (simp add: sxe_pool_lock_def heap_sel only_lock_def)
  next
    case False
    then have "lock_busy env h p" using True t take_free [of "spin_max env" "yield env" "tid env"] by (cases "spin_max env = 0") (auto simp: lock_busy_def)
    then show ?thesis
      using not_taken [of ?h] True False t by (simp add: sxe_pool_lock_def only_lock_def heap_sel)
  qed
qed

lemma pool_unlock_own:
  assumes "is_locked h p \<longrightarrow> spinlock (pools h p) = tid env"
  shows "\<exists>h'. sxe_pool_unlock env p h = Some h' \<and> only_lock h h' p \<and> released h' p"
  using assms by (auto simp: sxe_pool_unlock_def released_def heap_sel)

lemma taken_not_taken [simp]: "SXE_POOL_LOCK_TAKEN \<noteq> SXE_POOL_LOCK_NOT_TAKEN"
  "SXE_POOL_LOCK_NOT_TAKEN \<noteq> SXE_POOL_LOCK_TAKEN" "SXE_POOL_NO_INDEX \<noteq> SXE_POOL_LOCK_NOT_TAKEN"
  "SXE_POOL_INCORRECT_STATE \<noteq> SXE_POOL_LOCK_NOT_TAKEN"
  by (simp_all add: pool_codes)

section \<open>Every operation implements a move\<close>

text \<open>What a move leaves of the rest of the pool.\<close>

definition moved :: "thread_env \<Rightarrow> addr \<Rightarrow> u32 \<Rightarrow> 'a pool_heap_scheme \<Rightarrow> 'a pool_heap_scheme \<Rightarrow> bool" where
  "moved env p i h h' \<longleftrightarrow>
     lasts h' = (lasts h)(SXE_POOL_NODES h p i := stamp env (pools h p)) \<and>
     pools h' = (pools h)(p := (bump (pools h p))\<lparr>spinlock := spinlock (pools h' p)\<rparr>)"

lemma moved_shape:
  assumes "moved env p i h h'"
  shows "same_shape (pools h' p) (pools h p)"
proof -
  have "pools h' p = (bump (pools h p))\<lparr>spinlock := spinlock (pools h' p)\<rparr>"
    using assms unfolding moved_def by (metis fun_upd_same)
  then show ?thesis using bump_fields(5) [of "pools h p"] by (metis same_shape_update(1))
qed

lemma only_lock_moved:
  assumes "only_lock h h1 p" and "lasts h2 = (lasts h1)(SXE_POOL_NODES h1 p i := stamp env (pools h1 p))"
    and "pools h2 = (pools h1)(p := bump (pools h1 p))" and "only_lock h2 h3 p"
  shows "moved env p i h h3"
proof -
  have "pools h1 = (pools h)(p := (pools h p)\<lparr>spinlock := spinlock (pools h1 p)\<rparr>)"
    and "pools h3 = (pools h2)(p := (pools h2 p)\<lparr>spinlock := spinlock (pools h3 p)\<rparr>)"
    and "lasts h1 = lasts h" "lasts h3 = lasts h2"
    using assms(1,4) by (simp_all add: only_lock_def)
  then have "pools h3 = (pools h)(p := (bump (pools h1 p))\<lparr>spinlock := spinlock (pools h3 p)\<rparr>)"
    using assms(3) by (metis fun_upd_same fun_upd_upd)
  moreover have "\<dots> = (pools h)(p := (bump (pools h p))\<lparr>spinlock := spinlock (pools h3 p)\<rparr>)"
    by (subst only_lock_fields(2) [OF assms(1)]) simp
  ultimately show ?thesis
    using assms(2) \<open>lasts h1 = lasts h\<close> \<open>lasts h3 = lasts h2\<close>
    unfolding moved_def only_lock_fields(3) [OF assms(1)] same_shape_addrs(1) [OF only_lock_fields(1) [OF assms(1)]]
    by simp
qed

lemma locked_move:
  assumes "pool_inv h p qs" and "only_lock h h1 p"
    and "is_locked h p \<longrightarrow> spinlock (pools h1 p) = tid env"
    and "i < number (pools h p)" and "element_state h p i = old" and "new < states (pools h p)"
  shows "\<exists>h2 h3. sxe_pool_set_indexed_element_state_unlocked env (SXE_POOL_IMPL_TO_ARRAY p) i old new ab h1 =
      Some (True, h2) \<and> sxe_pool_unlock env p h2 = Some h3 \<and>
      pool_inv h3 p (move i old new qs) \<and> released h3 p \<and> moved env p i h h3"
proof -
  note sh = same_shape_addrs [OF only_lock_fields(1) [OF assms(2)]]
  have n: "nodes h1 = nodes h" using assms(2) by (simp add: only_lock_def)
  have "pool_inv h1 p qs" using assms(1) only_lock_pool_inv [OF assms(2)] by simp
  from move_unlocked [OF this, of i old new env ab]
  obtain h2 where h2: "sxe_pool_set_indexed_element_state_unlocked env (SXE_POOL_IMPL_TO_ARRAY p) i old new ab h1 =
      Some (True, h2)" "pool_inv h2 p (move i old new qs)" "pools h2 = (pools h1)(p := bump (pools h1 p))"
      "lasts h2 = (lasts h1)(SXE_POOL_NODES h1 p i := stamp env (pools h1 p))"
    using assms(4-6) by (auto simp: sh n)
  have "is_locked h2 p \<longrightarrow> spinlock (pools h2 p) = tid env" using assms(3) sh(5) by (simp add: h2(3))
  from pool_unlock_own [OF this]
  obtain h3 where h3: "sxe_pool_unlock env p h2 = Some h3" "only_lock h2 h3 p" "released h3 p" by blast
  have "pool_inv h3 p (move i old new qs)" using h2(2) only_lock_pool_inv [OF h3(2)] by simp
  moreover have "moved env p i h h3" using only_lock_moved [OF assms(2) h2(4,3) h3(2)] .
  ultimately show ?thesis using h2(1) h3 by blast
qed

lemma set_indexed_refines:
  assumes "pool_inv h p qs" and "i < number (pools h p)"
    and "element_state h p i = old" and "new < states (pools h p)"
  shows "\<exists>r h'. sxe_pool_set_indexed_element_state env (SXE_POOL_IMPL_TO_ARRAY p) i old new h = Some (r, h') \<and>
    (r = SXE_POOL_LOCK_TAKEN \<and> pool_inv h' p (move i old new qs) \<and> released h' p \<and> moved env p i h h' \<or>
     r = SXE_POOL_LOCK_NOT_TAKEN \<and> lock_busy env h p \<and> only_lock h h' p)"
proof -
  have arr: "SXE_POOL_IMPL_TO_ARRAY p \<noteq> 0" using addr_nonzero(3) [OF pool_invD(1) [OF assms(1)]] .
  have old: "old < states (pools h p)" using pool_invD(2) [OF assms(1,2)] assms(3) by simp
  note op = sxe_pool_set_indexed_element_state_def arr assms(2) order_less_imp_le [OF old]
    order_less_imp_le [OF assms(4)]
  show ?thesis
  proof (cases rule: pool_lock_cases [of env p h])
    case (taken h1)
    from locked_move [OF assms(1) taken(2,3) assms(2-4), of True]
    show ?thesis using taken(1) by (auto simp: op)
  next
    case (not_taken h1)
    then show ?thesis by (simp add: op)
  qed
qed

lemma try_to_set_refines:
  assumes "pool_inv h p qs" and "i < number (pools h p)"
    and "element_state h p i = old" and "new < states (pools h p)"
  shows "\<exists>r h'. sxe_pool_try_to_set_indexed_element_state env (SXE_POOL_IMPL_TO_ARRAY p) i old new h =
      Some (r, new, h') \<and>
    (r = i \<and> pool_inv h' p (move i old new qs) \<and> released h' p \<and> moved env p i h h' \<or>
     r = SXE_POOL_LOCK_NOT_TAKEN \<and> lock_busy env h p \<and> only_lock h h' p)"
proof -
  have arr: "SXE_POOL_IMPL_TO_ARRAY p \<noteq> 0" using addr_nonzero(3) [OF pool_invD(1) [OF assms(1)]] .
  have old: "old < states (pools h p)" using pool_invD(2) [OF assms(1,2)] assms(3) by simp
  note op = sxe_pool_try_to_set_indexed_element_state_def arr assms(2) order_less_imp_le [OF old]
    order_less_imp_le [OF assms(4)]
  show ?thesis
  proof (cases rule: pool_lock_cases [of env p h])
    case (taken h1)
    from locked_move [OF assms(1) taken(2,3) assms(2-4), of False]
    show ?thesis using taken(1) by (auto simp: op)
  next
    case (not_taken h1)
    then show ?thesis by (simp add: op)
  qed
qed

lemma only_lock_trans:
  assumes "only_lock h h1 p" and "only_lock h1 h2 p"
  shows "only_lock h h2 p"
proof -
  have "pools h1 = (pools h)(p := (pools h p)\<lparr>spinlock := spinlock (pools h1 p)\<rparr>)"
    and "pools h2 = (pools h1)(p := (pools h1 p)\<lparr>spinlock := spinlock (pools h2 p)\<rparr>)"
    using assms by (simp_all add: only_lock_def)
  then have "pools h2 = (pools h)(p := ((pools h p)\<lparr>spinlock := spinlock (pools h1 p)\<rparr>)\<lparr>spinlock := spinlock (pools h2 p)\<rparr>)"
    by (metis fun_upd_same fun_upd_upd)
  then show ?thesis using assms by (simp add: only_lock_def)
qed

lemma unlocked_incorrect:
  assumes "SXE_POOL_IMPL_TO_ARRAY p \<noteq> 0" and "element_state h p i \<noteq> old"
  shows "sxe_pool_set_indexed_element_state_unlocked env (SXE_POOL_IMPL_TO_ARRAY p) i old new ab h =
    (if ab then None else Some (False, h))"
  using assms by (simp add: sxe_pool_set_indexed_element_state_unlocked_def Let_def)

lemma try_to_set_incorrect:
  assumes "pool_inv h p qs" and "i < number (pools h p)" and "element_state h p i \<noteq> old"
    and "old \<le> states (pools h p)" and "new \<le> states (pools h p)"
  shows "\<exists>r st h'. sxe_pool_try_to_set_indexed_element_state env (SXE_POOL_IMPL_TO_ARRAY p) i old new h =
      Some (r, st, h') \<and> only_lock h h' p \<and>
    (r = SXE_POOL_INCORRECT_STATE \<and> st = element_state h p i \<and> released h' p \<or>
     r = SXE_POOL_LOCK_NOT_TAKEN \<and> st = new \<and> lock_busy env h p)"
proof -
  have arr: "SXE_POOL_IMPL_TO_ARRAY p \<noteq> 0" using addr_nonzero(3) [OF pool_invD(1) [OF assms(1)]] .
  note op = sxe_pool_try_to_set_indexed_element_state_def arr assms(2,4,5)
  show ?thesis
  proof (cases rule: pool_lock_cases [of env p h])
    case (taken h1)
    note sh = same_shape_addrs [OF only_lock_fields(1) [OF taken(2)]]
    have id: "element_state h1 p i = element_state h p i"
      using taken(2) by (simp add: sh only_lock_def)
    then have un: "sxe_pool_set_indexed_element_state_unlocked env (SXE_POOL_IMPL_TO_ARRAY p) i old new False h1 =
        Some (False, h1)"
      using unlocked_incorrect [OF arr, of h1 i old env new False] assms(3) by simp
    have st: "sxe_pool_index_to_state (SXE_POOL_IMPL_TO_ARRAY p) i h1 = Some (element_state h p i)"
      using id assms(2) by (simp add: sxe_pool_index_to_state_def sh)
    have "is_locked h1 p \<longrightarrow> spinlock (pools h1 p) = tid env" using taken(3) sh(5) by simp
    from pool_unlock_own [OF this]
    obtain h3 where h3: "sxe_pool_unlock env p h1 = Some h3" "only_lock h1 h3 p" "released h3 p" by blast
    show ?thesis
      using taken(1) h3 only_lock_trans [OF taken(2) h3(2)] by (simp add: op un st)
  next
    case (not_taken h1)
    then show ?thesis by (simp add: op)
  qed
qed

lemma touch_refines:
  assumes "pool_inv h p qs" and "i < number (pools h p)"
  shows "\<exists>r h'. sxe_pool_touch_indexed_element env (SXE_POOL_IMPL_TO_ARRAY p) i h = Some (r, h') \<and>
    (r = SXE_POOL_LOCK_TAKEN \<and> released h' p \<and> moved env p i h h' \<and>
       pool_inv h' p (move i (element_state h p i) (element_state h p i) qs) \<or>
     r = SXE_POOL_LOCK_NOT_TAKEN \<and> lock_busy env h p \<and> only_lock h h' p)"
proof -
  have arr: "SXE_POOL_IMPL_TO_ARRAY p \<noteq> 0" using addr_nonzero(3) [OF pool_invD(1) [OF assms(1)]] .
  show ?thesis
  proof (cases rule: pool_lock_cases [of env p h])
    case (taken h1)
    note sh = same_shape_addrs [OF only_lock_fields(1) [OF taken(2)]]
    have id: "element_state h1 p i = element_state h p i"
      using taken(2) by (simp add: sh only_lock_def)
    from locked_move [OF assms(1) taken(2,3) assms(2) refl pool_invD(2) [OF assms], of True]
    show ?thesis using taken(1) by (auto simp: sxe_pool_touch_indexed_element_def arr id)
  next
    case (not_taken h1)
    then show ?thesis by (simp add: sxe_pool_touch_indexed_element_def arr)
  qed
qed

text \<open>The head of a state's queue is the node of its oldest element.\<close>

lemma peek_queue:
  assumes "pool_inv h p qs" and "s < states (pools h p)"
  shows "sxe_list_peek_head (SXE_POOL_QUEUE h p s) h =
    Some (if qs s = [] then 0 else SXE_POOL_NODES h p (hd (qs s)))"
  using peek_head_is_list [OF queue_invD(1) [OF pool_invD(3) [OF assms]]]
    queue_invD(3) [OF pool_invD(3) [OF assms]] by (simp add: hd_map)

lemma oldest_facts:
  assumes "pool_inv h p qs" and "s < states (pools h p)" and "qs s \<noteq> []"
  shows "hd (qs s) < number (pools h p)" and "element_state h p (hd (qs s)) = s"
    and "SXE_POOL_NODES h p (hd (qs s)) \<noteq> 0"
    and "node_to_index h p (SXE_POOL_NODES h p (hd (qs s))) = hd (qs s)"
proof -
  have "hd (qs s) \<in> set (qs s)" using assms(3) by simp
  then show n: "hd (qs s) < number (pools h p)" and "element_state h p (hd (qs s)) = s"
    using queue_invD(5) [OF pool_invD(3) [OF assms(1,2)]] by blast+
  show "SXE_POOL_NODES h p (hd (qs s)) \<noteq> 0"
    using addr_nonzero(1) [OF pool_invD(1) [OF assms(1)] order_less_imp_le [OF n]] .
  show "node_to_index h p (SXE_POOL_NODES h p (hd (qs s))) = hd (qs s)"
    using index_node [OF pool_invD(1) [OF assms(1)] n] .
qed

lemma set_oldest_refines:
  assumes "pool_inv h p qs" and "old < states (pools h p)" and "new < states (pools h p)"
  shows "\<exists>r h'. sxe_pool_set_oldest_element_state env (SXE_POOL_IMPL_TO_ARRAY p) old new h = Some (r, h') \<and>
    (qs old \<noteq> [] \<and> r = hd (qs old) \<and> pool_inv h' p (move r old new qs) \<and> released h' p \<and> moved env p r h h' \<or>
     qs old = [] \<and> r = SXE_POOL_NO_INDEX \<and> only_lock h h' p \<and> released h' p \<or>
     r = SXE_POOL_LOCK_NOT_TAKEN \<and> lock_busy env h p \<and> only_lock h h' p)"
proof -
  have arr: "SXE_POOL_IMPL_TO_ARRAY p \<noteq> 0" using addr_nonzero(3) [OF pool_invD(1) [OF assms(1)]] .
  note op = sxe_pool_set_oldest_element_state_def arr order_less_imp_le [OF assms(2)]
    order_less_imp_le [OF assms(3)]
  show ?thesis
  proof (cases rule: pool_lock_cases [of env p h])
    case (taken h1)
    note sh = same_shape_addrs [OF only_lock_fields(1) [OF taken(2)]]
    have inv1: "pool_inv h1 p qs" using assms(1) only_lock_pool_inv [OF taken(2)] by simp
    have peek: "sxe_list_peek_head (SXE_POOL_QUEUE h1 p old) h1 =
        Some (if qs old = [] then 0 else SXE_POOL_NODES h1 p (hd (qs old)))"
      using peek_queue [OF inv1] assms(2) by (simp add: sh)
    show ?thesis
    proof (cases "qs old = []")
      case True
      have "is_locked h1 p \<longrightarrow> spinlock (pools h1 p) = tid env" using taken(3) sh(5) by simp
      from pool_unlock_own [OF this]
      obtain h3 where h3: "sxe_pool_unlock env p h1 = Some h3" "only_lock h1 h3 p" "released h3 p" by blast
      then show ?thesis
        using taken(1) True only_lock_trans [OF taken(2) h3(2)] by (simp add: op peek)
    next
      case False
      note o = oldest_facts [OF assms(1,2) False]
      have o1: "SXE_POOL_NODES h1 p (hd (qs old)) \<noteq> 0"
        "node_to_index h1 p (SXE_POOL_NODES h1 p (hd (qs old))) = hd (qs old)"
        using oldest_facts(3,4) [OF inv1 _ False] assms(2) by (simp_all add: sh)
      from locked_move [OF assms(1) taken(2,3) o(1,2) assms(3), of True]
      show ?thesis using taken(1) False by (auto simp: op peek o1)
    qed
  next
    case (not_taken h1)
    then show ?thesis by (simp add: op)
  qed
qed

section \<open>A new pool\<close>

lemma construct_fields:
  "a \<noteq> l \<Longrightarrow> nodes (sxe_list_construct_impl l i d h) a = nodes h a"
  "a \<noteq> l \<Longrightarrow> hdrs (sxe_list_construct_impl l i d h) a = hdrs h a"
  "node_id (nodes (sxe_list_construct_impl l i d h) l) = i"
  "offset (hdrs (sxe_list_construct_impl l i d h) l) = d"
  by (simp_all add: sxe_list_construct_impl_def Let_def heap_sel)

lemma addrs_after_construct [simp]:
  "SXE_POOL_QUEUE (sxe_list_construct_impl l i d h) = SXE_POOL_QUEUE h"
  "SXE_POOL_NODES (sxe_list_construct_impl l i d h) = SXE_POOL_NODES h"
  by (simp_all add: SXE_POOL_QUEUE_def SXE_POOL_NODES_def heap_sel fun_eq_iff)

lemma construct_queues_fields [heap_sel]:
  "pools (construct_queues p n h) = pools h" "lasts (construct_queues p n h) = lasts h"
  by (induction n arbitrary: h) (simp_all add: heap_sel)

lemma addrs_after_queues [simp]:
  "SXE_POOL_QUEUE (construct_queues p n h) = SXE_POOL_QUEUE h"
  "SXE_POOL_NODES (construct_queues p n h) = SXE_POOL_NODES h"
  by (simp_all add: SXE_POOL_QUEUE_def SXE_POOL_NODES_def heap_sel fun_eq_iff)

lemma construct_queues_frame:
  assumes "pool_layout (pools h p) p" and "n \<le> unat s" and "unat (s :: u32) \<le> unat (states (pools h p))"
  shows "nodes (construct_queues p n h) (SXE_POOL_QUEUE h p s) = nodes h (SXE_POOL_QUEUE h p s) \<and>
    hdrs (construct_queues p n h) (SXE_POOL_QUEUE h p s) = hdrs h (SXE_POOL_QUEUE h p s)"
  using assms
proof (induction n arbitrary: h)
  case (Suc n)
  have n: "unat (of_nat n :: u32) = n" using Suc.prems(2) unsigned_less [of s, where 'a = nat]
    by (simp add: unat_of_nat)
  let ?h = "sxe_list_construct_impl (SXE_POOL_QUEUE h p (of_nat n)) (of_nat n) 0 h"
  have "of_nat n \<noteq> s" using n Suc.prems(2) by auto
  then have "SXE_POOL_QUEUE h p s \<noteq> SXE_POOL_QUEUE h p (of_nat n)"
    using queue_inject [OF Suc.prems(1), of s "of_nat n"] Suc.prems(2,3) n by (auto simp: word_le_nat_alt)
  with Suc.IH [of ?h] Suc.prems show ?case by (simp add: heap_sel construct_fields)
qed simp

lemma construct_queues_lists:
  assumes "pool_layout (pools h p) p" and "unat s < n" and "n \<le> unat (states (pools h p))"
  shows "is_list (construct_queues p n h) (SXE_POOL_QUEUE h p s) []"
    and "node_id (nodes (construct_queues p n h) (SXE_POOL_QUEUE h p s)) = s"
    and "offset (hdrs (construct_queues p n h) (SXE_POOL_QUEUE h p s)) = 0"
proof -
  have "is_list (construct_queues p n h) (SXE_POOL_QUEUE h p s) [] \<and>
    node_id (nodes (construct_queues p n h) (SXE_POOL_QUEUE h p s)) = s \<and>
    offset (hdrs (construct_queues p n h) (SXE_POOL_QUEUE h p s)) = 0"
    using assms
  proof (induction n arbitrary: h)
    case (Suc n)
    let ?h = "sxe_list_construct_impl (SXE_POOL_QUEUE h p (of_nat n)) (of_nat n) 0 h"
    have n: "unat (of_nat n :: u32) = n"
      using Suc.prems(3) unsigned_less [of "states (pools h p)", where 'a = nat] by (simp add: unat_of_nat)
    show ?case
    proof (cases "unat s = n")
      case False
      then show ?thesis using Suc.IH [of ?h] Suc.prems by (simp add: heap_sel)
    next
      case True
      then have s: "s = of_nat n" using n by (simp add: word_unat_eq_iff)
      have f: "nodes (construct_queues p n ?h) (SXE_POOL_QUEUE h p s) = nodes ?h (SXE_POOL_QUEUE h p s)"
        "hdrs (construct_queues p n ?h) (SXE_POOL_QUEUE h p s) = hdrs ?h (SXE_POOL_QUEUE h p s)"
        using construct_queues_frame [of ?h p n s] Suc.prems True by (simp_all add: heap_sel)
      have nz: "SXE_POOL_QUEUE h p s \<noteq> 0"
        using addr_nonzero(2) [OF Suc.prems(1)] Suc.prems(2,3) by (simp add: word_le_nat_alt)
      have "is_list (construct_queues p n ?h) (SXE_POOL_QUEUE h p s) []"
        by (rule is_list_frame [of ?h]) (use f construct_is_list [OF nz] in \<open>auto simp: s\<close>)
      then show ?thesis using f by (simp add: construct_fields s)
    qed
  qed simp
  then show "is_list (construct_queues p n h) (SXE_POOL_QUEUE h p s) []"
    and "node_id (nodes (construct_queues p n h) (SXE_POOL_QUEUE h p s)) = s"
    and "offset (hdrs (construct_queues p n h) (SXE_POOL_QUEUE h p s)) = 0" by blast+
qed

lemma construct_queues_inv:
  assumes "pool_layout (pools h p) p"
  shows "queues_inv (construct_queues p (unat (states (pools h p))) h) p (\<lambda>_. [])"
  by (rule queues_invI)
    (simp_all add: heap_sel assms construct_queues_lists word_less_nat_alt)

lemma construct_free_list_inv:
  assumes "queues_inv h p qs" and "n \<le> unat (number (pools h p))"
    and "\<And>t i. t < states (pools h p) \<Longrightarrow> i \<in> set (qs t) \<Longrightarrow> n \<le> unat i"
  shows "queues_inv (construct_free_list p ct n h) p (qs(0 := qs 0 @ map of_nat (rev [0..<n]))) \<and>
    same_shape (pools (construct_free_list p ct n h) p) (pools h p) \<and>
    spinlock (pools (construct_free_list p ct n h) p) = spinlock (pools h p)"
  using assms
proof (induction n arbitrary: h qs)
  case (Suc n)
  define h1 where "h1 = (if is_timed h p then set_last (SXE_POOL_NODES h p (of_nat n)) ct h
      else set_last (SXE_POOL_NODES h p (of_nat n)) (next_count (pools h p) + 1)
             (set_pool p (next_count_update (\<lambda>c. c + 1)) h))"
  let ?h = "sxe_list_push (SXE_POOL_QUEUE h1 p 0) (SXE_POOL_NODES h1 p (of_nat n)) h1"
  let ?qs = "qs(0 := qs 0 @ [of_nat n])"
  have n: "unat (of_nat n :: u32) = n"
    using Suc.prems(2) unsigned_less [of "number (pools h p)", where 'a = nat] by (simp add: unat_of_nat)
  have f: "nodes h1 = nodes h" "hdrs h1 = hdrs h" "same_shape (pools h1 p) (pools h p)"
    "spinlock (pools h1 p) = spinlock (pools h p)"
    by (auto simp: h1_def heap_sel same_shape_def)
  note sh = same_shape_addrs [OF f(3)]
  have "queues_inv h1 p qs" using Suc.prems(1) queues_inv_cong [OF f(3,1,2)] by simp
  moreover have "0 < states (pools h1 p)"
    using queues_invD(1) [OF Suc.prems(1)] by (simp add: sh pool_layout_def)
  moreover have "of_nat n < number (pools h1 p)" using Suc.prems(2) n by (simp add: sh word_less_nat_alt)
  moreover have "of_nat n \<notin> set (qs t)" if "t < states (pools h1 p)" for t
    using Suc.prems(3) [of t "of_nat n"] that n by (auto simp: sh)
  ultimately have q: "queues_inv ?h p ?qs" by (intro push_queues_inv)
  have P: "pools ?h = pools h1" by (simp add: heap_sel)
  have le: "n \<le> unat (number (pools ?h p))" using Suc.prems(2) by (simp add: heap_sel sh)
  have mem: "n \<le> unat i" if "t < states (pools ?h p)" "i \<in> set (?qs t)" for t i
    using Suc.prems(3) [of t i] that n by (auto simp: heap_sel sh split: if_splits)
  have "queues_inv (construct_free_list p ct n ?h) p (?qs(0 := ?qs 0 @ map of_nat (rev [0..<n]))) \<and>
    same_shape (pools (construct_free_list p ct n ?h) p) (pools ?h p) \<and>
    spinlock (pools (construct_free_list p ct n ?h) p) = spinlock (pools ?h p)"
    by (rule Suc.IH [OF q le]) (rule mem)
  moreover have "construct_free_list p ct (Suc n) h = construct_free_list p ct n ?h"
    by (simp add: h1_def Let_def heap_sel)
  moreover have "same_shape Q (pools h1 p) = same_shape Q (pools h p)" for Q
    using f(3) by (auto simp: same_shape_def)
  moreover have "?qs(0 := ?qs 0 @ map of_nat (rev [0..<n])) = qs(0 := qs 0 @ map of_nat (rev [0..<Suc n]))"
    by simp
  ultimately show ?case by (simp only: P f)
qed simp

text \<open>The queues of a new pool: every element is free, the highest index first.\<close>

definition new_queues :: "u32 \<Rightarrow> queues" where
  "new_queues num = (\<lambda>_. [])(0 := map of_nat (rev [0..<unat num]))"

lemma sxe_pool_construct_inv:
  assumes "0 < sts"
    and "unat base + 144 + unat num * unat sz + unat sts * 40 + unat num * 32 < 2 ^ 64"
    and "sxe_pool_construct env base name num sz sts opts h = (array, h')"
  shows "array = SXE_POOL_IMPL_TO_ARRAY base" and "pool_inv h' base (new_queues num)" and "released h' base"
    and "number (pools h' base) = num" and "states (pools h' base) = sts" and "options (pools h' base) = opts"
    and "elem_size (pools h' base) = sz"
proof -
  define P where "P = (let P = (pools h base)\<lparr>
                queue_rel := SIZEOF_POOL_IMPL + ucast num * sz,
                nodes_rel := SIZEOF_POOL_IMPL + ucast num * sz + ucast sts * SIZEOF_LIST,
                number := num, elem_size := sz, states := sts, options := opts,
                state_to_string := sxe_pool_state_to_string, state_timeouts := None\<rparr>;
              P = (if opts AND SXE_POOL_OPTION_LOCKED \<noteq> 0 then P\<lparr>spinlock := sxe_spinlock_construct\<rparr> else P)
           in P\<lparr>pool_name := take SXE_POOL_NAME_MAXIMUM_LENGTH name, event_timeout := 0\<rparr>)"
  have P: "queue_rel P = SIZEOF_POOL_IMPL + ucast num * sz" "number P = num" "elem_size P = sz"
    "nodes_rel P = SIZEOF_POOL_IMPL + ucast num * sz + ucast sts * SIZEOF_LIST" "states P = sts"
    "options P = opts" "opts AND SXE_POOL_OPTION_LOCKED \<noteq> 0 \<longrightarrow> spinlock P = 0"
    by (simp_all add: P_def Let_def sxe_spinlock_construct_def)
  define h1 where "h1 = set_pool base (\<lambda>_. P) h"
  define h2 where "h2 = construct_queues base (unat sts) h1"
  define h3 where "h3 = (if opts AND SXE_POOL_OPTION_TIMED \<noteq> 0 then h2
    else set_pool base (next_count_update (\<lambda>_. 0)) h2)"
  have h': "array = SXE_POOL_IMPL_TO_ARRAY base \<and> h' = construct_free_list base (now env) (unat num) h3"
    using assms(3) by (cases "opts AND SXE_POOL_OPTION_LOCKED = 0"; cases "opts AND SXE_POOL_OPTION_TIMED = 0")
      (auto simp add: sxe_pool_construct_def h3_def h2_def h1_def set_pool_set_pool heap_sel P_def Let_def)
  then show "array = SXE_POOL_IMPL_TO_ARRAY base" by simp
  have "pool_layout (pools h1 base) base" "states (pools h1 base) = sts"
    using assms(1,2) by (simp_all add: pool_layout_def h1_def heap_sel P)
  from construct_queues_inv [OF this(1)] this(2) have "queues_inv h2 base (\<lambda>_. [])" by (simp add: h2_def)
  then have q3: "queues_inv h3 base (\<lambda>_. [])"
    by (subst queues_inv_cong [of _ _ h2]) (auto simp: h3_def heap_sel same_shape_def)
  have P3: "same_shape (pools h3 base) P" "spinlock (pools h3 base) = spinlock P"
    by (simp_all add: h3_def h2_def h1_def heap_sel same_shape_def)
  then have P3n: "number (pools h3 base) = num" "states (pools h3 base) = sts" "options (pools h3 base) = opts"
    "elem_size (pools h3 base) = sz"
    using P by (simp_all add: same_shape_def)
  from construct_free_list_inv [OF q3, of "unat num" "now env"] P3n
  have f: "queues_inv h' base (new_queues num)" "same_shape (pools h' base) (pools h3 base)"
    "spinlock (pools h' base) = spinlock P"
    using P3(2) by (simp_all add: h' new_queues_def)
  show n: "number (pools h' base) = num" "states (pools h' base) = sts" "options (pools h' base) = opts"
    "elem_size (pools h' base) = sz"
    using f(2) P3n by (simp_all add: same_shape_def)
  show "pool_inv h' base (new_queues num)"
  proof (rule pool_inv_of_queues_inv [OF f(1)])
    fix i assume "i < number (pools h' base)"
    then have "i \<in> set (new_queues num 0)"
      using n by (auto simp: new_queues_def word_less_nat_alt intro!: image_eqI [of _ _ "unat i"])
    then show "\<exists>s < states (pools h' base). i \<in> set (new_queues num s)" using n assms(1) by blast
  qed
  show "released h' base" using P(7) by (simp add: released_def n f(3))
qed

section \<open>Queries\<close>

lemma number_in_state:
  assumes "pool_inv h p qs" and "s < states (pools h p)"
  shows "sxe_pool_get_number_in_state (SXE_POOL_IMPL_TO_ARRAY p) s h = Some (of_nat (length (qs s)))"
  using queue_invD(1) [OF pool_invD(3) [OF assms]] addr_nonzero(3) [OF pool_invD(1) [OF assms(1)]]
  by (simp add: sxe_pool_get_number_in_state_def is_list_last)

lemma index_to_state:
  assumes "pool_inv h p qs" and "i < number (pools h p)" and "s < states (pools h p)"
  shows "sxe_pool_index_to_state (SXE_POOL_IMPL_TO_ARRAY p) i h = Some s \<longleftrightarrow> i \<in> set (qs s)"
  using queue_invD(5) [OF pool_invD(3) [OF assms(1,3)]] assms(2)
  by (simp add: sxe_pool_index_to_state_def Let_def)

lemma length_queue:
  assumes "pool_inv h p qs" and "s < states (pools h p)"
  shows "length (qs s) \<le> unat (number (pools h p))"
proof -
  have "length (qs s) = card (unat ` set (qs s))"
    using distinct_card [OF queue_invD(4) [OF pool_invD(3) [OF assms]]]
    by (metis card_image inj_on_def word_unat_eq_iff)
  also have "unat ` set (qs s) \<subseteq> {..<unat (number (pools h p))}"
    using queue_invD(5) [OF pool_invD(3) [OF assms]] by (auto simp: word_less_nat_alt)
  then have "card (unat ` set (qs s)) \<le> unat (number (pools h p))"
    using card_mono [OF finite_lessThan] by fastforce
  finally show ?thesis .
qed

lemma get_oldest_index:
  assumes "pool_inv h p qs" and "s < states (pools h p)"
  shows "\<exists>i h'. sxe_pool_get_oldest_element_index env (SXE_POOL_IMPL_TO_ARRAY p) s h = Some (i, h') \<and>
    only_lock h h' p \<and>
    (i = (if qs s = [] then SXE_POOL_NO_INDEX else hd (qs s)) \<and> released h' p \<or>
     i = SXE_POOL_NO_INDEX \<and> lock_busy env h p)"
proof -
  have arr: "SXE_POOL_IMPL_TO_ARRAY p \<noteq> 0" using addr_nonzero(3) [OF pool_invD(1) [OF assms(1)]] .
  note op = sxe_pool_get_oldest_element_index_def arr order_less_imp_le [OF assms(2)]
  show ?thesis
  proof (cases rule: pool_lock_cases [of env p h])
    case (taken h1)
    note sh = same_shape_addrs [OF only_lock_fields(1) [OF taken(2)]]
    have inv1: "pool_inv h1 p qs" using assms(1) only_lock_pool_inv [OF taken(2)] by simp
    have s1: "s < states (pools h1 p)" using assms(2) by (simp add: sh)
    have "is_locked h1 p \<longrightarrow> spinlock (pools h1 p) = tid env" using taken(3) sh(5) by simp
    from pool_unlock_own [OF this]
    obtain h3 where h3: "sxe_pool_unlock env p h1 = Some h3" "only_lock h1 h3 p" "released h3 p" by blast
    show ?thesis
      using taken(1) h3 only_lock_trans [OF taken(2) h3(2)] oldest_facts(3,4) [OF inv1 s1]
      by (cases "qs s = []") (simp_all add: op peek_queue [OF inv1 s1])
  next
    case (not_taken h1)
    then show ?thesis by (simp add: op)
  qed
qed

section \<open>The interface of a set of queues\<close>

text \<open>
  What clients rely on: taking the oldest element of a state into another state. A client that takes
  several elements gets them oldest first, and they arrive in the other state in that order.
\<close>

locale state_queues =
  fixes repr :: "'h \<Rightarrow> ('s \<Rightarrow> 'e list) \<Rightarrow> bool"
    and valid :: "'s \<Rightarrow> bool"
    and take_oldest :: "'s \<Rightarrow> 's \<Rightarrow> 'h \<Rightarrow> ('e \<times> 'h) option"
    and no_element :: 'e
  assumes take_some: "repr h qs \<Longrightarrow> valid s \<Longrightarrow> valid t \<Longrightarrow> s \<noteq> t \<Longrightarrow> qs s = x # xs \<Longrightarrow>
      \<exists>h'. take_oldest s t h = Some (x, h') \<and> repr h' (qs(s := xs, t := qs t @ [x]))"
    and take_none: "repr h qs \<Longrightarrow> valid s \<Longrightarrow> valid t \<Longrightarrow> qs s = [] \<Longrightarrow>
      \<exists>h'. take_oldest s t h = Some (no_element, h') \<and> repr h' qs"
begin

lemma drain:
  assumes "repr h qs" and "valid s" and "valid t" and "s \<noteq> t" and "qs s = xs @ ys"
  shows "\<exists>h'. take_n (take_oldest s t) (length xs) h = Some (xs, h') \<and> repr h' (qs(s := ys, t := qs t @ xs))"
  using assms
proof (induction xs arbitrary: h qs)
  case Nil
  then have "qs(s := ys, t := qs t @ []) = qs" by (auto simp: fun_eq_iff)
  with Nil(1) show ?case by (auto simp del: fun_upd_apply)
next
  case (Cons x xs)
  let ?qs = "qs(s := xs @ ys, t := qs t @ [x])"
  obtain h1 where h1: "take_oldest s t h = Some (x, h1)" "repr h1 ?qs"
    using take_some [OF Cons.prems(1-4), of x "xs @ ys"] Cons.prems(5) by auto
  have "?qs s = xs @ ys" using Cons.prems(4) by simp
  from Cons.IH [OF h1(2) Cons.prems(2-4) this]
  obtain h' where "take_n (take_oldest s t) (length xs) h1 = Some (xs, h')"
    "repr h' (?qs(s := ys, t := ?qs t @ xs))" by blast
  moreover have "?qs(s := ys, t := ?qs t @ xs) = qs(s := ys, t := qs t @ x # xs)"
    using Cons.prems(4) by (auto simp: fun_eq_iff)
  ultimately show ?case using h1(1) by (auto simp del: fun_upd_apply)
qed

lemma drain_all:
  assumes "repr h qs" and "valid s" and "valid t" and "s \<noteq> t"
  shows "\<exists>h'. take_n (take_oldest s t) (length (qs s) + 1) h = Some (qs s @ [no_element], h') \<and>
    repr h' (qs(s := [], t := qs t @ qs s))"
proof -
  obtain h1 where h1: "take_n (take_oldest s t) (length (qs s)) h = Some (qs s, h1)"
    "repr h1 (qs(s := [], t := qs t @ qs s))"
    using drain [OF assms, of "qs s" "[]"] by auto
  moreover obtain h2 where "take_oldest s t h1 = Some (no_element, h2)" "repr h2 (qs(s := [], t := qs t @ qs s))"
    using take_none [OF h1(2) assms(2,3)] assms(4) by auto
  ultimately show ?thesis using take_n_snoc by force
qed

end

text \<open>A pool whose lock is free, as a thread that may spin at least once sees it.\<close>

definition ready_pool :: "addr \<Rightarrow> u32 \<Rightarrow> 'a pool_heap_scheme \<Rightarrow> queues \<Rightarrow> bool" where
  "ready_pool p sts h qs \<longleftrightarrow> pool_inv h p qs \<and> released h p \<and> states (pools h p) = sts"

lemma move_oldest:
  assumes "qs s = x # xs" and "s \<noteq> t"
  shows "move x s t qs = qs(s := xs, t := qs t @ [x])"
  using assms by (auto simp: move_def Let_def fun_eq_iff)

lemma set_oldest_ready:
  assumes "ready_pool p sts h qs" and "spin_max env \<noteq> 0" and "s < sts" and "t < sts"
  shows "\<exists>r h'. sxe_pool_set_oldest_element_state env (SXE_POOL_IMPL_TO_ARRAY p) s t h = Some (r, h') \<and>
    (qs s \<noteq> [] \<and> r = hd (qs s) \<and> moved env p r h h' \<and> ready_pool p sts h' (move r s t qs) \<or>
     qs s = [] \<and> r = SXE_POOL_NO_INDEX \<and> only_lock h h' p \<and> ready_pool p sts h' qs)"
proof -
  have inv: "pool_inv h p qs" "released h p" "states (pools h p) = sts"
    using assms(1) by (simp_all add: ready_pool_def)
  have "states (pools h' p) = sts" if "moved env p i h h' \<or> only_lock h h' p" for h' i
    using that same_shape_addrs(4) [OF moved_shape] same_shape_addrs(4) [OF only_lock_fields(1)] inv(3) by metis
  moreover obtain r h' where
    "sxe_pool_set_oldest_element_state env (SXE_POOL_IMPL_TO_ARRAY p) s t h = Some (r, h')"
    "qs s \<noteq> [] \<and> r = hd (qs s) \<and> pool_inv h' p (move r s t qs) \<and> released h' p \<and> moved env p r h h' \<or>
     qs s = [] \<and> r = SXE_POOL_NO_INDEX \<and> only_lock h h' p \<and> released h' p"
    using set_oldest_refines [OF inv(1), of s t env] assms(3,4) inv released_not_busy [OF inv(2) assms(2)] by blast
  ultimately show ?thesis
    using only_lock_pool_inv [of h h' p qs] inv(1) unfolding ready_pool_def by blast
qed

interpretation pool_queues: state_queues "ready_pool p sts" "\<lambda>s. s < sts \<and> spin_max env \<noteq> 0"
  "sxe_pool_set_oldest_element_state env (SXE_POOL_IMPL_TO_ARRAY p)" SXE_POOL_NO_INDEX for p sts env
proof unfold_locales
  fix h :: "'a pool_heap_scheme" and qs s t x xs
  assume a: "ready_pool p sts h qs" "s < sts \<and> spin_max env \<noteq> 0" "t < sts \<and> spin_max env \<noteq> 0" "s \<noteq> t" "qs s = x # xs"
  show "\<exists>h'. sxe_pool_set_oldest_element_state env (SXE_POOL_IMPL_TO_ARRAY p) s t h = Some (x, h') \<and>
      ready_pool p sts h' (qs(s := xs, t := qs t @ [x]))"
    using set_oldest_ready [OF a(1), of env s t] a(2,3,5) move_oldest [of qs s x xs t, OF a(5,4)] by auto
next
  fix h :: "'a pool_heap_scheme" and qs s t
  assume a: "ready_pool p sts h qs" "s < sts \<and> spin_max env \<noteq> 0" "t < sts \<and> spin_max env \<noteq> 0" "qs s = []"
  show "\<exists>h'. sxe_pool_set_oldest_element_state env (SXE_POOL_IMPL_TO_ARRAY p) s t h = Some (SXE_POOL_NO_INDEX, h') \<and>
      ready_pool p sts h' qs"
    using set_oldest_ready [OF a(1), of env s t] a(2-4) by auto
qed

section \<open>Walking the elements of a state\<close>

lemma unlocked_lock [simp]: "\<not> is_locked h p \<Longrightarrow> sxe_pool_lock env p h = (SXE_POOL_LOCK_TAKEN, h)"
  "\<not> is_locked h p \<Longrightarrow> sxe_pool_unlock env p h = Some h"
  by (simp_all add: sxe_pool_lock_def sxe_pool_unlock_def)

text \<open>The first node at or after the walker whose time or count is at least \<open>since\<close>.\<close>

lemma rewalk_at:
  assumes "is_list h l (as @ node # bs)" and "offset (hdrs h l) = 0" and "walk_list w = l" and "walk_node w = node"
  shows "\<exists>w'. walker_rewalk h since w =
    Some (case dropWhile (\<lambda>b. lasts h b < since) bs of [] \<Rightarrow> 0 | b # _ \<Rightarrow> b, w')"
  using assms
proof (induction bs arbitrary: as node w)
  case Nil
  then show ?case
    by (subst walker_rewalk.simps) (simp add: walker_step_at)
next
  case (Cons b bs)
  let ?w = "w\<lparr>walk_back := node, walk_node := b\<rparr>"
  have step: "sxe_list_walker_step h w = (b, ?w)"
    using walker_step_at [OF Cons.prems(1,3,4)] Cons.prems(2) by simp
  have "b \<noteq> 0" using Cons.prems(1) by (auto simp: is_list_last)
  then show ?case
  proof (cases "lasts h b < since")
    case True
    have "is_list h l ((as @ [node]) @ b # bs)" using Cons.prems(1) by simp
    from Cons.IH [OF this Cons.prems(2), of ?w] show ?thesis
      using Cons.prems(3) True \<open>b \<noteq> 0\<close> by (subst walker_rewalk.simps) (auto simp: step dest: leD)
  next
    case False
    then show ?thesis using \<open>b \<noteq> 0\<close> by (subst walker_rewalk.simps) (auto simp: step not_less dest: leD)
  qed
qed

lemma rewalk_start:
  assumes "is_list h l xs" and "offset (hdrs h l) = 0"
  shows "\<exists>w'. walker_rewalk h since (sxe_list_walker_construct l) =
    Some (case dropWhile (\<lambda>b. lasts h b < since) xs of [] \<Rightarrow> 0 | b # _ \<Rightarrow> b, w')"
proof (cases xs)
  case Nil
  with assms show ?thesis
    by (subst walker_rewalk.simps) (simp add: walker_step_start sxe_list_walker_construct_def)
next
  case (Cons x ys)
  let ?w = "(sxe_list_walker_construct l)\<lparr>walk_back := l, walk_node := x\<rparr>"
  have step: "sxe_list_walker_step h (sxe_list_walker_construct l) = (x, ?w)"
    using walker_step_start [OF assms(1), of "sxe_list_walker_construct l"] Cons assms(2)
    by (simp add: sxe_list_walker_construct_def)
  have "x \<noteq> 0" using assms(1) Cons by (auto simp: is_list_last)
  have "is_list h l ([] @ x # ys)" using assms(1) Cons by simp
  moreover have "walk_list ?w = l" "walk_node ?w = x" by (simp_all add: sxe_list_walker_construct_def)
  ultimately have "\<exists>w'. walker_rewalk h since ?w =
      Some (case dropWhile (\<lambda>b. lasts h b < since) ys of [] \<Rightarrow> 0 | b # _ \<Rightarrow> b, w')"
    using rewalk_at assms(2) by blast
  then show ?thesis
    using \<open>x \<noteq> 0\<close> Cons by (subst walker_rewalk.simps) (auto simp: step not_less leD)
qed

text \<open>Where a walker of the pool stands when the elements \<open>seen\<close> of the queue have been visited.\<close>

definition walker_at :: "'a pool_heap_scheme \<Rightarrow> addr \<Rightarrow> u32 \<Rightarrow> u32 list \<Rightarrow> sxe_pool_walker \<Rightarrow> bool" where
  "walker_at h p s seen w \<longleftrightarrow>
     walker_pool w = p \<and> walker_state w = s \<and> walk_list (list_walker w) = SXE_POOL_QUEUE h p s \<and>
     walk_node (list_walker w) = last (SXE_POOL_QUEUE h p s # map (SXE_POOL_NODES h p) seen)"

lemma walker_step_visits:
  assumes "pool_inv h p qs" and "s < states (pools h p)" and "\<not> is_locked h p"
    and "walker_at h p s seen w" and "qs s = seen @ rest"
  shows "\<exists>w'. sxe_pool_walker_step env w h =
      Some (case rest of [] \<Rightarrow> SXE_POOL_NO_INDEX | i # _ \<Rightarrow> i, w', h) \<and>
      (\<forall>i is. rest = i # is \<longrightarrow> walker_at h p s (seen @ [i]) w' \<and> walker_last w' = lasts h (SXE_POOL_NODES h p i))"
proof -
  let ?N = "SXE_POOL_NODES h p" and ?l = "SXE_POOL_QUEUE h p s" and ?lw = "list_walker w"
  note q = queue_invD [OF pool_invD(3) [OF assms(1,2)]]
  have L: "is_list h ?l (map ?N seen @ map ?N rest)" using q(1) assms(5) by simp
  have w: "walker_pool w = p" "walker_state w = s" "walk_list ?lw = ?l"
    "walk_node ?lw = last (?l # map ?N seen)"
    using assms(4) by (simp_all add: walker_at_def)
  have same: "\<not> (sxe_list_walker_find h ?lw \<noteq> 0 \<and> node_id (nodes h (sxe_list_walker_find h ?lw)) \<noteq> s)"
  proof (cases "seen = []")
    case True
    then show ?thesis using w by (simp add: sxe_list_walker_find_def)
  next
    case False
    then have "last seen \<in> set (qs s)" using assms(5) by simp
    then have "node_id (nodes h (?N (last seen))) = s" using q(5) by blast
    then show ?thesis using w False q(3) by (auto simp: sxe_list_walker_find_def last_map)
  qed
  have step: "fst (sxe_list_walker_step h ?lw) = (case rest of [] \<Rightarrow> 0 | i # _ \<Rightarrow> ?N i) \<and>
      walk_list (snd (sxe_list_walker_step h ?lw)) = ?l \<and>
      walk_node (snd (sxe_list_walker_step h ?lw)) = hd (map ?N rest @ [?l])"
  proof (cases seen rule: rev_cases)
    case Nil
    then show ?thesis using walker_step_start [of h ?l "map ?N rest" ?lw] L w q(3) by (cases rest) auto
  next
    case (snoc as i)
    then show ?thesis
      using walker_step_at [of h ?l "map ?N as" "?N i" "map ?N rest" ?lw] L w q(3) by (cases rest) auto
  qed
  obtain node lw where nl: "sxe_list_walker_step h ?lw = (node, lw)" by fastforce
  show ?thesis
  proof (cases rest)
    case Nil
    then show ?thesis using nl step same assms(3) w by (auto simp: sxe_pool_walker_step_def)
  next
    case (Cons i "is")
    then have "i < number (pools h p)" using q(5) [of i] assms(5) by simp
    then have "?N i \<noteq> 0" "node_to_index h p (?N i) = i"
      using addr_nonzero(1) [OF pool_invD(1) [OF assms(1)], of i] index_node [OF pool_invD(1) [OF assms(1)]] by simp_all
    then show ?thesis
      using Cons nl step same assms(3) w by (auto simp: sxe_pool_walker_step_def walker_at_def)
  qed
qed

section \<open>Timing elements out\<close>

text \<open>A timeout callback that moves the element it is told of from state \<open>s\<close> to state \<open>t\<close>.\<close>

definition move_event :: "thread_env \<Rightarrow> u32 \<Rightarrow> u32 \<Rightarrow> 'a pool_heap_scheme timeout_event" where
  "move_event env s t callback array i info h =
     do { (_, h) \<leftarrow> sxe_pool_set_indexed_element_state env array i s t h; Some h }"

definition expired :: "u64 \<Rightarrow> u64 \<Rightarrow> addr \<Rightarrow> 'a pool_heap_scheme \<Rightarrow> u32 \<Rightarrow> bool" where
  "expired time_now timeout p h i \<longleftrightarrow> timeout \<le> time_now - lasts h (SXE_POOL_NODES h p i)"

lemma unlocked_oldest:
  assumes "pool_inv h p qs" and "s < states (pools h p)" and "\<not> is_locked h p"
  shows "sxe_pool_get_oldest_element_index env (SXE_POOL_IMPL_TO_ARRAY p) s h =
      Some (if qs s = [] then SXE_POOL_NO_INDEX else hd (qs s), h)"
    and "is_timed h p \<Longrightarrow> qs s \<noteq> [] \<Longrightarrow>
      sxe_pool_get_oldest_element_time env (SXE_POOL_IMPL_TO_ARRAY p) s h =
        Some (lasts h (SXE_POOL_NODES h p (hd (qs s))), h)"
  using addr_nonzero(3) [OF pool_invD(1) [OF assms(1)]] assms(3) order_less_imp_le [OF assms(2)]
    peek_queue [OF assms(1,2)] oldest_facts(3,4) [OF assms(1,2)]
  by (simp_all add: sxe_pool_get_oldest_element_index_def sxe_pool_get_oldest_element_time_def
      sxe_pool_impl_get_oldest_element_time_or_count_def)

lemma index_not_NO_INDEX: "i < (n :: u32) \<Longrightarrow> i \<noteq> SXE_POOL_NO_INDEX"
  by (metis SXE_POOL_NO_INDEX_def not_less word_order.extremum)

lemma check_state_step:
  assumes "pool_inv h p qs" and "s < states (pools h p)" and "t < states (pools h p)" and "s \<noteq> t"
    and "\<not> is_locked h p" and "is_timed h p" and "qs s = i # is" and "last_i \<noteq> i"
    and "expired time_now timeout p h i"
  shows "\<exists>h'. check_state_timeout (move_event env2 s t) env time_now p s timeout last_i last_time h =
      check_state_timeout (move_event env2 s t) env time_now p s timeout i (lasts h (SXE_POOL_NODES h p i)) h' \<and>
      pool_inv h' p (qs(s := is, t := qs t @ [i])) \<and> moved env2 p i h h'"
proof -
  have ne: "qs s \<noteq> []" and hd: "hd (qs s) = i" using assms(7) by simp_all
  note o = oldest_facts [OF assms(1,2) ne, unfolded hd]
  obtain h' where h': "sxe_pool_set_indexed_element_state env2 (SXE_POOL_IMPL_TO_ARRAY p) i s t h =
      Some (SXE_POOL_LOCK_TAKEN, h')" "pool_inv h' p (move i s t qs)" "moved env2 p i h h'"
    using set_indexed_refines [OF assms(1) o(1,2) assms(3), of env2] assms(5) by (auto simp: lock_busy_def)
  have "move_event env2 s t cb (SXE_POOL_IMPL_TO_ARRAY p) i info h = Some h'" for cb info
    using h'(1) by (simp add: move_event_def)
  moreover have "\<not> time_now - lasts h (SXE_POOL_NODES h p i) < timeout"
    using assms(9) by (simp add: expired_def not_less)
  ultimately have "check_state_timeout (move_event env2 s t) env time_now p s timeout last_i last_time h =
      check_state_timeout (move_event env2 s t) env time_now p s timeout i (lasts h (SXE_POOL_NODES h p i)) h'"
    using unlocked_oldest(1) [OF assms(1,2,5), of env] unlocked_oldest(2) [OF assms(1,2,5,6) ne, of env]
      assms(8) index_not_NO_INDEX [OF o(1)] ne hd
    by (subst check_state_timeout.simps) simp
  then show ?thesis using h'(2,3) move_oldest [of qs s i "is" t, OF assms(7,4)] by auto
qed

lemma moved_lasts:
  assumes "moved env p i h h'" and "pool_inv h p qs" and "j < number (pools h p)" and "i < number (pools h p)" and "j \<noteq> i"
  shows "lasts h' (SXE_POOL_NODES h' p j) = lasts h (SXE_POOL_NODES h p j)"
  using assms(1,5) node_inject [OF pool_invD(1) [OF assms(2)] assms(3,4)]
  unfolding moved_def same_shape_addrs(1) [OF moved_shape [OF assms(1)]] by simp

lemma check_state_timeout_moves:
  assumes "pool_inv h p qs" and "s < states (pools h p)" and "t < states (pools h p)" and "s \<noteq> t"
    and "\<not> is_locked h p" and "is_timed h p" and "last_i \<notin> set (qs s)"
  shows "\<exists>h'. check_state_timeout (move_event env2 s t) env time_now p s timeout last_i last_time h = Some h' \<and>
    pool_inv h' p (qs(s := dropWhile (expired time_now timeout p h) (qs s),
                      t := qs t @ takeWhile (expired time_now timeout p h) (qs s)))"
  using assms
proof (induction "qs s" arbitrary: h qs last_i last_time)
  case Nil
  have "qs(s := [], t := qs t) = qs" using Nil.hyps by (auto simp: fun_eq_iff)
  moreover have "check_state_timeout (move_event env2 s t) env time_now p s timeout last_i last_time h = Some h"
    using unlocked_oldest(1) [OF Nil.prems(1,2,5), of env] Nil.hyps by (subst check_state_timeout.simps) simp
  ultimately show ?case using Nil by (auto simp del: fun_upd_apply)
next
  case (Cons i "is")
  note qs = Cons.hyps(2) [symmetric]
  have ne: "qs s \<noteq> []" and hd: "hd (qs s) = i" using qs by simp_all
  note o = oldest_facts [OF Cons.prems(1,2) ne, unfolded hd]
  have li: "last_i \<noteq> i" using Cons.prems(7) qs by auto
  show ?case
  proof (cases "expired time_now timeout p h i")
    case False
    have "check_state_timeout (move_event env2 s t) env time_now p s timeout last_i last_time h = Some h"
      using unlocked_oldest(1) [OF Cons.prems(1,2,5), of env] unlocked_oldest(2) [OF Cons.prems(1,2,5,6) ne, of env]
        li index_not_NO_INDEX [OF o(1)] ne hd False
      by (subst check_state_timeout.simps) (simp add: expired_def not_le)
    moreover have "qs(s := i # is, t := qs t) = qs" using qs by (auto simp: fun_eq_iff)
    ultimately show ?thesis using Cons.prems(1) False qs by (auto simp del: fun_upd_apply)
  next
    case True
    let ?qs = "qs(s := is, t := qs t @ [i])"
    obtain h1 where h1: "check_state_timeout (move_event env2 s t) env time_now p s timeout last_i last_time h =
        check_state_timeout (move_event env2 s t) env time_now p s timeout i (lasts h (SXE_POOL_NODES h p i)) h1"
        "pool_inv h1 p ?qs" "moved env2 p i h h1"
      using check_state_step [OF Cons.prems(1-6) qs li True] by blast
    note sh = same_shape_addrs [OF moved_shape [OF h1(3)]]
    have "distinct (i # is)" and mem: "\<And>j. j \<in> set is \<Longrightarrow> j < number (pools h p)"
      using queue_invD(4,5) [OF pool_invD(3) [OF Cons.prems(1,2)]] qs by auto
    then have i: "i \<notin> set is" by simp
    have ex: "expired time_now timeout p h1 j = expired time_now timeout p h j" if "j \<in> set is" for j
    proof -
      have "j \<noteq> i" using i that by blast
      then show ?thesis
        using moved_lasts [OF h1(3) Cons.prems(1) mem [OF that] o(1)] by (simp add: expired_def)
    qed
    have qi: "is = ?qs s" "i \<notin> set (?qs s)" using Cons.prems(4) i by simp_all
    have pre: "s < states (pools h1 p)" "t < states (pools h1 p)" "\<not> is_locked h1 p" "is_timed h1 p"
      using Cons.prems(2,3,5,6) by (simp_all add: sh)
    obtain h' where h': "check_state_timeout (move_event env2 s t) env time_now p s timeout i
          (lasts h (SXE_POOL_NODES h p i)) h1 = Some h'"
        "pool_inv h' p (?qs(s := dropWhile (expired time_now timeout p h1) (?qs s),
                      t := ?qs t @ takeWhile (expired time_now timeout p h1) (?qs s)))"
      using Cons.hyps(1) [OF qi(1) h1(2) pre(1,2) Cons.prems(4) pre(3,4) qi(2)] by blast
    have "dropWhile (expired time_now timeout p h1) is = dropWhile (expired time_now timeout p h) is"
      "takeWhile (expired time_now timeout p h1) is = takeWhile (expired time_now timeout p h) is"
      using ex by (auto intro: dropWhile_cong takeWhile_cong)
    then have "?qs(s := dropWhile (expired time_now timeout p h1) (?qs s),
                   t := ?qs t @ takeWhile (expired time_now timeout p h1) (?qs s)) =
      qs(s := dropWhile (expired time_now timeout p h) (qs s),
         t := qs t @ takeWhile (expired time_now timeout p h) (qs s))"
      using Cons.prems(4) qs True by (auto simp: fun_eq_iff)
    then show ?thesis using h1(1) h' by metis
  qed
qed

section \<open>Walks\<close>

definition walk_pool ::
  "thread_env \<Rightarrow> sxe_pool_walker \<times> 'a pool_heap_scheme \<Rightarrow> (u32 \<times> sxe_pool_walker \<times> 'a pool_heap_scheme) option" where
  "walk_pool env = (\<lambda>(w, h). sxe_pool_walker_step env w h)"

lemma walk_rest:
  assumes "pool_inv h p qs" and "s < states (pools h p)" and "\<not> is_locked h p"
    and "walker_at h p s seen w" and "qs s = seen @ rest"
  shows "\<exists>w'. take_n (walk_pool env) (length rest + 1) (w, h) = Some (rest @ [SXE_POOL_NO_INDEX], w', h)"
  using assms(4,5)
proof (induction rest arbitrary: seen w)
  case Nil
  then show ?case using walker_step_visits [OF assms(1-3) Nil.prems, of env] by (auto simp: walk_pool_def)
next
  case (Cons i rest)
  obtain w1 where w1: "sxe_pool_walker_step env w h = Some (i, w1, h)" "walker_at h p s (seen @ [i]) w1"
    using walker_step_visits [OF assms(1-3) Cons.prems, of env] by auto
  have "qs s = (seen @ [i]) @ rest" using Cons.prems(2) by simp
  from Cons.IH [OF w1(2) this] obtain w' where
    w': "take_n (walk_pool env) (length rest + 1) (w1, h) = Some (rest @ [SXE_POOL_NO_INDEX], w', h)" by blast
  have "walk_pool env (w, h) = Some (i, w1, h)" using w1(1) by (simp add: walk_pool_def)
  from take_n_Cons [OF this w'] show ?case by auto
qed

lemma sum_length_card:
  assumes "\<And>s. s \<in> S \<Longrightarrow> distinct (f s)" and "finite S"
    and "\<And>s t. s \<in> S \<Longrightarrow> t \<in> S \<Longrightarrow> s \<noteq> t \<Longrightarrow> set (f s) \<inter> set (f t) = {}"
  shows "(\<Sum>s\<in>S. length (f s)) = card (\<Union>s\<in>S. set (f s))"
proof -
  have "card (\<Union>s\<in>S. set (f s)) = (\<Sum>s\<in>S. card (set (f s)))"
    using assms(2,3) by (intro card_UN_disjoint) auto
  also have "\<dots> = (\<Sum>s\<in>S. length (f s))" using assms(1) by (intro sum.cong) (auto simp: distinct_card)
  finally show ?thesis by simp
qed

lemma card_below_u32: "card {i :: u32. i < n} = unat n"
proof -
  have "bij_betw unat {i :: u32. i < n} {..<unat n}"
  proof (rule bij_betw_imageI)
    show "inj_on unat {i :: u32. i < n}" by (auto simp: inj_on_def word_unat_eq_iff)
    show "unat ` {i :: u32. i < n} = {..<unat n}"
    proof (intro equalityI subsetI)
      fix k assume "k \<in> {..<unat n}"
      then have "unat (of_nat k :: u32) = k"
        using unsigned_less [of n, where 'a = nat] by (simp add: unat_of_nat)
      then show "k \<in> unat ` {i :: u32. i < n}"
        using \<open>k \<in> {..<unat n}\<close> by (intro image_eqI [of _ _ "of_nat k"]) (simp_all add: word_less_nat_alt)
    qed (auto simp: word_less_nat_alt)
  qed
  then show ?thesis using bij_betw_same_card by fastforce
qed

lemma queues_partition:
  assumes "pool_inv h p qs"
  shows "(\<Sum>s | s < states (pools h p). length (qs s)) = unat (number (pools h p))"
proof -
  note q = queue_invD [OF pool_invD(3) [OF assms]]
  have "(\<Union>s \<in> {s. s < states (pools h p)}. set (qs s)) = {i. i < number (pools h p)}"
    using q(5) pool_invD(2) [OF assms] by blast
  moreover have "(\<Sum>s | s < states (pools h p). length (qs s)) =
      card (\<Union>s \<in> {s. s < states (pools h p)}. set (qs s))"
    using q(4,5) by (intro sum_length_card) auto
  ultimately show ?thesis by (simp add: card_below_u32)
qed

section \<open>Properties\<close>

definition pool_env :: thread_env where
  "pool_env = \<lparr>tid = 7, spin_max = 100, yield = (\<lambda>_ l. l), now = 1000\<rparr>"

definition empty_pool_heap :: pool_heap where
  "empty_pool_heap = \<lparr>nodes = nodes empty_list_heap, hdrs = hdrs empty_list_heap,
     pools = (\<lambda>_. \<lparr>spinlock = 0, pool_name = [], options = 0, number = 0, elem_size = 0, states = 0, nodes_rel = 0,
       queue_rel = 0, event_timeout = 0, caller_info = 0, state_timeouts = None, next_count = 0,
       state_to_string = sxe_pool_state_to_string\<rparr>),
     lasts = (\<lambda>_. 0), timeout_list = 512, timeout_count = 0\<rparr>"

text \<open>A pool of three elements of 8 bytes with two states, for the witnesses.\<close>

definition pool_of_three :: "u32 \<Rightarrow> pool_heap" where
  "pool_of_three opts = snd (sxe_pool_construct pool_env 4096 ''three'' 3 8 2 opts empty_pool_heap)"

lemma pool_of_three:
  "pool_inv (pool_of_three opts) 4096 (new_queues 3)" "released (pool_of_three opts) 4096"
  "number (pools (pool_of_three opts) 4096) = 3" "states (pools (pool_of_three opts) 4096) = 2"
  "options (pools (pool_of_three opts) 4096) = opts"
proof -
  obtain array where a: "sxe_pool_construct pool_env 4096 ''three'' 3 8 2 opts empty_pool_heap =
      (array, pool_of_three opts)"
    unfolding pool_of_three_def by (metis prod.collapse)
  note c = sxe_pool_construct_inv [OF _ _ a]
  show "pool_inv (pool_of_three opts) 4096 (new_queues 3)" "released (pool_of_three opts) 4096"
    "number (pools (pool_of_three opts) 4096) = 3" "states (pools (pool_of_three opts) 4096) = 2"
    "options (pools (pool_of_three opts) 4096) = opts"
    by (rule c, simp_all)+
qed

lemma new_queues_three: "new_queues 3 0 = [2, 1, 0]" "s \<noteq> 0 \<Longrightarrow> new_queues 3 s = []"
  by (simp_all add: new_queues_def upt_conv_Cons)

text \<open>C18: constructing a pool in a block that fits the address space gives a pool that satisfies the
  invariant, with all its elements in state 0, the highest index first, and its lock free.\<close>

theorem pool_construct_correct:
  assumes "0 < sts"
    and "unat base + 144 + unat num * unat sz + unat sts * 40 + unat num * 32 < 2 ^ 64"
  shows "\<exists>h'. sxe_pool_construct env base name num sz sts opts h = (SXE_POOL_IMPL_TO_ARRAY base, h') \<and>
    pool_inv h' base (\<lambda>s. if s = 0 then map of_nat (rev [0..<unat num]) else []) \<and> released h' base \<and>
    number (pools h' base) = num \<and> states (pools h' base) = sts"
proof -
  obtain array h' where c: "sxe_pool_construct env base name num sz sts opts h = (array, h')" by fastforce
  have "new_queues num = (\<lambda>s. if s = 0 then map of_nat (rev [0..<unat num]) else [])"
    by (auto simp: new_queues_def)
  then show ?thesis using sxe_pool_construct_inv [OF assms c] c by auto
qed

theorem pool_construct_correct_witness:
  "\<exists>h'. sxe_pool_construct pool_env 4096 ''three'' 3 8 2 1 empty_pool_heap = (SXE_POOL_IMPL_TO_ARRAY 4096, h') \<and>
    pool_inv h' 4096 (\<lambda>s. if s = 0 then map of_nat (rev [0..<unat (3 :: u32)]) else []) \<and> released h' 4096 \<and>
    number (pools h' 4096) = 3 \<and> states (pools h' 4096) = 2"
  by (rule pool_construct_correct) simp_all

text \<open>C11: moving an element from the state it is in to another one never fires an assertion. Either the
  element leaves its queue, which keeps its order, and becomes the youngest of the new state, the lock is
  free again and only the element's time stamp, the pool's counter and its lock word changed; or the lock
  was not to be had and nothing but the lock word changed.\<close>

theorem pool_set_indexed_correct:
  assumes "pool_inv h p qs" and "i < number (pools h p)"
    and "sxe_pool_index_to_state (SXE_POOL_IMPL_TO_ARRAY p) i h = Some old" and "new < states (pools h p)"
  shows "\<exists>r h'. sxe_pool_set_indexed_element_state env (SXE_POOL_IMPL_TO_ARRAY p) i old new h = Some (r, h') \<and>
    (r = SXE_POOL_LOCK_TAKEN \<and> pool_inv h' p (move i old new qs) \<and> released h' p \<and> moved env p i h h' \<or>
     r = SXE_POOL_LOCK_NOT_TAKEN \<and> lock_busy env h p \<and> only_lock h h' p)"
  using set_indexed_refines [OF assms(1,2) _ assms(4), of old env] assms(2,3)
  by (simp add: sxe_pool_index_to_state_def Let_def)

theorem pool_set_indexed_correct_witness:
  "\<exists>r h'. sxe_pool_set_indexed_element_state pool_env (SXE_POOL_IMPL_TO_ARRAY 4096) 1 0 1 (pool_of_three 1) = Some (r, h') \<and>
    (r = SXE_POOL_LOCK_TAKEN \<and> pool_inv h' 4096 (move 1 0 1 (new_queues 3)) \<and> released h' 4096 \<and>
       moved pool_env 4096 1 (pool_of_three 1) h' \<or>
     r = SXE_POOL_LOCK_NOT_TAKEN \<and> lock_busy pool_env (pool_of_three 1) 4096 \<and> only_lock (pool_of_three 1) h' 4096)"
proof (rule pool_set_indexed_correct)
  show "sxe_pool_index_to_state (SXE_POOL_IMPL_TO_ARRAY 4096) 1 (pool_of_three 1) = Some 0"
    by (subst index_to_state [OF pool_of_three(1)]) (simp_all add: pool_of_three new_queues_three)
qed (simp_all add: pool_of_three)

text \<open>C15: elements are taken out of a state in the order they entered it: a thread that can get the
  lock and takes the oldest element of a state once more often than the state has elements gets exactly
  the elements of the state, oldest first, and then \<^verbatim>\<open>SXE_POOL_NO_INDEX\<close>; they arrive in the new
  state in the same order.\<close>

theorem pool_oldest_first:
  assumes "pool_inv h p qs" and "released h p" and "spin_max env \<noteq> 0"
    and "s < states (pools h p)" and "t < states (pools h p)" and "s \<noteq> t"
  shows "\<exists>h'. take_n (sxe_pool_set_oldest_element_state env (SXE_POOL_IMPL_TO_ARRAY p) s t) (length (qs s) + 1) h =
      Some (qs s @ [SXE_POOL_NO_INDEX], h') \<and>
    pool_inv h' p (qs(s := [], t := qs t @ qs s)) \<and> released h' p"
  using pool_queues.drain_all [of p "states (pools h p)" h qs s env t] assms
  by (auto simp: ready_pool_def simp del: fun_upd_apply)

theorem pool_oldest_first_witness:
  "\<exists>h'. take_n (sxe_pool_set_oldest_element_state pool_env (SXE_POOL_IMPL_TO_ARRAY 4096) 0 1)
      (length (new_queues 3 0) + 1) (pool_of_three 1) = Some (new_queues 3 0 @ [SXE_POOL_NO_INDEX], h') \<and>
    pool_inv h' 4096 ((new_queues 3)(0 := [], 1 := new_queues 3 1 @ new_queues 3 0)) \<and> released h' 4096"
  by (rule pool_oldest_first) (simp_all add: pool_of_three pool_env_def)

text \<open>C26: trying to move an element that is not in the expected state is reported as such together with
  the state it is in, and the pool stays as it was.\<close>

theorem pool_try_incorrect_state:
  assumes "pool_inv h p qs" and "i \<in> set (qs st)" and "st < states (pools h p)" and "st \<noteq> old"
    and "old < states (pools h p)" and "new < states (pools h p)"
    and "released h p" and "spin_max env \<noteq> 0"
  shows "\<exists>h'. sxe_pool_try_to_set_indexed_element_state env (SXE_POOL_IMPL_TO_ARRAY p) i old new h =
      Some (SXE_POOL_INCORRECT_STATE, st, h') \<and> pool_inv h' p qs \<and> released h' p \<and> only_lock h h' p"
proof -
  have "i < number (pools h p)" "element_state h p i = st"
    using queue_invD(5) [OF pool_invD(3) [OF assms(1,3)]] assms(2) by blast+
  with try_to_set_incorrect [OF assms(1), of i old new env] obtain r s h' where
    "sxe_pool_try_to_set_indexed_element_state env (SXE_POOL_IMPL_TO_ARRAY p) i old new h = Some (r, s, h')"
    "only_lock h h' p" "r = SXE_POOL_INCORRECT_STATE \<and> s = st \<and> released h' p"
    using assms(4-6) released_not_busy [OF assms(7,8)] order_less_imp_le by metis
  then show ?thesis using only_lock_pool_inv [of h h' p qs] assms(1) by blast
qed

theorem pool_try_incorrect_state_witness:
  "\<exists>h'. sxe_pool_try_to_set_indexed_element_state pool_env (SXE_POOL_IMPL_TO_ARRAY 4096) 1 1 0 (pool_of_three 1) =
      Some (SXE_POOL_INCORRECT_STATE, 0, h') \<and> pool_inv h' 4096 (new_queues 3) \<and> released h' 4096 \<and>
      only_lock (pool_of_three 1) h' 4096"
  by (rule pool_try_incorrect_state) (simp_all add: pool_of_three new_queues_three pool_env_def)

lemma reported_numbers:
  assumes "pool_inv h p qs"
  shows "(\<Sum>s | s < states (pools h p).
      unat (the (sxe_pool_get_number_in_state (SXE_POOL_IMPL_TO_ARRAY p) s h))) = unat (number (pools h p))"
proof -
  have "unat (the (sxe_pool_get_number_in_state (SXE_POOL_IMPL_TO_ARRAY p) s h)) = length (qs s)"
    if "s < states (pools h p)" for s
    using number_in_state [OF assms that] length_queue [OF assms that]
      unsigned_less [of "number (pools h p)", where 'a = nat] by (simp add: unat_of_nat)
  then show ?thesis using queues_partition [OF assms] by simp
qed

text \<open>A walker of an unlocked pool visits every element of its state exactly once, oldest first, and
  then reports \<^verbatim>\<open>SXE_POOL_NO_INDEX\<close>, and changes nothing.\<close>

lemma pool_walk_all:
  assumes "pool_inv h p qs" and "s < states (pools h p)" and "\<not> is_locked h p"
  shows "\<exists>w w'. sxe_pool_walker_construct (SXE_POOL_IMPL_TO_ARRAY p) s h = Some w \<and>
    take_n (walk_pool env) (length (qs s) + 1) (w, h) = Some (qs s @ [SXE_POOL_NO_INDEX], w', h)"
proof -
  obtain w where w: "sxe_pool_walker_construct (SXE_POOL_IMPL_TO_ARRAY p) s h = Some w" "walker_at h p s [] w"
    using assms(3) by (auto simp: sxe_pool_walker_construct_def walker_at_def sxe_list_walker_construct_def)
  then show ?thesis using walk_rest [OF assms w(2), of "qs s" env] by auto
qed

end
