(* ===== verification/Sxe_Pool_Ops.thy ===== *)
theory Sxe_Pool_Ops
  imports Sxe_Pool_Spec
begin

text \<open>
  Sequences of calls that change a pool. Any sequence of moves, tries, takes of the oldest element and touches,
  by any threads, implements the same sequence on abstract queues: no element is lost or duplicated, a call
  aborts exactly when it moves an element from a state the element is not in, and with a clock that does not go
  back the queues of a timed pool stay in the order of their time stamps, which is what the timeout check relies
  on.
\<close>

section \<open>Calls and their effect on queues\<close>

datatype pool_call =
    Set_Indexed u32 u32 u32
  | Try_Indexed u32 u32 u32
  | Set_Oldest u32 u32
  | Touch u32

fun run_call :: "addr \<Rightarrow> thread_env \<Rightarrow> pool_call \<Rightarrow> 'a pool_heap_scheme \<Rightarrow> 'a pool_heap_scheme option" where
  "run_call array env (Set_Indexed i old new) h =
     do { (_, h) \<leftarrow> sxe_pool_set_indexed_element_state env array i old new h; Some h }"
| "run_call array env (Try_Indexed i old new) h =
     do { (_, _, h) \<leftarrow> sxe_pool_try_to_set_indexed_element_state env array i old new h; Some h }"
| "run_call array env (Set_Oldest old new) h =
     do { (_, h) \<leftarrow> sxe_pool_set_oldest_element_state env array old new h; Some h }"
| "run_call array env (Touch i) h =
     do { (_, h) \<leftarrow> sxe_pool_touch_indexed_element env array i h; Some h }"

primrec run_calls :: "addr \<Rightarrow> (thread_env \<times> pool_call) list \<Rightarrow> 'a pool_heap_scheme \<Rightarrow> 'a pool_heap_scheme option" where
  "run_calls array [] h = Some h"
| "run_calls array (ec # calls) h = do { h \<leftarrow> run_call array (fst ec) (snd ec) h; run_calls array calls h }"

text \<open>The same on queues; \<open>None\<close> is the assertion of \<^verbatim>\<open>sxe_pool_set_indexed_element_state\<close> on the state the
  element is in.\<close>

fun queue_call :: "pool_call \<Rightarrow> queues \<Rightarrow> queues option" where
  "queue_call (Set_Indexed i old new) qs = (if i \<in> set (qs old) then Some (move i old new qs) else None)"
| "queue_call (Try_Indexed i old new) qs = Some (if i \<in> set (qs old) then move i old new qs else qs)"
| "queue_call (Set_Oldest old new) qs = Some (case qs old of [] \<Rightarrow> qs | i # _ \<Rightarrow> move i old new qs)"
| "queue_call (Touch i) qs = Some (\<lambda>s. if i \<in> set (qs s) then remove1 i (qs s) @ [i] else qs s)"

primrec queue_calls :: "pool_call list \<Rightarrow> queues \<Rightarrow> queues option" where
  "queue_calls [] qs = Some qs"
| "queue_calls (c # calls) qs = do { qs \<leftarrow> queue_call c qs; queue_calls calls qs }"

text \<open>The arguments are indices and states of the pool, and the thread may spin.\<close>

definition states_below :: "u32 \<Rightarrow> u32 list \<Rightarrow> bool" where
  "states_below sts ss \<longleftrightarrow> (\<forall>s \<in> set ss. s < sts)"

fun call_args :: "u32 \<Rightarrow> u32 \<Rightarrow> thread_env \<times> pool_call \<Rightarrow> bool" where
  "call_args n sts (env, Set_Indexed i old new) \<longleftrightarrow> spin_max env \<noteq> 0 \<and> i < n \<and> states_below sts [old, new]"
| "call_args n sts (env, Try_Indexed i old new) \<longleftrightarrow> spin_max env \<noteq> 0 \<and> i < n \<and> states_below sts [old, new]"
| "call_args n sts (env, Set_Oldest old new) \<longleftrightarrow> spin_max env \<noteq> 0 \<and> states_below sts [old, new]"
| "call_args n sts (env, Touch i) \<longleftrightarrow> spin_max env \<noteq> 0 \<and> i < n"

section \<open>Each call implements its effect\<close>

definition pool_of :: "addr \<Rightarrow> u32 \<Rightarrow> u32 \<Rightarrow> 'a pool_heap_scheme \<Rightarrow> queues \<Rightarrow> bool" where
  "pool_of p n sts h qs \<longleftrightarrow>
     pool_inv h p qs \<and> released h p \<and> number (pools h p) = n \<and> states (pools h p) = sts"

text \<open>What a call did: nothing but taking and giving the lock, or one move.\<close>

definition call_effect ::
  "thread_env \<Rightarrow> addr \<Rightarrow> u32 \<Rightarrow> u32 \<Rightarrow> 'a pool_heap_scheme \<Rightarrow> queues \<Rightarrow> 'a pool_heap_scheme \<Rightarrow> queues \<Rightarrow> bool" where
  "call_effect env p n sts h qs h' qs' \<longleftrightarrow>
     only_lock h h' p \<and> qs' = qs \<or>
     (\<exists>i old new. old < sts \<and> new < sts \<and> i \<in> set (qs old) \<and> moved env p i h h' \<and> (\<forall>s < sts. qs' s = move i old new qs s))"

lemma pool_inv_queues:
  assumes "pool_inv h p qs" and "\<And>s. s < states (pools h p) \<Longrightarrow> qs' s = qs s"
  shows "pool_inv h p qs'"
  using assms by (simp add: pool_inv_def)

lemma pool_of_shape:
  assumes "pool_of p n sts h qs" and "pool_inv h' p qs'" and "released h' p" and "moved env p i h h' \<or> only_lock h h' p"
  shows "pool_of p n sts h' qs'"
proof -
  have "same_shape (pools h' p) (pools h p)" using assms(4) moved_shape only_lock_fields(1) by blast
  from same_shape_addrs [OF this] show ?thesis using assms(1-3) by (simp add: pool_of_def)
qed

lemma pool_of_member:
  assumes "pool_of p n sts h qs" and "s < sts"
  shows "i \<in> set (qs s) \<longleftrightarrow> i < n \<and> element_state h p i = s"
  using queue_invD(5) [OF pool_invD(3), of h p qs s i] assms by (auto simp: pool_of_def)

lemma set_indexed_wrong_state:
  assumes "pool_of p n sts h qs" and "spin_max env \<noteq> 0" and "element_state h p i \<noteq> old"
  shows "sxe_pool_set_indexed_element_state env (SXE_POOL_IMPL_TO_ARRAY p) i old new h = None"
proof -
  have inv: "pool_inv h p qs" "released h p" using assms(1) by (simp_all add: pool_of_def)
  have arr: "SXE_POOL_IMPL_TO_ARRAY p \<noteq> 0" using addr_nonzero(3) [OF pool_invD(1) [OF inv(1)]] .
  show ?thesis
  proof (cases rule: pool_lock_cases [of env p h])
    case (taken h1)
    have "element_state h1 p i = element_state h p i"
      using taken(2) same_shape_addrs(1) [OF only_lock_fields(1) [OF taken(2)]] by (simp add: only_lock_def)
    then have "sxe_pool_set_indexed_element_state_unlocked env (SXE_POOL_IMPL_TO_ARRAY p) i old new True h1 = None"
      using unlocked_incorrect [OF arr, of h1 i old] assms(3) by simp
    then show ?thesis using taken(1) by (auto simp: sxe_pool_set_indexed_element_state_def Let_def)
  next
    case (not_taken h1)
    then show ?thesis using released_not_busy [OF inv(2) assms(2)] by blast
  qed
qed

lemma move_touch:
  assumes "pool_of p n sts h qs" and "i < n" and "s < sts"
  shows "(if i \<in> set (qs s) then remove1 i (qs s) @ [i] else qs s) = move i (element_state h p i) (element_state h p i) qs s"
  using pool_of_member [OF assms(1,3), of i] assms(2) by (auto simp: move_def Let_def)

lemma run_call_refines:
  assumes "pool_of p n sts h qs" and "call_args n sts (env, c)"
  shows "case queue_call c qs of
      None \<Rightarrow> run_call (SXE_POOL_IMPL_TO_ARRAY p) env c h = None
    | Some qs' \<Rightarrow> \<exists>h'. run_call (SXE_POOL_IMPL_TO_ARRAY p) env c h = Some h' \<and> pool_of p n sts h' qs' \<and>
        call_effect env p n sts h qs h' qs'"
proof -
  have inv: "pool_inv h p qs" "released h p" and n: "number (pools h p) = n" "states (pools h p) = sts"
    using assms(1) by (simp_all add: pool_of_def)
  have lock: "\<not> lock_busy env h p" using released_not_busy [OF inv(2)] assms(2) by (cases c) simp_all
  have eff: "pool_of p n sts h' (move i old new qs) \<and> call_effect env p n sts h qs h' (move i old new qs)"
    if "pool_inv h' p (move i old new qs)" "released h' p" "moved env p i h h'" "old < sts" "new < sts" "i \<in> set (qs old)" for h' i old new
    using that pool_of_shape [OF assms(1) that(1,2)] unfolding call_effect_def by blast
  have same: "pool_of p n sts h' qs \<and> call_effect env p n sts h qs h' qs" if "only_lock h h' p" "released h' p" for h'
    using that pool_of_shape [OF assms(1) _ that(2)] only_lock_pool_inv [OF that(1)] inv(1) unfolding call_effect_def by blast
  show ?thesis
  proof (cases c)
    case (Set_Indexed i old new)
    then have a: "i < n" "old < sts" "new < sts" using assms(2) by (simp_all add: states_below_def)
    show ?thesis
    proof (cases "i \<in> set (qs old)")
      case True
      then have "element_state h p i = old" using pool_of_member [OF assms(1) a(2)] by simp
      from set_indexed_refines [OF inv(1) _ this, of new env] show ?thesis
        using a lock True eff [of _ i old new] n Set_Indexed by fastforce
    next
      case False
      then have "element_state h p i \<noteq> old" using pool_of_member [OF assms(1) a(2)] a(1) by simp
      from set_indexed_wrong_state [OF assms(1) _ this] show ?thesis using assms(2) Set_Indexed False by simp
    qed
  next
    case (Try_Indexed i old new)
    then have a: "i < n" "old < sts" "new < sts" using assms(2) by (simp_all add: states_below_def)
    show ?thesis
    proof (cases "i \<in> set (qs old)")
      case True
      then have "element_state h p i = old" using pool_of_member [OF assms(1) a(2)] by simp
      from try_to_set_refines [OF inv(1) _ this, of new env] show ?thesis
        using a lock True eff [of _ i old new] n Try_Indexed by fastforce
    next
      case False
      then have "element_state h p i \<noteq> old" using pool_of_member [OF assms(1) a(2)] a(1) by simp
      from try_to_set_incorrect [OF inv(1) _ this, of new env] show ?thesis
        using a lock False same n Try_Indexed by fastforce
    qed
  next
    case (Set_Oldest old new)
    then have a: "old < sts" "new < sts" using assms(2) by (simp_all add: states_below_def)
    show ?thesis
    proof (cases "qs old")
      case Nil
      then show ?thesis using set_oldest_refines [OF inv(1), of old new env] a lock same n Set_Oldest by fastforce
    next
      case (Cons i "is")
      then show ?thesis
        using set_oldest_refines [OF inv(1), of old new env] a lock eff [of _ i old new] n Set_Oldest by fastforce
    qed
  next
    case (Touch i)
    let ?s = "element_state h p i" and ?qs = "\<lambda>s. if i \<in> set (qs s) then remove1 i (qs s) @ [i] else qs s"
    have a: "i < n" using assms(2) Touch by simp
    have s: "?s < sts" using pool_invD(2) [OF inv(1)] a n by simp
    then have m: "i \<in> set (qs ?s)" using pool_of_member [OF assms(1)] a by simp
    obtain h' where h': "run_call (SXE_POOL_IMPL_TO_ARRAY p) env c h = Some h'" "pool_inv h' p (move i ?s ?s qs)" "released h' p"
      "moved env p i h h'"
      using touch_refines [OF inv(1), of i env] a lock n Touch by fastforce
    have sts': "states (pools h' p) = sts" using same_shape_addrs(4) [OF moved_shape [OF h'(4)]] n(2) by simp
    have "pool_inv h' p ?qs" by (rule pool_inv_queues [OF h'(2)]) (use move_touch [OF assms(1) a] sts' in simp)
    then have "pool_of p n sts h' ?qs" using pool_of_shape [OF assms(1) _ h'(3)] h'(4) by blast
    moreover have "call_effect env p n sts h qs h' ?qs"
      unfolding call_effect_def using s m h'(4) move_touch [OF assms(1) a] by blast
    ultimately show ?thesis using h'(1) Touch by simp
  qed
qed

section \<open>Sequences of calls\<close>

lemma run_calls_refine:
  assumes "pool_of p n sts h qs" and "\<forall>ec \<in> set ecs. call_args n sts ec"
  shows "case queue_calls (map snd ecs) qs of
      None \<Rightarrow> run_calls (SXE_POOL_IMPL_TO_ARRAY p) ecs h = None
    | Some qs' \<Rightarrow> \<exists>h'. run_calls (SXE_POOL_IMPL_TO_ARRAY p) ecs h = Some h' \<and> pool_of p n sts h' qs'"
  using assms
proof (induction ecs arbitrary: h qs)
  case Nil
  then show ?case by simp
next
  case (Cons ec ecs)
  obtain env c where ec: "ec = (env, c)" by (cases ec)
  note step = run_call_refines [OF Cons.prems(1), of env c]
  show ?case
  proof (cases "queue_call c qs")
    case None
    then show ?thesis using step Cons.prems(2) ec by simp
  next
    case (Some qs1)
    then obtain h1 where h1: "run_call (SXE_POOL_IMPL_TO_ARRAY p) env c h = Some h1" "pool_of p n sts h1 qs1"
      using step Cons.prems(2) ec by auto
    show ?thesis using Cons.IH [OF h1(2)] Cons.prems(2) h1(1) Some ec by (simp split: option.splits)
  qed
qed

text \<open>Every element is in exactly one queue, once.\<close>

lemma count_list_distinct: "distinct xs \<Longrightarrow> count_list xs x = (if x \<in> set xs then 1 else 0)"
  by (induction xs) auto

lemma queues_count:
  assumes "pool_inv h p qs" and "i < number (pools h p)"
  shows "(\<Sum>s | s < states (pools h p). count_list (qs s) i) = 1"
proof -
  let ?S = "{s. s < states (pools h p)}" and ?s = "element_state h p i"
  have s: "?s \<in> ?S" using pool_invD(2) [OF assms] by simp
  have c: "count_list (qs s) i = (if s = ?s then 1 else 0)" if "s \<in> ?S" for s
  proof -
    note q = queue_invD(4,5) [OF pool_invD(3) [OF assms(1)], of s]
    have "count_list (qs s) i = (if i \<in> set (qs s) then 1 else 0)"
      using q(1) that by (intro count_list_distinct) simp
    then show ?thesis using q(2) [of i] that assms(2) by auto
  qed
  have "(\<Sum>s \<in> ?S. count_list (qs s) i) = (\<Sum>s \<in> ?S. if s = ?s then 1 else 0)" by (rule sum.cong) (simp_all add: c)
  also have "\<dots> = 1" using s by simp
  finally show ?thesis .
qed

section \<open>The order of time\<close>

definition time_of :: "'a pool_heap_scheme \<Rightarrow> addr \<Rightarrow> u32 \<Rightarrow> u64" where
  "time_of h p i = lasts h (SXE_POOL_NODES h p i)"

text \<open>A queue in the order of its time stamps, none of which is later than \<open>t\<close>.\<close>

definition time_ordered :: "'a pool_heap_scheme \<Rightarrow> addr \<Rightarrow> u64 \<Rightarrow> u32 list \<Rightarrow> bool" where
  "time_ordered h p t q \<longleftrightarrow> sorted_wrt (\<lambda>i j. time_of h p i \<le> time_of h p j) q \<and> (\<forall>i \<in> set q. time_of h p i \<le> t)"

lemma sorted_wrt_remove1: "sorted_wrt R xs \<Longrightarrow> sorted_wrt R (remove1 x xs)"
proof (induction xs)
  case (Cons y ys)
  then show ?case using set_remove1_subset [of x ys] by auto
qed simp

lemma time_ordered_cong:
  assumes "\<And>i. i \<in> set q \<Longrightarrow> time_of h' p i = time_of h p i" and "time_ordered h p t q" and "t \<le> t'"
  shows "time_ordered h' p t' q"
proof -
  have "sorted_wrt (\<lambda>i j. time_of h' p i \<le> time_of h' p j) q" "\<forall>i \<in> set q. time_of h' p i \<le> t"
    using assms(1,2) by (simp_all add: time_ordered_def sorted_wrt_iff_nth_less)
  then show ?thesis using assms(3) by (auto simp: time_ordered_def intro: order_trans)
qed

lemma time_ordered_step:
  assumes "pool_of p n sts h qs" and "call_effect env p n sts h qs h' qs'" and "is_timed h p"
    and "\<And>s. s < sts \<Longrightarrow> time_ordered h p t (qs s)" and "t \<le> now env" and "s < sts"
  shows "time_ordered h' p (now env) (qs' s)"
  using assms(2) unfolding call_effect_def
proof (elim disjE conjE exE)
  assume a: "only_lock h h' p" "qs' = qs"
  have "time_of h' p i = time_of h p i" for i
    using a(1) same_shape_addrs(1) [OF only_lock_fields(1) [OF a(1)]] by (simp add: time_of_def only_lock_def)
  then have "time_ordered h' p (now env) (qs s)" by (intro time_ordered_cong [OF _ assms(4) [OF assms(6)] assms(5)])
  then show ?thesis using a(2) by simp
next
  fix i old new
  assume a: "old < sts" "new < sts" "i \<in> set (qs old)" "moved env p i h h'" "\<forall>s < sts. qs' s = move i old new qs s"
  have inv: "pool_inv h p qs" "number (pools h p) = n" using assms(1) by (simp_all add: pool_of_def)
  have i: "i < n" using pool_of_member [OF assms(1) a(1)] a(3) by simp
  have new_time: "time_of h' p i = now env"
    using a(4) assms(3) same_shape_addrs(1) [OF moved_shape [OF a(4)]] by (simp add: time_of_def moved_def stamp_def)
  have old_time: "time_of h' p j = time_of h p j" if "j < n" "j \<noteq> i" for j
    using moved_lasts [OF a(4) inv(1), of j] that i inv(2) by (simp add: time_of_def)
  have mem: "j < n" if "j \<in> set (qs s)" "s < sts" for j s using pool_of_member [OF assms(1) that(2)] that(1) by simp
  have rem: "time_ordered h' p (now env) (remove1 i (qs s))" if "s < sts" for s
  proof (rule time_ordered_cong [OF _ _ assms(5)])
    have "distinct (qs s)" using queue_invD(4) [OF pool_invD(3) [OF inv(1)]] that assms(1) by (auto simp: pool_of_def)
    then show "time_of h' p j = time_of h p j" if "j \<in> set (remove1 i (qs s))" for j
      using old_time [of j] mem [of j s] that \<open>s < sts\<close> by simp
    show "time_ordered h p t (remove1 i (qs s))"
      using assms(4) [OF that] set_remove1_subset [of i "qs s"] by (auto simp: time_ordered_def sorted_wrt_remove1)
  qed
  have un: "remove1 i (qs s) = qs s" if "s \<noteq> old" "s < sts" for s
    using pool_of_member [OF assms(1) that(2), of i] pool_of_member [OF assms(1) a(1), of i] a(3) that(1) by (simp add: remove1_idem)
  have "move i old new qs s = (if s = new then remove1 i (qs s) @ [i] else remove1 i (qs s))"
    using un [of s] assms(6) by (auto simp: move_def Let_def)
  moreover have "time_ordered h' p (now env) (remove1 i (qs s) @ [i])"
    using rem [OF assms(6)] new_time by (simp add: time_ordered_def sorted_wrt_append)
  ultimately show ?thesis using a(5) assms(6) rem [OF assms(6)] by auto
qed

lemma call_effect_timed:
  assumes "call_effect env p n sts h qs h' qs'"
  shows "is_timed h' p = is_timed h p"
proof -
  have "same_shape (pools h' p) (pools h p)"
    using assms moved_shape only_lock_fields(1) unfolding call_effect_def by blast
  from same_shape_addrs(5) [OF this] show ?thesis by simp
qed

lemma run_calls_time_ordered:
  assumes "pool_of p n sts h qs" and "\<forall>ec \<in> set ecs. call_args n sts ec" and "is_timed h p"
    and "\<And>s. s < sts \<Longrightarrow> time_ordered h p t (qs s)" and "sorted_wrt (\<le>) (t # map (\<lambda>ec. now (fst ec)) ecs)"
    and "queue_calls (map snd ecs) qs = Some qs'"
  shows "\<exists>h'. run_calls (SXE_POOL_IMPL_TO_ARRAY p) ecs h = Some h' \<and> pool_of p n sts h' qs' \<and> is_timed h' p \<and>
    (\<forall>s < sts. time_ordered h' p (last (t # map (\<lambda>ec. now (fst ec)) ecs)) (qs' s))"
  using assms
proof (induction ecs arbitrary: h qs t)
  case Nil
  then show ?case by auto
next
  case (Cons ec ecs)
  obtain env c where ec: "ec = (env, c)" by (cases ec)
  obtain qs1 where qs1: "queue_call c qs = Some qs1" "queue_calls (map snd ecs) qs1 = Some qs'"
    using Cons.prems(6) ec by (auto simp: bind_eq_Some_conv)
  obtain h1 where h1: "run_call (SXE_POOL_IMPL_TO_ARRAY p) env c h = Some h1" "pool_of p n sts h1 qs1"
    "call_effect env p n sts h qs h1 qs1"
    using run_call_refines [OF Cons.prems(1), of env c] Cons.prems(2) ec qs1(1) by auto
  have "t \<le> now env" using Cons.prems(5) ec by simp
  note o = time_ordered_step [OF Cons.prems(1) h1(3) Cons.prems(3,4) this]
  have "\<exists>h'. run_calls (SXE_POOL_IMPL_TO_ARRAY p) ecs h1 = Some h' \<and> pool_of p n sts h' qs' \<and> is_timed h' p \<and>
    (\<forall>s < sts. time_ordered h' p (last (now env # map (\<lambda>ec. now (fst ec)) ecs)) (qs' s))"
    by (rule Cons.IH [OF h1(2) _ _ o _ qs1(2)])
      (use Cons.prems(2,3,5) ec call_effect_timed [OF h1(3)] in simp_all)
  then show ?case using h1(1) ec by simp
qed

text \<open>The elements of a new timed pool all have the time of its construction.\<close>

lemma free_list_lasts:
  assumes "is_timed h p"
  shows "lasts (construct_free_list p t n h) a = (if \<exists>j < n. a = SXE_POOL_NODES h p (of_nat j) then t else lasts h a)"
  using assms
proof (induction n arbitrary: h)
  case (Suc n)
  let ?h = "sxe_list_push (SXE_POOL_QUEUE (set_last (SXE_POOL_NODES h p (of_nat n)) t h) p 0) (SXE_POOL_NODES h p (of_nat n))
    (set_last (SXE_POOL_NODES h p (of_nat n)) t h)"
  have "pools ?h = pools h" "lasts ?h = (lasts h)(SXE_POOL_NODES h p (of_nat n) := t)" by (simp_all add: heap_sel)
  moreover from this have "SXE_POOL_NODES ?h p = SXE_POOL_NODES h p" by (simp add: SXE_POOL_NODES_def fun_eq_iff)
  ultimately show ?case using Suc.IH [of ?h] Suc.prems by (auto simp: Let_def less_Suc_eq)
qed simp

lemma free_list_pools: "is_timed h p \<Longrightarrow> pools (construct_free_list p t n h) = pools h"
  by (induction n arbitrary: h) (simp_all add: Let_def heap_sel)

lemma construct_time_ordered:
  assumes "opts AND SXE_POOL_OPTION_TIMED \<noteq> 0"
  shows "time_ordered (snd (sxe_pool_construct env base name num sz sts opts h)) base (now env) (new_queues num s)"
proof -
  obtain h3 where h3: "snd (sxe_pool_construct env base name num sz sts opts h) = construct_free_list base (now env) (unat num) h3"
    "is_timed h3 base"
    using assms that by (simp add: sxe_pool_construct_def Let_def heap_sel)
  have "SXE_POOL_NODES (construct_free_list base (now env) (unat num) h3) base = SXE_POOL_NODES h3 base"
    using free_list_pools [OF h3(2)] by (simp add: SXE_POOL_NODES_def fun_eq_iff)
  then have "time_of (construct_free_list base (now env) (unat num) h3) base i = now env" if "i \<in> set (new_queues num s)" for i
    using that free_list_lasts [OF h3(2), of "now env" "unat num"] by (auto simp: time_of_def new_queues_def split: if_splits)
  then show ?thesis unfolding h3(1) time_ordered_def by (simp add: sorted_wrt_iff_nth_less)
qed

text \<open>In the order of time, the elements that have expired are at the front.\<close>

lemma takeWhile_filter:
  assumes "sorted_wrt (\<lambda>x y. P y \<longrightarrow> P x) xs"
  shows "takeWhile P xs = filter P xs" and "dropWhile P xs = filter (\<lambda>x. \<not> P x) xs"
proof -
  have no: "filter P xs = []" "filter (\<lambda>x. \<not> P x) xs = xs" if "\<forall>x \<in> set xs. \<not> P x" for xs
    using that by (simp_all add: filter_id_conv)
  from assms have "takeWhile P xs = filter P xs \<and> dropWhile P xs = filter (\<lambda>x. \<not> P x) xs"
    by (induction xs) (auto simp: no)
  then show "takeWhile P xs = filter P xs" and "dropWhile P xs = filter (\<lambda>x. \<not> P x) xs" by blast+
qed

lemma expired_order:
  assumes "(a :: u64) \<le> b" and "b \<le> t" and "timeout \<le> t - b"
  shows "timeout \<le> t - a"
proof -
  have "uint (t - b) = uint t - uint b" "uint (t - a) = uint t - uint a"
    using assms by (simp_all add: uint_minus_simple_alt [THEN iffD1] word_le_def)
  then show ?thesis using assms by (simp add: word_le_def)
qed

text \<open>The check subtracts time stamps without sign: an element that entered the state just after the time of the
  check was read counts as expired, whatever the timeout.\<close>

lemma later_stamp_expires:
  assumes "time_of h p i = time_now + 1"
  shows "expired time_now timeout p h i"
proof -
  have "time_now - lasts h (SXE_POOL_NODES h p i) = - 1" using assms by (simp add: time_of_def)
  then show ?thesis by (simp add: expired_def)
qed

section \<open>Properties\<close>

text \<open>C17: no element is ever lost or duplicated. Any sequence of calls that move elements (by index, by index if
  in a state, oldest of a state, touch), by threads that may spin, on a pool whose lock is free, either contains a
  move of an element from a state it is not in, and aborts there, or runs to its end; then the pool satisfies its
  invariant with the queues the same sequence gives on lists, every element is in exactly one queue, once, and the
  numbers of elements the pool reports for its states add up to the number of its elements.\<close>

theorem pool_conservation:
  assumes "pool_inv h p qs" and "released h p"
    and "\<forall>ec \<in> set ecs. call_args (number (pools h p)) (states (pools h p)) ec"
  shows "case queue_calls (map snd ecs) qs of
      None \<Rightarrow> run_calls (SXE_POOL_IMPL_TO_ARRAY p) ecs h = None
    | Some qs' \<Rightarrow> \<exists>h'. run_calls (SXE_POOL_IMPL_TO_ARRAY p) ecs h = Some h' \<and> pool_inv h' p qs' \<and> released h' p \<and>
        (\<forall>i < number (pools h p). (\<Sum>s | s < states (pools h p). count_list (qs' s) i) = 1) \<and>
        (\<Sum>s | s < states (pools h p). unat (the (sxe_pool_get_number_in_state (SXE_POOL_IMPL_TO_ARRAY p) s h'))) =
          unat (number (pools h p))"
proof -
  have "pool_of p (number (pools h p)) (states (pools h p)) h qs" using assms(1,2) by (simp add: pool_of_def)
  note r = run_calls_refine [OF this assms(3)]
  show ?thesis
  proof (cases "queue_calls (map snd ecs) qs")
    case None
    then show ?thesis using r by simp
  next
    case (Some qs')
    then obtain h' where h': "run_calls (SXE_POOL_IMPL_TO_ARRAY p) ecs h = Some h'" "pool_inv h' p qs'" "released h' p"
      "number (pools h' p) = number (pools h p)" "states (pools h' p) = states (pools h p)"
      using r by (auto simp: pool_of_def)
    show ?thesis
      using h'(1-3) queues_count [OF h'(2)] reported_numbers [OF h'(2)] Some unfolding h'(4,5) by auto
  qed
qed

text \<open>A pool of three elements: one is taken, another is moved by index, and the first is put back.\<close>

definition three_calls :: "(thread_env \<times> pool_call) list" where
  "three_calls = [(pool_env, Set_Oldest 0 1), (pool_env, Set_Indexed 0 0 1), (pool_env, Try_Indexed 2 1 0), (pool_env, Touch 1)]"

definition three_queues :: queues where
  "three_queues = the (queue_calls (map snd three_calls) (new_queues 3))"

lemma three_queues: "queue_calls (map snd three_calls) (new_queues 3) = Some three_queues" "three_queues 0 = [2, 1]" "three_queues 1 = [0]"
  by (simp_all add: three_queues_def three_calls_def new_queues_three move_def)

lemma three_calls_args: "\<forall>ec \<in> set three_calls. call_args 3 2 ec"
  by (simp add: three_calls_def pool_env_def states_below_def)

theorem pool_conservation_witness:
  "\<exists>h'. run_calls (SXE_POOL_IMPL_TO_ARRAY 4096) three_calls (pool_of_three 1) = Some h' \<and> pool_inv h' 4096 three_queues \<and>
     released h' 4096 \<and> (\<forall>i < 3. (\<Sum>s | s < 2. count_list (three_queues s) i) = 1)"
  using pool_conservation [of "pool_of_three 1" 4096 "new_queues 3" three_calls] three_calls_args three_queues(1)
  by (auto simp: pool_of_three)

text \<open>C24: in a timed pool every queue stays in the order of its time stamps: if the queues are in this order and
  no stamp is later than \<open>t\<close>, then after any sequence of calls with a clock that starts at \<open>t\<close> or later and does not
  go back they are still in this order, and no stamp is later than the time of the last call.\<close>

theorem pool_time_order:
  assumes "pool_inv h p qs" and "released h p" and "is_timed h p"
    and "\<forall>ec \<in> set ecs. call_args (number (pools h p)) (states (pools h p)) ec"
    and "\<forall>s < states (pools h p). time_ordered h p t (qs s)"
    and "sorted_wrt (\<le>) (t # map (\<lambda>ec. now (fst ec)) ecs)" and "queue_calls (map snd ecs) qs = Some qs'"
  shows "\<exists>h'. run_calls (SXE_POOL_IMPL_TO_ARRAY p) ecs h = Some h' \<and> pool_inv h' p qs' \<and>
    (\<forall>s < states (pools h p). time_ordered h' p (last (t # map (\<lambda>ec. now (fst ec)) ecs)) (qs' s))"
proof -
  have "pool_of p (number (pools h p)) (states (pools h p)) h qs" using assms(1,2) by (simp add: pool_of_def)
  from run_calls_time_ordered [OF this assms(4,3) _ assms(6,7)] show ?thesis
    using assms(5) by (auto simp: pool_of_def)
qed

lemma three_time_ordered: "s < 2 \<Longrightarrow> time_ordered (pool_of_three 2) 4096 1000 (new_queues 3 s)"
  using construct_time_ordered [of 2 pool_env 4096 "''three''" 3 8 2 empty_pool_heap]
  by (auto simp: pool_of_three_def pool_env_def SXE_POOL_OPTION_TIMED_def)

theorem pool_time_order_witness:
  "\<exists>h'. run_calls (SXE_POOL_IMPL_TO_ARRAY 4096) three_calls (pool_of_three 2) = Some h' \<and> pool_inv h' 4096 three_queues \<and>
    (\<forall>s < 2. time_ordered h' 4096 1000 (three_queues s))"
proof -
  have "\<exists>h'. run_calls (SXE_POOL_IMPL_TO_ARRAY 4096) three_calls (pool_of_three 2) = Some h' \<and> pool_inv h' 4096 three_queues \<and>
    (\<forall>s < states (pools (pool_of_three 2) 4096).
       time_ordered h' 4096 (last (1000 # map (\<lambda>ec. now (fst ec)) three_calls)) (three_queues s))"
    by (rule pool_time_order [of _ _ "new_queues 3"])
      (simp_all add: pool_of_three three_calls_args three_time_ordered three_queues(1) SXE_POOL_OPTION_TIMED_def,
       simp_all add: three_calls_def pool_env_def)
  then show ?thesis by (simp add: pool_of_three three_calls_def pool_env_def)
qed

text \<open>C25: the timeout check of one state of a timed pool without a lock ends. When the queue of the state is in
  the order of its time stamps and none of them is later than the time of the check, a callback that moves the
  element it is told of to another state makes the check move exactly the elements that have been in the state for
  at least its timeout, in their order, and leave exactly the others; its assertion that the callback made progress
  holds.\<close>

theorem pool_timeouts_move_expired:
  assumes "pool_inv h p qs" and "s < states (pools h p)" and "t < states (pools h p)" and "s \<noteq> t"
    and "\<not> is_locked h p" and "is_timed h p" and "time_ordered h p time_now (qs s)"
  shows "\<exists>h'. check_state_timeout (move_event env2 s t) env time_now p s timeout SXE_POOL_NO_INDEX 0 h = Some h' \<and>
    pool_inv h' p (qs(
      s := filter (\<lambda>i. time_now - time_of h p i < timeout) (qs s),
      t := qs t @ filter (\<lambda>i. timeout \<le> time_now - time_of h p i) (qs s)))"
proof -
  have no: "SXE_POOL_NO_INDEX \<notin> set (qs s)"
    using queue_invD(5) [OF pool_invD(3) [OF assms(1,2)]] index_not_NO_INDEX by blast
  have e: "expired time_now timeout p h = (\<lambda>i. timeout \<le> time_now - time_of h p i)"
    by (simp add: expired_def time_of_def fun_eq_iff)
  have "sorted_wrt (\<lambda>i j. timeout \<le> time_now - time_of h p j \<longrightarrow> timeout \<le> time_now - time_of h p i) (qs s)"
    using assms(7) expired_order unfolding time_ordered_def sorted_wrt_iff_nth_less by (metis nth_mem)
  note f = takeWhile_filter [OF this]
  from check_state_timeout_moves [OF assms(1-6) no, of env2 env time_now timeout 0] show ?thesis
    unfolding e f by (simp add: not_le)
qed

theorem pool_timeouts_move_expired_witness:
  "\<exists>h'. check_state_timeout (move_event pool_env 0 1) pool_env 1500 4096 0 400 SXE_POOL_NO_INDEX 0 (pool_of_three 2) = Some h' \<and>
    pool_inv h' 4096 ((new_queues 3)(
      0 := filter (\<lambda>i. 1500 - time_of (pool_of_three 2) 4096 i < 400) (new_queues 3 0),
      1 := new_queues 3 1 @ filter (\<lambda>i. 400 \<le> 1500 - time_of (pool_of_three 2) 4096 i) (new_queues 3 0)))"
proof (rule pool_timeouts_move_expired)
  show "time_ordered (pool_of_three 2) 4096 1500 (new_queues 3 0)"
    by (rule time_ordered_cong [OF refl three_time_ordered]) simp_all
qed (simp_all add: pool_of_three SXE_POOL_OPTION_LOCKED_def SXE_POOL_OPTION_TIMED_def)

end
