(* ===== verification/Sxe_Hex.thy ===== *)
theory Sxe_Hex
  imports Kit_Prelude
begin

text \<open>
  Model of \<^verbatim>\<open>lib-sxe-util/sxe-hex.c\<close>: conversions between hexadecimal digits, unsigned integers and
  bytes. A function that writes through an output pointer returns what it wrote beside its result.
\<close>

section \<open>Tables\<close>

definition NA :: u8 where "NA = 0xff"

definition hex_character_to_nibble :: "u8 list" where
  "hex_character_to_nibble =
     replicate 48 NA @
     [0, 1, 2, 3, 4, 5, 6, 7, 8, 9, NA, NA, NA, NA, NA, NA,
      NA, 10, 11, 12, 13, 14, 15, NA, NA, NA, NA, NA, NA, NA, NA, NA,
      NA, NA, NA, NA, NA, NA, NA, NA, NA, NA, NA, NA, NA, NA, NA, NA,
      NA, 10, 11, 12, 13, 14, 15, NA, NA, NA, NA, NA, NA, NA, NA, NA] @
     replicate 144 NA"

definition hex_nibble_to_character :: bytes where
  "hex_nibble_to_character = ascii ''0123456789abcdef''"

definition nibble :: "u8 \<Rightarrow> u8" where
  "nibble c = hex_character_to_nibble ! unat c"

section \<open>Operations\<close>

text \<open>The loops run an index up to the maximum length or the terminator. They return the value of the
  digits, or \<open>None\<close> where the code jumps out on a character that is not a digit.\<close>

function hex_loop :: "bytes \<Rightarrow> nat \<Rightarrow> nat \<Rightarrow> u32 \<Rightarrow> u32 option" where
  "hex_loop hex hex_length_maximum i val =
     (if i < hex_length_maximum \<and> c_at hex i \<noteq> 0
      then if nibble (c_at hex i) = NA then None
           else hex_loop hex hex_length_maximum (i + 1) (push_bit 4 val OR ucast (nibble (c_at hex i)))
      else Some val)"
  by pat_completeness auto
termination
  by (relation "measure (\<lambda>(hex, n, i, val). n - i)") auto

declare hex_loop.simps [simp del]

text \<open>The new content of \<^verbatim>\<open>*value\<close> is \<open>None\<close> when it is left alone.\<close>

definition sxe_valid_hex_to_unsigned :: "bytes \<Rightarrow> u32 \<Rightarrow> SXE_RETURN \<times> u32 option" where
  "sxe_valid_hex_to_unsigned hex hex_length_maximum =
     (case hex_loop hex (unat hex_length_maximum) 0 0 of
        None \<Rightarrow> (SXE_RETURN_ERROR_INTERNAL, None)
      | Some val \<Rightarrow> (SXE_RETURN_OK, Some val))"

definition SXE_UNSIGNED_MAXIMUM :: u32 where "SXE_UNSIGNED_MAXIMUM = - 1"

definition sxe_hex_to_unsigned :: "bytes \<Rightarrow> u32 \<Rightarrow> u32" where
  "sxe_hex_to_unsigned hex hex_length_maximum =
     (case hex_loop hex (unat hex_length_maximum) 0 0 of None \<Rightarrow> SXE_UNSIGNED_MAXIMUM | Some val \<Rightarrow> val)"

text \<open>One round of the loop reads the characters at \<open>i\<close> and \<open>i + 1\<close> and writes byte \<open>i div 2\<close>, the next
  one; \<open>acc\<close> is what has been written.\<close>

function hex_bytes_loop :: "bytes \<Rightarrow> nat \<Rightarrow> nat \<Rightarrow> bytes \<Rightarrow> SXE_RETURN \<times> bytes" where
  "hex_bytes_loop hex hex_length i acc =
     (if i < hex_length
      then let nibble_high = nibble (c_at hex i)
           in if nibble_high = NA then (SXE_RETURN_ERROR_INTERNAL, acc)
              else let nibble_low = nibble (c_at hex (i + 1))
                   in if nibble_low = NA then (SXE_RETURN_ERROR_INTERNAL, acc)
                      else hex_bytes_loop hex hex_length (i + 2) (acc @ [push_bit 4 nibble_high OR nibble_low])
      else (SXE_RETURN_OK, acc))"
  by pat_completeness auto
termination
  by (relation "measure (\<lambda>(hex, n, i, acc). n - i)") auto

declare hex_bytes_loop.simps [simp del]

definition sxe_hex_to_bytes :: "bytes \<Rightarrow> u32 \<Rightarrow> (SXE_RETURN \<times> bytes) option" where
  "sxe_hex_to_bytes hex hex_length =
     do { SXEA1 (hex_length mod 1 = 0); Some (hex_bytes_loop hex (unat hex_length) 0 []) }"

definition sxe_hex_from_bytes :: "bytes \<Rightarrow> bytes" where
  "sxe_hex_from_bytes bs =
     concat (map (\<lambda>b. [hex_nibble_to_character ! unat (drop_bit 4 b), hex_nibble_to_character ! unat (b AND 0xF)]) bs)"

section \<open>Facts about the digits\<close>

lemma nibble_of_digit:
  assumes "n < 16"
  shows "nibble (hex_nibble_to_character ! n) = of_nat n" and "hex_nibble_to_character ! n \<noteq> 0"
proof -
  have "\<forall>n \<in> set [0..<16]. nibble (hex_nibble_to_character ! n) = of_nat n \<and> hex_nibble_to_character ! n \<noteq> 0"
    by (code_simp)
  then show "nibble (hex_nibble_to_character ! n) = of_nat n" and "hex_nibble_to_character ! n \<noteq> 0"
    using assms by auto
qed

lemma nibbles_of_byte:
  "unat (drop_bit 4 (b :: u8)) < 16" "unat (b AND 0xF) < 16"
proof -
  have "unat b < 256" using unsigned_less [of b, where 'a = nat] by simp
  then show "unat (drop_bit 4 b) < 16" by (simp add: drop_bit_eq_div unat_div)
  have "b AND 0xF = take_bit 4 b" by (simp add: take_bit_eq_mask mask_eq_exp_minus_1)
  then show "unat (b AND 0xF) < 16" by (simp add: take_bit_eq_mod unat_mod)
qed

lemma join_nibbles: "push_bit 4 (drop_bit 4 (b :: u8)) OR (b AND 0xF) = b"
proof -
  have "b AND 0xF = take_bit 4 b" by (simp add: take_bit_eq_mask mask_eq_exp_minus_1)
  then show ?thesis by (simp add: bit_eq_iff bit_or_iff bit_push_bit_iff bit_drop_bit_eq bit_take_bit_iff) auto
qed

lemma digit_not_NA: "n < 16 \<Longrightarrow> (of_nat n :: u8) \<noteq> NA"
  by (simp add: NA_def word_unat_eq_iff unat_of_nat)

lemma of_nat_unat_u8: "(of_nat (unat b) :: u8) = b"
  by simp

lemma hex_from_bytes_Cons:
  "sxe_hex_from_bytes (b # bs) =
    [hex_nibble_to_character ! unat (drop_bit 4 b), hex_nibble_to_character ! unat (b AND 0xF)] @ sxe_hex_from_bytes bs"
  by (simp add: sxe_hex_from_bytes_def)

lemma length_hex_from_bytes [simp]: "length (sxe_hex_from_bytes bs) = 2 * length bs"
  by (induction bs) (simp_all add: sxe_hex_from_bytes_def)

lemma hex_bytes_loop_correct:
  "hex_bytes_loop (pre @ sxe_hex_from_bytes bs) (length pre + 2 * length bs) (length pre) acc =
    (SXE_RETURN_OK, acc @ bs)"
proof (induction bs arbitrary: pre acc)
  case Nil
  then show ?case by (subst hex_bytes_loop.simps) simp
next
  case (Cons b bs)
  let ?hi = "hex_nibble_to_character ! unat (drop_bit 4 b)" and ?lo = "hex_nibble_to_character ! unat (b AND 0xF)"
  note d = nibble_of_digit(1) [OF nibbles_of_byte(1) [of b]] nibble_of_digit(1) [OF nibbles_of_byte(2) [of b]]
  have na: "nibble ?hi \<noteq> NA" "nibble ?lo \<noteq> NA"
    using d digit_not_NA [OF nibbles_of_byte(1)] digit_not_NA [OF nibbles_of_byte(2)] by metis+
  have b: "push_bit 4 (nibble ?hi) OR nibble ?lo = b"
    unfolding d of_nat_unat_u8 by (rule join_nibbles)
  have "c_at (pre @ sxe_hex_from_bytes (b # bs)) (length pre) = ?hi"
    "c_at (pre @ sxe_hex_from_bytes (b # bs)) (length pre + 1) = ?lo"
    unfolding hex_from_bytes_Cons by (simp_all add: c_at_def nth_append)
  then have "hex_bytes_loop (pre @ sxe_hex_from_bytes (b # bs)) (length pre + 2 * length (b # bs)) (length pre) acc =
    hex_bytes_loop (pre @ sxe_hex_from_bytes (b # bs)) (length pre + 2 * length (b # bs)) (length pre + 2) (acc @ [b])"
    using na b by (subst hex_bytes_loop.simps) simp
  moreover have "pre @ sxe_hex_from_bytes (b # bs) = (pre @ [?hi, ?lo]) @ sxe_hex_from_bytes bs"
    unfolding hex_from_bytes_Cons by simp
  ultimately show ?case using Cons.IH [of "pre @ [?hi, ?lo]" "acc @ [b]"] by simp
qed

lemma hex_to_bytes_from_bytes:
  assumes "2 * length bs < 2 ^ 32"
  shows "sxe_hex_to_bytes (sxe_hex_from_bytes bs) (of_nat (2 * length bs)) = Some (SXE_RETURN_OK, bs)"
proof -
  have "unat (of_nat (2 * length bs) :: u32) = 2 * length bs" using assms by (simp only: unat_of_nat) simp
  then show ?thesis using hex_bytes_loop_correct [of "[]" bs "[]"] by (simp add: sxe_hex_to_bytes_def)
qed

text \<open>C29: bytes written as hexadecimal digits are read back unchanged.\<close>

theorem hex_roundtrip:
  assumes "2 * length bs < 2 ^ 32"
  shows "sxe_hex_to_bytes (sxe_hex_from_bytes bs) (of_nat (length (sxe_hex_from_bytes bs))) =
    Some (SXE_RETURN_OK, bs)"
  using hex_to_bytes_from_bytes [OF assms] by simp

theorem hex_roundtrip_witness:
  "sxe_hex_to_bytes (sxe_hex_from_bytes [0, 0x9f, 255]) (of_nat (length (sxe_hex_from_bytes [0, 0x9f, 255]))) =
    Some (SXE_RETURN_OK, [0, 0x9f, 255])"
  by (rule hex_roundtrip) simp

end
