(* ===== verification/Sxe_Hash.thy ===== *)
theory Sxe_Hash
  imports Sxe_Pool_Spec Sxe_Hex
begin

text \<open>
  Model of \<^verbatim>\<open>lib-sxe-hash/sxe-hash.c\<close>, \<^verbatim>\<open>sxe-hash-classic.c\<close>, \<^verbatim>\<open>sxe-hash-sha1.c\<close> and the part of
  \<^verbatim>\<open>sxe-hash-sum.c\<close> they use: hash tables whose buckets are the states of a pool.

  The heap of the pools is extended with the \<^verbatim>\<open>SXE_HASH\<close> structure at an address and with the bytes of
  the elements. The structure lies immediately before the pool, whose states are the unused elements, the
  new ones, and one per bucket. A key argument is the bytes it points to. The checksum function behind
  \<^verbatim>\<open>sxe_hash_sum\<close> (by default XXH32, which is not part of this repository) is a parameter.
\<close>

section \<open>Data\<close>

definition SXE_HASH_UNUSED_BUCKET :: u32 where "SXE_HASH_UNUSED_BUCKET = 0"
definition SXE_HASH_NEW_BUCKET :: u32 where "SXE_HASH_NEW_BUCKET = 1"
definition SXE_HASH_BUCKETS_RESERVED :: u32 where "SXE_HASH_BUCKETS_RESERVED = 2"
definition SXE_HASH_KEY_NOT_FOUND :: u32 where "SXE_HASH_KEY_NOT_FOUND = NOT 0"
definition SXE_HASH_FULL :: u32 where "SXE_HASH_FULL = NOT 0"
definition SXE_HASH_OPTION_LOCKED :: u32 where "SXE_HASH_OPTION_LOCKED = 1"
definition SXE_HASH_OPTION_COMPUTED_HASH :: u32 where "SXE_HASH_OPTION_COMPUTED_HASH = 2"
definition SIZEOF_HASH :: u64 where "SIZEOF_HASH = 40"

lemmas hash_consts = SXE_HASH_UNUSED_BUCKET_def SXE_HASH_NEW_BUCKET_def SXE_HASH_BUCKETS_RESERVED_def

record sxe_hash =
  hash_pool :: addr
  hash_count :: u32
  hash_size :: u32
  key_offset :: u32
  key_size :: u32
  hash_options :: u32
  hash_key :: "bytes \<Rightarrow> u32"

record hash_heap = pool_heap +
  hashes :: "addr \<Rightarrow> sxe_hash"
  mem :: "addr \<Rightarrow> u8"

definition SXE_HASH_ARRAY_TO_IMPL :: "addr \<Rightarrow> addr" where
  "SXE_HASH_ARRAY_TO_IMPL array = sxe_pool_to_base array - SIZEOF_HASH"

definition read_bytes :: "(addr \<Rightarrow> u8) \<Rightarrow> addr \<Rightarrow> nat \<Rightarrow> bytes" where
  "read_bytes m a n = map (\<lambda>k. m (a + of_nat k)) [0..<n]"

primrec write_bytes :: "addr \<Rightarrow> bytes \<Rightarrow> (addr \<Rightarrow> u8) \<Rightarrow> addr \<Rightarrow> u8" where
  "write_bytes a [] m = m"
| "write_bytes a (b # bs) m = write_bytes (a + 1) bs (m(a := b))"

text \<open>An unsigned integer in the (little endian) memory.\<close>

definition le_u32 :: "bytes \<Rightarrow> u32" where
  "le_u32 bs = ucast (bs ! 0) OR push_bit 8 (ucast (bs ! 1)) OR push_bit 16 (ucast (bs ! 2)) OR push_bit 24 (ucast (bs ! 3))"

definition u32_le :: "u32 \<Rightarrow> bytes" where
  "u32_le w = map (\<lambda>k. ucast (drop_bit (8 * k) w)) [0..<4]"

section \<open>Construction\<close>

definition sxe_prehashed_key_hash :: "bytes \<Rightarrow> u32" where
  "sxe_prehashed_key_hash key = le_u32 (take 4 key)"

definition set_hash :: "addr \<Rightarrow> (sxe_hash \<Rightarrow> sxe_hash) \<Rightarrow> 'a hash_heap_scheme \<Rightarrow> 'a hash_heap_scheme" where
  "set_hash p f h = h\<lparr>hashes := (hashes h)(p := f (hashes h p))\<rparr>"

text \<open>\<open>hash\<close> is what \<^verbatim>\<open>kit_malloc\<close> returned and \<open>sxe_hash_sum\<close> the value of that function pointer.\<close>

definition sxe_hash_new_plus ::
  "(bytes \<Rightarrow> u32) \<Rightarrow> thread_env \<Rightarrow> addr \<Rightarrow> string \<Rightarrow> u32 \<Rightarrow> u32 \<Rightarrow> u32 \<Rightarrow> u32 \<Rightarrow> u32 \<Rightarrow>
     'a hash_heap_scheme \<Rightarrow> (addr \<times> 'a hash_heap_scheme) option" where
  "sxe_hash_new_plus sxe_hash_sum env hash name element_count element_size koff ksize opts h =
     do {
       SXEA1 (hash \<noteq> 0);
       let (pool, h) = sxe_pool_construct env (hash + SIZEOF_HASH) name element_count (ucast element_size)
             (element_count + SXE_HASH_BUCKETS_RESERVED)
             (if opts AND SXE_HASH_OPTION_LOCKED \<noteq> 0 then SXE_POOL_OPTION_LOCKED else 0) h;
       let h = set_hash hash (\<lambda>s. s\<lparr>hash_pool := pool, hash_count := element_count, hash_size := element_size,
             key_offset := koff, key_size := ksize, hash_options := opts,
             hash_key := (if opts AND SXE_HASH_OPTION_COMPUTED_HASH \<noteq> 0 then sxe_hash_sum
                          else sxe_prehashed_key_hash)\<rparr>) h;
       Some (pool, h)
     }"

definition sxe_hash_reconstruct :: "thread_env \<Rightarrow> addr \<Rightarrow> 'a hash_heap_scheme \<Rightarrow> 'a hash_heap_scheme option" where
  "sxe_hash_reconstruct env array h =
     do {
       let hash = SXE_HASH_ARRAY_TO_IMPL array;
       let H = hashes h hash;
       name \<leftarrow> sxe_pool_get_name array h;
       let (pool, h) = sxe_pool_construct env (hash + SIZEOF_HASH) name (hash_count H) (ucast (hash_size H))
             (hash_count H + SXE_HASH_BUCKETS_RESERVED)
             (if hash_options H AND SXE_HASH_OPTION_LOCKED \<noteq> 0 then SXE_POOL_OPTION_LOCKED else 0) h;
       Some (set_hash hash (hash_pool_update (\<lambda>_. pool)) h)
     }"

section \<open>Operations\<close>

definition sxe_hash_take :: "thread_env \<Rightarrow> addr \<Rightarrow> 'a hash_heap_scheme \<Rightarrow> (u32 \<times> 'a hash_heap_scheme) option" where
  "sxe_hash_take env array h =
     do {
       let hash = SXE_HASH_ARRAY_TO_IMPL array;
       (i, h) \<leftarrow> sxe_pool_set_oldest_element_state env (hash_pool (hashes h hash))
                   SXE_HASH_UNUSED_BUCKET SXE_HASH_NEW_BUCKET h;
       Some (if i = SXE_POOL_NO_INDEX then SXE_HASH_FULL else i, h)
     }"

text \<open>The bucket of a key; the remainder by a count of zero traps.\<close>

definition hash_bucket :: "sxe_hash \<Rightarrow> bytes \<Rightarrow> u32 option" where
  "hash_bucket H key =
     (if hash_count H = 0 then None
      else Some (hash_key H key mod hash_count H + SXE_HASH_BUCKETS_RESERVED))"

text \<open>The address of an element's key. A lookup computes the offset of the element in 32 bits and adds it and the
  offset of the key to the pointer; an addition computes the sum of both offsets in 32 bits.\<close>

definition key_address :: "addr \<Rightarrow> sxe_hash \<Rightarrow> u32 \<Rightarrow> addr" where
  "key_address array H i = array + ucast (i * hash_size H) + ucast (key_offset H)"

definition add_key_address :: "addr \<Rightarrow> sxe_hash \<Rightarrow> u32 \<Rightarrow> addr" where
  "add_key_address array H i = array + ucast (i * hash_size H + key_offset H)"

abbreviation element_key :: "addr \<Rightarrow> sxe_hash \<Rightarrow> 'a hash_heap_scheme \<Rightarrow> u32 \<Rightarrow> bytes" where
  "element_key array H h i \<equiv> read_bytes (mem h) (key_address array H i) (unat (key_size H))"

partial_function (option) look_loop ::
  "thread_env \<Rightarrow> addr \<Rightarrow> sxe_hash \<Rightarrow> bytes \<Rightarrow> sxe_pool_walker \<Rightarrow> 'a hash_heap_scheme \<Rightarrow>
     (u32 \<times> 'a hash_heap_scheme) option" where
  [code]: "look_loop env array H key walker h =
     do {
       (i, walker, h) \<leftarrow> sxe_pool_walker_step env walker h;
       if i = SXE_HASH_KEY_NOT_FOUND then Some (i, h)
       else if element_key array H h i = key then Some (i, h)
       else look_loop env array H key walker h
     }"

definition sxe_hash_look ::
  "thread_env \<Rightarrow> addr \<Rightarrow> bytes \<Rightarrow> 'a hash_heap_scheme \<Rightarrow> (u32 \<times> 'a hash_heap_scheme) option" where
  "sxe_hash_look env array key h =
     do {
       let H = hashes h (SXE_HASH_ARRAY_TO_IMPL array);
       bucket \<leftarrow> hash_bucket H key;
       walker \<leftarrow> sxe_pool_walker_construct array bucket h;
       look_loop env array H key walker h
     }"

definition sxe_hash_add :: "thread_env \<Rightarrow> addr \<Rightarrow> u32 \<Rightarrow> 'a hash_heap_scheme \<Rightarrow> 'a hash_heap_scheme option" where
  "sxe_hash_add env array i h =
     do {
       let H = hashes h (SXE_HASH_ARRAY_TO_IMPL array);
       bucket \<leftarrow> hash_bucket H (read_bytes (mem h) (add_key_address array H i) (unat (key_size H)));
       (_, h) \<leftarrow> sxe_pool_set_indexed_element_state env array i SXE_HASH_NEW_BUCKET bucket h;
       Some h
     }"

definition sxe_hash_give :: "thread_env \<Rightarrow> addr \<Rightarrow> u32 \<Rightarrow> 'a hash_heap_scheme \<Rightarrow> 'a hash_heap_scheme option" where
  "sxe_hash_give env array i h =
     do {
       let hash = SXE_HASH_ARRAY_TO_IMPL array;
       state \<leftarrow> sxe_pool_index_to_state array i h;
       (_, h) \<leftarrow> sxe_pool_set_indexed_element_state env (hash_pool (hashes h hash)) i state SXE_HASH_UNUSED_BUCKET h;
       Some h
     }"

section \<open>The classic hash: SHA1 keys in hexadecimal to unsigned values\<close>

definition SIZEOF_SHA1 :: nat where "SIZEOF_SHA1 = 20"
definition SIZEOF_KEY_VALUE_PAIR :: nat where "SIZEOF_KEY_VALUE_PAIR = 24"
definition SXE_HASH_SHA1_AS_HEX_LENGTH :: u32 where "SXE_HASH_SHA1_AS_HEX_LENGTH = 40"

definition sxe_hash_sha1_from_hex :: "bytes \<Rightarrow> (SXE_RETURN \<times> bytes) option" where
  "sxe_hash_sha1_from_hex sha1_in_hex = sxe_hex_to_bytes sha1_in_hex SXE_HASH_SHA1_AS_HEX_LENGTH"

definition htonl :: "u32 \<Rightarrow> u32" where
  "htonl w = push_bit 24 w OR push_bit 8 (w AND 0xff00) OR (drop_bit 8 w AND 0xff00) OR drop_bit 24 w"

text \<open>\<^verbatim>\<open>%08x\<close>\<close>

definition format_08x :: "u32 \<Rightarrow> bytes" where
  "format_08x w = map (\<lambda>k. hex_nibble_to_character ! unat (drop_bit (4 * k) w AND 15)) (rev [0..<8])"

text \<open>The words of the structure lie in memory one after the other.\<close>

definition sxe_hash_sha1_to_hex :: "bytes \<Rightarrow> u32 \<Rightarrow> (SXE_RETURN \<times> bytes) option" where
  "sxe_hash_sha1_to_hex sha1 sha1_in_hex_length =
     do {
       SXEA1 (sha1_in_hex_length \<ge> SXE_HASH_SHA1_AS_HEX_LENGTH + 1);
       Some (SXE_RETURN_OK, concat (map (\<lambda>k. format_08x (htonl (le_u32 (take 4 (drop (4 * k) sha1))))) [0..<5]))
     }"

definition sxe_hash_new ::
  "(bytes \<Rightarrow> u32) \<Rightarrow> thread_env \<Rightarrow> addr \<Rightarrow> string \<Rightarrow> u32 \<Rightarrow> 'a hash_heap_scheme \<Rightarrow>
     (addr \<times> 'a hash_heap_scheme) option" where
  "sxe_hash_new sxe_hash_sum env hash name element_count h =
     sxe_hash_new_plus sxe_hash_sum env hash name element_count (of_nat SIZEOF_KEY_VALUE_PAIR) 0 (of_nat SIZEOF_SHA1) 0 h"

definition pair_address :: "addr \<Rightarrow> u32 \<Rightarrow> addr" where
  "pair_address pool i = pool + ucast i * of_nat SIZEOF_KEY_VALUE_PAIR"

definition sxe_hash_set ::
  "thread_env \<Rightarrow> addr \<Rightarrow> bytes \<Rightarrow> u32 \<Rightarrow> u32 \<Rightarrow> 'a hash_heap_scheme \<Rightarrow> (u32 \<times> 'a hash_heap_scheme) option" where
  "sxe_hash_set env array sha1_as_char sha1_key_len value h =
     do {
       let hash = SXE_HASH_ARRAY_TO_IMPL array;
       SXEA6 (sha1_key_len = SXE_HASH_SHA1_AS_HEX_LENGTH);
       (i, h) \<leftarrow> sxe_hash_take env array h;
       if i = SXE_HASH_FULL then Some (i, h)
       else do {
         let pair = pair_address (hash_pool (hashes h hash)) i;
         (_, sha1) \<leftarrow> sxe_hash_sha1_from_hex sha1_as_char;
         let h = h\<lparr>mem := write_bytes pair sha1 (mem h)\<rparr>;
         let h = h\<lparr>mem := write_bytes (pair + of_nat SIZEOF_SHA1) (u32_le value) (mem h)\<rparr>;
         h \<leftarrow> sxe_hash_add env array i h;
         Some (i, h)
       }
     }"

datatype hash_action = SXE_HASH_ACTION_NONE | SXE_HASH_ACTION_REMOVE

definition sxe_hash_action ::
  "thread_env \<Rightarrow> addr \<Rightarrow> bytes \<Rightarrow> u32 \<Rightarrow> hash_action \<Rightarrow> 'a hash_heap_scheme \<Rightarrow>
     (u32 \<times> 'a hash_heap_scheme) option" where
  "sxe_hash_action env array sha1_as_char sha1_key_len action h =
     do {
       let hash = SXE_HASH_ARRAY_TO_IMPL array;
       SXEA6 (sha1_key_len = SXE_HASH_SHA1_AS_HEX_LENGTH);
       (result, sha1) \<leftarrow> sxe_hash_sha1_from_hex sha1_as_char;
       if result \<noteq> SXE_RETURN_OK then Some (SXE_HASH_KEY_NOT_FOUND, h)
       else do {
         (i, h) \<leftarrow> sxe_hash_look env array sha1 h;
         if i = SXE_HASH_KEY_NOT_FOUND then Some (SXE_HASH_KEY_NOT_FOUND, h)
         else do {
           let value = le_u32 (read_bytes (mem h)
                 (pair_address (hash_pool (hashes h hash)) i + of_nat SIZEOF_SHA1) 4);
           h \<leftarrow> (if action = SXE_HASH_ACTION_REMOVE then sxe_hash_give env array i h else Some h);
           Some (value, h)
         }
       }
     }"

definition sxe_hash_get ::
  "thread_env \<Rightarrow> addr \<Rightarrow> bytes \<Rightarrow> u32 \<Rightarrow> 'a hash_heap_scheme \<Rightarrow> (u32 \<times> 'a hash_heap_scheme) option" where
  "sxe_hash_get env array sha1_as_char sha1_key_len h =
     sxe_hash_action env array sha1_as_char sha1_key_len SXE_HASH_ACTION_NONE h"

definition sxe_hash_remove ::
  "thread_env \<Rightarrow> addr \<Rightarrow> bytes \<Rightarrow> u32 \<Rightarrow> 'a hash_heap_scheme \<Rightarrow> (u32 \<times> 'a hash_heap_scheme) option" where
  "sxe_hash_remove env array sha1_as_char sha1_key_len h =
     sxe_hash_action env array sha1_as_char sha1_key_len SXE_HASH_ACTION_REMOVE h"

end
