(* ===== verification/Kit_Store.thy ===== *)
theory Kit_Store
  imports Kit_Prelude
begin

text \<open>
  The interface of a store of values by key, which the hash tables and the dictionaries implement. A store
  represents a finite map; \<open>put\<close> adds a key that is not in the map, exactly when the store accepts it;
  \<open>get\<close> gives the value of a key, or that there is none. A bounded store accepts as many keys as it has free
  places. Clients are proved once against the interfaces.
\<close>

text \<open>Putting a list of pairs; the result says which of them were stored.\<close>

fun put_all :: "('k \<Rightarrow> 'v \<Rightarrow> 'h \<Rightarrow> (bool \<times> 'h) option) \<Rightarrow> ('k \<times> 'v) list \<Rightarrow> 'h \<Rightarrow> (bool list \<times> 'h) option" where
  "put_all put [] h = Some ([], h)"
| "put_all put ((k, v) # kvs) h = do { (ok, h) \<leftarrow> put k v h; (oks, h) \<leftarrow> put_all put kvs h; Some (ok # oks, h) }"

text \<open>The pairs that were stored\<close>

definition stored :: "('k \<times> 'v) list \<Rightarrow> bool list \<Rightarrow> ('k \<times> 'v) list" where
  "stored kvs oks = map fst (filter snd (zip kvs oks))"

lemma stored_simps [simp]:
  "stored [] oks = []" "stored (kv # kvs) (ok # oks) = (if ok then kv # stored kvs oks else stored kvs oks)"
  by (simp_all add: stored_def)

lemma set_stored: "set (stored kvs oks) \<subseteq> set kvs"
  by (auto simp: stored_def dest: set_zip_leftD)

lemma put_all_snoc:
  "put_all put (kvs @ [(k, v)]) h = do { (oks, h) \<leftarrow> put_all put kvs h; (ok, h) \<leftarrow> put k v h; Some (oks @ [ok], h) }"
  by (induction put kvs h rule: put_all.induct) (auto split: Option.bind_splits)

locale kv_store =
  fixes repr :: "'h \<Rightarrow> ('k \<rightharpoonup> 'v) \<Rightarrow> bool"
    and valid :: "'k \<Rightarrow> bool"
    and storable :: "'v \<Rightarrow> bool"
    and put :: "'k \<Rightarrow> 'v \<Rightarrow> 'h \<Rightarrow> (bool \<times> 'h) option"
    and get :: "'k \<Rightarrow> 'h \<Rightarrow> ('v option \<times> 'h) option"
    and accepts :: "'k \<Rightarrow> 'h \<Rightarrow> bool"
  assumes put_repr: "repr h m \<Longrightarrow> valid k \<Longrightarrow> storable v \<Longrightarrow> m k = None \<Longrightarrow>
      \<exists>h'. put k v h = Some (accepts k h, h') \<and> repr h' (if accepts k h then m(k \<mapsto> v) else m)"
    and get_repr: "repr h m \<Longrightarrow> valid k \<Longrightarrow> \<exists>h'. get k h = Some (m k, h') \<and> repr h' m"
begin

text \<open>A batch of new keys: the store represents the map with the pairs it accepted, each at its turn.\<close>

lemma put_all_repr:
  assumes "repr h m" and "distinct (map fst kvs)" and "\<And>k v. (k, v) \<in> set kvs \<Longrightarrow> valid k \<and> storable v \<and> m k = None"
  shows "\<exists>oks h'. put_all put kvs h = Some (oks, h') \<and> length oks = length kvs \<and> repr h' (m ++ map_of (stored kvs oks)) \<and>
    (\<forall>i < length kvs. \<exists>hi. put_all put (take i kvs) h = Some (take i oks, hi) \<and> oks ! i = accepts (fst (kvs ! i)) hi)"
  using assms
proof (induction kvs rule: rev_induct)
  case Nil
  then show ?case by simp
next
  case (snoc kv kvs)
  obtain k v where kv: "kv = (k, v)" by (cases kv)
  obtain oks h1 where h1: "put_all put kvs h = Some (oks, h1)" "length oks = length kvs" "repr h1 (m ++ map_of (stored kvs oks))"
    "\<forall>i < length kvs. \<exists>hi. put_all put (take i kvs) h = Some (take i oks, hi) \<and> oks ! i = accepts (fst (kvs ! i)) hi"
  proof -
    have "distinct (map fst kvs)" "\<And>k v. (k, v) \<in> set kvs \<Longrightarrow> valid k \<and> storable v \<and> m k = None"
      using snoc.prems(2,3) by auto
    from snoc.IH [OF snoc.prems(1) this] show ?thesis using that by blast
  qed
  have "k \<notin> fst ` set (stored kvs oks)" using snoc.prems(2) set_stored [of kvs oks] by (auto simp: kv image_iff)
  then have nk: "map_of (stored kvs oks) k = None" by (simp add: map_of_eq_None_iff)
  then have "(m ++ map_of (stored kvs oks)) k = None" using snoc.prems(3) [of k v] by (simp add: kv map_add_None)
  then obtain h2 where h2: "put k v h1 = Some (accepts k h1, h2)"
    "repr h2 (if accepts k h1 then (m ++ map_of (stored kvs oks))(k \<mapsto> v) else m ++ map_of (stored kvs oks))"
    using put_repr [OF h1(3), of k v] snoc.prems(3) [of k v] by (auto simp: kv)
  have "map_of (stored (kvs @ [kv]) (oks @ [accepts k h1])) = (if accepts k h1 then (map_of (stored kvs oks))(k \<mapsto> v) else map_of (stored kvs oks))"
    using h1(2) nk by (auto simp: stored_def kv fun_eq_iff map_add_def split: option.splits)
  then have "m ++ map_of (stored (kvs @ [kv]) (oks @ [accepts k h1])) =
      (if accepts k h1 then (m ++ map_of (stored kvs oks))(k \<mapsto> v) else m ++ map_of (stored kvs oks))"
    by simp
  with h2(2) have "repr h2 (m ++ map_of (stored (kvs @ [kv]) (oks @ [accepts k h1])))" by simp
  moreover have "put_all put (kvs @ [kv]) h = Some (oks @ [accepts k h1], h2)" using h1(1) h2(1) by (simp add: kv put_all_snoc)
  moreover have "\<exists>hi. put_all put (take i (kvs @ [kv])) h = Some (take i (oks @ [accepts k h1]), hi) \<and>
      (oks @ [accepts k h1]) ! i = accepts (fst ((kvs @ [kv]) ! i)) hi" if "i < length (kvs @ [kv])" for i
    using that h1 by (cases "i < length kvs") (auto simp: nth_append kv less_Suc_eq)
  ultimately show ?case using h1(2) by (intro exI [of _ "oks @ [accepts k h1]"] exI [of _ h2]) simp
qed

text \<open>Afterwards every key has the value it had before or was stored with, and no other key has one.\<close>

lemma get_after_put_all:
  assumes "repr h m" and "distinct (map fst kvs)" and "\<And>k v. (k, v) \<in> set kvs \<Longrightarrow> valid k \<and> storable v \<and> m k = None"
    and "put_all put kvs h = Some (oks, h1)" and "valid k"
  shows "\<exists>h2. get k h1 = Some ((m ++ map_of (stored kvs oks)) k, h2)"
proof -
  have "repr h1 (m ++ map_of (stored kvs oks))" using put_all_repr [OF assms(1-3)] assms(4) by auto
  then show ?thesis using get_repr [OF _ assms(5)] by blast
qed

end

locale bounded_store = kv_store +
  fixes free :: "'h \<Rightarrow> nat"
  assumes accepts_free: "repr h m \<Longrightarrow> accepts k h \<longleftrightarrow> 0 < free h"
    and put_free: "repr h m \<Longrightarrow> valid k \<Longrightarrow> storable v \<Longrightarrow> m k = None \<Longrightarrow> put k v h = Some (ok, h') \<Longrightarrow> free h' = free h - 1"
begin

text \<open>A batch of new keys fills the free places in order, and the rest of it is refused.\<close>

lemma put_all_bounded:
  assumes "repr h m" and "distinct (map fst kvs)" and "\<And>k v. (k, v) \<in> set kvs \<Longrightarrow> valid k \<and> storable v \<and> m k = None"
  shows "\<exists>h'. put_all put kvs h = Some (map (\<lambda>i. i < free h) [0..<length kvs], h') \<and> repr h' (m ++ map_of (take (free h) kvs))"
  using assms
proof (induction kvs arbitrary: h m)
  case Nil
  then show ?case by simp
next
  case (Cons kv kvs)
  obtain k v where kv: "kv = (k, v)" by (cases kv)
  have k: "valid k" "storable v" "m k = None" using Cons.prems(3) [of k v] kv by auto
  let ?m = "if 0 < free h then m(k \<mapsto> v) else m"
  obtain h1 where h1: "put k v h = Some (0 < free h, h1)" "repr h1 ?m"
    using put_repr [OF Cons.prems(1) k] accepts_free [OF Cons.prems(1)] by auto
  have f: "free h1 = free h - 1" using put_free [OF Cons.prems(1) k h1(1)] .
  have nk: "k \<notin> fst ` set kvs" using Cons.prems(2) kv by force
  have pre: "valid k' \<and> storable v' \<and> ?m k' = None" if "(k', v') \<in> set kvs" for k' v'
    using Cons.prems(3) [of k' v'] that nk by (auto simp: image_iff)
  have "distinct (map fst kvs)" using Cons.prems(2) by simp
  from Cons.IH [OF h1(2) this pre] obtain h' where h': "put_all put kvs h1 = Some (map (\<lambda>i. i < free h - 1) [0..<length kvs], h')"
    "repr h' (?m ++ map_of (take (free h - 1) kvs))" by (auto simp: f)
  have "map_of (take (free h - 1) kvs) k = None" using nk by (force simp: map_of_eq_None_iff dest: in_set_takeD)
  then have "?m ++ map_of (take (free h - 1) kvs) = m ++ map_of (take (free h) (kv # kvs))"
    by (cases "free h") (auto simp: kv fun_eq_iff map_add_def split: option.splits)
  moreover have "(0 < free h) # map (\<lambda>i. i < free h - 1) [0..<length kvs] = map (\<lambda>i. i < free h) [0..<length (kv # kvs)]"
    by (rule nth_equalityI) (auto simp: nth_Cons less_diff_conv split: nat.splits simp del: upt_Suc)
  ultimately show ?case using h1(1) h' by (simp add: kv del: upt_Suc)
qed

end

end
