(* ===== verification/Sxe_Hash_Spec.thy ===== *)
theory Sxe_Hash_Spec
  imports Sxe_Hash Kit_Store
begin

text \<open>
  The contract of the hash tables: a table is a finite map, its elements lie in the bucket of their key,
  looking a key up finds an element with that key if there is one, and the classic hash implements the
  interface of a map from SHA1 sums to unsigned values.
\<close>

section \<open>What the pool leaves alone\<close>

lemma more_list_ops [heap_sel]:
  "pool_heap.more (set_nxt p v h) = pool_heap.more h" "pool_heap.more (set_prv p v h) = pool_heap.more h"
  "pool_heap.more (set_node_id p i h) = pool_heap.more h" "pool_heap.more (set_len l n32 h) = pool_heap.more h"
  "pool_heap.more (set_pool p f h) = pool_heap.more h" "pool_heap.more (set_last n w h) = pool_heap.more h"
  by (simp_all add: set_nxt_def set_prv_def set_node_id_def set_len_def set_pool_def set_last_def)

lemma more_push [heap_sel]: "pool_heap.more (sxe_list_push l ob h) = pool_heap.more h"
  by (simp add: sxe_list_push_def Let_def heap_sel)

lemma more_remove:
  assumes "sxe_list_remove l ob h = Some (r, h')"
  shows "pool_heap.more h' = pool_heap.more h"
  using assms unfolding sxe_list_remove_def Let_def bind_eq_Some_conv
  by (elim exE conjE) (simp only: option.inject prod.inject, elim conjE, hypsubst, simp only: heap_sel)

lemma more_lock: "sxe_pool_lock env p h = (r, h') \<Longrightarrow> pool_heap.more h' = pool_heap.more h"
  by (auto simp: sxe_pool_lock_def heap_sel Let_def split: if_splits prod.splits)

lemma more_unlock: "sxe_pool_unlock env p h = Some h' \<Longrightarrow> pool_heap.more h' = pool_heap.more h"
  by (auto simp: sxe_pool_unlock_def heap_sel bind_eq_Some_conv split: if_splits)

lemma more_unlocked:
  assumes "sxe_pool_set_indexed_element_state_unlocked env a i old new ab h = Some (r, h')"
  shows "pool_heap.more h' = pool_heap.more h"
  using assms
  by (auto simp: sxe_pool_set_indexed_element_state_unlocked_def Let_def heap_sel bind_eq_Some_conv
      split: if_splits dest!: more_remove)

lemma more_set_indexed:
  assumes "sxe_pool_set_indexed_element_state env a i old new h = Some (r, h')"
  shows "pool_heap.more h' = pool_heap.more h"
  using assms
  by (auto simp: sxe_pool_set_indexed_element_state_def Let_def bind_eq_Some_conv
      split: if_splits prod.splits dest!: more_lock more_unlocked more_unlock)

lemma more_set_oldest:
  assumes "sxe_pool_set_oldest_element_state env a old new h = Some (r, h')"
  shows "pool_heap.more h' = pool_heap.more h"
  using assms
  by (auto simp: sxe_pool_set_oldest_element_state_def Let_def bind_eq_Some_conv
      split: if_splits prod.splits dest!: more_lock more_unlocked more_unlock)

lemma hash_fields_of_more:
  fixes h h' :: "'a hash_heap_scheme"
  assumes "pool_heap.more h' = pool_heap.more h"
  shows "hashes h' = hashes h" and "mem h' = mem h"
  using assms by (cases h; cases h'; simp)+

section \<open>Bytes in memory\<close>

lemma write_bytes_outside:
  assumes "\<And>k. k < length bs \<Longrightarrow> x \<noteq> a + of_nat k"
  shows "write_bytes a bs m x = m x"
  using assms
proof (induction bs arbitrary: a m)
  case (Cons b bs)
  have "x \<noteq> (a + 1) + of_nat k" if "k < length bs" for k
    using Cons.prems [of "Suc k"] that by (simp add: add.assoc)
  moreover have "x \<noteq> a" using Cons.prems [of 0] by simp
  ultimately show ?case using Cons.IH [of "a + 1" "m(a := b)"] by (simp del: fun_upd_apply) simp
qed simp

lemma write_bytes_inside:
  assumes "length bs \<le> 2 ^ 64" and "k < length bs"
  shows "write_bytes a bs m (a + of_nat k) = bs ! k"
  using assms
proof (induction bs arbitrary: a m k)
  case (Cons b bs)
  show ?case
  proof (cases k)
    case 0
    have "a \<noteq> (a + 1) + of_nat j" if "j < length bs" for j
    proof -
      have "unat (of_nat (Suc j) :: addr) = Suc j" using that Cons.prems(1) by (simp only: unat_of_nat) simp
      then have "(of_nat (Suc j) :: addr) \<noteq> 0" by (metis unat_0 nat.distinct(1))
      then show ?thesis by (simp add: add.assoc)
    qed
    then have "write_bytes (a + 1) bs (m(a := b)) a = (m(a := b)) a" by (intro write_bytes_outside) simp
    then show ?thesis using 0 by simp
  next
    case (Suc j)
    then show ?thesis using Cons.IH [of j "a + 1" "m(a := b)"] Cons.prems by (simp add: add.assoc del: fun_upd_apply)
  qed
qed simp

lemma read_write_same:
  "length bs \<le> 2 ^ 64 \<Longrightarrow> n = length bs \<Longrightarrow> read_bytes (write_bytes a bs m) a n = bs"
  by (auto simp: read_bytes_def write_bytes_inside intro!: nth_equalityI)

lemma read_bytes_cong:
  "(\<And>k. k < n \<Longrightarrow> m' (a + of_nat k) = m (a + of_nat k)) \<Longrightarrow> read_bytes m' a n = read_bytes m a n"
  by (simp add: read_bytes_def)

lemma le_u32_of_u32 [simp]: "le_u32 (u32_le w) = w"
proof -
  have *: "u32_le w = [ucast w, ucast (drop_bit 8 w), ucast (drop_bit 16 w), ucast (drop_bit 24 w)]"
    by (simp add: u32_le_def upt_conv_Cons)
  show ?thesis unfolding le_u32_def *
    apply (rule bit_word_eqI)
    subgoal for n by (cases "n < 16"; cases "n < 24") (auto simp: bit_simps)
    done
qed

lemma length_u32_le [simp]: "length (u32_le w) = 4"
  by (simp add: u32_le_def)

section \<open>The invariant of a hash\<close>

text \<open>
  The pool behind the array satisfies its invariant, is not locked and has a state per bucket, the array has at
  most 4 gigabytes and keys begin inside their elements, so that a lookup and an addition read the same key, and
  every element that is in a bucket is in the bucket of its key.
\<close>

abbreviation the_hash :: "'a hash_heap_scheme \<Rightarrow> addr \<Rightarrow> sxe_hash" where
  "the_hash h array \<equiv> hashes h (SXE_HASH_ARRAY_TO_IMPL array)"

abbreviation the_pool :: "addr \<Rightarrow> addr" where
  "the_pool array \<equiv> SXE_POOL_ARRAY_TO_IMPL array"

definition hash_shape :: "'a hash_heap_scheme \<Rightarrow> addr \<Rightarrow> bool" where
  "hash_shape h array \<longleftrightarrow>
     hash_pool (the_hash h array) = array \<and> 0 < hash_count (the_hash h array) \<and>
     unat (hash_count (the_hash h array)) + 2 < 2 ^ 32 \<and>
     unat (hash_count (the_hash h array)) * unat (hash_size (the_hash h array)) \<le> 2 ^ 32 \<and>
     unat (key_offset (the_hash h array)) < unat (hash_size (the_hash h array)) \<and>
     number (pools h (the_pool array)) = hash_count (the_hash h array) \<and>
     states (pools h (the_pool array)) = hash_count (the_hash h array) + 2 \<and>
     \<not> is_locked h (the_pool array)"

definition hash_inv :: "'a hash_heap_scheme \<Rightarrow> addr \<Rightarrow> queues \<Rightarrow> bool" where
  "hash_inv h array qs \<longleftrightarrow>
     hash_shape h array \<and> pool_inv h (the_pool array) qs \<and>
     (\<forall>b i. 2 \<le> b \<longrightarrow> b < states (pools h (the_pool array)) \<longrightarrow> i \<in> set (qs b) \<longrightarrow>
        hash_bucket (the_hash h array) (element_key array (the_hash h array) h i) = Some b)"

lemma add_key_address_eq:
  assumes "hash_shape h array" and "i < hash_count (the_hash h array)"
  shows "add_key_address array (the_hash h array) i = key_address array (the_hash h array) i"
proof -
  let ?H = "the_hash h array"
  have b: "unat (hash_count ?H) * unat (hash_size ?H) \<le> 2 ^ 32" "unat (key_offset ?H) < unat (hash_size ?H)"
    using assms(1) by (simp_all add: hash_shape_def)
  have "(unat i + 1) * unat (hash_size ?H) \<le> unat (hash_count ?H) * unat (hash_size ?H)"
    using assms(2) by (intro mult_le_mono1) (simp add: word_less_nat_alt)
  then have s: "unat i * unat (hash_size ?H) + unat (key_offset ?H) < 2 ^ 32" using b by simp
  then have m: "unat (i * hash_size ?H) = unat i * unat (hash_size ?H)" by (intro unat_mult_no_overflow) simp
  have a: "unat (i * hash_size ?H + key_offset ?H) = unat i * unat (hash_size ?H) + unat (key_offset ?H)"
    using s by (subst unat_plus_no_overflow) (simp_all add: m)
  have "unat (ucast (i * hash_size ?H) + ucast (key_offset ?H) :: addr) =
      unat (ucast (i * hash_size ?H) :: addr) + unat (ucast (key_offset ?H) :: addr)"
    using s by (intro unat_plus_no_overflow) (simp add: m)
  then have "unat (ucast (i * hash_size ?H + key_offset ?H) :: addr) =
      unat (ucast (i * hash_size ?H) + ucast (key_offset ?H) :: addr)"
    by (simp add: a m)
  then have "(ucast (i * hash_size ?H + key_offset ?H) :: addr) = ucast (i * hash_size ?H) + ucast (key_offset ?H)"
    by (simp only: word_unat_eq_iff)
  then show ?thesis by (simp add: add_key_address_def key_address_def add.assoc)
qed

text \<open>The elements of the table.\<close>

definition live :: "'a hash_heap_scheme \<Rightarrow> addr \<Rightarrow> u32 \<Rightarrow> bool" where
  "live h array i \<longleftrightarrow> i < number (pools h (the_pool array)) \<and> 2 \<le> element_state h (the_pool array) i"

lemma IMPL_TO_ARRAY_TO_IMPL [simp]: "SXE_POOL_IMPL_TO_ARRAY (SXE_POOL_ARRAY_TO_IMPL a) = a"
  by (simp add: SXE_POOL_ARRAY_TO_IMPL_def SXE_POOL_IMPL_TO_ARRAY_def)

lemma hash_bucket_range:
  assumes "hash_shape h array"
  shows "\<exists>b. hash_bucket (the_hash h array) key = Some b \<and> 2 \<le> b \<and> b < states (pools h (the_pool array))"
proof -
  let ?H = "the_hash h array"
  have c: "0 < hash_count ?H" "unat (hash_count ?H) + 2 < 2 ^ 32"
    "states (pools h (the_pool array)) = hash_count ?H + 2"
    using assms by (simp_all add: hash_shape_def)
  let ?m = "hash_key ?H key mod hash_count ?H"
  have "unat ?m < unat (hash_count ?H)" using c(1) by (simp add: unat_mod word_less_nat_alt)
  moreover have u: "unat (x + 2) = unat x + 2" if "unat x + 2 < 2 ^ 32" for x :: u32
    using that by (simp add: unat_word_ariths)
  ultimately have "unat (?m + 2) = unat ?m + 2" "unat (hash_count ?H + 2) = unat (hash_count ?H) + 2"
    using c(2) by (intro u; linarith)+
  then have "unat (2 :: u32) \<le> unat (?m + 2)" "unat (?m + 2) < unat (hash_count ?H + 2)"
    using \<open>unat ?m < unat (hash_count ?H)\<close> by simp_all
  then have "2 \<le> ?m + 2" "?m + 2 < hash_count ?H + 2"
    by (simp_all only: word_le_nat_alt word_less_nat_alt)
  then show ?thesis using c(1,3) by (simp add: hash_bucket_def hash_consts word_neq_0_conv)
qed

lemma hash_invD:
  assumes "hash_inv h array qs"
  shows "hash_shape h array" and "pool_inv h (the_pool array) qs" and "\<not> is_locked h (the_pool array)"
    and "2 \<le> b \<Longrightarrow> b < states (pools h (the_pool array)) \<Longrightarrow> i \<in> set (qs b) \<Longrightarrow>
      hash_bucket (the_hash h array) (element_key array (the_hash h array) h i) = Some b"
  using assms unfolding hash_inv_def hash_shape_def by blast+

lemma live_iff:
  assumes inv: "pool_inv h (the_pool array) qs"
  shows "live h array i \<longleftrightarrow> (\<exists>b. 2 \<le> b \<and> b < states (pools h (the_pool array)) \<and> i \<in> set (qs b))"
proof -
  have q: "i \<in> set (qs b) \<longleftrightarrow> i < number (pools h (the_pool array)) \<and> element_state h (the_pool array) i = b"
    if "b < states (pools h (the_pool array))" for b
    using queue_invD(5) [OF pool_invD(3) [OF inv that]] .
  show ?thesis
  proof
    assume "live h array i"
    then show "\<exists>b. 2 \<le> b \<and> b < states (pools h (the_pool array)) \<and> i \<in> set (qs b)"
      using q pool_invD(2) [OF inv] unfolding live_def by metis
  next
    assume "\<exists>b. 2 \<le> b \<and> b < states (pools h (the_pool array)) \<and> i \<in> set (qs b)"
    then show "live h array i" using q unfolding live_def by metis
  qed
qed

section \<open>Looking a key up\<close>

lemma look_loop_finds:
  fixes h :: "'a hash_heap_scheme"
  assumes "pool_inv h p qs" and "s < states (pools h p)" and "\<not> is_locked h p"
    and "walker_at h p s seen w" and "qs s = seen @ rest"
  shows "look_loop env array H key w h =
    Some (case dropWhile (\<lambda>i. element_key array H h i \<noteq> key) rest of [] \<Rightarrow> SXE_HASH_KEY_NOT_FOUND | i # _ \<Rightarrow> i, h)"
  using assms(4,5)
proof (induction rest arbitrary: seen w)
  case Nil
  obtain w' where "sxe_pool_walker_step env w h = Some (SXE_POOL_NO_INDEX, w', h)"
    using walker_step_visits [OF assms(1-3) Nil.prems, of env] by auto
  moreover have "SXE_POOL_NO_INDEX = SXE_HASH_KEY_NOT_FOUND"
    by (simp add: SXE_POOL_NO_INDEX_def SXE_HASH_KEY_NOT_FOUND_def)
  ultimately show ?case by (subst look_loop.simps) simp
next
  case (Cons i rest)
  obtain w1 where w1: "sxe_pool_walker_step env w h = Some (i, w1, h)" "walker_at h p s (seen @ [i]) w1"
    using walker_step_visits [OF assms(1-3) Cons.prems, of env] by auto
  have "i < number (pools h p)"
    using queue_invD(5) [OF pool_invD(3) [OF assms(1,2)], of i] Cons.prems(2) by simp
  then have ni: "i \<noteq> SXE_HASH_KEY_NOT_FOUND"
    using index_not_NO_INDEX by (simp add: SXE_POOL_NO_INDEX_def SXE_HASH_KEY_NOT_FOUND_def)
  have "qs s = (seen @ [i]) @ rest" using Cons.prems(2) by simp
  from Cons.IH [OF w1(2) this] show ?case
    using ni by (subst look_loop.simps) (simp add: w1(1))
qed

lemma dropWhile_first:
  "dropWhile (\<lambda>x. \<not> P x) xs = y # ys \<Longrightarrow> y \<in> set xs \<and> P y"
  by (induction xs) (auto split: if_splits)

lemma hash_look_finds:
  fixes h :: "'a hash_heap_scheme"
  assumes "hash_inv h array qs"
  shows "\<exists>i. sxe_hash_look env array key h = Some (i, h) \<and>
    (if \<exists>j. live h array j \<and> element_key array (the_hash h array) h j = key
     then live h array i \<and> element_key array (the_hash h array) h i = key
     else i = SXE_HASH_KEY_NOT_FOUND)"
proof -
  let ?H = "the_hash h array" and ?p = "the_pool array"
  note inv = hash_invD [OF assms]
  obtain b where b: "hash_bucket ?H key = Some b" "2 \<le> b" "b < states (pools h ?p)"
    using hash_bucket_range [OF inv(1)] by blast
  obtain w where w: "sxe_pool_walker_construct array b h = Some w" "walker_at h ?p b [] w"
    using inv(3) by (auto simp: sxe_pool_walker_construct_def walker_at_def sxe_list_walker_construct_def Let_def)
  let ?found = "dropWhile (\<lambda>i. element_key array ?H h i \<noteq> key) (qs b)"
  have look: "sxe_hash_look env array key h =
      Some (case ?found of [] \<Rightarrow> SXE_HASH_KEY_NOT_FOUND | i # _ \<Rightarrow> i, h)"
    using look_loop_finds [OF inv(2) b(3) inv(3) w(2), of "qs b" env array ?H key] w(1) b(1)
    by (simp add: sxe_hash_look_def Let_def)
  have in_b: "j \<in> set (qs b)" if "live h array j" "element_key array ?H h j = key" for j
  proof -
    from iffD1 [OF live_iff [OF inv(2)] that(1)]
    obtain c where c: "2 \<le> c" "c < states (pools h ?p)" "j \<in> set (qs c)" by (elim exE conjE)
    then have "hash_bucket ?H key = Some c" using inv(4) [OF c] that(2) by simp
    then show ?thesis using b(1) c(3) by simp
  qed
  show ?thesis
  proof (cases ?found)
    case Nil
    then have "\<forall>j \<in> set (qs b). element_key array ?H h j \<noteq> key" by (simp add: dropWhile_eq_Nil_conv)
    then have no: "\<not> (\<exists>j. live h array j \<and> element_key array ?H h j = key)" using in_b by blast
    show ?thesis unfolding if_not_P [OF no] using look Nil by simp
  next
    case (Cons i "is")
    then have i: "i \<in> set (qs b)" "element_key array ?H h i = key" using dropWhile_first [OF Cons] by simp_all
    have l: "live h array i" by (rule iffD2 [OF live_iff [OF inv(2)]]) (intro exI [of _ b] conjI b(2,3) i(1))
    have yes: "\<exists>j. live h array j \<and> element_key array ?H h j = key" by (intro exI [of _ i] conjI l i(2))
    show ?thesis unfolding if_P [OF yes] using look Cons l i(2) by simp
  qed
qed

section \<open>Memory of the elements of the classic hash\<close>

definition classic_inv :: "'a hash_heap_scheme \<Rightarrow> addr \<Rightarrow> queues \<Rightarrow> bool" where
  "classic_inv h array qs \<longleftrightarrow>
     hash_inv h array qs \<and> hash_size (the_hash h array) = 24 \<and> key_offset (the_hash h array) = 0 \<and>
     key_size (the_hash h array) = 20 \<and> elem_size (pools h (the_pool array)) = 24 \<and>
     unat (hash_count (the_hash h array)) * 24 < 2 ^ 32"

abbreviation pair_key :: "(addr \<Rightarrow> u8) \<Rightarrow> addr \<Rightarrow> u32 \<Rightarrow> bytes" where
  "pair_key m array i \<equiv> read_bytes m (pair_address array i) 20"

abbreviation pair_value :: "(addr \<Rightarrow> u8) \<Rightarrow> addr \<Rightarrow> u32 \<Rightarrow> u32" where
  "pair_value m array i \<equiv> le_u32 (read_bytes m (pair_address array i + 20) 4)"

lemma classic_key_address:
  assumes "classic_inv h array qs" and "i < hash_count (the_hash h array)"
  shows "key_address array (the_hash h array) i = pair_address array i"
proof -
  let ?H = "the_hash h array"
  have c: "hash_size ?H = 24" "key_offset ?H = 0" "unat (hash_count ?H) * 24 < 2 ^ 32"
    using assms(1) by (simp_all add: classic_inv_def)
  have "unat i * 24 < 2 ^ 32" using assms(2) c(3) by (simp add: word_less_nat_alt)
  then have "unat (ucast (i * 24) :: addr) = unat (ucast i * 24 :: addr)" by (simp add: unat_word_ariths)
  then have "ucast (i * 24) = (ucast i * 24 :: addr)" by (simp only: word_unat_eq_iff)
  then show ?thesis using c by (simp add: key_address_def pair_address_def SIZEOF_KEY_VALUE_PAIR_def)
qed

lemma unat_pair:
  assumes "unat array + 24 * unat (n :: u32) < 2 ^ 64" and "i < n" and "k < 24"
  shows "unat (pair_address array i + of_nat k) = unat array + 24 * unat i + k"
proof -
  have "unat i + 1 \<le> unat n" using assms(2) by (simp add: word_less_nat_alt)
  then have "unat array + (24 * unat i + k) < 2 ^ 64" using assms(1,3) by linarith
  moreover have "unat (ucast i * 24 :: addr) = unat i * 24"
    using calculation by (subst unat_mult_no_overflow) simp_all
  moreover have "unat (of_nat k :: addr) = k" using assms(3) by (simp add: unat_of_nat)
  moreover have "unat (array + ucast i * 24) = unat array + unat i * 24"
    using calculation by (subst unat_plus_no_overflow) simp_all
  ultimately have "unat (array + ucast i * 24 + of_nat k) = unat array + unat i * 24 + k"
    by (subst unat_plus_no_overflow) simp_all
  then show ?thesis by (simp add: pair_address_def SIZEOF_KEY_VALUE_PAIR_def)
qed

lemma pair_inj: "24 * a + l = 24 * b + k \<Longrightarrow> l < 24 \<Longrightarrow> k < 24 \<Longrightarrow> a = b \<and> l = (k :: nat)"
  by presburger

lemma pair_disjoint:
  assumes "unat array + 24 * unat (n :: u32) < 2 ^ 64" and "i < n" and "j < n" and "k < 24" and "l < 24"
  shows "pair_address array j + of_nat l = pair_address array i + of_nat k \<longleftrightarrow> j = i \<and> l = k"
proof
  assume "pair_address array j + of_nat l = pair_address array i + of_nat k"
  then have "24 * unat j + l = 24 * unat i + k"
    using unat_pair [OF assms(1,2,4)] unat_pair [OF assms(1,3,5)] by simp
  then have "unat j = unat i \<and> l = k" using assms(4,5) by (intro pair_inj)
  then show "j = i \<and> l = k" by (simp add: word_unat_eq_iff)
qed simp

text \<open>Writing the pair of element \<open>i\<close> sets its key and value and changes no other pair.\<close>

lemma write_pair:
  assumes "unat array + 24 * unat (n :: u32) < 2 ^ 64" and "i < n" and "length sha1 = 20"
    and m'_def: "m' = write_bytes (pair_address array i + 20) (u32_le v) (write_bytes (pair_address array i) sha1 m)"
  shows "pair_key m' array i = sha1" and "pair_value m' array i = v"
    and "j < n \<Longrightarrow> j \<noteq> i \<Longrightarrow> pair_key m' array j = pair_key m array j"
    and "j < n \<Longrightarrow> j \<noteq> i \<Longrightarrow> pair_value m' array j = pair_value m array j"
proof -
  have add: "pair_address array x + 20 + of_nat k = pair_address array x + of_nat (20 + k)" for x k
    by (simp add: add.assoc)
  show "pair_value m' array i = v"
    unfolding m'_def by (subst read_write_same) simp_all
  have key: "m' (pair_address array i + of_nat k) = sha1 ! k" if "k < 20" for k
  proof -
    have "pair_address array i + of_nat k \<noteq> pair_address array i + 20 + of_nat l" if "l < 4" for l
      unfolding add using pair_disjoint [OF assms(1,2,2), of "20 + l" k] that \<open>k < 20\<close> by simp
    then have "m' (pair_address array i + of_nat k) = write_bytes (pair_address array i) sha1 m (pair_address array i + of_nat k)"
      unfolding m'_def by (intro write_bytes_outside) simp
    then show ?thesis using write_bytes_inside [of sha1 k] that assms(3) by simp
  qed
  then show "pair_key m' array i = sha1" using assms(3) by (auto simp: read_bytes_def intro!: nth_equalityI)
  have out: "m' (pair_address array j + of_nat l) = m (pair_address array j + of_nat l)"
    if j: "j < n" "j \<noteq> i" "l < 24" for j l
  proof -
    have ne: "pair_address array j + of_nat l \<noteq> pair_address array i + of_nat k" if "k < 24" for k
      using pair_disjoint [OF assms(1,2) j(1) that j(3)] j(2) by blast
    then have "pair_address array j + of_nat l \<noteq> pair_address array i + 20 + of_nat k" if "k < 4" for k
      unfolding add using that by (intro ne) simp
    then have "m' (pair_address array j + of_nat l) = write_bytes (pair_address array i) sha1 m (pair_address array j + of_nat l)"
      unfolding m'_def by (intro write_bytes_outside) simp
    also have "\<dots> = m (pair_address array j + of_nat l)"
      using ne assms(3) by (intro write_bytes_outside) simp
    finally show ?thesis .
  qed
  show "pair_key m' array j = pair_key m array j" if "j < n" "j \<noteq> i"
    using out [OF that] by (intro read_bytes_cong) simp
  show "pair_value m' array j = pair_value m array j" if "j < n" "j \<noteq> i"
  proof -
    have "m' (pair_address array j + 20 + of_nat k) = m (pair_address array j + 20 + of_nat k)" if "k < 4" for k
      unfolding add using that by (intro out [OF \<open>j < n\<close> \<open>j \<noteq> i\<close>]) simp
    then have "read_bytes m' (pair_address array j + 20) 4 = read_bytes m (pair_address array j + 20) 4"
      by (rule read_bytes_cong)
    then show ?thesis by simp
  qed
qed

section \<open>The classic hash implements a map\<close>

text \<open>
  \<open>classic_repr h array m\<close>: the table behind \<open>array\<close> holds exactly the pairs of the map \<open>m\<close>, every key once.
\<close>

definition classic_repr :: "addr \<Rightarrow> 'a hash_heap_scheme \<Rightarrow> (bytes \<rightharpoonup> u32) \<Rightarrow> bool" where
  "classic_repr array h m \<longleftrightarrow>
     (\<exists>qs. classic_inv h array qs) \<and>
     (\<forall>i j. live h array i \<longrightarrow> live h array j \<longrightarrow> pair_key (mem h) array i = pair_key (mem h) array j \<longrightarrow> i = j) \<and>
     (\<forall>k v. m k = Some v \<longleftrightarrow> (\<exists>i. live h array i \<and> pair_key (mem h) array i = k \<and> pair_value (mem h) array i = v))"

lemma classic_invD:
  assumes "classic_inv h array qs"
  shows "hash_inv h array qs" and "hash_pool (the_hash h array) = array"
    and "unat array + 24 * unat (hash_count (the_hash h array)) < 2 ^ 64"
    and "number (pools h (the_pool array)) = hash_count (the_hash h array)"
    and "1 < states (pools h (the_pool array))"
proof -
  let ?H = "the_hash h array" and ?p = "the_pool array"
  show inv: "hash_inv h array qs" using assms by (simp add: classic_inv_def)
  note s = hash_invD(1) [OF inv, unfolded hash_shape_def]
  show "hash_pool ?H = array" "number (pools h ?p) = hash_count ?H" using s by blast+
  have "unat (hash_count ?H + 2) = unat (hash_count ?H) + 2" using s by (simp add: unat_word_ariths)
  then have "unat (1 :: u32) < unat (hash_count ?H + 2)" by simp
  then show "1 < states (pools h ?p)" using s by (metis word_less_nat_alt)
  have "pool_layout (pools h ?p) ?p" using pool_invD(1) [OF hash_invD(2) [OF inv]] .
  moreover have "elem_size (pools h ?p) = 24" using assms by (simp add: classic_inv_def)
  ultimately have l: "unat ?p + 144 + unat (hash_count ?H) * 24 < 2 ^ 64"
    using s by (simp add: pool_layout_def)
  have "unat array = unat ?p + 144"
  proof -
    have "array = ?p + 144" by (simp add: SXE_POOL_ARRAY_TO_IMPL_def pool_sizes)
    moreover have "unat (?p + 144) = unat ?p + unat (144 :: addr)"
      by (rule unat_plus_no_overflow) (use l in simp)
    ultimately show ?thesis by simp
  qed
  then show "unat array + 24 * unat (hash_count ?H) < 2 ^ 64" using l by simp
qed

lemma live_bound: "classic_inv h array qs \<Longrightarrow> live h array i \<Longrightarrow> i < hash_count (the_hash h array)"
  using classic_invD(4) by (fastforce simp: live_def)

text \<open>A heap that differs in the queues of the pool, and in memory only at elements that are not in the
  table afterwards or are in the right bucket, is still a classic hash.\<close>

lemma classic_inv_moved:
  assumes "classic_inv h array qs" and "same_shape (pools h' (the_pool array)) (pools h (the_pool array))"
    and "hashes h' = hashes h" and "pool_inv h' (the_pool array) qs'"
    and "\<And>b i. 2 \<le> b \<Longrightarrow> b < states (pools h (the_pool array)) \<Longrightarrow> i \<in> set (qs' b) \<Longrightarrow>
      i < number (pools h (the_pool array)) \<Longrightarrow>
      hash_bucket (the_hash h array) (pair_key (mem h') array i) = Some b"
  shows "classic_inv h' array qs'"
proof -
  let ?H = "the_hash h array" and ?p = "the_pool array"
  note sh = same_shape_addrs [OF assms(2)]
  have shape: "hash_shape h' array"
    using hash_invD(1) [OF classic_invD(1) [OF assms(1)]] by (simp add: hash_shape_def sh assms(3))
  have n: "elem_size (pools h' ?p) = elem_size (pools h ?p)" using assms(2) by (simp add: same_shape_def)
  have ks: "key_size ?H = 20" using assms(1) by (simp add: classic_inv_def)
  have c: "number (pools h ?p) = hash_count ?H" using classic_invD(4) [OF assms(1)] .
  have "hash_bucket ?H (element_key array ?H h' i) = Some b"
    if b: "2 \<le> b" "b < states (pools h ?p)" "i \<in> set (qs' b)" for b i
  proof -
    have i: "i < number (pools h ?p)"
      using queue_invD(5) [OF pool_invD(3) [OF assms(4)], of b i] b(2,3) by (simp add: sh)
    then show ?thesis
      using assms(5) [OF b i] classic_key_address [OF assms(1), of i] c ks by simp
  qed
  then have "hash_inv h' array qs'"
    using shape assms(4) unfolding hash_inv_def assms(3) sh by blast
  then show ?thesis using assms(1) by (simp add: classic_inv_def assms(3) n)
qed

lemma live_key:
  assumes "classic_inv h array qs" and "2 \<le> b" and "b < states (pools h (the_pool array))" and "i \<in> set (qs b)"
  shows "hash_bucket (the_hash h array) (pair_key (mem h) array i) = Some b"
proof -
  note inv = classic_invD(1) [OF assms(1)]
  have "i < hash_count (the_hash h array)"
    using queue_invD(5) [OF pool_invD(3) [OF hash_invD(2) [OF inv] assms(3)]] assms(4) classic_invD(4) [OF assms(1)] by metis
  from classic_key_address [OF assms(1) this]
  have "element_key array (the_hash h array) h i = pair_key (mem h) array i"
    using assms(1) by (simp add: classic_inv_def)
  then show ?thesis using hash_invD(4) [OF inv assms(2-4)] by simp
qed

lemma sha1_from_hex:
  assumes "length k = 20"
  shows "sxe_hash_sha1_from_hex (sxe_hex_from_bytes k) = Some (SXE_RETURN_OK, k)"
  using hex_to_bytes_from_bytes [of k] assms
  by (simp add: sxe_hash_sha1_from_hex_def SXE_HASH_SHA1_AS_HEX_LENGTH_def)

lemma classic_look:
  assumes "classic_repr array h m"
  shows "\<exists>i. sxe_hash_look env array k h = Some (i, h) \<and>
    (case m k of None \<Rightarrow> i = SXE_HASH_KEY_NOT_FOUND
     | Some v \<Rightarrow> live h array i \<and> pair_key (mem h) array i = k \<and> pair_value (mem h) array i = v)"
proof -
  obtain qs where c: "classic_inv h array qs" using assms unfolding classic_repr_def by blast
  have m: "m k = Some v \<longleftrightarrow> (\<exists>i. live h array i \<and> pair_key (mem h) array i = k \<and> pair_value (mem h) array i = v)" for v
    using assms unfolding classic_repr_def by blast
  have key: "element_key array (the_hash h array) h j = pair_key (mem h) array j" if "live h array j" for j
    using classic_key_address [OF c live_bound [OF c that]] c by (simp add: classic_inv_def)
  obtain i where i: "sxe_hash_look env array k h = Some (i, h)"
    "if \<exists>j. live h array j \<and> element_key array (the_hash h array) h j = k
     then live h array i \<and> element_key array (the_hash h array) h i = k else i = SXE_HASH_KEY_NOT_FOUND"
    using hash_look_finds [OF classic_invD(1) [OF c]] by blast
  show ?thesis
  proof (cases "m k")
    case None
    then have "\<not> (\<exists>j. live h array j \<and> element_key array (the_hash h array) h j = k)" using m key by fastforce
    then show ?thesis using i None by simp
  next
    case (Some v)
    then obtain j where j: "live h array j" "pair_key (mem h) array j = k" "pair_value (mem h) array j = v" using m by blast
    then have "\<exists>j. live h array j \<and> element_key array (the_hash h array) h j = k" using key by blast
    then have l: "live h array i" "pair_key (mem h) array i = k" using i(2) key by auto
    then have "i = j" using assms j unfolding classic_repr_def by metis
    then show ?thesis using i(1) j Some by simp
  qed
qed

lemma live_not_NOT_FOUND: "live h array i \<Longrightarrow> i \<noteq> SXE_HASH_KEY_NOT_FOUND"
  using index_not_NO_INDEX by (auto simp: live_def SXE_POOL_NO_INDEX_def SXE_HASH_KEY_NOT_FOUND_def)

lemma classic_get:
  assumes "classic_repr array h m" and "length k = 20"
  shows "sxe_hash_get env array (sxe_hex_from_bytes k) 40 h =
    Some (case m k of None \<Rightarrow> SXE_HASH_KEY_NOT_FOUND | Some v \<Rightarrow> v, h)"
proof -
  obtain qs where "classic_inv h array qs" using assms(1) unfolding classic_repr_def by blast
  then have p: "hash_pool (the_hash h array) = array" using classic_invD(2) by blast
  show ?thesis
    using classic_look [OF assms(1), of env k] sha1_from_hex [OF assms(2)] live_not_NOT_FOUND [of h array] p
    by (auto simp: sxe_hash_get_def sxe_hash_action_def SXE_HASH_SHA1_AS_HEX_LENGTH_def SIZEOF_SHA1_def
        split: option.splits)
qed

text \<open>The table after the queues and the memory changed, as far as the map is concerned.\<close>

lemma classic_repr_update:
  assumes "classic_repr array h m" and "classic_inv h' array qs'"
    and "\<And>j. live h' array j \<longleftrightarrow> live h array j \<or> j = i" and "\<not> live h array i"
    and "\<And>j. live h array j \<Longrightarrow> pair_key (mem h') array j = pair_key (mem h) array j"
    and "\<And>j. live h array j \<Longrightarrow> pair_value (mem h') array j = pair_value (mem h) array j"
    and "pair_key (mem h') array i = k" and "pair_value (mem h') array i = v" and "m k = None"
  shows "classic_repr array h' (m(k \<mapsto> v))"
proof -
  have u: "\<And>a b. live h array a \<Longrightarrow> live h array b \<Longrightarrow> pair_key (mem h) array a = pair_key (mem h) array b \<Longrightarrow> a = b"
    and m: "\<And>k v. m k = Some v \<longleftrightarrow> (\<exists>i. live h array i \<and> pair_key (mem h) array i = k \<and> pair_value (mem h) array i = v)"
    using assms(1) unfolding classic_repr_def by blast+
  have nk: "pair_key (mem h) array a \<noteq> k" if "live h array a" for a
    using m [of k "pair_value (mem h) array a"] assms(9) that by force
  have "a = b" if "live h' array a" "live h' array b" "pair_key (mem h') array a = pair_key (mem h') array b" for a b
    using that assms(3,5,7) nk u by metis
  moreover have "(m(k \<mapsto> v)) k' = Some v' \<longleftrightarrow>
      (\<exists>j. live h' array j \<and> pair_key (mem h') array j = k' \<and> pair_value (mem h') array j = v')" for k' v'
  proof (cases "k' = k")
    case True
    then show ?thesis using assms(3,5,7,8) nk by auto
  next
    case False
    then show ?thesis using assms(3,5,6,7) m [of k' v'] by auto
  qed
  ultimately show ?thesis using assms(2) unfolding classic_repr_def by blast
qed

text \<open>A classic hash takes an element from the unused ones without its lock.\<close>

lemma classic_take:
  assumes "classic_inv h array qs"
  shows "\<exists>i h'. sxe_hash_take env array h = Some (i, h') \<and> hashes h' = hashes h \<and> mem h' = mem h \<and>
    same_shape (pools h' (the_pool array)) (pools h (the_pool array)) \<and>
    (qs 0 = [] \<and> i = SXE_HASH_FULL \<and> pool_inv h' (the_pool array) qs \<or>
     qs 0 \<noteq> [] \<and> i = hd (qs 0) \<and> pool_inv h' (the_pool array) (qs(0 := tl (qs 0), 1 := qs 1 @ [i])))"
proof -
  let ?p = "the_pool array"
  note inv = hash_invD [OF classic_invD(1) [OF assms]]
  have st: "0 < states (pools h ?p)" "1 < states (pools h ?p)"
    using classic_invD(5) [OF assms] by (auto simp: word_less_nat_alt)
  obtain r h' where h': "sxe_pool_set_oldest_element_state env array 0 1 h = Some (r, h')"
    "qs 0 \<noteq> [] \<and> r = hd (qs 0) \<and> pool_inv h' ?p (move r 0 1 qs) \<and> released h' ?p \<and> moved env ?p r h h' \<or>
     qs 0 = [] \<and> r = SXE_POOL_NO_INDEX \<and> only_lock h h' ?p \<and> released h' ?p"
    using set_oldest_refines [OF inv(2) st, of env] inv(3) by (auto simp: lock_busy_def)
  note more = hash_fields_of_more [OF more_set_oldest [OF h'(1)]]
  have take: "sxe_hash_take env array h = Some (if r = SXE_POOL_NO_INDEX then SXE_HASH_FULL else r, h')"
    using h'(1) classic_invD(2) [OF assms] by (simp add: sxe_hash_take_def hash_consts)
  show ?thesis
  proof (cases "qs 0")
    case Nil
    then show ?thesis
      using take h'(2) more only_lock_pool_inv [of h h' ?p qs] only_lock_fields(1) [of h h' ?p] inv(2) by auto
  next
    case (Cons i "is")
    have "i < number (pools h ?p)" using oldest_facts(1) [OF inv(2) st(1)] Cons by simp
    then have "i \<noteq> SXE_POOL_NO_INDEX" by (rule index_not_NO_INDEX)
    then show ?thesis
      using take h'(2) more moved_shape [of env ?p i h h'] move_oldest [of qs 0 i "is" 1] Cons by auto
  qed
qed

lemma classic_add:
  fixes h :: "'a hash_heap_scheme"
  assumes "hash_shape h array" and "pool_inv h (the_pool array) qs" and "i \<in> set (qs 1)" and "1 < states (pools h (the_pool array))"
    and "element_key array (the_hash h array) h i = k"
  shows "\<exists>b h'. hash_bucket (the_hash h array) k = Some b \<and> 2 \<le> b \<and> b < states (pools h (the_pool array)) \<and>
    sxe_hash_add env array i h = Some h' \<and> hashes h' = hashes h \<and> mem h' = mem h \<and>
    same_shape (pools h' (the_pool array)) (pools h (the_pool array)) \<and>
    pool_inv h' (the_pool array) (move i 1 b qs)"
proof -
  let ?p = "the_pool array"
  obtain b where b: "hash_bucket (the_hash h array) k = Some b" "2 \<le> b" "b < states (pools h ?p)"
    using hash_bucket_range [OF assms(1)] by blast
  have i: "i < number (pools h ?p)" "element_state h ?p i = 1"
    using queue_invD(5) [OF pool_invD(3) [OF assms(2,4)]] assms(3) by blast+
  obtain r h' where h': "sxe_pool_set_indexed_element_state env array i 1 b h = Some (r, h')"
    "pool_inv h' ?p (move i 1 b qs)" "moved env ?p i h h'"
    using set_indexed_refines [OF assms(2) i b(3), of env] assms(1) by (auto simp: lock_busy_def hash_shape_def)
  have "sxe_hash_add env array i h = Some h'"
    using h'(1) b(1) assms(5) add_key_address_eq [OF assms(1), of i] i(1) assms(1)
    by (simp add: sxe_hash_add_def hash_consts hash_shape_def)
  then show ?thesis
    using b h' hash_fields_of_more [OF more_set_indexed [OF h'(1)]] moved_shape [OF h'(3)] by blast
qed

text \<open>The elements that are not used\<close>

definition hash_free :: "addr \<Rightarrow> 'a hash_heap_scheme \<Rightarrow> nat" where
  "hash_free array h = card {i. i < number (pools h (the_pool array)) \<and> element_state h (the_pool array) i = 0}"

lemma hash_free_queue:
  assumes "classic_inv h array qs"
  shows "hash_free array h = length (qs 0)"
proof -
  note inv = hash_invD(2) [OF classic_invD(1) [OF assms]]
  have "0 < states (pools h (the_pool array))" using classic_invD(5) [OF assms] by (auto simp: word_less_nat_alt)
  note q = queue_invD(4,5) [OF pool_invD(3) [OF inv this]]
  have "{i. i < number (pools h (the_pool array)) \<and> element_state h (the_pool array) i = 0} = set (qs 0)" using q(2) by blast
  then show ?thesis using q(1) by (simp add: hash_free_def distinct_card)
qed

lemma classic_set_full:
  assumes "classic_repr array h m" and "classic_inv h array qs" and "qs 0 = []"
  shows "\<exists>h'. sxe_hash_set env array hex 40 v h = Some (SXE_HASH_FULL, h') \<and> classic_repr array h' m \<and> hash_free array h' = 0"
proof -
  obtain h' where h': "sxe_hash_take env array h = Some (SXE_HASH_FULL, h')" "hashes h' = hashes h" "mem h' = mem h"
    "same_shape (pools h' (the_pool array)) (pools h (the_pool array))" "pool_inv h' (the_pool array) qs"
    using classic_take [OF assms(2), of env] assms(3) by auto
  have inv': "classic_inv h' array qs"
    by (rule classic_inv_moved [OF assms(2) h'(4,2,5)]) (use live_key [OF assms(2)] h'(3) in auto)
  have live: "live h' array i = live h array i" for i
    using live_iff [OF h'(5)] live_iff [OF hash_invD(2) [OF classic_invD(1) [OF assms(2)]]]
    by (simp add: same_shape_addrs [OF h'(4)])
  then have "classic_repr array h' m"
    using assms(1) inv' unfolding classic_repr_def h'(3) live by blast
  then show ?thesis
    using h'(1) hash_free_queue [OF inv'] assms(3) by (simp add: sxe_hash_set_def SXE_HASH_SHA1_AS_HEX_LENGTH_def)
qed

lemma two_le_word: "2 \<le> (c :: u32) \<Longrightarrow> c \<noteq> 0 \<and> c \<noteq> 1"
  by (auto simp: word_le_nat_alt)

lemma move_taken:
  assumes "2 \<le> b" and "2 \<le> c"
  shows "move i 1 b (qs(0 := is, 1 := xs)) c = (if c = b then qs b @ [i] else qs c)"
  using two_le_word [OF assms(1)] two_le_word [OF assms(2)] by (auto simp: move_def Let_def)

lemma classic_set_stored:
  fixes h :: "'a hash_heap_scheme"
  assumes "classic_repr array h m" and c: "classic_inv h array qs" and "qs 0 = i # is"
    and "length k = 20" and "m k = None"
  shows "\<exists>h'. sxe_hash_set env array (sxe_hex_from_bytes k) 40 v h = Some (i, h') \<and> i \<noteq> SXE_HASH_FULL \<and>
    classic_repr array h' (m(k \<mapsto> v)) \<and> hash_free array h' = length is"
proof -
  let ?p = "the_pool array" and ?H = "the_hash h array"
  note inv = hash_invD [OF classic_invD(1) [OF c]] and cD = classic_invD [OF c]
  have st: "0 < states (pools h ?p)" using cD(5) by (auto simp: word_less_nat_alt)
  have i: "i < number (pools h ?p)" "element_state h ?p i = 0"
    using oldest_facts(1,2) [OF inv(2) st] assms(3) by simp_all
  have ni: "i \<noteq> SXE_HASH_FULL"
    using index_not_NO_INDEX [OF i(1)] by (simp add: SXE_POOL_NO_INDEX_def SXE_HASH_FULL_def)
  obtain h1 where h1: "sxe_hash_take env array h = Some (i, h1)" "hashes h1 = hashes h" "mem h1 = mem h"
    "same_shape (pools h1 ?p) (pools h ?p)" "pool_inv h1 ?p (qs(0 := is, 1 := qs 1 @ [i]))"
    using classic_take [OF c, of env] assms(3) by auto
  define m' where "m' = write_bytes (pair_address array i + 20) (u32_le v) (write_bytes (pair_address array i) k (mem h))"
  note wp = write_pair [OF cD(3) i(1) [unfolded cD(4)] assms(4) m'_def]
  define h2 where "h2 = h1\<lparr>mem := m'\<rparr>"
  have h2: "hashes h2 = hashes h" "mem h2 = m'" "same_shape (pools h2 ?p) (pools h ?p)"
    "pool_inv h2 ?p (qs(0 := is, 1 := qs 1 @ [i]))"
    using h1 pool_inv_cong [of h2 ?p h1] by (simp_all add: h2_def)
  note sh2 = same_shape_addrs [OF h2(3)]
  have "hash_shape h2 array" using inv(1) by (simp add: hash_shape_def sh2 h2(1))
  moreover have "element_key array (the_hash h2 array) h2 i = k"
    using classic_key_address [OF c] i(1) cD(4) wp(1) c by (simp add: h2 classic_inv_def)
  ultimately obtain b h3 where h3: "hash_bucket ?H k = Some b" "2 \<le> b" "b < states (pools h ?p)"
    "sxe_hash_add env array i h2 = Some h3" "hashes h3 = hashes h" "mem h3 = m'"
    "same_shape (pools h3 ?p) (pools h2 ?p)" "pool_inv h3 ?p (move i 1 b (qs(0 := is, 1 := qs 1 @ [i])))"
    using classic_add [OF _ h2(4), of i k env] cD(5) by (auto simp: h2 sh2)
  have s3: "same_shape (pools h3 ?p) (pools h ?p)" using h3(7) h2(3) by (auto simp: same_shape_def)
  note sh3 = same_shape_addrs [OF s3]
  have other: "j \<noteq> i" "j < hash_count ?H" if "2 \<le> d" "d < states (pools h ?p)" "j \<in> set (qs d)" for d j
    using queue_invD(5) [OF pool_invD(3) [OF inv(2) that(2)], of j] that(3) i(2) two_le_word [OF that(1)] cD(4) by auto
  have inv3: "classic_inv h3 array (move i 1 b (qs(0 := is, 1 := qs 1 @ [i])))"
  proof (rule classic_inv_moved [OF c s3 h3(5,8)])
    fix d j assume d: "2 \<le> d" "d < states (pools h ?p)" "j \<in> set (move i 1 b (qs(0 := is, 1 := qs 1 @ [i])) d)"
    then consider "j \<in> set (qs d)" | "j = i" "d = b" by (auto simp: move_taken [OF h3(2)] split: if_splits)
    then show "hash_bucket ?H (pair_key (mem h3) array j) = Some d"
    proof cases
      case 1
      then show ?thesis using wp(3) [of j] other [OF d(1,2) 1] live_key [OF c d(1,2) 1] by (simp add: h3(6))
    next
      case 2
      then show ?thesis using wp(1) h3(1) by (simp add: h3(6))
    qed
  qed
  have live3: "live h3 array j \<longleftrightarrow> live h array j \<or> j = i" for j
    unfolding live_iff [OF h3(8)] live_iff [OF inv(2)] sh3 using h3(2,3) by (auto simp: move_taken split: if_splits)
  have li: "\<not> live h array i" using i(2) by (simp add: live_def)
  have "classic_repr array h3 (m(k \<mapsto> v))"
    by (rule classic_repr_update [OF assms(1) inv3 live3 li _ _ _ _ assms(5)])
      (use wp live_bound [OF c] li in \<open>auto simp: h3(6)\<close>)
  moreover have "sxe_hash_set env array (sxe_hex_from_bytes k) 40 v h = Some (i, h3)"
    using h1(1) ni sha1_from_hex [OF assms(4)] h3(4) cD(2)
    by (simp add: sxe_hash_set_def SXE_HASH_SHA1_AS_HEX_LENGTH_def h1(2,3) h2_def m'_def SIZEOF_SHA1_def)
  moreover have "hash_free array h3 = length is"
    using hash_free_queue [OF inv3] two_le_word [OF h3(2)] by (simp add: move_def Let_def)
  ultimately show ?thesis using ni by blast
qed

lemma classic_give:
  assumes c: "classic_inv h array qs" and "live h array i"
  shows "\<exists>h' qs'. sxe_hash_give env array i h = Some h' \<and> classic_inv h' array qs' \<and> mem h' = mem h \<and>
    (\<forall>j. live h' array j \<longleftrightarrow> live h array j \<and> j \<noteq> i)"
proof -
  let ?p = "the_pool array" and ?H = "the_hash h array" and ?b = "element_state h (the_pool array) i"
  note inv = hash_invD [OF classic_invD(1) [OF c]] and cD = classic_invD [OF c]
  have i: "i < number (pools h ?p)" "2 \<le> ?b" using assms(2) by (simp_all add: live_def)
  have st: "0 < states (pools h ?p)" using cD(5) by (auto simp: word_less_nat_alt)
  obtain r h' where h': "sxe_pool_set_indexed_element_state env array i ?b 0 h = Some (r, h')"
    "pool_inv h' ?p (move i ?b 0 qs)" "moved env ?p i h h'"
    using set_indexed_refines [OF inv(2) i(1) refl st, of env] inv(3) by (auto simp: lock_busy_def)
  note more = hash_fields_of_more [OF more_set_indexed [OF h'(1)]] and sh = same_shape_addrs [OF moved_shape [OF h'(3)]]
  have b: "?b < states (pools h ?p)" using pool_invD(2) [OF inv(2) i(1)] .
  have mv: "move i ?b 0 qs d = (if d = ?b then remove1 i (qs ?b) else qs d)" if "2 \<le> d" for d
    using two_le_word [OF that] two_le_word [OF i(2)] by (auto simp: move_def Let_def)
  have mem: "j \<in> set (move i ?b 0 qs d) \<longleftrightarrow> j \<in> set (qs d) \<and> j \<noteq> i" if "2 \<le> d" "d < states (pools h ?p)" for d j
  proof (cases "d = ?b")
    case True
    then show ?thesis
      using mv [OF that(1)] queue_invD(4) [OF pool_invD(3) [OF inv(2) b]] by (simp add: set_remove1_eq)
  next
    case False
    then have "i \<notin> set (qs d)" using queue_invD(5) [OF pool_invD(3) [OF inv(2) that(2)], of i] by simp
    then show ?thesis using mv [OF that(1)] False by auto
  qed
  have "classic_inv h' array (move i ?b 0 qs)"
    by (rule classic_inv_moved [OF c moved_shape [OF h'(3)] more(1) h'(2)]) (use live_key [OF c] mem more(2) in auto)
  moreover have "live h' array j \<longleftrightarrow> live h array j \<and> j \<noteq> i" for j
    unfolding live_iff [OF h'(2)] live_iff [OF inv(2)] sh using mem by blast
  moreover have "sxe_hash_give env array i h = Some h'"
    using h'(1) i(1) cD(2) by (simp add: sxe_hash_give_def sxe_pool_index_to_state_def hash_consts)
  ultimately show ?thesis using more(2) by blast
qed

lemma classic_remove:
  assumes "classic_repr array h m" and "length k = 20"
  shows "\<exists>h'. sxe_hash_remove env array (sxe_hex_from_bytes k) 40 h =
      Some (case m k of None \<Rightarrow> SXE_HASH_KEY_NOT_FOUND | Some v \<Rightarrow> v, h') \<and> classic_repr array h' (m(k := None))"
proof -
  obtain qs where c: "classic_inv h array qs" using assms(1) unfolding classic_repr_def by blast
  have u: "\<And>a b. live h array a \<Longrightarrow> live h array b \<Longrightarrow> pair_key (mem h) array a = pair_key (mem h) array b \<Longrightarrow> a = b"
    and m: "\<And>k v. m k = Some v \<longleftrightarrow> (\<exists>i. live h array i \<and> pair_key (mem h) array i = k \<and> pair_value (mem h) array i = v)"
    using assms(1) unfolding classic_repr_def by blast+
  note op = sxe_hash_remove_def sxe_hash_action_def SXE_HASH_SHA1_AS_HEX_LENGTH_def SIZEOF_SHA1_def
    sha1_from_hex [OF assms(2)] classic_invD(2) [OF c]
  obtain i where look: "sxe_hash_look env array k h = Some (i, h)"
    "case m k of None \<Rightarrow> i = SXE_HASH_KEY_NOT_FOUND
     | Some v \<Rightarrow> live h array i \<and> pair_key (mem h) array i = k \<and> pair_value (mem h) array i = v"
    using classic_look [OF assms(1)] by blast
  show ?thesis
  proof (cases "m k")
    case None
    then have "m(k := None) = m" by (simp add: fun_upd_idem)
    then show ?thesis using look None assms(1) by (simp add: op)
  next
    case (Some v)
    then have i: "live h array i" "pair_key (mem h) array i = k" "pair_value (mem h) array i = v" using look(2) by simp_all
    obtain h' qs' where h': "sxe_hash_give env array i h = Some h'" "classic_inv h' array qs'" "mem h' = mem h"
      "\<And>j. live h' array j \<longleftrightarrow> live h array j \<and> j \<noteq> i"
      using classic_give [OF c i(1)] by blast
    have "(m(k := None)) k' = Some v' \<longleftrightarrow>
        (\<exists>j. live h' array j \<and> pair_key (mem h') array j = k' \<and> pair_value (mem h') array j = v')" for k' v'
      using m [of k' v'] u i h'(3,4) by (cases "k' = k") auto
    then have "classic_repr array h' (m(k := None))"
      using h'(2-4) u unfolding classic_repr_def h'(3) by blast
    then show ?thesis using look(1) live_not_NOT_FOUND [OF i(1)] h'(1) i(3) Some by (simp add: op)
  qed
qed

section \<open>A new hash\<close>

lemma hash_fields_set [heap_sel]:
  "nodes (set_hash p f h) = nodes h" "hdrs (set_hash p f h) = hdrs h" "pools (set_hash p f h) = pools h"
  "lasts (set_hash p f h) = lasts h" "hashes (set_hash p f h) = (hashes h)(p := f (hashes h p))" "mem (set_hash p f h) = mem h"
  by (simp_all add: set_hash_def)

lemma classic_new_free:
  assumes "hash \<noteq> 0" and "0 < count" and "unat count + 2 < 2 ^ 32" and "unat count * 24 < 2 ^ 32"
    and "unat hash + 40 + 144 + unat count * 24 + (unat count + 2) * 40 + unat count * 32 < 2 ^ 64"
  shows "\<exists>array h'. sxe_hash_new hsum env hash name count h = Some (array, h') \<and> classic_repr array h' Map.empty \<and> hash_free array h' = unat count"
proof -
  let ?base = "hash + SIZEOF_HASH"
  have ub: "unat ?base = unat hash + 40" using assms(5) unfolding SIZEOF_HASH_def by (subst unat_plus_no_overflow) simp_all
  have us: "unat (count + 2) = unat count + 2" using assms(3) by (subst unat_plus_no_overflow) simp_all
  have s0: "0 < count + 2" using us by (simp add: word_less_nat_alt)
  obtain array h1 where c: "sxe_pool_construct env ?base name count 24 (count + 2) 0 h = (array, h1)" by fastforce
  have "unat ?base + 144 + unat count * unat (24 :: u64) + unat (count + 2) * 40 + unat count * 32 < 2 ^ 64"
    using assms(5) by (simp add: ub us)
  note p = sxe_pool_construct_inv [OF s0 this c]
  define h' where "h' = set_hash hash (\<lambda>s. s\<lparr>hash_pool := array, hash_count := count, hash_size := 24,
             key_offset := 0, key_size := 20, hash_options := 0, hash_key := sxe_prehashed_key_hash\<rparr>) h1"
  have new: "sxe_hash_new hsum env hash name count h = Some (array, h')"
    using assms(1) c by (simp add: sxe_hash_new_def sxe_hash_new_plus_def SIZEOF_KEY_VALUE_PAIR_def SIZEOF_SHA1_def
        hash_consts h'_def)
  have pool: "the_pool array = ?base" using p(1) by simp
  have impl: "SXE_HASH_ARRAY_TO_IMPL array = hash"
    by (simp add: SXE_HASH_ARRAY_TO_IMPL_def sxe_pool_to_base_def pool)
  have H: "hash_pool (the_hash h' array) = array" "hash_count (the_hash h' array) = count"
    "hash_size (the_hash h' array) = 24" "key_offset (the_hash h' array) = 0" "key_size (the_hash h' array) = 20"
    by (simp_all add: impl h'_def heap_sel)
  have P: "pools h' = pools h1" "pool_inv h' ?base (new_queues count)"
    using p(2) pool_inv_cong [of h' ?base h1] by (simp_all add: h'_def heap_sel)
  have empty: "new_queues count b = []" if "2 \<le> b" for b
    using two_le_word [OF that] by (simp add: new_queues_def)
  have "elem_size (pools h1 ?base) = 24" using p(7) .
  then have inv: "classic_inv h' array (new_queues count)"
    using assms(2-4) p P H empty by (simp add: classic_inv_def hash_inv_def hash_shape_def pool)
  have "\<not> live h' array i" for i
    using live_iff [of h' array "new_queues count" i] P(2) pool empty by auto
  with inv have "classic_repr array h' Map.empty" unfolding classic_repr_def by auto
  moreover have "hash_free array h' = unat count"
    using hash_free_queue [OF inv] by (simp add: new_queues_def)
  ultimately show ?thesis using new by blast
qed

section \<open>The hash as a store\<close>

definition classic_put :: "thread_env \<Rightarrow> addr \<Rightarrow> bytes \<Rightarrow> u32 \<Rightarrow> 'a hash_heap_scheme \<Rightarrow> (bool \<times> 'a hash_heap_scheme) option" where
  "classic_put env array k v h =
     do { (i, h) \<leftarrow> sxe_hash_set env array (sxe_hex_from_bytes k) 40 v h; Some (i \<noteq> SXE_HASH_FULL, h) }"

definition classic_find :: "thread_env \<Rightarrow> addr \<Rightarrow> bytes \<Rightarrow> 'a hash_heap_scheme \<Rightarrow> (u32 option \<times> 'a hash_heap_scheme) option" where
  "classic_find env array k h =
     do { (v, h) \<leftarrow> sxe_hash_get env array (sxe_hex_from_bytes k) 40 h;
          Some (if v = SXE_HASH_KEY_NOT_FOUND then None else Some v, h) }"

definition classic_map :: "addr \<Rightarrow> 'a hash_heap_scheme \<Rightarrow> (bytes \<rightharpoonup> u32) \<Rightarrow> bool" where
  "classic_map array h m \<longleftrightarrow> classic_repr array h m \<and> SXE_HASH_KEY_NOT_FOUND \<notin> ran m"

lemma classic_put_result:
  assumes "classic_map array h m" and "length k = 20" and "v \<noteq> SXE_HASH_KEY_NOT_FOUND" and "m k = None"
  shows "\<exists>h'. classic_put env array k v h = Some (0 < hash_free array h, h') \<and>
    classic_map array h' (if 0 < hash_free array h then m(k \<mapsto> v) else m) \<and> hash_free array h' = hash_free array h - 1"
proof -
  have r: "classic_repr array h m" "SXE_HASH_KEY_NOT_FOUND \<notin> ran m" using assms(1) by (simp_all add: classic_map_def)
  then obtain qs where c: "classic_inv h array qs" unfolding classic_repr_def by blast
  note free = hash_free_queue [OF c]
  show ?thesis
  proof (cases "qs 0")
    case Nil
    then obtain h' where "sxe_hash_set env array (sxe_hex_from_bytes k) 40 v h = Some (SXE_HASH_FULL, h')" "classic_repr array h' m"
      "hash_free array h' = 0"
      using classic_set_full [OF r(1) c] by blast
    then show ?thesis using r(2) free Nil by (simp add: classic_put_def classic_map_def)
  next
    case (Cons i "is")
    then obtain h' where h': "sxe_hash_set env array (sxe_hex_from_bytes k) 40 v h = Some (i, h')" "i \<noteq> SXE_HASH_FULL"
      "classic_repr array h' (m(k \<mapsto> v))" "hash_free array h' = length is"
      using classic_set_stored [OF r(1) c Cons assms(2,4)] by blast
    moreover have "SXE_HASH_KEY_NOT_FOUND \<notin> ran (m(k \<mapsto> v))" using r(2) assms(3,4) by (auto simp: ran_def)
    ultimately show ?thesis using free Cons by (simp add: classic_put_def classic_map_def)
  qed
qed

interpretation classic_store: bounded_store "classic_map array" "\<lambda>k. length k = 20" "\<lambda>v. v \<noteq> SXE_HASH_KEY_NOT_FOUND"
  "classic_put env array" "classic_find env array" "\<lambda>k h. 0 < hash_free array h" "hash_free array" for array env
proof unfold_locales
  fix h :: "'a hash_heap_scheme" and m and k :: bytes
  assume a: "classic_map array h m" "length k = 20"
  have "v \<noteq> SXE_HASH_KEY_NOT_FOUND" if "m k = Some v" for v
    using a(1) that by (auto simp: classic_map_def ran_def)
  then show "\<exists>h'. classic_find env array k h = Some (m k, h') \<and> classic_map array h' m"
    using classic_get [of array h m k env] a by (auto simp: classic_find_def classic_map_def split: option.splits)
next
  fix h h' :: "'a hash_heap_scheme" and m and k :: bytes and v ok
  assume "classic_map array h m" "length k = 20" "v \<noteq> SXE_HASH_KEY_NOT_FOUND" "m k = None" "classic_put env array k v h = Some (ok, h')"
  then show "hash_free array h' = hash_free array h - 1" using classic_put_result [of array h m k v env] by auto
qed (use classic_put_result in \<open>blast, blast\<close>)

section \<open>Properties\<close>

definition empty_hash_heap :: hash_heap where
  "empty_hash_heap = pool_heap.extend empty_pool_heap (hash_heap.fields
     (\<lambda>_. \<lparr>hash_pool = 0, hash_count = 0, hash_size = 0, key_offset = 0, key_size = 0, hash_options = 0,
           hash_key = sxe_prehashed_key_hash\<rparr>) (\<lambda>_. 0))"

definition sha1_a :: bytes where "sha1_a = map of_nat [1..<21]"
definition sha1_b :: bytes where "sha1_b = map of_nat [5..<25]"

text \<open>C21: looking a key up in a hash table ends, changes nothing, and returns an element of the table with
  exactly that key whenever there is one; otherwise it reports that the key was not found.\<close>

theorem hash_look_correct:
  assumes "hash_inv h array qs"
  shows "\<exists>i. sxe_hash_look env array key h = Some (i, h) \<and>
    ((\<exists>j. live h array j \<and> element_key array (the_hash h array) h j = key) \<and>
       live h array i \<and> element_key array (the_hash h array) h i = key \<or>
     (\<nexists>j. live h array j \<and> element_key array (the_hash h array) h j = key) \<and> i = SXE_HASH_KEY_NOT_FOUND)"
  using hash_look_finds [OF assms, of env key] by (auto split: if_splits)

definition hash_of_four :: "addr \<times> hash_heap" where
  "hash_of_four = the (sxe_hash_new (\<lambda>_. 0) pool_env 4096 ''four'' 4 empty_hash_heap)"

lemma hash_of_four_free:
  "classic_repr (fst hash_of_four) (snd hash_of_four) Map.empty \<and> hash_free (fst hash_of_four) (snd hash_of_four) = 4"
proof -
  have "\<exists>array h'. sxe_hash_new (\<lambda>_. 0) pool_env 4096 ''four'' 4 empty_hash_heap = Some (array, h') \<and>
      classic_repr array h' Map.empty \<and> hash_free array h' = unat (4 :: u32)"
    by (rule classic_new_free) simp_all
  then show ?thesis by (auto simp: hash_of_four_def)
qed

lemmas hash_of_four = hash_of_four_free [THEN conjunct1]

theorem hash_look_correct_witness:
  "\<exists>qs i. hash_inv (snd hash_of_four) (fst hash_of_four) qs \<and>
     sxe_hash_look pool_env (fst hash_of_four) sha1_a (snd hash_of_four) = Some (i, snd hash_of_four)"
proof -
  obtain qs where "hash_inv (snd hash_of_four) (fst hash_of_four) qs"
    using hash_of_four classic_invD(1) unfolding classic_repr_def by blast
  from this hash_look_correct [OF this, of pool_env sha1_a] show ?thesis by blast
qed

text \<open>C12: the classic hash is a map with a fixed number of places. Any sequence of insertions of new keys runs
  without an assertion; it stores as many pairs as there are unused elements, in order, and reports the rest as
  not stored; and afterwards looking up any key gives the value it had before or was stored with, or that there is
  none.\<close>

theorem hash_set_then_get:
  assumes "classic_repr array h m" and "SXE_HASH_KEY_NOT_FOUND \<notin> ran m" and "distinct (map fst kvs)"
    and "\<And>k v. (k, v) \<in> set kvs \<Longrightarrow> length k = 20 \<and> v \<noteq> SXE_HASH_KEY_NOT_FOUND \<and> m k = None"
  shows "\<exists>h1. put_all (classic_put env array) kvs h = Some (map (\<lambda>i. i < hash_free array h) [0..<length kvs], h1) \<and>
    (\<forall>k. length k = 20 \<longrightarrow> sxe_hash_get env array (sxe_hex_from_bytes k) 40 h1 =
       Some (case (m ++ map_of (take (hash_free array h) kvs)) k of None \<Rightarrow> SXE_HASH_KEY_NOT_FOUND | Some v \<Rightarrow> v, h1))"
proof -
  have r: "classic_map array h m" using assms(1,2) by (simp add: classic_map_def)
  obtain h1 where h1: "put_all (classic_put env array) kvs h = Some (map (\<lambda>i. i < hash_free array h) [0..<length kvs], h1)"
    "classic_map array h1 (m ++ map_of (take (hash_free array h) kvs))"
    using classic_store.put_all_bounded [OF r assms(3), of env] assms(4) by blast
  then show ?thesis using classic_get by (auto simp: classic_map_def)
qed

theorem hash_set_then_get_witness:
  "\<exists>h1. put_all (classic_put pool_env (fst hash_of_four)) [(sha1_a, 17), (sha1_b, 18)] (snd hash_of_four) = Some ([True, True], h1) \<and>
    sxe_hash_get pool_env (fst hash_of_four) (sxe_hex_from_bytes sha1_a) 40 h1 = Some (17, h1) \<and>
    sxe_hash_get pool_env (fst hash_of_four) (sxe_hex_from_bytes (replicate 20 0)) 40 h1 = Some (SXE_HASH_KEY_NOT_FOUND, h1)"
proof -
  have "sha1_a ! 0 = 1" "sha1_b ! 0 = 5" "replicate 20 (0 :: u8) ! 0 = 0"
    by (simp_all add: sha1_a_def sha1_b_def upt_conv_Cons)
  moreover have "(5 :: u8) \<noteq> 1" "(1 :: u8) \<noteq> 0" "(5 :: u8) \<noteq> 0" by simp_all
  ultimately have len: "sha1_b \<noteq> sha1_a" "sha1_a \<noteq> replicate 20 0" "sha1_b \<noteq> replicate 20 0" "length sha1_a = 20" "length sha1_b = 20"
    by (metis, metis, metis, simp_all add: sha1_a_def sha1_b_def)
  have "\<exists>h1. put_all (classic_put pool_env (fst hash_of_four)) [(sha1_a, 17), (sha1_b, 18)] (snd hash_of_four) =
      Some (map (\<lambda>i. i < hash_free (fst hash_of_four) (snd hash_of_four)) [0..<length [(sha1_a, 17), (sha1_b, 18 :: u32)]], h1) \<and>
    (\<forall>k. length k = 20 \<longrightarrow> sxe_hash_get pool_env (fst hash_of_four) (sxe_hex_from_bytes k) 40 h1 =
       Some (case (Map.empty ++ map_of (take (hash_free (fst hash_of_four) (snd hash_of_four)) [(sha1_a, 17), (sha1_b, 18)])) k of
         None \<Rightarrow> SXE_HASH_KEY_NOT_FOUND | Some v \<Rightarrow> v, h1))"
    by (rule hash_set_then_get [OF hash_of_four]) (use len in \<open>auto simp: SXE_HASH_KEY_NOT_FOUND_def\<close>)
  then obtain h1 where "put_all (classic_put pool_env (fst hash_of_four)) [(sha1_a, 17), (sha1_b, 18)] (snd hash_of_four) = Some ([True, True], h1)"
    "\<And>k. length k = 20 \<Longrightarrow> sxe_hash_get pool_env (fst hash_of_four) (sxe_hex_from_bytes k) 40 h1 =
       Some (case map_of [(sha1_a, 17), (sha1_b, 18)] k of None \<Rightarrow> SXE_HASH_KEY_NOT_FOUND | Some v \<Rightarrow> v, h1)"
    by (auto simp: hash_of_four_free)
  then show ?thesis using len by (intro exI [of _ h1]) simp
qed

text \<open>C22: removing a key from the classic hash returns its value, or that it is not there, and afterwards
  the table holds all other pairs and not this key.\<close>

theorem hash_remove_correct:
  assumes "classic_repr array h m" and "length k = 20"
  shows "\<exists>h'. sxe_hash_remove env array (sxe_hex_from_bytes k) 40 h =
      Some (case m k of None \<Rightarrow> SXE_HASH_KEY_NOT_FOUND | Some v \<Rightarrow> v, h') \<and> classic_repr array h' (m(k := None))"
  by (rule classic_remove [OF assms])

theorem hash_remove_correct_witness:
  "\<exists>h'. sxe_hash_remove pool_env (fst hash_of_four) (sxe_hex_from_bytes sha1_a) 40 (snd hash_of_four) =
      Some (case Map.empty sha1_a of None \<Rightarrow> SXE_HASH_KEY_NOT_FOUND | Some v \<Rightarrow> v, h') \<and>
    classic_repr (fst hash_of_four) h' (Map.empty(sha1_a := None))"
  by (rule hash_remove_correct [OF hash_of_four]) (simp add: sha1_a_def)

end
