(* ===== verification/Sxe_Dict.thy ===== *)
theory Sxe_Dict
  imports Kit_Store
begin

text \<open>
  Model of \<^verbatim>\<open>lib-sxe-dict/sxe-dict.c\<close> and \<^verbatim>\<open>sxe-dict.h\<close>: dictionaries with chained buckets that grow
  with their load.

  A bucket is the list of its nodes in the order of the \<^verbatim>\<open>next\<close> pointers; the nodes belong to one
  dictionary, so nothing else refers to them. A key argument is the bytes it points to (for a string, those
  before its terminator) with its length. A pointer to the value of a node is the bucket and the position
  of the node. The 64 bit hash of a block of bytes (XXH64 by default, which is not part of this repository)
  is the parameter \<open>hash64\<close>, and which allocations succeed is the parameter \<open>al\<close>.
\<close>

section \<open>Data\<close>

definition SXE_DICT_FLAG_KEYS_BINARY :: u32 where "SXE_DICT_FLAG_KEYS_BINARY = 0"
definition SXE_DICT_FLAG_KEYS_NOCOPY :: u32 where "SXE_DICT_FLAG_KEYS_NOCOPY = 1"
definition SXE_DICT_FLAG_KEYS_STRING :: u32 where "SXE_DICT_FLAG_KEYS_STRING = 2"
definition SXE_DICT_FLAG_KEYS_HASHED :: u32 where "SXE_DICT_FLAG_KEYS_HASHED = 4"

text \<open>The union in a node: the hash of the key, or the key itself with its length.\<close>

datatype dict_key = Key_Hash u64 | Key_Bytes bytes

record sxe_dict_node =
  node_key :: dict_key
  node_value :: u64

record sxe_dict =
  table :: "sxe_dict_node list list option"
  dict_flags :: u32
  dict_size :: u32
  dict_count :: u32
  load :: u32
  growth :: u32

record allocator =
  calloc_ok :: "u64 \<Rightarrow> bool"
  node_ok :: bool
  key_ok :: bool

type_synonym value_ptr = "nat \<times> nat"

abbreviation is_hashed :: "sxe_dict \<Rightarrow> bool" where
  "is_hashed dic \<equiv> dict_flags dic AND SXE_DICT_FLAG_KEYS_HASHED \<noteq> 0"

abbreviation is_string :: "sxe_dict \<Rightarrow> bool" where
  "is_string dic \<equiv> dict_flags dic AND SXE_DICT_FLAG_KEYS_STRING \<noteq> 0"

abbreviation is_nocopy :: "sxe_dict \<Rightarrow> bool" where
  "is_nocopy dic \<equiv> dict_flags dic AND SXE_DICT_FLAG_KEYS_NOCOPY \<noteq> 0"

definition sxe_dict_count :: "sxe_dict \<Rightarrow> u32" where
  "sxe_dict_count dic = dict_count dic"

text \<open>The string at a pointer, and \<^verbatim>\<open>sxe_hash_64(key, length)\<close> with its \<^verbatim>\<open>length ?: strlen(key)\<close>.\<close>

definition cstr :: "bytes \<Rightarrow> bytes" where
  "cstr bs = takeWhile (\<lambda>b. b \<noteq> 0) bs"

definition sxe_hash_64 :: "(bytes \<Rightarrow> u64) \<Rightarrow> bytes \<Rightarrow> nat \<Rightarrow> u64" where
  "sxe_hash_64 hash64 key len = hash64 (if len = 0 then cstr key else take len key)"

section \<open>Nodes\<close>

text \<open>\<open>None\<close> when the copy of the key is written through a null pointer; otherwise the node, if it was
  allocated.\<close>

definition sxe_dict_node_new ::
  "allocator \<Rightarrow> sxe_dict \<Rightarrow> dict_key \<Rightarrow> nat \<Rightarrow> sxe_dict_node option option" where
  "sxe_dict_node_new al dic key len =
     (if \<not> node_ok al then Some None
      else case key of
        Key_Hash hash \<Rightarrow> Some (Some \<lparr>node_key = Key_Hash hash, node_value = 0\<rparr>)
      | Key_Bytes bs \<Rightarrow>
          if is_nocopy dic
          then Some (Some \<lparr>node_key = Key_Bytes (if is_string dic then cstr bs else take len bs), node_value = 0\<rparr>)
          else if \<not> key_ok al then None
          else if is_string dic
          then Some (Some \<lparr>node_key = Key_Bytes (cstr (take len bs @ [0])), node_value = 0\<rparr>)
          else Some (Some \<lparr>node_key = Key_Bytes (take len bs), node_value = 0\<rparr>))"

definition compare_keys :: "sxe_dict \<Rightarrow> sxe_dict_node \<Rightarrow> dict_key \<Rightarrow> nat \<Rightarrow> bool" where
  "compare_keys dic link key len =
     (case (node_key link, key) of
        (Key_Hash h, Key_Hash h') \<Rightarrow> h = h'
      | (Key_Bytes bs, Key_Bytes bs') \<Rightarrow>
          if is_string dic then bs = cstr bs' else length bs = len \<and> bs = take len bs'
      | _ \<Rightarrow> False)"

section \<open>Construction\<close>

text \<open>The table is allocated by the constructor; \<open>None\<close> in the table is the null pointer.\<close>

definition sxe_dict_init :: "allocator \<Rightarrow> u32 \<Rightarrow> u32 \<Rightarrow> u32 \<Rightarrow> u32 \<Rightarrow> bool \<times> sxe_dict" where
  "sxe_dict_init al initial_size ld gr flags =
     (let tab = (if initial_size = 0 then None
                 else if calloc_ok al (ucast initial_size) then Some (replicate (unat initial_size) []) else None)
      in (initial_size = 0 \<or> tab \<noteq> None,
          \<lparr>table = tab, dict_flags = flags, dict_size = initial_size, dict_count = 0, load = ld, growth = gr\<rparr>))"

text \<open>\<open>node_ok\<close> says whether the structure itself was allocated.\<close>

definition sxe_dict_new :: "allocator \<Rightarrow> u32 \<Rightarrow> sxe_dict option" where
  "sxe_dict_new al initial_size =
     (if \<not> node_ok al then None
      else let (ok, dic) = sxe_dict_init al initial_size 100 2 SXE_DICT_FLAG_KEYS_BINARY
           in if ok then Some dic else None)"

text \<open>Finalizing frees the nodes and the table; the size and the count stay.\<close>

definition sxe_dict_fini :: "sxe_dict \<Rightarrow> sxe_dict option" where
  "sxe_dict_fini dic =
     (if 0 < dict_size dic \<and> table dic = None then None else Some (dic\<lparr>table := None\<rparr>))"

text \<open>Freeing a dictionary that may be null; \<open>None\<close> is a crash.\<close>

definition sxe_dict_free :: "sxe_dict option \<Rightarrow> unit option" where
  "sxe_dict_free dic = (case dic of None \<Rightarrow> Some () | Some dic \<Rightarrow> do { _ \<leftarrow> sxe_dict_fini dic; Some () })"

section \<open>Growing\<close>

text \<open>The bucket of a hash; the remainder by a size of zero traps.\<close>

definition bucket_of :: "u64 \<Rightarrow> u32 \<Rightarrow> nat option" where
  "bucket_of hash sz = (if sz = 0 then None else Some (unat (hash mod ucast sz)))"

text \<open>The hash of the key of a node. For a copied binary key of length zero, \<^verbatim>\<open>sxe_hash_64(k2->key, 0)\<close> takes
  \<^verbatim>\<open>strlen\<close> of a block of no bytes, which reads outside it: \<open>None\<close>. A key of length zero that was not copied
  is the caller's empty string, and so is one that was copied with its terminator.\<close>

definition rehash :: "(bytes \<Rightarrow> u64) \<Rightarrow> sxe_dict \<Rightarrow> sxe_dict_node \<Rightarrow> u64 option" where
  "rehash hash64 dic node =
     (case node_key node of
        Key_Hash h \<Rightarrow> Some h
      | Key_Bytes bs \<Rightarrow>
          if is_string dic then Some (sxe_hash_64 hash64 bs 0)
          else if bs = [] \<and> \<not> is_nocopy dic then None
          else Some (sxe_hash_64 hash64 bs (length bs)))"

definition sxe_dict_reinsert_when_resizing ::
  "(bytes \<Rightarrow> u64) \<Rightarrow> sxe_dict \<Rightarrow> sxe_dict_node \<Rightarrow> sxe_dict option" where
  "sxe_dict_reinsert_when_resizing hash64 dic k2 =
     do {
       tab \<leftarrow> table dic;
       hash \<leftarrow> rehash hash64 dic k2;
       n \<leftarrow> bucket_of hash (dict_size dic);
       if n < length tab then Some (dic\<lparr>table := Some (tab[n := k2 # tab ! n])\<rparr>) else None
     }"

text \<open>The nodes are taken from the old table bucket by bucket, head first.\<close>

primrec reinsert_all :: "(bytes \<Rightarrow> u64) \<Rightarrow> sxe_dict_node list \<Rightarrow> sxe_dict \<Rightarrow> sxe_dict option" where
  "reinsert_all hash64 [] dic = Some dic"
| "reinsert_all hash64 (node # nodes) dic =
     do { dic \<leftarrow> sxe_dict_reinsert_when_resizing hash64 dic node; reinsert_all hash64 nodes dic }"

text \<open>The new size is an \<^verbatim>\<open>int\<close>, which is sign extended for the allocation.\<close>

definition sxe_dict_resize ::
  "(bytes \<Rightarrow> u64) \<Rightarrow> allocator \<Rightarrow> sxe_dict \<Rightarrow> u32 \<Rightarrow> (bool \<times> sxe_dict) option" where
  "sxe_dict_resize hash64 al dic newsize =
     (if \<not> calloc_ok al (scast newsize) then Some (False, dic)
      else do {
        old \<leftarrow> (case table dic of None \<Rightarrow> if dict_size dic = 0 then Some [] else None | Some tab \<Rightarrow> Some tab);
        dic \<leftarrow> reinsert_all hash64 (concat old)
                 (dic\<lparr>table := Some (replicate (unat newsize) []), dict_size := newsize\<rparr>);
        Some (True, dic)
      })"

section \<open>Adding and finding\<close>

text \<open>The index of the first node of a bucket with the key.\<close>

primrec find_link :: "sxe_dict \<Rightarrow> dict_key \<Rightarrow> nat \<Rightarrow> sxe_dict_node list \<Rightarrow> nat option" where
  "find_link dic key len [] = None"
| "find_link dic key len (node # nodes) =
     (if compare_keys dic node key len then Some 0 else map_option Suc (find_link dic key len nodes))"

definition add_entry ::
  "(bytes \<Rightarrow> u64) \<Rightarrow> allocator \<Rightarrow> sxe_dict \<Rightarrow> u64 \<Rightarrow> bytes \<Rightarrow> nat \<Rightarrow> (value_ptr option \<times> sxe_dict) option" where
  "add_entry hash64 al dic hash key len =
     (if table dic = None \<and> \<not> calloc_ok al 1 then Some (None, dic)
      else do {
        let dic = (if table dic = None then dic\<lparr>table := Some [[]], dict_size := 1\<rparr> else dic);
        tab \<leftarrow> table dic;
        bucket \<leftarrow> bucket_of hash (dict_size dic);
        (ok, dic) \<leftarrow>
          (if tab ! bucket \<noteq> [] \<and> dict_count dic * 100 div dict_size dic \<ge> load dic
           then sxe_dict_resize hash64 al dic (dict_size dic * growth dic)
           else Some (True, dic));
        if \<not> ok then Some (None, dic)
        else do {
          tab \<leftarrow> table dic;
          bucket \<leftarrow> bucket_of hash (dict_size dic);
          let key = (if is_hashed dic then Key_Hash hash else Key_Bytes key);
          case find_link dic key len (tab ! bucket) of
            Some i \<Rightarrow> Some (Some (bucket, i), dic)
          | None \<Rightarrow> do {
              node \<leftarrow> sxe_dict_node_new al dic key len;
              case node of
                None \<Rightarrow> Some (None, dic)
              | Some node \<Rightarrow>
                  Some (Some (bucket, length (tab ! bucket)),
                        dic\<lparr>table := Some (tab[bucket := tab ! bucket @ [node]]), dict_count := dict_count dic + 1\<rparr>)
            }
        }
      })"

definition key_len :: "bytes \<Rightarrow> nat \<Rightarrow> nat" where
  "key_len key len = (if len = 0 then length (cstr key) else len)"

definition sxe_dict_add ::
  "(bytes \<Rightarrow> u64) \<Rightarrow> allocator \<Rightarrow> sxe_dict \<Rightarrow> bytes \<Rightarrow> nat \<Rightarrow> (value_ptr option \<times> sxe_dict) option" where
  "sxe_dict_add hash64 al dic key len =
     (let len = key_len key len in add_entry hash64 al dic (sxe_hash_64 hash64 key len) key len)"

definition sxe_dict_add_hash ::
  "(bytes \<Rightarrow> u64) \<Rightarrow> allocator \<Rightarrow> sxe_dict \<Rightarrow> u64 \<Rightarrow> (value_ptr option \<times> sxe_dict) option" where
  "sxe_dict_add_hash hash64 al dic hash =
     do { SXEA6 (is_hashed dic); add_entry hash64 al dic hash [] 0 }"

definition find_entry :: "sxe_dict \<Rightarrow> u64 \<Rightarrow> bytes \<Rightarrow> nat \<Rightarrow> u64 option" where
  "find_entry dic hash key len =
     (case table dic of
        None \<Rightarrow> Some 0
      | Some tab \<Rightarrow>
          do {
            bucket \<leftarrow> bucket_of hash (dict_size dic);
            let key = (if is_hashed dic then Key_Hash hash else Key_Bytes key);
            Some (case find_link dic key len (tab ! bucket) of
                    None \<Rightarrow> 0 | Some i \<Rightarrow> node_value (tab ! bucket ! i))
          })"

definition sxe_dict_find :: "(bytes \<Rightarrow> u64) \<Rightarrow> sxe_dict \<Rightarrow> bytes \<Rightarrow> nat \<Rightarrow> u64 option" where
  "sxe_dict_find hash64 dic key len =
     (let len = key_len key len in find_entry dic (sxe_hash_64 hash64 key len) key len)"

definition sxe_dict_find_hash :: "sxe_dict \<Rightarrow> u64 \<Rightarrow> u64 option" where
  "sxe_dict_find_hash dic hash = do { SXEA6 (is_hashed dic); find_entry dic hash [] 0 }"

text \<open>What the caller of \<^verbatim>\<open>sxe_dict_add\<close> does with the pointer it gets: \<^verbatim>\<open>*value_ptr = value\<close>.\<close>

definition set_value :: "value_ptr \<Rightarrow> u64 \<Rightarrow> sxe_dict \<Rightarrow> sxe_dict" where
  "set_value ptr v dic =
     dic\<lparr>table := map_option (\<lambda>tab. tab[fst ptr := (tab ! fst ptr)[snd ptr := (tab ! fst ptr ! snd ptr)\<lparr>node_value := v\<rparr>]]) (table dic)\<rparr>"

section \<open>Walking\<close>

text \<open>The function called for an entry gets the key, its size, the value and the user's object; it says
  whether to go on and may change the value and the object.\<close>

type_synonym 'u dict_iter = "dict_key \<Rightarrow> nat \<Rightarrow> u64 \<Rightarrow> 'u \<Rightarrow> bool \<times> u64 \<times> 'u"

definition key_size :: "dict_key \<Rightarrow> nat" where
  "key_size k = (case k of Key_Hash _ \<Rightarrow> 8 | Key_Bytes bs \<Rightarrow> length bs)"

fun walk_bucket :: "'u dict_iter \<Rightarrow> sxe_dict_node list \<Rightarrow> 'u \<Rightarrow> bool \<times> sxe_dict_node list \<times> 'u" where
  "walk_bucket f [] u = (True, [], u)"
| "walk_bucket f (n # ns) u =
     (let (go, v, u) = f (node_key n) (key_size (node_key n)) (node_value n) u;
          n = n\<lparr>node_value := v\<rparr>
      in if \<not> go then (False, n # ns, u)
         else let (go, ns, u) = walk_bucket f ns u in (go, n # ns, u))"

fun walk_buckets :: "'u dict_iter \<Rightarrow> sxe_dict_node list list \<Rightarrow> 'u \<Rightarrow> bool \<times> sxe_dict_node list list \<times> 'u" where
  "walk_buckets f [] u = (True, [], u)"
| "walk_buckets f (b # bs) u =
     (let (go, b, u) = walk_bucket f b u
      in if \<not> go then (False, b # bs, u)
         else let (go, bs, u) = walk_buckets f bs u in (go, b # bs, u))"

definition sxe_dict_walk :: "sxe_dict \<Rightarrow> 'u dict_iter \<Rightarrow> 'u \<Rightarrow> (bool \<times> sxe_dict \<times> 'u) option" where
  "sxe_dict_walk dic f u =
     (case table dic of
        None \<Rightarrow> if dict_size dic = 0 then Some (True, dic, u) else None
      | Some tab \<Rightarrow> let (go, tab, u) = walk_buckets f tab u in Some (go, dic\<lparr>table := Some tab\<rparr>, u))"

end
