(* ===== verification/Sxe_Dict_Spec.thy ===== *)
theory Sxe_Dict_Spec
  imports Sxe_Dict "HOL-Library.Multiset"
begin

text \<open>
  The contract of the dictionaries: a well formed dictionary represents a finite map, growing the table
  keeps the map, and adding and finding entries implement the interface of a store.
\<close>

section \<open>Keys and their hashes\<close>

definition khash :: "(bytes \<Rightarrow> u64) \<Rightarrow> dict_key \<Rightarrow> u64" where
  "khash hash64 k = (case k of Key_Hash h \<Rightarrow> h | Key_Bytes bs \<Rightarrow> hash64 bs)"

definition key_wf :: "sxe_dict \<Rightarrow> dict_key \<Rightarrow> bool" where
  "key_wf dic k = (case k of Key_Hash _ \<Rightarrow> is_hashed dic
     | Key_Bytes bs \<Rightarrow> \<not> is_hashed dic \<and> (is_string dic \<longrightarrow> 0 \<notin> set bs))"

text \<open>The key under which the dictionary keeps the bytes \<open>k\<close>.\<close>

definition dkey :: "(bytes \<Rightarrow> u64) \<Rightarrow> sxe_dict \<Rightarrow> bytes \<Rightarrow> dict_key" where
  "dkey hash64 dic k = (if is_hashed dic then Key_Hash (hash64 k) else Key_Bytes k)"

definition key_valid :: "sxe_dict \<Rightarrow> bytes \<Rightarrow> bool" where
  "key_valid dic k \<longleftrightarrow> (is_string dic \<longrightarrow> 0 \<notin> set k)"

lemma cstr_no_nul [simp]: "0 \<notin> set bs \<Longrightarrow> cstr bs = bs"
  by (auto simp: cstr_def takeWhile_eq_all_conv)

lemma cstr_Nil [simp]: "cstr [] = []"
  by (simp add: cstr_def)

lemma hash_key [simp]: "sxe_hash_64 hash64 k (length k) = hash64 k"
  by (simp add: sxe_hash_64_def)

lemma key_len_self [simp]: "key_len k (length k) = length k"
  by (simp add: key_len_def)

text \<open>The keys whose hash can be taken again from the node: not an empty key that was copied without a terminator.\<close>

definition rehashable_key :: "sxe_dict \<Rightarrow> dict_key \<Rightarrow> bool" where
  "rehashable_key dic k \<longleftrightarrow> k = Key_Bytes [] \<longrightarrow> is_string dic \<or> is_nocopy dic"

lemma rehash_wf:
  "key_wf dic (node_key n) \<Longrightarrow> rehashable_key dic (node_key n) \<Longrightarrow> rehash hash64 dic n = Some (khash hash64 (node_key n))"
  by (auto simp: rehash_def khash_def key_wf_def rehashable_key_def sxe_hash_64_def split: dict_key.splits)

lemma dkey_wf: "key_valid dic k \<Longrightarrow> key_wf dic (dkey hash64 dic k)"
  by (simp add: key_wf_def dkey_def key_valid_def)

lemma khash_dkey [simp]: "khash hash64 (dkey hash64 dic k) = hash64 k"
  by (simp add: khash_def dkey_def)

lemma compare_wf:
  assumes "key_wf dic (node_key n)" and "key_valid dic k"
  shows "compare_keys dic n (if is_hashed dic then Key_Hash (hash64 k) else Key_Bytes k) (length k) \<longleftrightarrow>
    node_key n = dkey hash64 dic k"
  using assms by (auto simp: compare_keys_def dkey_def key_wf_def key_valid_def split: dict_key.splits)

section \<open>The invariant and the map of a dictionary\<close>

abbreviation entry :: "sxe_dict_node \<Rightarrow> dict_key \<times> u64" where
  "entry n \<equiv> (node_key n, node_value n)"

definition nodes_of :: "sxe_dict \<Rightarrow> sxe_dict_node list" where
  "nodes_of dic = (case table dic of None \<Rightarrow> [] | Some tab \<Rightarrow> concat tab)"

definition dict_map :: "sxe_dict \<Rightarrow> dict_key \<rightharpoonup> u64" where
  "dict_map dic = map_of (map entry (nodes_of dic))"

text \<open>Every node is in the bucket of its hash.\<close>

definition placed :: "(bytes \<Rightarrow> u64) \<Rightarrow> u32 \<Rightarrow> sxe_dict_node list list \<Rightarrow> bool" where
  "placed hash64 sz tab \<longleftrightarrow>
     (\<forall>b < length tab. \<forall>n \<in> set (tab ! b). bucket_of (khash hash64 (node_key n)) sz = Some b)"

text \<open>A dictionary that can grow: all its keys can be hashed again.\<close>

definition rehashable :: "sxe_dict \<Rightarrow> bool" where
  "rehashable dic \<longleftrightarrow> (\<forall>k \<in> dom (dict_map dic). rehashable_key dic k)"

lemma rehashable_cong: "dict_map dic' = dict_map dic \<Longrightarrow> dict_flags dic' = dict_flags dic \<Longrightarrow> rehashable dic' = rehashable dic"
  by (simp add: rehashable_def rehashable_key_def)

lemma rehashable_node: "rehashable dic \<Longrightarrow> n \<in> set (nodes_of dic) \<Longrightarrow> rehashable_key dic (node_key n)"
  by (auto simp: rehashable_def dict_map_def dom_map_of_conv_image_fst image_iff)

definition dict_inv :: "(bytes \<Rightarrow> u64) \<Rightarrow> sxe_dict \<Rightarrow> bool" where
  "dict_inv hash64 dic \<longleftrightarrow>
     (case table dic of
        None \<Rightarrow> dict_size dic = 0
      | Some tab \<Rightarrow> dict_size dic \<noteq> 0 \<and> unat (dict_size dic) < 2 ^ 31 \<and> length tab = unat (dict_size dic) \<and>
          placed hash64 (dict_size dic) tab) \<and>
     (\<forall>n \<in> set (nodes_of dic). key_wf dic (node_key n)) \<and> distinct (map node_key (nodes_of dic)) \<and>
     dict_count dic = of_nat (length (nodes_of dic)) \<and> growth dic \<in> {1, 2}"

lemma bucket_of_less: "bucket_of hash sz = Some b \<Longrightarrow> b < unat sz"
  by (auto simp: bucket_of_def unat_mod word_neq_0_conv word_less_nat_alt split: if_splits)

lemma bucket_of_total: "sz \<noteq> 0 \<Longrightarrow> \<exists>b. bucket_of hash sz = Some b"
  by (simp add: bucket_of_def)

section \<open>Reinserting\<close>

lemma mset_concat_update:
  assumes "n < length tab"
  shows "mset (concat (tab[n := xs])) + mset (tab ! n) = mset (concat tab) + mset xs"
proof -
  have "tab = take n tab @ tab ! n # drop (Suc n) tab" using assms by (rule id_take_nth_drop)
  then have "mset (concat tab) = mset (concat (take n tab)) + mset (tab ! n) + mset (concat (drop (Suc n) tab))"
    by (metis concat.simps(2) concat_append mset_append union_assoc)
  moreover have "mset (concat (tab[n := xs])) = mset (concat (take n tab)) + mset xs + mset (concat (drop (Suc n) tab))"
    using assms by (simp add: upd_conv_take_nth_drop union_assoc)
  ultimately show ?thesis by (simp add: ac_simps)
qed

lemma mset_exchange:
  fixes a b c d x y :: "'a multiset"
  assumes "a + b = c + d" and "d + x = b + y"
  shows "a + x = c + y"
proof -
  have "(a + x) + b = (a + b) + x" by (simp add: ac_simps)
  also have "\<dots> = c + (d + x)" by (simp add: assms(1) ac_simps)
  also have "\<dots> = (c + y) + b" by (simp add: assms(2) ac_simps)
  finally show ?thesis by simp
qed

lemma reinsert_all_correct:
  assumes "table dic = Some tab" and "length tab = unat (dict_size dic)" and "dict_size dic \<noteq> 0"
    and "placed hash64 (dict_size dic) tab" and "\<And>n. n \<in> set ns \<Longrightarrow> key_wf dic (node_key n) \<and> rehashable_key dic (node_key n)"
  shows "\<exists>tab'. reinsert_all hash64 ns dic = Some (dic\<lparr>table := Some tab'\<rparr>) \<and> length tab' = length tab \<and>
    placed hash64 (dict_size dic) tab' \<and> mset (concat tab') = mset (concat tab) + mset ns"
  using assms
proof (induction ns arbitrary: dic tab)
  case Nil
  then have "dic\<lparr>table := Some tab\<rparr> = dic" by simp
  then show ?case using Nil by (intro exI [of _ tab]) simp
next
  case (Cons n ns)
  have h: "rehash hash64 dic n = Some (khash hash64 (node_key n))" using Cons.prems(5) [of n] by (intro rehash_wf) simp_all
  obtain b where b: "bucket_of (khash hash64 (node_key n)) (dict_size dic) = Some b"
    using bucket_of_total [OF Cons.prems(3)] by blast
  have bl: "b < length tab" using bucket_of_less [OF b] Cons.prems(2) by simp
  let ?tab = "tab[b := n # tab ! b]" and ?dic = "dic\<lparr>table := Some (tab[b := n # tab ! b])\<rparr>"
  have step: "sxe_dict_reinsert_when_resizing hash64 dic n = Some ?dic"
    using Cons.prems(1) b bl by (simp add: sxe_dict_reinsert_when_resizing_def h)
  have "placed hash64 (dict_size dic) ?tab"
    using Cons.prems(4) b bl by (auto simp: placed_def nth_list_update)
  moreover have "key_wf ?dic (node_key x) \<and> rehashable_key ?dic (node_key x)" if "x \<in> set ns" for x
    using Cons.prems(5) [of x] that by (simp add: key_wf_def rehashable_key_def split: dict_key.splits)
  ultimately obtain tab' where tab': "reinsert_all hash64 ns ?dic = Some (?dic\<lparr>table := Some tab'\<rparr>)"
    "length tab' = length ?tab" "placed hash64 (dict_size dic) tab'" "mset (concat tab') = mset (concat ?tab) + mset ns"
    using Cons.IH [of ?dic ?tab] Cons.prems(2,3) by auto
  have "mset (concat ?tab) = add_mset n (mset (concat tab))"
    using mset_concat_update [OF bl, of "n # tab ! b"] by simp
  then show ?case using tab' step by (intro exI [of _ tab']) simp
qed

section \<open>Buckets and the map\<close>

lemma dict_invD:
  assumes "dict_inv hash64 dic"
  shows "n \<in> set (nodes_of dic) \<Longrightarrow> key_wf dic (node_key n)" and "distinct (map node_key (nodes_of dic))"
    and "table dic = Some tab \<Longrightarrow> dict_size dic \<noteq> 0" and "table dic = Some tab \<Longrightarrow> length tab = unat (dict_size dic)"
    and "table dic = Some tab \<Longrightarrow> placed hash64 (dict_size dic) tab" and "table dic = None \<Longrightarrow> dict_size dic = 0"
    and "dict_count dic = of_nat (length (nodes_of dic))" and "growth dic = 1 \<or> growth dic = 2"
    and "unat (dict_size dic) < 2 ^ 31"
  using assms by (auto simp: dict_inv_def split: option.splits)

lemma map_of_entry:
  assumes "distinct (map node_key ns)"
  shows "map_of (map entry ns) k = Some v \<longleftrightarrow> (\<exists>n \<in> set ns. node_key n = k \<and> node_value n = v)"
proof -
  have "distinct (map fst (map entry ns))" using assms by (simp add: comp_def)
  then show ?thesis by (subst map_of_eq_Some_iff) (auto simp: image_iff)
qed

lemma dict_map_Some:
  assumes "dict_inv hash64 dic"
  shows "dict_map dic k = Some v \<longleftrightarrow> (\<exists>n \<in> set (nodes_of dic). node_key n = k \<and> node_value n = v)"
  unfolding dict_map_def using map_of_entry [OF dict_invD(2) [OF assms]] .

lemma dict_map_cong:
  assumes "distinct (map node_key ns)" and "mset ns' = mset ns"
  shows "map_of (map entry ns') = map_of (map entry ns)"
proof -
  have "distinct (map node_key ns')" using assms by (metis mset_eq_imp_distinct_iff mset_map)
  moreover have "set ns' = set ns" using assms(2) by (rule mset_eq_setD)
  ultimately show ?thesis
    using map_of_entry [OF assms(1)] map_of_entry [of ns'] by (intro ext option_eqI) simp
qed

lemma bucket_map:
  assumes "dict_inv hash64 dic" and "table dic = Some tab" and "bucket_of (khash hash64 k) (dict_size dic) = Some b"
  shows "map_of (map entry (tab ! b)) k = dict_map dic k"
proof -
  have bl: "b < length tab" using bucket_of_less [OF assms(3)] dict_invD(4) [OF assms(1,2)] by simp
  have nodes: "nodes_of dic = concat tab" using assms(2) by (simp add: nodes_of_def)
  have d: "distinct (map node_key (tab ! b))"
    using dict_invD(2) [OF assms(1)] bl unfolding nodes map_concat by (auto simp: distinct_concat_iff)
  have "n \<in> set (tab ! b) \<longleftrightarrow> n \<in> set (concat tab)" if k: "node_key n = k" for n
  proof
    show "n \<in> set (tab ! b) \<Longrightarrow> n \<in> set (concat tab)" by (rule in_set_concatI [OF bl])
    assume "n \<in> set (concat tab)"
    then obtain c where c: "c < length tab" "n \<in> set (tab ! c)" using in_set_concatD by metis
    then have "bucket_of (khash hash64 (node_key n)) (dict_size dic) = Some c"
      using dict_invD(5) [OF assms(1,2)] unfolding placed_def by blast
    then show "n \<in> set (tab ! b)" using c(2) k assms(3) by simp
  qed
  then have "map_of (map entry (tab ! b)) k = Some v \<longleftrightarrow> dict_map dic k = Some v" for v
    unfolding map_of_entry [OF d] dict_map_Some [OF assms(1)] nodes by blast
  then show ?thesis by (rule option_eqI)
qed

lemma find_link_map:
  assumes "\<And>n. n \<in> set ns \<Longrightarrow> compare_keys dic n key len \<longleftrightarrow> node_key n = k"
  shows "(case find_link dic key len ns of None \<Rightarrow> None | Some i \<Rightarrow> Some (node_value (ns ! i))) =
      map_of (map entry ns) k"
    and "find_link dic key len ns = Some i \<Longrightarrow> i < length ns \<and> node_key (ns ! i) = k"
proof -
  have "(case find_link dic key len ns of None \<Rightarrow> None | Some i \<Rightarrow> Some (node_value (ns ! i))) = map_of (map entry ns) k \<and>
    (\<forall>i. find_link dic key len ns = Some i \<longrightarrow> i < length ns \<and> node_key (ns ! i) = k)"
    using assms by (induction ns) (auto split: option.splits)
  then show "(case find_link dic key len ns of None \<Rightarrow> None | Some i \<Rightarrow> Some (node_value (ns ! i))) =
      map_of (map entry ns) k"
    and "find_link dic key len ns = Some i \<Longrightarrow> i < length ns \<and> node_key (ns ! i) = k" by blast+
qed

text \<open>Finding a key gives its value, or the null pointer.\<close>

lemma sxe_dict_find_map:
  assumes "dict_inv hash64 dic" and "key_valid dic k"
  shows "sxe_dict_find hash64 dic k (length k) =
    Some (case dict_map dic (dkey hash64 dic k) of None \<Rightarrow> 0 | Some v \<Rightarrow> v)"
proof (cases "table dic")
  case None
  then show ?thesis by (simp add: sxe_dict_find_def find_entry_def dict_map_def nodes_of_def)
next
  case (Some tab)
  obtain b where b: "bucket_of (hash64 k) (dict_size dic) = Some b"
    using bucket_of_total [OF dict_invD(3) [OF assms(1) Some]] by blast
  let ?key = "if is_hashed dic then Key_Hash (hash64 k) else Key_Bytes k"
  have bl: "b < length tab" using bucket_of_less [OF b] dict_invD(4) [OF assms(1) Some] by simp
  have "key_wf dic (node_key n)" if "n \<in> set (tab ! b)" for n
    using dict_invD(1) [OF assms(1), of n] in_set_concatI [OF bl that] Some by (simp add: nodes_of_def)
  then have "compare_keys dic n ?key (length k) \<longleftrightarrow> node_key n = dkey hash64 dic k" if "n \<in> set (tab ! b)" for n
    using compare_wf [OF _ assms(2)] that by blast
  from find_link_map(1) [of "tab ! b" dic ?key "length k", OF this]
  have "(case find_link dic ?key (length k) (tab ! b) of None \<Rightarrow> None | Some i \<Rightarrow> Some (node_value (tab ! b ! i))) =
      dict_map dic (dkey hash64 dic k)"
    using bucket_map [OF assms(1) Some, of "dkey hash64 dic k" b] b by simp
  then show ?thesis
    using b Some by (auto simp: sxe_dict_find_def find_entry_def Let_def split: option.splits)
qed

section \<open>Growing keeps the map\<close>

text \<open>The C library fails an allocation whose size does not fit \<^verbatim>\<open>size_t\<close>.\<close>

definition calloc_sane :: "allocator \<Rightarrow> bool" where
  "calloc_sane al \<longleftrightarrow> (\<forall>n. calloc_ok al n \<longrightarrow> unat n * 8 < 2 ^ 64)"

lemma sane_positive:
  assumes "calloc_sane al" and "calloc_ok al (scast (n :: u32))"
  shows "unat n < 2 ^ 31"
proof (rule ccontr)
  assume "\<not> unat n < 2 ^ 31"
  then have "unat n div 2 ^ 31 = 1" using unsigned_less [of n, where 'a = nat] by (simp add: div_nat_eqI)
  then have "bit (unat n) 31" by (simp add: bit_iff_odd)
  then have "bit n 31" by (simp add: bit_unsigned_iff)
  then have "bit (scast n :: u64) 63" by (simp add: bit_simps)
  then have "bit (unat (scast n :: u64)) 63" by (simp add: bit_unsigned_iff)
  then have "2 ^ 63 \<le> unat (scast n :: u64)" by (metis bit_iff_odd div_less even_zero not_less)
  moreover have "unat (scast n :: u64) * 8 < 2 ^ 64" using assms unfolding calloc_sane_def by blast
  ultimately show False by simp
qed

lemma dict_inv_cong:
  assumes "mset (concat tab') = mset (nodes_of dic)" and "dict_inv hash64 dic"
    and "length tab' = unat sz" and "sz \<noteq> 0" and "unat sz < 2 ^ 31" and "placed hash64 sz tab'"
  shows "dict_inv hash64 (dic\<lparr>table := Some tab', dict_size := sz\<rparr>)"
    and "dict_map (dic\<lparr>table := Some tab', dict_size := sz\<rparr>) = dict_map dic"
proof -
  let ?dic = "dic\<lparr>table := Some tab', dict_size := sz\<rparr>"
  have n: "nodes_of ?dic = concat tab'" by (simp add: nodes_of_def)
  have "set (concat tab') = set (nodes_of dic)" "length (concat tab') = length (nodes_of dic)"
    using assms(1) by (metis mset_eq_setD, metis size_mset)
  moreover have "distinct (map node_key (concat tab'))"
    using dict_invD(2) [OF assms(2)] assms(1) by (metis mset_eq_imp_distinct_iff mset_map)
  moreover have "key_wf ?dic = key_wf dic" by (auto simp: key_wf_def fun_eq_iff split: dict_key.splits)
  ultimately show "dict_inv hash64 ?dic"
    using assms(3-6) dict_invD(1,7,8) [OF assms(2)] unfolding dict_inv_def n by auto
  show "dict_map ?dic = dict_map dic"
    unfolding dict_map_def n by (rule dict_map_cong [OF dict_invD(2) [OF assms(2)] assms(1)])
qed

lemma resize_correct:
  assumes "dict_inv hash64 dic" and "newsize \<noteq> 0" and "calloc_sane al" and "rehashable dic"
  shows "\<exists>dic'. sxe_dict_resize hash64 al dic newsize = Some (calloc_ok al (scast newsize), dic') \<and> dict_inv hash64 dic' \<and>
    dict_map dic' = dict_map dic \<and> dict_flags dic' = dict_flags dic \<and> dict_count dic' = dict_count dic \<and>
    (if calloc_ok al (scast newsize) then table dic' \<noteq> None \<and> dict_size dic' = newsize else dic' = dic)"
proof (cases "calloc_ok al (scast newsize)")
  case False
  then show ?thesis using assms(1) by (auto simp: sxe_dict_resize_def)
next
  case True
  let ?dic = "dic\<lparr>table := Some (replicate (unat newsize) []), dict_size := newsize\<rparr>"
  have "placed hash64 newsize (replicate (unat newsize) [])" by (simp add: placed_def)
  moreover have "key_wf ?dic (node_key n) \<and> rehashable_key ?dic (node_key n)" if "n \<in> set (nodes_of dic)" for n
    using dict_invD(1) [OF assms(1) that] rehashable_node [OF assms(4) that]
    by (simp add: key_wf_def rehashable_key_def split: dict_key.splits)
  ultimately obtain tab' where tab': "reinsert_all hash64 (nodes_of dic) ?dic = Some (?dic\<lparr>table := Some tab'\<rparr>)"
    "length tab' = unat newsize" "placed hash64 newsize tab'" "mset (concat tab') = mset (nodes_of dic)"
    using reinsert_all_correct [of ?dic "replicate (unat newsize) []" hash64 "nodes_of dic"] assms(2) by auto
  note c = dict_inv_cong [OF tab'(4) assms(1) tab'(2) assms(2) sane_positive [OF assms(3) True] tab'(3)]
  have "sxe_dict_resize hash64 al dic newsize = Some (True, dic\<lparr>table := Some tab', dict_size := newsize\<rparr>)"
    using True tab'(1) dict_invD(6) [OF assms(1)]
    by (cases "table dic") (simp_all add: sxe_dict_resize_def nodes_of_def)
  then show ?thesis using c True by auto
qed

section \<open>Adding an entry\<close>

definition points_to :: "sxe_dict \<Rightarrow> value_ptr \<Rightarrow> dict_key \<Rightarrow> bool" where
  "points_to dic ptr k \<longleftrightarrow> (\<exists>tab. table dic = Some tab \<and> fst ptr < length tab \<and> snd ptr < length (tab ! fst ptr) \<and>
     node_key (tab ! fst ptr ! snd ptr) = k)"

lemma cstr_terminated [simp]: "0 \<notin> set bs \<Longrightarrow> cstr (bs @ [0]) = bs"
  by (simp add: cstr_def) (induction bs, auto)

lemma node_new_wf:
  assumes "key_valid dic k" and "key_ok al"
  shows "sxe_dict_node_new al dic (if is_hashed dic then Key_Hash (hash64 k) else Key_Bytes k) (length k) =
    Some (if node_ok al then Some \<lparr>node_key = dkey hash64 dic k, node_value = 0\<rparr> else None)"
  using assms by (simp add: sxe_dict_node_new_def dkey_def key_valid_def)

lemma append_node_correct:
  assumes "dict_inv hash64 dic" and "table dic = Some tab" and "bucket_of (khash hash64 k) (dict_size dic) = Some b"
    and "key_wf dic k" and "dict_map dic k = None"
  defines "dic' \<equiv> dic\<lparr>table := Some (tab[b := tab ! b @ [\<lparr>node_key = k, node_value = 0\<rparr>]]), dict_count := dict_count dic + 1\<rparr>"
  shows "dict_inv hash64 dic'" and "dict_map dic' = (dict_map dic)(k \<mapsto> 0)" and "points_to dic' (b, length (tab ! b)) k"
proof -
  let ?n = "\<lparr>node_key = k, node_value = 0\<rparr>"
  let ?tab = "tab[b := tab ! b @ [?n]]"
  have bl: "b < length tab" using bucket_of_less [OF assms(3)] dict_invD(4) [OF assms(1,2)] by simp
  have nodes: "nodes_of dic = concat tab" "nodes_of dic' = concat ?tab" by (simp_all add: assms(2) dic'_def nodes_of_def)
  have ms: "mset (nodes_of dic') = add_mset ?n (mset (nodes_of dic))"
    using mset_concat_update [OF bl, of "tab ! b @ [?n]"] by (simp add: nodes)
  then have st: "set (nodes_of dic') = insert ?n (set (nodes_of dic))"
    and ln: "length (nodes_of dic') = length (nodes_of dic) + 1"
    by (metis set_mset_add_mset_insert set_mset_mset) (metis ms Suc_eq_plus1 size_add_mset size_mset)
  have fresh: "k \<notin> node_key ` set (nodes_of dic)"
    using assms(5) dict_map_Some [OF assms(1), of k] by (metis imageE option.distinct(1))
  have "mset (map node_key (nodes_of dic')) = mset (map node_key (?n # nodes_of dic))" using ms by (simp add: mset_map)
  then have dist: "distinct (map node_key (nodes_of dic'))"
    using fresh dict_invD(2) [OF assms(1)] by (metis distinct.simps(2) list.set_map list.simps(9) mset_eq_imp_distinct_iff sxe_dict_node.select_convs(1))
  have wf: "key_wf dic' = key_wf dic" by (auto simp: key_wf_def dic'_def fun_eq_iff split: dict_key.splits)
  have pl: "placed hash64 (dict_size dic) ?tab"
    using dict_invD(5) [OF assms(1,2)] assms(3) bl by (auto simp: placed_def nth_list_update)
  have "key_wf dic' (node_key n)" if "n \<in> set (nodes_of dic')" for n
    using that dict_invD(1) [OF assms(1)] assms(4) unfolding st wf by auto
  moreover have "dict_count dic' = of_nat (length (nodes_of dic'))"
    unfolding ln using dict_invD(7) [OF assms(1)] by (simp add: dic'_def)
  ultimately show inv': "dict_inv hash64 dic'"
    using dict_invD(3,4,8,9) [OF assms(1)] assms(2) pl dist by (auto simp: dict_inv_def dic'_def)
  have "dict_map dic' k' = Some v \<longleftrightarrow> ((dict_map dic)(k \<mapsto> 0)) k' = Some v" for k' v
    unfolding dict_map_Some [OF inv'] st using dict_map_Some [OF assms(1), of k' v] fresh by auto
  then show "dict_map dic' = (dict_map dic)(k \<mapsto> 0)" by (intro ext option_eqI)
  show "points_to dic' (b, length (tab ! b)) k" using bl by (simp add: points_to_def dic'_def)
qed

text \<open>Looking for the key in its bucket and appending a node when it is not there.\<close>

definition find_or_append ::
  "allocator \<Rightarrow> sxe_dict \<Rightarrow> u64 \<Rightarrow> dict_key \<Rightarrow> nat \<Rightarrow> (value_ptr option \<times> sxe_dict) option" where
  "find_or_append al dic hash key len =
     do {
       tab \<leftarrow> table dic;
       bucket \<leftarrow> bucket_of hash (dict_size dic);
       case find_link dic key len (tab ! bucket) of
         Some i \<Rightarrow> Some (Some (bucket, i), dic)
       | None \<Rightarrow> do {
           node \<leftarrow> sxe_dict_node_new al dic key len;
           case node of
             None \<Rightarrow> Some (None, dic)
           | Some node \<Rightarrow>
               Some (Some (bucket, length (tab ! bucket)),
                     dic\<lparr>table := Some (tab[bucket := tab ! bucket @ [node]]), dict_count := dict_count dic + 1\<rparr>)
         }
     }"

text \<open>What an addition leaves: the key is in the map, with the null pointer when it is new.\<close>

definition added :: "(bytes \<Rightarrow> u64) \<Rightarrow> sxe_dict \<Rightarrow> dict_key \<Rightarrow> value_ptr option \<Rightarrow> sxe_dict \<Rightarrow> bool" where
  "added hash64 dic k r dic' \<longleftrightarrow>
     dict_inv hash64 dic' \<and> dict_flags dic' = dict_flags dic \<and>
     (case r of
        None \<Rightarrow> dict_map dic' = dict_map dic
      | Some ptr \<Rightarrow> points_to dic' ptr k \<and>
          dict_map dic' = (if dict_map dic k = None then (dict_map dic)(k \<mapsto> 0) else dict_map dic))"

lemma find_or_append_correct:
  assumes "dict_inv hash64 dic" and "table dic = Some tab" and "key_valid dic k" and "key_ok al"
  shows "\<exists>r dic'. find_or_append al dic (hash64 k)
      (if is_hashed dic then Key_Hash (hash64 k) else Key_Bytes k) (length k) = Some (r, dic') \<and>
    added hash64 dic (dkey hash64 dic k) r dic' \<and> (dict_map dic (dkey hash64 dic k) = None \<longrightarrow> (r \<noteq> None \<longleftrightarrow> node_ok al))"
proof -
  let ?key = "if is_hashed dic then Key_Hash (hash64 k) else Key_Bytes k" and ?k = "dkey hash64 dic k"
  obtain b where b: "bucket_of (hash64 k) (dict_size dic) = Some b"
    using bucket_of_total [OF dict_invD(3) [OF assms(1,2)]] by blast
  have bl: "b < length tab" using bucket_of_less [OF b] dict_invD(4) [OF assms(1,2)] by simp
  have "key_wf dic (node_key n)" if "n \<in> set (tab ! b)" for n
    using dict_invD(1) [OF assms(1), of n] in_set_concatI [OF bl that] assms(2) by (simp add: nodes_of_def)
  then have cmp: "compare_keys dic n ?key (length k) \<longleftrightarrow> node_key n = ?k" if "n \<in> set (tab ! b)" for n
    using compare_wf [OF _ assms(3)] that by blast
  have fl1: "(case find_link dic ?key (length k) (tab ! b) of None \<Rightarrow> None | Some i \<Rightarrow> Some (node_value (tab ! b ! i))) =
      map_of (map entry (tab ! b)) ?k"
    by (rule find_link_map(1)) (rule cmp)
  have fl2: "i < length (tab ! b) \<and> node_key (tab ! b ! i) = ?k" if "find_link dic ?key (length k) (tab ! b) = Some i" for i
    by (rule find_link_map(2) [OF _ that]) (rule cmp)
  have m: "map_of (map entry (tab ! b)) ?k = dict_map dic ?k"
    using bucket_map [OF assms(1,2), of ?k b] b by simp
  show ?thesis
  proof (cases "find_link dic ?key (length k) (tab ! b)")
    case (Some i)
    have "points_to dic (b, i) ?k" using fl2 [OF Some] bl assms(2) by (simp add: points_to_def)
    moreover have "dict_map dic ?k = Some (node_value (tab ! b ! i))" using fl1 Some unfolding m by simp
    ultimately show ?thesis
      using Some b assms(1,2) by (auto simp: find_or_append_def added_def simp del: if_split)
  next
    case None
    then have no: "dict_map dic ?k = None" using fl1 m by simp
    show ?thesis
    proof (cases "node_ok al")
      case False
      then show ?thesis
        using None b assms(1,2) node_new_wf [OF assms(3,4), of hash64]
        by (auto simp: find_or_append_def added_def simp del: if_split)
    next
      case True
      have b': "bucket_of (khash hash64 ?k) (dict_size dic) = Some b" using b by simp
      note ap = append_node_correct [OF assms(1,2) b' dkey_wf [OF assms(3)] no]
      show ?thesis
        using None b True assms(2) node_new_wf [OF assms(3,4), of hash64] ap no
        by (auto simp: find_or_append_def added_def simp del: if_split)
    qed
  qed
qed

lemma added_trans:
  assumes "added hash64 dic1 k r dic'" and "dict_map dic1 = dict_map dic" and "dict_flags dic1 = dict_flags dic"
  shows "added hash64 dic k r dic'"
  using assms by (auto simp: added_def split: option.splits)

text \<open>The first table, and the table grown when the bucket is taken and the load is too high.\<close>

lemma first_table:
  assumes "dict_inv hash64 dic" and "table dic = None"
  shows "dict_inv hash64 (dic\<lparr>table := Some [[]], dict_size := 1\<rparr>)"
    and "dict_map (dic\<lparr>table := Some [[]], dict_size := 1\<rparr>) = dict_map dic"
  using dict_inv_cong [of "[[]]" dic hash64 1] assms by (simp_all add: nodes_of_def placed_def)

lemma growth_positive:
  assumes "dict_inv hash64 dic" and "table dic = Some tab"
  shows "dict_size dic * growth dic \<noteq> 0"
proof -
  have "unat (dict_size dic) \<noteq> 0" using dict_invD(3) [OF assms] by (simp add: word_unat_eq_iff)
  moreover have "unat (dict_size dic * 2) = unat (dict_size dic) * 2"
    using dict_invD(9) [OF assms(1)] by (simp add: unat_word_ariths)
  ultimately have "dict_size dic * 1 \<noteq> 0" "dict_size dic * 2 \<noteq> 0" by (metis mult.right_neutral unat_0, metis mult_eq_0_iff unat_0 zero_neq_numeral)
  then show ?thesis using dict_invD(8) [OF assms(1)] by metis
qed

lemma add_entry_unfold:
  "add_entry hash64 al dic hash key len =
     (if table dic = None \<and> \<not> calloc_ok al 1 then Some (None, dic)
      else do {
        let dic = (if table dic = None then dic\<lparr>table := Some [[]], dict_size := 1\<rparr> else dic);
        tab \<leftarrow> table dic;
        bucket \<leftarrow> bucket_of hash (dict_size dic);
        (ok, dic) \<leftarrow>
          (if tab ! bucket \<noteq> [] \<and> dict_count dic * 100 div dict_size dic \<ge> load dic
           then sxe_dict_resize hash64 al dic (dict_size dic * growth dic)
           else Some (True, dic));
        if \<not> ok then Some (None, dic)
        else find_or_append al dic hash (if is_hashed dic then Key_Hash hash else Key_Bytes key) len
      })"
  unfolding add_entry_def find_or_append_def Let_def ..

text \<open>When a new key is added: the node is allocated, and before it the first table or the bigger table, if one is
  needed.\<close>

definition must_grow :: "(bytes \<Rightarrow> u64) \<Rightarrow> sxe_dict \<Rightarrow> bytes \<Rightarrow> bool" where
  "must_grow hash64 dic k \<longleftrightarrow>
     (case table dic of
        None \<Rightarrow> False
      | Some tab \<Rightarrow> tab ! unat (hash64 k mod ucast (dict_size dic)) \<noteq> [] \<and> dict_count dic * 100 div dict_size dic \<ge> load dic)"

definition dict_accepts :: "(bytes \<Rightarrow> u64) \<Rightarrow> allocator \<Rightarrow> bytes \<Rightarrow> sxe_dict \<Rightarrow> bool" where
  "dict_accepts hash64 al k dic \<longleftrightarrow>
     node_ok al \<and> (table dic = None \<longrightarrow> calloc_ok al 1) \<and>
     (must_grow hash64 dic k \<longrightarrow> calloc_ok al (scast (dict_size dic * growth dic)))"

lemma sxe_dict_add_correct:
  assumes "dict_inv hash64 dic" and "key_valid dic k" and "key_ok al" and "calloc_sane al" and "rehashable dic"
  shows "\<exists>r dic'. sxe_dict_add hash64 al dic k (length k) = Some (r, dic') \<and> added hash64 dic (dkey hash64 dic k) r dic' \<and>
    (dict_map dic (dkey hash64 dic k) = None \<longrightarrow> (r \<noteq> None \<longleftrightarrow> dict_accepts hash64 al k dic))"
proof (cases "table dic = None \<and> \<not> calloc_ok al 1")
  case True
  then show ?thesis using assms(1) by (auto simp: sxe_dict_add_def add_entry_unfold added_def dict_accepts_def)
next
  case False
  define d where "d = (if table dic = None then dic\<lparr>table := Some [[]], dict_size := 1\<rparr> else dic)"
  have d: "dict_inv hash64 d" "dict_map d = dict_map dic" "dict_flags d = dict_flags dic"
    using assms(1) first_table [OF assms(1)] by (simp_all add: d_def)
  obtain tab where tab: "table d = Some tab" by (cases "table dic") (auto simp: d_def)
  obtain b where b: "bucket_of (hash64 k) (dict_size d) = Some b"
    using bucket_of_total [OF dict_invD(3) [OF d(1) tab]] by blast
  let ?grow = "tab ! b \<noteq> [] \<and> dict_count d * 100 div dict_size d \<ge> load d"
  let ?ok = "?grow \<longrightarrow> calloc_ok al (scast (dict_size d * growth d))"
  have acc: "dict_accepts hash64 al k dic \<longleftrightarrow> node_ok al \<and> ?ok"
    using False b tab by (cases "table dic") (auto simp: d_def dict_accepts_def must_grow_def bucket_of_def split: if_splits)
  have rd: "rehashable d" using assms(5) rehashable_cong [OF d(2,3)] by simp
  obtain d2 where d2: "(if ?grow then sxe_dict_resize hash64 al d (dict_size d * growth d) else Some (True, d)) = Some (?ok, d2)"
    "dict_inv hash64 d2" "dict_map d2 = dict_map dic" "dict_flags d2 = dict_flags dic" "?ok \<longrightarrow> table d2 \<noteq> None"
    using resize_correct [OF d(1) growth_positive [OF d(1) tab] assms(4) rd] d tab by (cases ?grow) (auto split: if_splits)
  have unf: "sxe_dict_add hash64 al dic k (length k) = (if \<not> ?ok then Some (None, d2)
      else find_or_append al d2 (hash64 k) (if is_hashed d2 then Key_Hash (hash64 k) else Key_Bytes k) (length k))"
    using tab b d2(1) unfolding sxe_dict_add_def add_entry_unfold if_not_P [OF False] d_def [symmetric] Let_def by simp
  show ?thesis
  proof (cases ?ok)
    case False
    then show ?thesis using unf d2 acc unfolding if_P [OF False] by (intro exI [of _ None] exI [of _ d2]) (simp add: added_def)
  next
    case True
    then obtain tab2 where t2: "table d2 = Some tab2" using d2(5) by blast
    have kv: "key_valid d2 k" and dk: "dkey hash64 d2 k = dkey hash64 dic k"
      using assms(2) d2(4) by (simp_all add: key_valid_def dkey_def)
    obtain r dic' where f: "find_or_append al d2 (hash64 k)
        (if is_hashed d2 then Key_Hash (hash64 k) else Key_Bytes k) (length k) = Some (r, dic')"
        "added hash64 d2 (dkey hash64 d2 k) r dic'" "dict_map d2 (dkey hash64 d2 k) = None \<longrightarrow> (r \<noteq> None \<longleftrightarrow> node_ok al)"
      using find_or_append_correct [OF d2(2) t2 kv assms(3)] by (elim exE conjE) (rule that)
    have "sxe_dict_add hash64 al dic k (length k) = Some (r, dic')" using unf True f(1) by (metis (no_types, lifting))
    moreover have "dict_map dic (dkey hash64 dic k) = None \<longrightarrow> (r \<noteq> None \<longleftrightarrow> dict_accepts hash64 al k dic)"
      using f(3) True unfolding acc dk d2(3) by blast
    moreover have "added hash64 dic (dkey hash64 dic k) r dic'" using added_trans [OF f(2) d2(3,4)] unfolding dk .
    ultimately show ?thesis by (intro exI [of _ r] exI [of _ dic'] conjI)
  qed
qed

section \<open>Storing a value\<close>

lemma points_to_node:
  assumes "points_to dic ptr k"
  obtains tab where "table dic = Some tab" and "fst ptr < length tab" and "snd ptr < length (tab ! fst ptr)"
    and "tab ! fst ptr ! snd ptr \<in> set (nodes_of dic)" and "node_key (tab ! fst ptr ! snd ptr) = k"
  using assms in_set_concatI [OF _ nth_mem] unfolding points_to_def nodes_of_def by fastforce

lemma set_value_correct:
  assumes "dict_inv hash64 dic" and "points_to dic ptr k"
  shows "dict_inv hash64 (set_value ptr v dic)" and "dict_map (set_value ptr v dic) = (dict_map dic)(k \<mapsto> v)"
proof -
  obtain tab where tab: "table dic = Some tab" "fst ptr < length tab" "snd ptr < length (tab ! fst ptr)"
    "tab ! fst ptr ! snd ptr \<in> set (nodes_of dic)" "node_key (tab ! fst ptr ! snd ptr) = k"
    using points_to_node [OF assms(2)] .
  let ?b = "tab ! fst ptr" and ?n = "tab ! fst ptr ! snd ptr"
  let ?b' = "?b[snd ptr := ?n\<lparr>node_value := v\<rparr>]"
  let ?dic = "set_value ptr v dic"
  have t': "table ?dic = Some (tab[fst ptr := ?b'])" "dict_size ?dic = dict_size dic" "dict_count ?dic = dict_count dic"
    "growth ?dic = growth dic" "dict_flags ?dic = dict_flags dic"
    by (simp_all add: set_value_def tab(1))
  have keys: "map node_key ?b' = map node_key ?b" using tab(3) by (simp add: map_update list_update_same_conv)
  have "map (map node_key) (tab[fst ptr := ?b']) = map (map node_key) tab"
    using tab(2) keys by (simp add: map_update list_update_same_conv)
  then have kk: "map node_key (nodes_of ?dic) = map node_key (nodes_of dic)"
    by (simp add: nodes_of_def t' tab(1) map_concat)
  then have len: "length (nodes_of ?dic) = length (nodes_of dic)" by (metis length_map)
  have wf: "key_wf ?dic = key_wf dic" by (auto simp: key_wf_def t' fun_eq_iff split: dict_key.splits)
  have "node_key ` set (nodes_of ?dic) = node_key ` set (nodes_of dic)" using kk by (metis list.set_map)
  then have w: "key_wf ?dic (node_key n)" if "n \<in> set (nodes_of ?dic)" for n
    using dict_invD(1) [OF assms(1)] that unfolding wf by (metis imageE imageI)
  have ki: "node_key ` set ((tab[fst ptr := ?b']) ! b) = node_key ` set (tab ! b)" if "b < length tab" for b
    using that keys by (cases "b = fst ptr") (auto simp: nth_list_update simp flip: set_map)
  have "placed hash64 (dict_size dic) (tab[fst ptr := ?b'])"
    unfolding placed_def
  proof (intro allI impI ballI)
    fix b n assume b: "b < length (tab[fst ptr := ?b'])" "n \<in> set ((tab[fst ptr := ?b']) ! b)"
    then have "node_key n \<in> node_key ` set (tab ! b)" using ki [of b] by auto
    then obtain n0 where "n0 \<in> set (tab ! b)" "node_key n0 = node_key n" by auto
    then show "bucket_of (khash hash64 (node_key n)) (dict_size dic) = Some b"
      using dict_invD(5) [OF assms(1) tab(1)] b(1) unfolding placed_def by (metis length_list_update)
  qed
  then show inv': "dict_inv hash64 ?dic"
    using w kk len dict_invD(2,7-9) [OF assms(1)] dict_invD(3,4) [OF assms(1) tab(1)]
    unfolding dict_inv_def t' by simp
  have "mset (nodes_of ?dic) + mset ?b = mset (nodes_of dic) + mset ?b'"
    using mset_concat_update [OF tab(2), of ?b'] by (simp add: nodes_of_def t' tab(1))
  moreover have "mset ?b' + {#?n#} = mset ?b + {#?n\<lparr>node_value := v\<rparr>#}"
    using tab(3) by (simp add: mset_update)
  ultimately have ms: "mset (nodes_of ?dic) + {#?n#} = mset (nodes_of dic) + {#?n\<lparr>node_value := v\<rparr>#}"
    by (rule mset_exchange)
  have other: "n \<in> set (nodes_of ?dic) \<longleftrightarrow> n \<in> set (nodes_of dic)" if "node_key n \<noteq> k" for n
  proof -
    have "n \<noteq> ?n" "n \<noteq> ?n\<lparr>node_value := v\<rparr>" using that tab(5) by auto
    then show ?thesis using arg_cong [OF ms, of "\<lambda>m. n \<in># m"] by simp
  qed
  have "?n\<lparr>node_value := v\<rparr> \<in> set (nodes_of ?dic)"
    using in_set_concatI [of "fst ptr" "tab[fst ptr := ?b']"] tab(2,3)
    by (simp add: nodes_of_def t' set_update_memI)
  then have new: "dict_map ?dic k = Some v" using dict_map_Some [OF inv'] tab(5) by force
  have "dict_map ?dic k' = ((dict_map dic)(k \<mapsto> v)) k'" for k'
  proof (cases "k' = k")
    case False
    have "dict_map ?dic k' = Some v' \<longleftrightarrow> dict_map dic k' = Some v'" for v'
      unfolding dict_map_Some [OF inv'] dict_map_Some [OF assms(1)] using other False by metis
    then show ?thesis using False by (auto intro: option_eqI)
  qed (simp add: new)
  then show "dict_map ?dic = (dict_map dic)(k \<mapsto> v)" by (rule ext)
qed

section \<open>The dictionary as a store\<close>

definition dict_put ::
  "(bytes \<Rightarrow> u64) \<Rightarrow> allocator \<Rightarrow> bytes \<Rightarrow> u64 \<Rightarrow> sxe_dict \<Rightarrow> (bool \<times> sxe_dict) option" where
  "dict_put hash64 al k v dic =
     do {
       (ptr, dic) \<leftarrow> sxe_dict_add hash64 al dic k (length k);
       Some (case ptr of None \<Rightarrow> (False, dic) | Some ptr \<Rightarrow> (True, set_value ptr v dic))
     }"

definition dict_get :: "(bytes \<Rightarrow> u64) \<Rightarrow> bytes \<Rightarrow> sxe_dict \<Rightarrow> (u64 option \<times> sxe_dict) option" where
  "dict_get hash64 k dic =
     do { v \<leftarrow> sxe_dict_find hash64 dic k (length k); Some (if v = 0 then None else Some v, dic) }"

text \<open>A dictionary with keys that are kept (not only their hashes) represents a map from the keys.\<close>

definition dict_repr :: "(bytes \<Rightarrow> u64) \<Rightarrow> u32 \<Rightarrow> sxe_dict \<Rightarrow> (bytes \<rightharpoonup> u64) \<Rightarrow> bool" where
  "dict_repr hash64 flags dic m \<longleftrightarrow>
     dict_inv hash64 dic \<and> dict_flags dic = flags \<and> \<not> is_hashed dic \<and> rehashable dic \<and> 0 \<notin> ran m \<and>
     m = (\<lambda>k. dict_map dic (Key_Bytes k))"

text \<open>The keys such a dictionary may be given: no terminator inside a string, and no empty key that is copied
  without one.\<close>

definition flag_valid :: "u32 \<Rightarrow> bytes \<Rightarrow> bool" where
  "flag_valid flags k \<longleftrightarrow>
     (if flags AND SXE_DICT_FLAG_KEYS_STRING \<noteq> 0 then 0 \<notin> set k
      else k \<noteq> [] \<or> flags AND SXE_DICT_FLAG_KEYS_NOCOPY \<noteq> 0)"

lemma dict_put_correct:
  assumes "dict_repr hash64 flags dic m" and "flag_valid flags k" and "v \<noteq> 0" and "m k = None"
    and "key_ok al" and "calloc_sane al"
  shows "\<exists>dic'. dict_put hash64 al k v dic = Some (dict_accepts hash64 al k dic, dic') \<and>
    dict_repr hash64 flags dic' (if dict_accepts hash64 al k dic then m(k \<mapsto> v) else m)"
proof -
  have d: "dict_inv hash64 dic" "dict_flags dic = flags" "\<not> is_hashed dic" "rehashable dic" "0 \<notin> ran m"
    "m = (\<lambda>k. dict_map dic (Key_Bytes k))"
    using assms(1) unfolding dict_repr_def by blast+
  have kv: "key_valid dic k" and kr: "rehashable_key dic (Key_Bytes k)"
    using assms(2) d(2) by (auto simp: key_valid_def rehashable_key_def flag_valid_def split: if_splits)
  have dk: "dkey hash64 dic k = Key_Bytes k" using d(3) by (simp add: dkey_def)
  obtain r dic' where a: "sxe_dict_add hash64 al dic k (length k) = Some (r, dic')" "added hash64 dic (Key_Bytes k) r dic'"
    "r \<noteq> None \<longleftrightarrow> dict_accepts hash64 al k dic"
    using sxe_dict_add_correct [OF d(1) kv assms(5,6) d(4)] dk d(6) assms(4) by auto
  show ?thesis
  proof (cases r)
    case None
    then have "dict_repr hash64 flags dic' m"
      using a(2) d rehashable_cong [of dic' dic] by (simp add: added_def dict_repr_def)
    then show ?thesis using a None by (simp add: dict_put_def)
  next
    case (Some ptr)
    then have a': "dict_inv hash64 dic'" "dict_flags dic' = flags" "points_to dic' ptr (Key_Bytes k)"
      "dict_map dic' = (dict_map dic)(Key_Bytes k \<mapsto> 0)"
      using a(2) d(2,6) assms(4) by (simp_all add: added_def)
    note s = set_value_correct [OF a'(1,3), of v]
    have f: "dict_flags (set_value ptr v dic') = flags" using a'(2) by (simp add: set_value_def)
    then have "rehashable (set_value ptr v dic')"
      using d(4) kr by (auto simp: rehashable_def rehashable_key_def s(2) a'(4) d(2))
    moreover have "m(k \<mapsto> v) = (\<lambda>x. dict_map (set_value ptr v dic') (Key_Bytes x))"
      using d(6) by (simp add: s(2) a'(4) fun_eq_iff)
    moreover have "0 \<notin> ran (m(k \<mapsto> v))" using d(5) assms(3,4) by (auto simp: ran_def)
    ultimately have "dict_repr hash64 flags (set_value ptr v dic') (m(k \<mapsto> v))"
      using s(1) d(2,3) f by (simp add: dict_repr_def)
    then show ?thesis using a Some by (intro exI [of _ "set_value ptr v dic'"]) (simp add: dict_put_def)
  qed
qed

lemma dict_get_correct:
  assumes "dict_repr hash64 flags dic m" and "flag_valid flags k"
  shows "dict_get hash64 k dic = Some (m k, dic)"
proof -
  have d: "dict_inv hash64 dic" "key_valid dic k" "dkey hash64 dic k = Key_Bytes k" "m k = dict_map dic (Key_Bytes k)" "0 \<notin> ran m"
    using assms unfolding dict_repr_def key_valid_def flag_valid_def dkey_def by (auto split: if_splits)
  then have "m k \<noteq> Some 0" by (metis ranI)
  then show ?thesis
    using sxe_dict_find_map [OF d(1,2)] d(3,4) by (auto simp: dict_get_def split: option.splits)
qed


interpretation dict_store: kv_store "dict_repr hash64 flags" "\<lambda>k. flag_valid flags k \<and> key_ok al \<and> calloc_sane al"
  "\<lambda>v. v \<noteq> 0" "dict_put hash64 al" "dict_get hash64" "dict_accepts hash64 al" for hash64 flags al
  by unfold_locales (use dict_put_correct dict_get_correct in blast)+

section \<open>Walking\<close>

definition collect :: "(dict_key \<times> u64) list dict_iter" where
  "collect k n v u = (True, v, u @ [(k, v)])"

lemma walk_bucket_collect: "walk_bucket collect ns u = (True, ns, u @ map entry ns)"
  by (induction ns arbitrary: u) (simp_all add: collect_def)

lemma walk_buckets_collect: "walk_buckets collect bs u = (True, bs, u @ map entry (concat bs))"
  by (induction bs arbitrary: u) (simp_all add: walk_bucket_collect)

section \<open>Properties\<close>

lemma dict_init_repr:
  assumes "sxe_dict_init al initial_size ld gr flags = (True, dic)" and "unat initial_size < 2 ^ 31"
    and "gr = 1 \<or> gr = 2" and "flags AND SXE_DICT_FLAG_KEYS_HASHED = 0"
  shows "dict_repr hash64 flags dic Map.empty"
proof -
  have dic: "table dic = (if initial_size = 0 then None else Some (replicate (unat initial_size) []))"
    "dict_size dic = initial_size" "dict_count dic = 0" "growth dic = gr" "dict_flags dic = flags"
    using assms(1) by (auto simp: sxe_dict_init_def Let_def split: if_splits)
  then have n: "nodes_of dic = []" by (simp add: nodes_of_def concat_replicate_trivial)
  have "dict_inv hash64 dic"
    unfolding dict_inv_def n using assms(2,3) by (auto simp: dic placed_def)
  then show ?thesis using assms(4) by (simp add: dict_repr_def rehashable_def dic dict_map_def n)
qed


definition dict_alloc :: allocator where
  "dict_alloc = \<lparr>calloc_ok = (\<lambda>n. n < 1000), node_ok = True, key_ok = True\<rparr>"

definition sum_bytes :: "bytes \<Rightarrow> u64" where
  "sum_bytes bs = fold (\<lambda>b s. s + ucast b) bs 0"

lemma dict_alloc_sane: "calloc_sane dict_alloc"
proof -
  have "unat n * 8 < 2 ^ 64" if "n < (1000 :: u64)" for n
  proof -
    have "unat n < unat (1000 :: u64)" using that by (simp only: word_less_nat_alt)
    then show ?thesis by simp
  qed
  then show ?thesis by (simp add: calloc_sane_def dict_alloc_def)
qed

text \<open>A dictionary of two strings with the same hash, for which the table had to grow.\<close>

definition two_pairs :: "(bytes \<times> u64) list" where
  "two_pairs = [(ascii ''ab'', 17), (ascii ''ba'', 18)]"

definition dict_of_two :: sxe_dict where
  "dict_of_two = snd (the (put_all (dict_put sum_bytes dict_alloc) two_pairs (snd (sxe_dict_init dict_alloc 1 100 2 2))))"

lemma two_pairs_ok:
  "distinct (map fst two_pairs)" "(k, v) \<in> set two_pairs \<Longrightarrow> flag_valid 2 k \<and> v \<noteq> 0"
  by (auto simp: two_pairs_def flag_valid_def ascii_def)

lemma dict_of_two_eq:
  "put_all (dict_put sum_bytes dict_alloc) two_pairs (snd (sxe_dict_init dict_alloc 1 100 2 2)) = Some ([True, True], dict_of_two)"
proof -
  have "map_option fst (put_all (dict_put sum_bytes dict_alloc) two_pairs (snd (sxe_dict_init dict_alloc 1 100 2 2))) = Some [True, True]"
    by code_simp
  then show ?thesis by (auto simp: dict_of_two_def)
qed

lemma init_two: "sxe_dict_init dict_alloc 1 100 2 2 = (True, snd (sxe_dict_init dict_alloc 1 100 2 2))"
  by (simp add: sxe_dict_init_def dict_alloc_def)

lemma dict_of_two: "dict_repr sum_bytes 2 dict_of_two (map_of two_pairs)"
proof -
  have r: "dict_repr sum_bytes 2 (snd (sxe_dict_init dict_alloc 1 100 2 2)) Map.empty"
    by (rule dict_init_repr [OF init_two]) (simp_all add: SXE_DICT_FLAG_KEYS_HASHED_def)
  have "dict_repr sum_bytes 2 dict_of_two (Map.empty ++ map_of (stored two_pairs [True, True]))"
    using dict_store.put_all_repr [OF r two_pairs_ok(1), of dict_alloc] two_pairs_ok(2) dict_alloc_sane dict_of_two_eq
    by (auto simp: dict_alloc_def)
  then show ?thesis by (simp add: two_pairs_def)
qed


text \<open>C23: growing the table keeps the map, the invariant and the count of a dictionary, whatever the
  outcome of the allocation.\<close>

theorem dict_resize_keeps_map:
  assumes "dict_inv hash64 dic" and "rehashable dic" and "newsize \<noteq> 0" and "calloc_sane al"
  shows "\<exists>dic'. sxe_dict_resize hash64 al dic newsize = Some (calloc_ok al (scast newsize), dic') \<and> dict_inv hash64 dic' \<and>
    rehashable dic' \<and> dict_map dic' = dict_map dic \<and> sxe_dict_count dic' = sxe_dict_count dic \<and>
    dict_size dic' = (if calloc_ok al (scast newsize) then newsize else dict_size dic)"
proof -
  from resize_correct [OF assms(1,3,4,2)] obtain dic' where
    r: "sxe_dict_resize hash64 al dic newsize = Some (calloc_ok al (scast newsize), dic')" "dict_inv hash64 dic'"
    "dict_map dic' = dict_map dic" "dict_flags dic' = dict_flags dic" "dict_count dic' = dict_count dic"
    "if calloc_ok al (scast newsize) then table dic' \<noteq> None \<and> dict_size dic' = newsize else dic' = dic" by blast
  then show ?thesis using assms(2) rehashable_cong [OF r(3,4)] by (simp add: sxe_dict_count_def split: if_splits)
qed

theorem dict_resize_keeps_map_witness:
  "\<exists>dic'. sxe_dict_resize sum_bytes dict_alloc dict_of_two 8 = Some (calloc_ok dict_alloc (scast (8 :: u32)), dic') \<and>
     dict_inv sum_bytes dic' \<and> rehashable dic' \<and> dict_map dic' = dict_map dict_of_two \<and>
     sxe_dict_count dic' = sxe_dict_count dict_of_two \<and>
     dict_size dic' = (if calloc_ok dict_alloc (scast (8 :: u32)) then 8 else dict_size dict_of_two)"
  by (rule dict_resize_keeps_map) (use dict_of_two dict_alloc_sane in \<open>simp_all add: dict_repr_def\<close>)

text \<open>C30: walking a well formed dictionary with a function that never stops visits every entry exactly
  once: the keys it is called with are pairwise different and the pairs are those of the map.\<close>

theorem dict_walk_visits_all:
  assumes "dict_inv hash64 dic"
  shows "\<exists>kvs. sxe_dict_walk dic collect [] = Some (True, dic, kvs) \<and> distinct (map fst kvs) \<and> map_of kvs = dict_map dic"
proof -
  have "sxe_dict_walk dic collect [] = Some (True, dic, map entry (nodes_of dic))"
    using dict_invD(6) [OF assms]
    by (cases "table dic") (simp_all add: sxe_dict_walk_def walk_buckets_collect nodes_of_def)
  then show ?thesis using dict_invD(2) [OF assms] by (simp add: dict_map_def comp_def)
qed

theorem dict_walk_visits_all_witness:
  "\<exists>kvs. sxe_dict_walk dict_of_two collect [] = Some (True, dict_of_two, kvs) \<and> distinct (map fst kvs) \<and>
    map_of kvs = dict_map dict_of_two \<and> map_of kvs (Key_Bytes (ascii ''ab'')) = Some 17"
proof -
  have "dict_inv sum_bytes dict_of_two" "dict_map dict_of_two (Key_Bytes (ascii ''ab'')) = map_of two_pairs (ascii ''ab'')"
    using dict_of_two by (simp_all add: dict_repr_def)
  then have "dict_inv sum_bytes dict_of_two" "dict_map dict_of_two (Key_Bytes (ascii ''ab'')) = Some 17"
    by (simp_all add: two_pairs_def)
  from dict_walk_visits_all [OF this(1)] this(2) show ?thesis by auto
qed

end
