(* ===== verification/Sxe_Cdb_Entry.thy ===== *)
theory Sxe_Cdb_Entry
  imports Kit_Prelude
begin

text \<open>
  Model of the entries of the constant database, \<^verbatim>\<open>lib-sxe-cdb/sxe-cdb-private.h\<close> and the parts of
  \<^verbatim>\<open>lib-sxe-cdb/sxe-cdb.c\<close> that write and read them. An entry is a header, a key and a value; the lengths of the
  key and the value select one of four headers, of 1, 3, 5 or 8 bytes. Unpacking an entry gives what was packed.
\<close>

section \<open>Lengths\<close>

text \<open>The longest key and value of each of the four headers, from the widths of their bit fields.\<close>

definition KEY_LEN_MAX :: "nat \<Rightarrow> u32" where
  "KEY_LEN_MAX bits = push_bit 2 (push_bit (bits - 2) 1 - 1) + 3"

definition KEY_HEADER_LEN_1_KEY_LEN_MAX :: u32 where "KEY_HEADER_LEN_1_KEY_LEN_MAX = KEY_LEN_MAX 3"
definition KEY_HEADER_LEN_3_KEY_LEN_MAX :: u32 where "KEY_HEADER_LEN_3_KEY_LEN_MAX = KEY_LEN_MAX 7"
definition KEY_HEADER_LEN_5_KEY_LEN_MAX :: u32 where "KEY_HEADER_LEN_5_KEY_LEN_MAX = KEY_LEN_MAX 16"
definition KEY_HEADER_LEN_8_KEY_LEN_MAX :: u32 where "KEY_HEADER_LEN_8_KEY_LEN_MAX = KEY_LEN_MAX 24"
definition KEY_HEADER_LEN_1_VAL_LEN_MAX :: u32 where "KEY_HEADER_LEN_1_VAL_LEN_MAX = KEY_LEN_MAX 4"
definition KEY_HEADER_LEN_3_VAL_LEN_MAX :: u32 where "KEY_HEADER_LEN_3_VAL_LEN_MAX = KEY_LEN_MAX 16"
definition KEY_HEADER_LEN_5_VAL_LEN_MAX :: u32 where "KEY_HEADER_LEN_5_VAL_LEN_MAX = KEY_LEN_MAX 16"
definition KEY_HEADER_LEN_8_VAL_LEN_MAX :: u32 where "KEY_HEADER_LEN_8_VAL_LEN_MAX = KEY_LEN_MAX 32"

lemma key_header_maxima [simp]:
  "KEY_HEADER_LEN_1_KEY_LEN_MAX = 0x7" "KEY_HEADER_LEN_3_KEY_LEN_MAX = 0x7F"
  "KEY_HEADER_LEN_5_KEY_LEN_MAX = 0xFFFF" "KEY_HEADER_LEN_8_KEY_LEN_MAX = 0xFFFFFF"
  "KEY_HEADER_LEN_1_VAL_LEN_MAX = 0xF" "KEY_HEADER_LEN_3_VAL_LEN_MAX = 0xFFFF"
  "KEY_HEADER_LEN_5_VAL_LEN_MAX = 0xFFFF" "KEY_HEADER_LEN_8_VAL_LEN_MAX = 0xFFFFFFFF"
  by (simp_all add: KEY_HEADER_LEN_1_KEY_LEN_MAX_def KEY_HEADER_LEN_3_KEY_LEN_MAX_def
      KEY_HEADER_LEN_5_KEY_LEN_MAX_def KEY_HEADER_LEN_8_KEY_LEN_MAX_def KEY_HEADER_LEN_1_VAL_LEN_MAX_def
      KEY_HEADER_LEN_3_VAL_LEN_MAX_def KEY_HEADER_LEN_5_VAL_LEN_MAX_def KEY_HEADER_LEN_8_VAL_LEN_MAX_def
      KEY_LEN_MAX_def push_bit_eq_mult)

section \<open>Headers\<close>

text \<open>The bit fields of the first byte, which all headers share: bit 0 is the flag; the short header has 3 bits of
  key length and 4 bits of value length after it, the header of 3 bytes has 7 bits of key length.\<close>

definition header_flag :: "u8 \<Rightarrow> u8" where "header_flag b = take_bit 1 b"
definition header_xxx_len :: "u8 \<Rightarrow> u8" where "header_xxx_len b = take_bit 3 (drop_bit 1 b)"
definition header_yyy_len :: "u8 \<Rightarrow> u8" where "header_yyy_len b = drop_bit 4 b"
definition header_len_3_key_len :: "u8 \<Rightarrow> u8" where "header_len_3_key_len b = drop_bit 1 b"

definition header_byte :: "u8 \<Rightarrow> u8 \<Rightarrow> u8 \<Rightarrow> u8" where
  "header_byte flag xxx_len yyy_len = take_bit 1 flag OR push_bit 1 (take_bit 3 xxx_len) OR push_bit 4 yyy_len"

text \<open>Little endian fields of 16, 24 and 32 bits.\<close>

fun field_bytes :: "nat \<Rightarrow> u32 \<Rightarrow> bytes" where
  "field_bytes 0 w = []"
| "field_bytes (Suc n) w = ucast w # field_bytes n (drop_bit 8 w)"

fun field_read :: "(nat \<Rightarrow> u8 option) \<Rightarrow> nat \<Rightarrow> nat \<Rightarrow> u32 option" where
  "field_read mem 0 i = Some 0"
| "field_read mem (Suc n) i = do { b \<leftarrow> mem i; w \<leftarrow> field_read mem n (i + 1); Some (ucast b OR push_bit 8 w) }"

text \<open>The length of the header for a key and a value, and the header that is written.\<close>

definition key_header_len :: "u32 \<Rightarrow> u32 \<Rightarrow> nat option" where
  "key_header_len key_len val_len =
     (if key_len = 0 then None
      else if key_len \<le> KEY_HEADER_LEN_1_KEY_LEN_MAX \<and> val_len \<le> KEY_HEADER_LEN_1_VAL_LEN_MAX then Some 1
      else if key_len \<le> KEY_HEADER_LEN_3_KEY_LEN_MAX \<and> val_len \<le> KEY_HEADER_LEN_3_VAL_LEN_MAX then Some 3
      else if key_len \<le> KEY_HEADER_LEN_5_KEY_LEN_MAX \<and> val_len \<le> KEY_HEADER_LEN_5_VAL_LEN_MAX then Some 5
      else if key_len \<le> KEY_HEADER_LEN_8_KEY_LEN_MAX \<and> val_len \<le> KEY_HEADER_LEN_8_VAL_LEN_MAX then Some 8
      else None)"

definition hkv_header :: "nat \<Rightarrow> u32 \<Rightarrow> u32 \<Rightarrow> bytes" where
  "hkv_header header_len key_len val_len =
     (if header_len = 1 then [header_byte 0 (ucast key_len) (ucast val_len)]
      else if header_len = 3 then (1 OR push_bit 1 (ucast key_len)) # field_bytes 2 val_len
      else if header_len = 5 then header_byte 0 0 0 # field_bytes 2 key_len @ field_bytes 2 val_len
      else header_byte 0 0 1 # field_bytes 3 key_len @ field_bytes 4 val_len)"

text \<open>Writing an entry; \<open>None\<close> reads outside the key or the value.\<close>

definition hkv_pack :: "nat \<Rightarrow> bytes \<Rightarrow> u32 \<Rightarrow> bytes \<Rightarrow> u32 \<Rightarrow> bytes option" where
  "hkv_pack header_len key key_len val val_len =
     (if unat key_len \<le> length key \<and> unat val_len \<le> length val
      then Some (hkv_header header_len key_len val_len @ take (unat key_len) key @ take (unat val_len) val)
      else None)"

section \<open>Unpacking\<close>

text \<open>A pointer into an entry is its offset from the start of the entry.\<close>

record SXE_CDB_HKV_PART =
  hkv_len :: u32
  hkv_key :: nat
  hkv_key_len :: u32
  hkv_val :: nat
  hkv_val_len :: u32

definition hkv_part :: "nat \<Rightarrow> u32 \<Rightarrow> u32 \<Rightarrow> SXE_CDB_HKV_PART" where
  "hkv_part header_len key_len val_len =
     \<lparr>hkv_len = of_nat header_len + key_len + val_len, hkv_key = header_len, hkv_key_len = key_len,
      hkv_val = header_len + unat key_len, hkv_val_len = val_len\<rparr>"

definition sxe_cdb_h_len :: "bytes \<Rightarrow> nat option" where
  "sxe_cdb_h_len hkv = do {
     b \<leftarrow> peek hkv 0;
     Some (if header_flag b = 0 \<and> header_xxx_len b = 0 \<and> header_yyy_len b = 1 then 8
           else if header_flag b = 0 \<and> header_xxx_len b = 0 \<and> header_yyy_len b = 0 then 5
           else if header_flag b = 0 \<and> header_xxx_len b \<noteq> 0 then 1
           else 3) }"

definition sxe_cdb_hkv_unpack :: "bytes \<Rightarrow> SXE_CDB_HKV_PART option" where
  "sxe_cdb_hkv_unpack hkv = do {
     b \<leftarrow> peek hkv 0;
     if header_flag b = 0 \<and> header_xxx_len b = 0 \<and> header_yyy_len b = 1 then do {
       key_len \<leftarrow> field_read (peek hkv) 3 1;
       val_len \<leftarrow> field_read (peek hkv) 4 4;
       Some (hkv_part 8 key_len val_len) }
     else if header_flag b = 0 \<and> header_xxx_len b = 0 \<and> header_yyy_len b = 0 then do {
       key_len \<leftarrow> field_read (peek hkv) 2 1;
       val_len \<leftarrow> field_read (peek hkv) 2 3;
       Some (hkv_part 5 key_len val_len) }
     else if header_flag b = 0 \<and> header_xxx_len b \<noteq> 0 then
       Some (hkv_part 1 (ucast (header_xxx_len b)) (ucast (header_yyy_len b)))
     else do {
       val_len \<leftarrow> field_read (peek hkv) 2 1;
       Some (hkv_part 3 (ucast (header_len_3_key_len b)) val_len) } }"

section \<open>Fields\<close>

lemma header_byte_fields [simp]:
  "header_flag (header_byte f x y) = take_bit 1 f"
  "header_xxx_len (header_byte f x y) = take_bit 3 x"
  "header_yyy_len (header_byte f x y) = take_bit 4 y"
  by (intro bit_eqI; auto simp: header_flag_def header_xxx_len_def header_yyy_len_def header_byte_def bit_simps
      bit_double_iff mult.commute [of _ "2 :: u8"])+

lemma length_field_bytes [simp]: "length (field_bytes n w) = n"
  by (induction n arbitrary: w) auto

lemma le_step: "ucast (ucast w :: u8) OR push_bit 8 (take_bit (8 * n) (drop_bit 8 w)) = take_bit (8 + 8 * n) (w :: u32)"
  by (intro bit_eqI) (auto simp: bit_simps)

lemma field_read_bytes:
  "(\<And>j. j < n \<Longrightarrow> mem (i + j) = Some (field_bytes n w ! j)) \<Longrightarrow> field_read mem n i = Some (take_bit (8 * n) w)"
proof (induction n arbitrary: i w)
  case (Suc n)
  have "mem i = Some (ucast w)" using Suc.prems [of 0] by simp
  moreover have "field_read mem n (i + 1) = Some (take_bit (8 * n) (drop_bit 8 w))"
    using Suc.prems [of "Suc j" for j] by (intro Suc.IH) auto
  ultimately show ?case by (simp add: le_step)
qed simp

lemma take_bit_small: "unat w < 2 ^ n \<Longrightarrow> take_bit n w = w"
  by (rule unsigned_word_eqI [where 'a = nat]) (simp add: unsigned_take_bit_eq take_bit_nat_eq_self)

lemma ucast_small: "unat (w :: u32) < 2 ^ n \<Longrightarrow> n \<le> 8 \<Longrightarrow> ucast (take_bit n (ucast w :: u8)) = w"
proof -
  assume w: "unat w < 2 ^ n" "n \<le> 8"
  have "(ucast (take_bit n (ucast w :: u8)) :: u32) = take_bit n w" using w(2) by (intro bit_eqI) (auto simp: bit_simps)
  then show ?thesis using w(1) by (simp add: take_bit_small)
qed

lemma length_hkv_header: "key_header_len kl vl = Some h \<Longrightarrow> length (hkv_header h kl vl) = h"
  by (auto simp: key_header_len_def hkv_header_def split: if_splits)

lemma header_3_fields [simp]:
  "header_flag (1 OR push_bit 1 x) = 1" "header_len_3_key_len (1 OR push_bit 1 x) = take_bit 7 x"
  by (intro bit_eqI; auto simp: header_flag_def header_len_3_key_len_def bit_simps bit_double_iff
      mult.commute [of _ "2 :: u8"])+

lemma key_header_cases:
  assumes "key_header_len kl vl = Some h"
  obtains "h = 1" "kl \<noteq> 0" "unat kl < 2 ^ 3" "unat vl < 2 ^ 4"
  | "h = 3" "kl \<noteq> 0" "unat kl < 2 ^ 7" "unat vl < 2 ^ 16"
  | "h = 5" "kl \<noteq> 0" "unat kl < 2 ^ 16" "unat vl < 2 ^ 16"
  | "h = 8" "kl \<noteq> 0" "unat kl < 2 ^ 24" "unat vl < 2 ^ 32"
proof -
  have "unat vl < 2 ^ 32" using unsigned_less [of vl, where 'a = nat] by simp
  then show thesis
    using assms that by (simp add: key_header_len_def word_le_nat_alt split: if_splits)
qed

lemma unpack_header:
  assumes h: "key_header_len kl vl = Some h" and mem: "\<And>i. i < h \<Longrightarrow> peek hkv i = Some (hkv_header h kl vl ! i)"
  shows "sxe_cdb_hkv_unpack hkv = Some (hkv_part h kl vl) \<and> sxe_cdb_h_len hkv = Some h"
  using h
proof (cases rule: key_header_cases)
  case 1
  have b: "peek hkv 0 = Some (header_byte 0 (ucast kl) (ucast vl))" using mem [of 0] 1 by (simp add: hkv_header_def)
  have "ucast (take_bit 3 (ucast kl :: u8)) = kl" "ucast (take_bit 4 (ucast vl :: u8)) = vl"
    using ucast_small [OF 1(3)] ucast_small [OF 1(4)] by simp_all
  moreover from this 1 have "take_bit 3 (ucast kl :: u8) \<noteq> 0" by force
  ultimately show ?thesis using 1 b by (simp add: sxe_cdb_hkv_unpack_def sxe_cdb_h_len_def)
next
  case 2
  have b: "peek hkv 0 = Some (1 OR push_bit 1 (ucast kl))" using mem [of 0] 2 by (simp add: hkv_header_def)
  have "field_read (peek hkv) 2 1 = Some (take_bit (8 * 2) vl)"
    using mem 2 by (intro field_read_bytes) (simp add: hkv_header_def)
  moreover have "ucast (take_bit 7 (ucast kl :: u8)) = kl" using ucast_small [OF 2(3)] by simp
  ultimately show ?thesis
    using 2 b header_3_fields by (simp add: sxe_cdb_hkv_unpack_def sxe_cdb_h_len_def take_bit_small del: One_nat_def)
next
  case 3
  have b: "peek hkv 0 = Some (header_byte 0 0 0)" using mem [of 0] 3 by (simp add: hkv_header_def)
  have "field_read (peek hkv) 2 1 = Some (take_bit (8 * 2) kl)"
    using mem 3 by (intro field_read_bytes) (simp add: hkv_header_def nth_append)
  moreover have "field_read (peek hkv) 2 3 = Some (take_bit (8 * 2) vl)"
    using mem 3 by (intro field_read_bytes) (simp add: hkv_header_def nth_append)
  ultimately show ?thesis using 3 b by (simp add: sxe_cdb_hkv_unpack_def sxe_cdb_h_len_def take_bit_small)
next
  case 4
  have b: "peek hkv 0 = Some (header_byte 0 0 1)" using mem [of 0] 4 by (simp add: hkv_header_def)
  have "field_read (peek hkv) 3 1 = Some (take_bit (8 * 3) kl)"
    using mem 4 by (intro field_read_bytes) (simp add: hkv_header_def nth_append)
  moreover have "field_read (peek hkv) 4 4 = Some (take_bit (8 * 4) vl)"
    using mem 4 by (intro field_read_bytes) (simp add: hkv_header_def nth_append)
  ultimately show ?thesis using 4 b by (simp add: sxe_cdb_hkv_unpack_def sxe_cdb_h_len_def take_bit_small)
qed

section \<open>Properties\<close>

text \<open>The entries that can be stored and described: the key is not empty, its length has at most 24 bits, and the
  length of the whole entry has at most 32 bits.\<close>

definition hkv_fits :: "bytes \<Rightarrow> bytes \<Rightarrow> bool" where
  "hkv_fits k v \<longleftrightarrow> k \<noteq> [] \<and> length k < 2 ^ 24 \<and> length k + length v + 8 < 2 ^ 32"

lemma hkv_fits_unat:
  assumes "hkv_fits k v"
  shows "unat (of_nat (length k) :: u32) = length k" "unat (of_nat (length v) :: u32) = length v"
  using assms by (simp_all add: hkv_fits_def unat_of_nat)

lemma hkv_fits_header: "hkv_fits k v \<Longrightarrow> \<exists>h. key_header_len (of_nat (length k)) (of_nat (length v)) = Some h"
proof -
  assume f: "hkv_fits k v"
  have "(of_nat (length k) :: u32) \<noteq> 0"
    using hkv_fits_unat(1) [OF f] f by (metis hkv_fits_def length_0_conv unsigned_0)
  moreover have "(of_nat (length v) :: u32) \<le> 0xFFFFFFFF" "(of_nat (length k) :: u32) \<le> 0xFFFFFF"
    using hkv_fits_unat [OF f] f by (simp_all add: hkv_fits_def word_le_nat_alt)
  ultimately show ?thesis by (simp add: key_header_len_def)
qed

text \<open>C28: An entry of the constant database that is packed and unpacked gives the key and the value back, whichever
  of the four headers their lengths select and whatever follows the entry in memory: unpacking tells the lengths of the
  header and of the whole entry, and the parts it points to are the key and the value.\<close>

theorem cdb_entry_roundtrip:
  assumes "hkv_fits k v"
  shows "\<exists>h entry part. key_header_len (of_nat (length k)) (of_nat (length v)) = Some h \<and>
    hkv_pack h k (of_nat (length k)) v (of_nat (length v)) = Some entry \<and> length entry = h + length k + length v \<and>
    sxe_cdb_h_len (entry @ behind) = Some h \<and> sxe_cdb_hkv_unpack (entry @ behind) = Some part \<and>
    unat (hkv_len part) = length entry \<and>
    take (unat (hkv_key_len part)) (drop (hkv_key part) (entry @ behind)) = k \<and>
    take (unat (hkv_val_len part)) (drop (hkv_val part) (entry @ behind)) = v"
proof -
  let ?k = "of_nat (length k) :: u32" and ?v = "of_nat (length v) :: u32"
  obtain h where h: "key_header_len ?k ?v = Some h" using hkv_fits_header [OF assms] by blast
  note u = hkv_fits_unat [OF assms] and l = length_hkv_header [OF h]
  have h8: "h \<le> 8" using h by (auto simp: key_header_len_def split: if_splits)
  let ?e = "hkv_header h ?k ?v @ k @ v"
  have "peek (?e @ behind) i = Some (hkv_header h ?k ?v ! i)" if "i < h" for i
    using that l by (simp add: peek_def nth_append)
  note un = unpack_header [OF h this]
  have "hkv_len (hkv_part h ?k ?v) = of_nat (h + length k + length v)" by (simp add: hkv_part_def)
  moreover have "unat (of_nat (h + length k + length v) :: u32) = h + length k + length v"
    using assms h8 unfolding unat_of_nat by (simp add: hkv_fits_def)
  ultimately have "unat (hkv_len (hkv_part h ?k ?v)) = h + length k + length v" by (simp only:)
  then show ?thesis
    using h un l u by (intro exI [of _ h] exI [of _ ?e] exI [of _ "hkv_part h ?k ?v"]) (simp add: hkv_pack_def hkv_part_def)
qed

theorem cdb_entry_roundtrip_witness:
  "\<exists>h entry part. key_header_len 100 2 = Some h \<and> hkv_pack h (replicate 100 7) 100 [1, 2] 2 = Some entry \<and> length entry = 105 \<and>
    sxe_cdb_hkv_unpack (entry @ [9]) = Some part \<and>
    take (unat (hkv_val_len part)) (drop (hkv_val part) (entry @ [9])) = [1, 2]"
proof -
  have f: "hkv_fits (replicate 100 7) [1, 2]" by (simp add: hkv_fits_def)
  have l: "of_nat (length (replicate 100 (7 :: u8))) = (100 :: u32)" "of_nat (length [1, 2 :: u8]) = (2 :: u32)" by simp_all
  have h: "key_header_len 100 2 = Some 3" by (simp add: key_header_len_def)
  from cdb_entry_roundtrip [OF f, of "[9]", unfolded l h] show ?thesis using h by auto
qed

end
