(* ===== verification/Kit_Base_Encode.thy ===== *)
theory Kit_Base_Encode
  imports Kit_Prelude
begin

text \<open>
  Model of \<^verbatim>\<open>lib-kit/kit-base-encode.c\<close>: the base 16, 32, 32hex, 64 and 64url encoders and decoders.
  One pair of routines is driven by a configuration, which gives the alphabet and whether the text is
  padded. A buffer is the list of its cells and an access outside it is \<open>None\<close>. The in and out
  parameters \<^verbatim>\<open>*olen\<close> and \<^verbatim>\<open>*ilen\<close> are arguments and part of the result, on the error returns too.
\<close>

section \<open>Configurations\<close>

text \<open>The special values of a text map: white space, the equals sign, and every other invalid character.\<close>

definition WS :: u8 where "WS = 64"
definition EQ :: u8 where "EQ = 65"
definition IN :: u8 where "IN = 66"

record basecfg =
  cfg_bits :: nat
  wantpadding :: bool
  txtmap :: bytes
  binmap :: bytes

definition base16txtmap :: bytes where
  "base16txtmap =
    [IN, IN, IN, IN, IN, IN, IN, IN, IN, WS, WS, IN, IN, IN, IN, IN,
     IN, IN, IN, IN, IN, IN, IN, IN, IN, IN, IN, IN, IN, IN, IN, IN,
     WS, IN, IN, IN, IN, IN, IN, IN, IN, IN, IN, IN, IN, IN, IN, IN,
     0, 1, 2, 3, 4, 5, 6, 7, 8, 9, IN, IN, IN, EQ, IN, IN,
     IN, 10, 11, 12, 13, 14, 15, IN, IN, IN, IN, IN, IN, IN, IN, IN,
     15, IN, IN, IN, IN, IN, IN, IN, IN, IN, IN, IN, IN, IN, IN, IN,
     IN, 10, 11, 12, 13, 14, 15, IN, IN, IN, IN, IN, IN, IN, IN, IN,
     IN, IN, IN, IN, IN, IN, IN, IN, IN, IN, IN, IN, IN, IN, IN, IN] @
     replicate 128 IN"

definition base16cfg :: basecfg where
  "base16cfg = \<lparr>cfg_bits = 16, wantpadding = False, txtmap = base16txtmap,
    binmap = ascii ''0123456789abcdef''\<rparr>"

definition BASE16CFG :: basecfg where
  "BASE16CFG = \<lparr>cfg_bits = 16, wantpadding = False, txtmap = base16txtmap,
    binmap = ascii ''0123456789ABCDEF''\<rparr>"

definition base32txtmap :: bytes where
  "base32txtmap =
    [IN, IN, IN, IN, IN, IN, IN, IN, IN, WS, WS, IN, IN, IN, IN, IN,
     IN, IN, IN, IN, IN, IN, IN, IN, IN, IN, IN, IN, IN, IN, IN, IN,
     WS, IN, IN, IN, IN, IN, IN, IN, IN, IN, IN, IN, IN, IN, IN, IN,
     IN, IN, 26, 27, 28, 29, 30, 31, IN, IN, IN, IN, IN, EQ, IN, IN,
     IN, 0, 1, 2, 3, 4, 5, 6, 7, 8, 9, 10, 11, 12, 13, 14,
     15, 16, 17, 18, 19, 20, 21, 22, 23, 24, 25, IN, IN, IN, IN, IN,
     IN, IN, IN, IN, IN, IN, IN, IN, IN, IN, IN, IN, IN, IN, IN, IN,
     IN, IN, IN, IN, IN, IN, IN, IN, IN, IN, IN, IN, IN, IN, IN, IN] @
     replicate 128 IN"

definition base32cfg :: basecfg where
  "base32cfg = \<lparr>cfg_bits = 32, wantpadding = False, txtmap = base32txtmap,
    binmap = ascii ''ABCDEFGHIJKLMNOPQRSTUVWXYZ234567''\<rparr>"

definition base32hextxtmap :: bytes where
  "base32hextxtmap =
    [IN, IN, IN, IN, IN, IN, IN, IN, IN, WS, WS, IN, IN, IN, IN, IN,
     IN, IN, IN, IN, IN, IN, IN, IN, IN, IN, IN, IN, IN, IN, IN, IN,
     WS, IN, IN, IN, IN, IN, IN, IN, IN, IN, IN, IN, IN, IN, IN, IN,
     0, 1, 2, 3, 4, 5, 6, 7, 8, 9, IN, IN, IN, EQ, IN, IN,
     IN, 10, 11, 12, 13, 14, 15, 16, 17, 18, 19, 20, 21, 22, 23, 24,
     25, 26, 27, 28, 29, 30, 31, IN, IN, IN, IN, IN, IN, IN, IN, IN,
     IN, 10, 11, 12, 13, 14, 15, 16, 17, 18, 19, 20, 21, 22, 23, 24,
     25, 26, 27, 28, 29, 30, 31, IN, IN, IN, IN, IN, IN, IN, IN, IN] @
     replicate 128 IN"

definition base32hexcfg :: basecfg where
  "base32hexcfg = \<lparr>cfg_bits = 32, wantpadding = False, txtmap = base32hextxtmap,
    binmap = ascii ''0123456789ABCDEFGHIJKLMNOPQRSTUV''\<rparr>"

definition base64txtmap :: bytes where
  "base64txtmap =
    [IN, IN, IN, IN, IN, IN, IN, IN, IN, WS, WS, IN, IN, IN, IN, IN,
     IN, IN, IN, IN, IN, IN, IN, IN, IN, IN, IN, IN, IN, IN, IN, IN,
     WS, IN, IN, IN, IN, IN, IN, IN, IN, IN, IN, 62, IN, IN, IN, 63,
     52, 53, 54, 55, 56, 57, 58, 59, 60, 61, IN, IN, IN, EQ, IN, IN,
     IN, 0, 1, 2, 3, 4, 5, 6, 7, 8, 9, 10, 11, 12, 13, 14,
     15, 16, 17, 18, 19, 20, 21, 22, 23, 24, 25, IN, IN, IN, IN, IN,
     IN, 26, 27, 28, 29, 30, 31, 32, 33, 34, 35, 36, 37, 38, 39, 40,
     41, 42, 43, 44, 45, 46, 47, 48, 49, 50, 51, IN, IN, IN, IN, IN] @
     replicate 128 IN"

definition base64cfg :: basecfg where
  "base64cfg = \<lparr>cfg_bits = 64, wantpadding = True, txtmap = base64txtmap,
    binmap = ascii ''ABCDEFGHIJKLMNOPQRSTUVWXYZabcdefghijklmnopqrstuvwxyz0123456789+/''\<rparr>"

definition base64urltxtmap :: bytes where
  "base64urltxtmap =
    [IN, IN, IN, IN, IN, IN, IN, IN, IN, WS, WS, IN, IN, IN, IN, IN,
     IN, IN, IN, IN, IN, IN, IN, IN, IN, IN, IN, IN, IN, IN, IN, IN,
     WS, IN, IN, IN, IN, IN, IN, IN, IN, IN, IN, IN, IN, 62, IN, IN,
     52, 53, 54, 55, 56, 57, 58, 59, 60, 61, IN, IN, IN, EQ, IN, IN,
     IN, 0, 1, 2, 3, 4, 5, 6, 7, 8, 9, 10, 11, 12, 13, 14,
     15, 16, 17, 18, 19, 20, 21, 22, 23, 24, 25, IN, IN, IN, IN, 63,
     IN, 26, 27, 28, 29, 30, 31, 32, 33, 34, 35, 36, 37, 38, 39, 40,
     41, 42, 43, 44, 45, 46, 47, 48, 49, 50, 51, IN, IN, IN, IN, IN] @
     replicate 128 IN"

definition base64urlcfg :: basecfg where
  "base64urlcfg = \<lparr>cfg_bits = 64, wantpadding = False, txtmap = base64urltxtmap,
    binmap = ascii ''ABCDEFGHIJKLMNOPQRSTUVWXYZabcdefghijklmnopqrstuvwxyz0123456789-_''\<rparr>"

section \<open>Encoding\<close>

text \<open>What a call returns: the error string or \<open>None\<close> for \<^verbatim>\<open>NULL\<close>, the output buffer, and the new
  \<^verbatim>\<open>*olen\<close> and \<^verbatim>\<open>*ilen\<close>.\<close>

record base_return =
  err :: "string option"
  out :: bytes
  olen :: nat
  ilen :: nat

text \<open>The loop that looks for the number of bits in a character, from \<open>1\<close> up.\<close>

function find_shval :: "nat \<Rightarrow> basecfg \<Rightarrow> nat" where
  "find_shval shval cfg = (if shval < 8 \<and> 2 ^ shval \<noteq> cfg_bits cfg then find_shval (shval + 1) cfg else shval)"
  by pat_completeness auto
termination
  by (relation "measure (\<lambda>(shval, cfg). 8 - shval)") auto

declare find_shval.simps [simp del]

text \<open>The three places that write a character check the room for it and its terminator first.\<close>

definition put_char :: "nat \<Rightarrow> u8 \<Rightarrow> bytes \<Rightarrow> nat \<Rightarrow> (string option \<times> bytes \<times> nat) option" where
  "put_char maxolen c ob ol =
     (if maxolen - 1 \<le> ol then Some (Some ''Output overflow'', ob, ol)
      else do { ob \<leftarrow> poke ob ol c; ob \<leftarrow> poke ob (ol + 1) 0; Some (None, ob, ol + 1) })"

text \<open>
  The inner loop writes a character while there are enough bits. The number of bits waiting in \<^verbatim>\<open>buf\<close>
  stays below \<open>16\<close>, so it is a natural number; \<^verbatim>\<open>buf\<close> itself loses the bits shifted out at the top.
\<close>

partial_function (option) encode_emit ::
  "basecfg \<Rightarrow> nat \<Rightarrow> nat \<Rightarrow> u32 \<Rightarrow> bytes \<Rightarrow> nat \<Rightarrow> nat \<Rightarrow> (string option \<times> bytes \<times> nat \<times> nat) option" where
  "encode_emit cfg shval maxolen buf ob ol bits =
     (if shval \<le> bits
      then do { (e, ob, ol) \<leftarrow> put_char maxolen
                  (binmap cfg ! unat (drop_bit (bits - shval) buf AND of_nat (cfg_bits cfg - 1))) ob ol;
                case e of Some _ \<Rightarrow> Some (e, ob, ol, bits)
                | None \<Rightarrow> encode_emit cfg shval maxolen buf ob ol (bits - shval) }
      else Some (None, ob, ol, bits))"

partial_function (option) encode_read ::
  "basecfg \<Rightarrow> nat \<Rightarrow> nat \<Rightarrow> bytes \<Rightarrow> nat \<Rightarrow> bytes \<Rightarrow> nat \<Rightarrow> nat \<Rightarrow> nat \<Rightarrow> u32 \<Rightarrow>
     (string option \<times> bytes \<times> nat \<times> nat \<times> nat \<times> u32) option" where
  "encode_read cfg shval maxolen inp maxilen ob ol il bits buf =
     (if il < maxilen
      then do { c \<leftarrow> peek inp il;
                (e, ob, ol, bits) \<leftarrow> encode_emit cfg shval maxolen (push_bit 8 buf OR ucast c) ob ol (bits + 8);
                case e of Some _ \<Rightarrow> Some (e, ob, ol, il + 1, bits, push_bit 8 buf OR ucast c)
                | None \<Rightarrow> encode_read cfg shval maxolen inp maxilen ob ol (il + 1) bits (push_bit 8 buf OR ucast c) }
      else Some (None, ob, ol, il, bits, buf))"

partial_function (option) encode_pad ::
  "nat \<Rightarrow> nat \<Rightarrow> bytes \<Rightarrow> nat \<Rightarrow> nat \<Rightarrow> (string option \<times> bytes \<times> nat) option" where
  "encode_pad shval maxolen ob ol bits =
     (if bits mod 8 \<noteq> 0
      then do { (e, ob, ol) \<leftarrow> put_char maxolen (of_char CHR ''='') ob ol;
                case e of Some _ \<Rightarrow> Some (e, ob, ol)
                | None \<Rightarrow> encode_pad shval maxolen ob ol (bits + (8 - shval)) }
      else Some (None, ob, ol))"

text \<open>The remaining bits go out as the high bits of one more character.\<close>

definition encode_rest :: "basecfg \<Rightarrow> nat \<Rightarrow> nat \<Rightarrow> u32 \<Rightarrow> bytes \<Rightarrow> nat \<Rightarrow> nat \<Rightarrow> (string option \<times> bytes \<times> nat \<times> nat) option" where
  "encode_rest cfg shval maxolen buf ob ol bits =
     (if bits \<noteq> 0
      then do { (e, ob, ol) \<leftarrow> put_char maxolen
                  (binmap cfg ! unat (push_bit (shval - bits) buf AND of_nat (cfg_bits cfg - 1))) ob ol;
                Some (e, ob, ol, if e = None then bits + (8 - shval) else bits) }
      else Some (None, ob, ol, bits))"

definition encode :: "bytes \<Rightarrow> nat \<Rightarrow> bytes \<Rightarrow> nat \<Rightarrow> basecfg \<Rightarrow> base_return option" where
  "encode ob ol inp il cfg =
     do { let shval = find_shval 1 cfg;
          SXEA6 (shval < 8);
          SXEA6 (length (binmap cfg) = cfg_bits cfg);
          if ol = 0 then Some \<lparr>err = Some ''Output overflow'', out = ob, olen = ol, ilen = il\<rparr>
          else if il = 0 then do { ob \<leftarrow> poke ob 0 0; Some \<lparr>err = None, out = ob, olen = 0, ilen = il\<rparr> }
          else do { (e, ob', ol', il', bits, buf) \<leftarrow> encode_read cfg shval ol inp il ob 0 0 0 0;
                    if e \<noteq> None then Some \<lparr>err = e, out = ob', olen = ol', ilen = il'\<rparr>
                    else do { (e, ob', ol', bits) \<leftarrow> encode_rest cfg shval ol buf ob' ol' bits;
                              if e \<noteq> None then Some \<lparr>err = e, out = ob', olen = ol', ilen = il'\<rparr>
                              else if wantpadding cfg
                                   then do { (e, ob', ol') \<leftarrow> encode_pad shval ol ob' ol' bits;
                                             Some \<lparr>err = e, out = ob', olen = ol', ilen = il'\<rparr> }
                                   else Some \<lparr>err = None, out = ob', olen = ol', ilen = il'\<rparr> } } }"

section \<open>Decoding\<close>

definition KIT_BASE_DECODE_DEFAULT :: u32 where "KIT_BASE_DECODE_DEFAULT = 0"
definition KIT_BASE_DECODE_SKIP_WHITESPACE :: u32 where "KIT_BASE_DECODE_SKIP_WHITESPACE = 1"

record decoder =
  d_out :: bytes
  d_olen :: nat
  d_ilen :: nat
  d_bits :: nat
  d_padding :: nat
  d_buf :: u32
  d_done :: bool

text \<open>The switch on the value \<open>c\<close> of a character. It returns the error string of the one early return.\<close>

definition decode_equals :: "basecfg \<Rightarrow> nat \<Rightarrow> decoder \<Rightarrow> decoder" where
  "decode_equals cfg shval st =
     (if wantpadding cfg
      then if (d_bits st + d_padding st) mod 8 \<noteq> 0
           then if d_padding st = 0 \<and> shval \<le> d_bits st \<and> d_bits st < 8 then st\<lparr>d_done := True\<rparr>
                else let st = st\<lparr>d_ilen := d_ilen st + 1, d_padding := d_padding st + shval\<rparr>
                     in if (d_bits st + d_padding st) mod 8 = 0 then st\<lparr>d_done := True\<rparr> else st
           else st\<lparr>d_done := True\<rparr>
      else st\<lparr>d_done := True\<rparr>)"

definition decode_value :: "nat \<Rightarrow> nat \<Rightarrow> u8 \<Rightarrow> decoder \<Rightarrow> (string option \<times> decoder) option" where
  "decode_value shval maxolen c st =
     (if d_padding st \<noteq> 0 then Some (None, st\<lparr>d_done := True\<rparr>)
      else let st = st\<lparr>d_bits := d_bits st + shval, d_buf := push_bit shval (d_buf st) OR ucast c, d_ilen := d_ilen st + 1\<rparr>
           in if 8 \<le> d_bits st
              then if maxolen \<le> d_olen st then Some (Some ''Output overflow'', st)
                   else do { ob \<leftarrow> poke (d_out st) (d_olen st) (ucast (drop_bit (d_bits st - 8) (d_buf st) AND 255));
                             Some (None, st\<lparr>d_out := ob, d_olen := d_olen st + 1, d_bits := d_bits st - 8\<rparr>) }
              else Some (None, st))"

definition decode_switch :: "basecfg \<Rightarrow> nat \<Rightarrow> u32 \<Rightarrow> nat \<Rightarrow> u8 \<Rightarrow> decoder \<Rightarrow> (string option \<times> decoder) option" where
  "decode_switch cfg shval flags maxolen c st =
     (if c = WS \<and> flags AND KIT_BASE_DECODE_SKIP_WHITESPACE \<noteq> 0 then Some (None, st\<lparr>d_ilen := d_ilen st + 1\<rparr>)
      else if c = WS \<or> c = IN then Some (None, st\<lparr>d_done := True\<rparr>)
      else if c = EQ then Some (None, decode_equals cfg shval st)
      else decode_value shval maxolen c st)"

partial_function (option) decode_loop ::
  "basecfg \<Rightarrow> nat \<Rightarrow> u32 \<Rightarrow> nat \<Rightarrow> bytes \<Rightarrow> nat \<Rightarrow> decoder \<Rightarrow> (string option \<times> decoder) option" where
  "decode_loop cfg shval flags maxolen inp maxilen st =
     (if \<not> d_done st \<and> d_ilen st < maxilen
      then do { ch \<leftarrow> peek inp (d_ilen st);
                c \<leftarrow> peek (txtmap cfg) (unat ch);
                (e, st) \<leftarrow> decode_switch cfg shval flags maxolen c st;
                case e of Some _ \<Rightarrow> Some (e, st)
                | None \<Rightarrow> decode_loop cfg shval flags maxolen inp maxilen st }
      else Some (None, st))"

definition decode :: "bytes \<Rightarrow> nat \<Rightarrow> bytes \<Rightarrow> nat \<Rightarrow> u32 \<Rightarrow> basecfg \<Rightarrow> base_return option" where
  "decode ob ol inp il flags cfg =
     do { let shval = find_shval 1 cfg;
          SXEA6 (shval < 8);
          (e, st) \<leftarrow> decode_loop cfg shval flags ol inp il
            \<lparr>d_out = ob, d_olen = 0, d_ilen = 0, d_bits = 0, d_padding = 0, d_buf = 0, d_done = False\<rparr>;
          let result = \<lparr>err = e, out = d_out st, olen = d_olen st, ilen = d_ilen st\<rparr>;
          if e \<noteq> None then Some result
          else if (d_bits st + d_padding st) mod 8 \<noteq> 0
               then if wantpadding cfg then Some (result\<lparr>err := Some ''Padding characters missing''\<rparr>)
                    else if d_padding st = 0 \<and> shval \<le> d_bits st \<and> d_bits st < 8
                         then Some (result\<lparr>ilen := ilen result - 1\<rparr>)
                         else Some result
               else Some result }"

section \<open>The conversion functions\<close>

datatype kit_bin2hex_fmt = KIT_BIN2HEX_UPPER | KIT_BIN2HEX_LOWER

definition kit_base16encode :: "bytes \<Rightarrow> nat \<Rightarrow> bytes \<Rightarrow> nat \<Rightarrow> base_return option" where
  "kit_base16encode ob ol inp il = encode ob ol inp il BASE16CFG"

definition kit_base16decode :: "bytes \<Rightarrow> nat \<Rightarrow> bytes \<Rightarrow> nat \<Rightarrow> u32 \<Rightarrow> base_return option" where
  "kit_base16decode ob ol inp il flags = decode ob ol inp il flags base16cfg"

text \<open>The hexadecimal functions work out the room from the length and ignore the error string; they
  return the new \<^verbatim>\<open>olen\<close>, here with the buffer.\<close>

definition kit_bin2hex :: "bytes \<Rightarrow> bytes \<Rightarrow> nat \<Rightarrow> kit_bin2hex_fmt \<Rightarrow> (nat \<times> bytes) option" where
  "kit_bin2hex ohex ibin il fmt =
     do { r \<leftarrow> encode ohex (il * 2 + 1) ibin il (if fmt = KIT_BIN2HEX_UPPER then BASE16CFG else base16cfg);
          Some (olen r, out r) }"

definition kit_hex2bin :: "bytes \<Rightarrow> bytes \<Rightarrow> nat \<Rightarrow> (nat \<times> bytes) option" where
  "kit_hex2bin obin ihex il =
     do { r \<leftarrow> decode obin ((il + 1) div 2) ihex il KIT_BASE_DECODE_DEFAULT base16cfg;
          Some (olen r, out r) }"

definition kit_base32encode :: "bytes \<Rightarrow> nat \<Rightarrow> bytes \<Rightarrow> nat \<Rightarrow> base_return option" where
  "kit_base32encode ob ol inp il = encode ob ol inp il base32cfg"

definition kit_base32decode :: "bytes \<Rightarrow> nat \<Rightarrow> bytes \<Rightarrow> nat \<Rightarrow> u32 \<Rightarrow> base_return option" where
  "kit_base32decode ob ol inp il flags = decode ob ol inp il flags base32cfg"

definition kit_base32hexencode :: "bytes \<Rightarrow> nat \<Rightarrow> bytes \<Rightarrow> nat \<Rightarrow> base_return option" where
  "kit_base32hexencode ob ol inp il = encode ob ol inp il base32hexcfg"

definition kit_base32hexdecode :: "bytes \<Rightarrow> nat \<Rightarrow> bytes \<Rightarrow> nat \<Rightarrow> u32 \<Rightarrow> base_return option" where
  "kit_base32hexdecode ob ol inp il flags = decode ob ol inp il flags base32hexcfg"

definition kit_base64encode :: "bytes \<Rightarrow> nat \<Rightarrow> bytes \<Rightarrow> nat \<Rightarrow> base_return option" where
  "kit_base64encode ob ol inp il = encode ob ol inp il base64cfg"

definition kit_base64decode :: "bytes \<Rightarrow> nat \<Rightarrow> bytes \<Rightarrow> nat \<Rightarrow> u32 \<Rightarrow> base_return option" where
  "kit_base64decode ob ol inp il flags = decode ob ol inp il flags base64cfg"

definition kit_base64urlencode :: "bytes \<Rightarrow> nat \<Rightarrow> bytes \<Rightarrow> nat \<Rightarrow> base_return option" where
  "kit_base64urlencode ob ol inp il = encode ob ol inp il base64urlcfg"

definition kit_base64urldecode :: "bytes \<Rightarrow> nat \<Rightarrow> bytes \<Rightarrow> nat \<Rightarrow> base_return option" where
  "kit_base64urldecode ob ol inp il = decode ob ol inp il KIT_BASE_DECODE_DEFAULT base64urlcfg"

end
