(* ===== verification/Kit_Base_Spec.thy ===== *)
theory Kit_Base_Spec
  imports Kit_Base_Encode
begin

text \<open>
  Correctness of the encoders and decoders of \<^verbatim>\<open>lib-kit/kit-base-encode.c\<close>. The reference is the stream of
  bits of the input: a text spells it in groups of 4, 5 or 6 bits. The locale \<open>base_code\<close> states what the
  routines need of a configuration; it is interpreted for the six configurations of the code.
\<close>

section \<open>Bits of a word\<close>

text \<open>The low \<open>n\<close> bits of \<open>x\<close>, the highest first.\<close>

definition wbits :: "nat \<Rightarrow> 'a :: semiring_bit_operations \<Rightarrow> bool list" where
  "wbits n x = map (bit x) (rev [0..<n])"

lemma length_wbits [simp]: "length (wbits n x) = n"
  by (simp add: wbits_def)

lemma wbits_0 [simp]: "wbits 0 x = []"
  by (simp add: wbits_def)

lemma nth_wbits: "i < n \<Longrightarrow> wbits n x ! i = bit x (n - 1 - i)"
  by (simp add: wbits_def rev_nth)

lemma wbits_cong: "(\<And>i. i < n \<Longrightarrow> bit x i = bit y i) \<Longrightarrow> wbits n x = wbits n y"
  by (simp add: wbits_def)

lemma wbits_split:
  "wbits (k + n) x = wbits k (drop_bit n x) @ wbits n x"
  by (rule nth_equalityI) (auto simp: nth_append nth_wbits bit_drop_bit_eq algebra_simps)

lemma wbits_unat [simp]:
  "wbits n (unat (w :: 'a :: len word)) = wbits n w"
  by (rule wbits_cong) (simp add: bit_unsigned_iff bit_imp_le_length)

lemma wbits_inject:
  assumes "wbits n x = wbits n y" "x < 2 ^ n" "y < (2 :: nat) ^ n"
  shows "x = y"
proof -
  have "bit x i = bit y i" if "i < n" for i
    using arg_cong [OF assms(1), of "\<lambda>l. l ! (n - 1 - i)"] that by (simp add: nth_wbits)
  then have "take_bit n x = take_bit n y" by (auto simp: bit_eq_iff bit_take_bit_iff)
  then show ?thesis using assms(2,3) by (simp add: take_bit_nat_eq_self)
qed

lemma wbits_read:
  fixes c :: u8
  assumes "k + n \<le> 32" "\<And>i. n \<le> i \<Longrightarrow> \<not> bit c i"
  shows "wbits (k + n) (push_bit n buf OR ucast c :: u32) = wbits k buf @ wbits n c"
proof -
  have "wbits k (drop_bit n (push_bit n buf OR ucast c :: u32)) = wbits k buf"
    using assms by (intro wbits_cong) (simp add: bit_simps)
  moreover have "wbits n (push_bit n buf OR ucast c :: u32) = wbits n c"
    using assms by (intro wbits_cong) (auto simp: bit_simps)
  ultimately show ?thesis by (simp add: wbits_split)
qed

lemma wbits_emit:
  "wbits s (drop_bit n buf AND mask s :: u32) @ wbits n buf = wbits (s + n) buf"
proof -
  have "wbits s (drop_bit n buf AND mask s :: u32) = wbits s (drop_bit n buf)"
    by (rule wbits_cong) (auto simp: bit_simps dest: bit_imp_le_length)
  then show ?thesis by (simp add: wbits_split)
qed

lemma wbits_rest:
  assumes "k < s" "s \<le> 32"
  shows "wbits s (push_bit (s - k) buf AND mask s :: u32) = wbits k buf @ replicate (s - k) False"
  using assms by (intro nth_equalityI) (auto simp: nth_append nth_wbits bit_simps)


section \<open>Streams of bits\<close>

definition stream :: "nat \<Rightarrow> 'a :: semiring_bit_operations list \<Rightarrow> bool list" where
  "stream n xs = concat (map (wbits n) xs)"

lemma stream_simps [simp]:
  "stream n [] = []" "stream n (x # xs) = wbits n x @ stream n xs" "stream n (xs @ ys) = stream n xs @ stream n ys"
  by (simp_all add: stream_def)

lemma length_stream [simp]: "length (stream n xs) = n * length xs"
  by (induction xs) simp_all

lemma stream_unat [simp]: "stream n (map unat (ws :: 'a :: len word list)) = stream n ws"
  by (induction ws) simp_all

lemma stream_inject:
  assumes "stream n xs = stream n ys" "length xs = length ys"
    "\<forall>x \<in> set xs. x < 2 ^ n" "\<forall>y \<in> set ys. y < (2 :: nat) ^ n"
  shows "xs = ys"
  using assms(2,1,3,4) by (induction xs ys rule: list_induct2) (auto dest: wbits_inject)

lemma stream_bytes_inject:
  assumes "stream 8 (xs :: bytes) = stream 8 ys" "length xs = length ys"
  shows "xs = ys"
proof -
  have small: "unat (x :: u8) < 2 ^ 8" for x using unsigned_less [of x, where 'a = nat] by simp
  have "map unat xs = map unat ys"
    using assms small by (intro stream_inject [where n = 8]) auto
  then show ?thesis by (rule map_injective) (simp add: inj_on_def word_unat_eq_iff)
qed

text \<open>
  The digits of some bytes: the values of successive groups of \<open>s\<close> bits, the last one filled up with zeros.
  \<open>is_digits\<close> says the same by the stream of the digits.
\<close>

definition base_digits :: "nat \<Rightarrow> bytes \<Rightarrow> nat list" where
  "base_digits s bs =
     map (\<lambda>i. horner_sum of_bool 2 (rev (take s (drop (s * i) (stream 8 bs @ replicate s False)))))
       [0..<(8 * length bs + s - 1) div s]"

definition is_digits :: "nat \<Rightarrow> nat list \<Rightarrow> bytes \<Rightarrow> bool" where
  "is_digits s ds bs \<longleftrightarrow> (\<forall>d \<in> set ds. d < 2 ^ s) \<and> (\<exists>r < s. stream s ds = stream 8 bs @ replicate r False)"

text \<open>The text of some bytes: their digits in the alphabet, and the padding to a multiple of four characters.\<close>

definition base_chars :: "basecfg \<Rightarrow> nat list \<Rightarrow> bytes" where
  "base_chars cfg ds = map (\<lambda>d. binmap cfg ! d) ds"

definition base_padding :: "basecfg \<Rightarrow> nat \<Rightarrow> nat" where
  "base_padding cfg n = (if wantpadding cfg then (3 - n mod 3) mod 3 else 0)"

definition base_text :: "basecfg \<Rightarrow> bytes \<Rightarrow> bytes" where
  "base_text cfg bs =
     base_chars cfg (base_digits (find_shval 1 cfg) bs) @ replicate (base_padding cfg (length bs)) (of_char CHR ''='')"

lemma base_chars_simps [simp]:
  "base_chars cfg [] = []" "length (base_chars cfg ds) = length ds" "base_chars cfg [d] = [binmap cfg ! d]"
  "base_chars cfg (ds @ es) = base_chars cfg ds @ base_chars cfg es"
  by (simp_all add: base_chars_def)

lemma take_base_chars: "take n (base_chars cfg ds) = base_chars cfg (take n ds)"
  by (simp add: base_chars_def take_map)

lemma base_digits_Nil: "0 < s \<Longrightarrow> base_digits s bs = [] \<longleftrightarrow> bs = []"
  by (simp add: base_digits_def div_eq_0_iff) (cases bs; simp)

lemma is_digits_length:
  assumes "is_digits s ds bs"
  shows "length ds = (8 * length bs + s - 1) div s"
proof -
  obtain r where r: "r < s" and "stream s ds = stream 8 bs @ replicate r False"
    using assms by (auto simp: is_digits_def)
  then have "s * length ds = 8 * length bs + r" using length_stream [of s ds] by simp
  then have "8 * length bs + s - 1 = s * length ds + (s - 1 - r)" using r by simp
  also have "\<dots> div s = length ds" using r by (intro div_nat_eqI) auto
  finally show ?thesis by simp
qed

lemma horner_wbits:
  assumes "d < (2 :: nat) ^ s"
  shows "horner_sum of_bool 2 (rev (wbits s d)) = d"
  using assms horner_sum_bit_eq_take_bit [of d s] by (simp add: wbits_def take_bit_nat_eq_self rev_map)

lemma stream_nth_chunk:
  assumes "i < length ds"
  shows "take s (drop (s * i) (stream s ds)) = wbits s (ds ! i)"
  using assms
proof (induction ds arbitrary: i)
  case (Cons d ds)
  then show ?case by (cases i) (simp_all add: add.commute)
qed simp

lemma is_digits_unique:
  assumes "is_digits s ds bs"
  shows "ds = base_digits s bs"
proof (rule nth_equalityI)
  show "length ds = length (base_digits s bs)" using is_digits_length [OF assms] by (simp add: base_digits_def)
  fix i assume i: "i < length ds"
  obtain r where r: "r < s" and st: "stream s ds = stream 8 bs @ replicate r False" and small: "\<forall>d \<in> set ds. d < 2 ^ s"
    using assms by (auto simp: is_digits_def)
  have "stream 8 bs @ replicate s False = stream s ds @ replicate (s - r) False"
    using r by (simp add: st replicate_add [symmetric])
  moreover have "s * i + s \<le> s * length ds" using i by (metis Suc_leI mult_Suc_right add.commute mult_le_mono2)
  ultimately have "take s (drop (s * i) (stream 8 bs @ replicate s False)) = wbits s (ds ! i)"
    using stream_nth_chunk [OF i, of s] by simp
  moreover have "base_digits s bs ! i = horner_sum of_bool 2 (rev (take s (drop (s * i) (stream 8 bs @ replicate s False))))"
    using i is_digits_length [OF assms] unfolding base_digits_def by (subst nth_map) simp_all
  ultimately show "ds ! i = base_digits s bs ! i" using i small horner_wbits [of "ds ! i" s] by (simp only: nth_mem)
qed


lemma wbits_horner:
  assumes "length l = s"
  shows "wbits s (horner_sum of_bool 2 (rev l) :: nat) = l"
  using assms by (intro nth_equalityI) (auto simp: nth_wbits bit_horner_sum_bit_iff rev_nth)

lemma stream_chunks:
  assumes "length l = s * n"
  shows "stream s (map (\<lambda>i. horner_sum of_bool 2 (rev (take s (drop (s * i) l))) :: nat) [0..<n]) = l"
  using assms
proof (induction n arbitrary: l)
  case (Suc n)
  have chunk: "take s (drop (s * i) l) = take s (drop (s * i) (take (s * n) l))" if "i < n" for i
  proof -
    have "s * i + s \<le> s * n" using that by (metis Suc_leI mult_Suc_right add.commute mult_le_mono2)
    then show ?thesis by (simp add: drop_take)
  qed
  have digits: "map (\<lambda>i. horner_sum of_bool 2 (rev (take s (drop (s * i) l))) :: nat) [0..<n] =
    map (\<lambda>i. horner_sum of_bool 2 (rev (take s (drop (s * i) (take (s * n) l))))) [0..<n]"
    by (rule map_cong [OF refl]) (simp only: chunk set_upt atLeastLessThan_iff)
  have "stream s (map (\<lambda>i. horner_sum of_bool 2 (rev (take s (drop (s * i) l))) :: nat) [0..<n]) = take (s * n) l"
    unfolding digits by (rule Suc.IH) (use Suc.prems in simp)
  then show ?case using Suc.prems by (simp add: wbits_horner)
qed simp

lemma is_digits_base_digits:
  assumes "0 < s"
  shows "is_digits s (base_digits s bs) bs"
proof -
  define n where "n = (8 * length bs + s - 1) div s"
  let ?l = "stream 8 bs @ replicate (s * n - 8 * length bs) False"
  have "s * n + (8 * length bs + s - 1) mod s = 8 * length bs + s - 1" by (simp add: n_def)
  moreover have "(8 * length bs + s - 1) mod s < s" using assms by simp
  ultimately have n: "8 * length bs \<le> s * n" "s * n < 8 * length bs + s" using assms by linarith+
  have chunk: "take s (drop (s * i) (stream 8 bs @ replicate s False)) = take s (drop (s * i) ?l)" if "i < n" for i
  proof -
    have "s * i + s \<le> s * n" using that by (metis Suc_leI mult_Suc_right add.commute mult_le_mono2)
    moreover have "?l = take (s * n) (stream 8 bs @ replicate s False)" using n by simp
    ultimately show ?thesis by (simp only: drop_take take_take) simp
  qed
  have digits: "base_digits s bs = map (\<lambda>i. horner_sum of_bool 2 (rev (take s (drop (s * i) ?l)))) [0..<n]"
    unfolding base_digits_def n_def [symmetric] by (rule map_cong [OF refl]) (simp only: chunk set_upt atLeastLessThan_iff)
  have "stream s (base_digits s bs) = ?l" unfolding digits by (rule stream_chunks) (use n in simp)
  moreover have "s * n - 8 * length bs < s" using n by simp
  moreover have "\<forall>d \<in> set (base_digits s bs). d < 2 ^ s"
  proof -
    have "horner_sum of_bool 2 (rev (take s l)) < (2 :: nat) ^ s" for l
      by (rule less_le_trans [OF horner_sum_of_bool_2_less]) simp
    then show ?thesis unfolding base_digits_def set_map by blast
  qed
  ultimately show ?thesis unfolding is_digits_def by blast
qed

lemma take_stream: "take (n * i) (stream n xs) = stream n (take i xs)"
proof (induction xs arbitrary: i)
  case (Cons x xs)
  then show ?case by (cases i) simp_all
qed simp

section \<open>The encoder\<close>

text \<open>A buffer holds a text: its characters from the start on, and the terminator once one was written.\<close>

definition holds :: "bytes \<Rightarrow> bytes \<Rightarrow> bool" where
  "holds ob t \<longleftrightarrow> take (length t) ob = t \<and> (t \<noteq> [] \<longrightarrow> length t < length ob \<and> ob ! length t = 0)"

lemma holds_Nil [simp]: "holds ob []"
  by (simp add: holds_def)

lemma put_char_cases:
  assumes "0 < m" "m \<le> length ob" "holds ob t" "length t < m"
  shows "length t = m - 1 \<and> put_char m c ob (length t) = Some (Some ''Output overflow'', ob, length t) \<or>
    length t < m - 1 \<and> (\<exists>ob'. put_char m c ob (length t) = Some (None, ob', length t + 1) \<and> holds ob' (t @ [c]) \<and>
      length ob' = length ob)"
proof (cases "length t < m - 1")
  case True
  then have "take (length t) ob = t" "length t + 1 < length ob" using assms by (simp_all add: holds_def)
  then have "holds (ob[length t := c, length t + 1 := 0]) (t @ [c])"
    by (simp add: holds_def list_update_swap [of "length t"] take_Suc_update del: list_update_append)
  then show ?thesis using True assms by (simp add: put_char_def)
next
  case False
  then show ?thesis using assms by (simp add: put_char_def)
qed

text \<open>What the encoder promises for the bytes \<open>bs\<close> and the room \<open>ol\<close>: their text with its terminator, or,
  when the two do not fit, as much of the text as does.\<close>

definition encode_spec :: "basecfg \<Rightarrow> nat \<Rightarrow> bytes \<Rightarrow> base_return \<Rightarrow> bool" where
  "encode_spec cfg ol bs r \<longleftrightarrow>
     (if length (base_text cfg bs) < ol
      then err r = None \<and> olen r = length (base_text cfg bs) \<and> ilen r = length bs \<and>
           take (length (base_text cfg bs) + 1) (out r) = base_text cfg bs @ [0]
      else err r = Some ''Output overflow'' \<and> olen r = ol - 1 \<and> take (olen r) (out r) = take (ol - 1) (base_text cfg bs))"

lemma encode_specD:
  assumes "encode_spec cfg ol bs r" "length (base_text cfg bs) < ol"
  shows "err r = None" "olen r = length (base_text cfg bs)" "take (length (base_text cfg bs)) (out r) = base_text cfg bs"
proof -
  show "err r = None" "olen r = length (base_text cfg bs)" using assms by (simp_all add: encode_spec_def)
  have "take (length (base_text cfg bs) + 1) (out r) = base_text cfg bs @ [0]" using assms by (simp add: encode_spec_def)
  from arg_cong [OF this, of "take (length (base_text cfg bs))"]
  show "take (length (base_text cfg bs)) (out r) = base_text cfg bs" by simp
qed

text \<open>Of the text \<open>full\<close> due, \<open>t\<close> was written.\<close>

definition writes :: "nat \<Rightarrow> nat \<Rightarrow> string option \<Rightarrow> bytes \<Rightarrow> bytes \<Rightarrow> bytes \<Rightarrow> bool" where
  "writes m room e ob t full \<longleftrightarrow>
     0 < m \<and> m \<le> room \<and> length ob = room \<and> holds ob t \<and> length t < m \<and>
     (if e = None then t = full else e = Some ''Output overflow'' \<and> t = take (m - 1) full \<and> m \<le> length full)"

lemma writes_more:
  assumes "writes m room e ob t full" "e \<noteq> None"
  shows "writes m room e ob t (full @ rest)"
  using assms by (auto simp: writes_def)

lemma holds_terminated:
  assumes "holds ob t" "t \<noteq> []"
  shows "take (length t + 1) ob = t @ [0]"
  using assms by (simp add: holds_def take_Suc_conv_app_nth)

lemma mod_3_cases: "n mod 3 = 0 \<or> n mod 3 = 1 \<or> n mod 3 = (2 :: nat)"
  by linarith

lemma sextets_rest:
  assumes "8 * n = 6 * len + k" "k < (6 :: nat)"
  shows "k = 2 * (n mod 3)"
proof -
  have "k = (8 * n) mod 6" using assms by simp
  also have "\<dots> = (2 * (n + 3 * n)) mod (2 * 3)" by simp
  also have "\<dots> = 2 * (n mod 3)" by (simp only: mod_mult_mult1 mod_mult_self2)
  finally show ?thesis .
qed

lemma sextets_padding:
  assumes "6 * len = 8 * n + r" "r < (6 :: nat)"
  shows "r = 2 * ((3 - n mod 3) mod 3)" "(3 - n mod 3) mod 3 \<le> 2"
proof -
  have "8 * (2 * n) = 6 * (4 * n - len) + r" using assms by linarith
  then have "r = 2 * (2 * n mod 3)" by (rule sextets_rest) (rule assms(2))
  moreover have "2 * n mod 3 = 2 * (n mod 3) mod 3" by (simp only: mod_mult_right_eq)
  moreover have "2 * (n mod 3) mod 3 = (3 - n mod 3) mod 3" "(3 - n mod 3) mod 3 \<le> 2"
    using mod_3_cases [of n] by (elim disjE; simp)+
  ultimately show "r = 2 * ((3 - n mod 3) mod 3)" "(3 - n mod 3) mod 3 \<le> 2" by simp_all
qed

locale base_code =
  fixes cfg :: basecfg and s :: nat
  assumes shval: "find_shval 1 cfg = s"
    and s_bounds: "0 < s" "s \<le> 6"
    and cfg_bits: "cfg_bits cfg = 2 ^ s"
    and binmap_length: "length (binmap cfg) = 2 ^ s"
    and txtmap_length: "length (txtmap cfg) = 256"
    and txtmap_binmap: "d < 2 ^ s \<Longrightarrow> txtmap cfg ! unat (binmap cfg ! d) = of_nat d"
    and txtmap_equals: "txtmap cfg ! unat (of_char CHR ''='' :: u8) = EQ"
    and padding_sextets: "wantpadding cfg \<Longrightarrow> s = 6"
begin

abbreviation chars :: "nat list \<Rightarrow> bytes" where
  "chars \<equiv> base_chars cfg"

lemma digit_mask: "(of_nat (cfg_bits cfg - Suc 0) :: u32) = mask s"
  by (simp add: cfg_bits mask_eq_exp_minus_1 of_nat_diff)

lemma digit_small: "unat (w AND mask s :: u32) < 2 ^ s"
proof -
  have "w AND mask s = take_bit s w" by (simp add: take_bit_eq_mask)
  then show ?thesis using s_bounds by (simp add: unsigned_take_bit_eq)
qed

text \<open>
  The state of the encoder at a return from one of its loops: the buffer holds the characters of the
  digits \<open>ds\<close>, which with the \<open>k\<close> waiting bits are the bits of \<open>bs\<close>, and an overflow is reported only when the
  buffer is full and another character is due.
\<close>

definition encoded :: "nat \<Rightarrow> nat \<Rightarrow> bool list \<Rightarrow> string option \<Rightarrow> bytes \<Rightarrow> nat list \<Rightarrow> nat \<Rightarrow> u32 \<Rightarrow> bool" where
  "encoded m room bs e ob ds k buf \<longleftrightarrow>
     0 < m \<and> m \<le> room \<and> length ob = room \<and> holds ob (chars ds) \<and> length ds < m \<and> (\<forall>d \<in> set ds. d < 2 ^ s) \<and>
     bs = stream s ds @ wbits k buf \<and>
     (e \<noteq> None \<longrightarrow> e = Some ''Output overflow'' \<and> length ds = m - 1 \<and> s \<le> k)"

lemma put_digit:
  assumes "encoded m room bs None ob ds k buf" "d < 2 ^ s"
  obtains (full) "length ds = m - 1" "put_char m (binmap cfg ! d) ob (length ds) = Some (Some ''Output overflow'', ob, length ds)"
    | (space) ob' where "put_char m (binmap cfg ! d) ob (length ds) = Some (None, ob', length (ds @ [d]))"
        "holds ob' (chars (ds @ [d]))" "length ob' = room" "length (ds @ [d]) < m"
  using assms put_char_cases [of m ob "chars ds" "binmap cfg ! d"] by (fastforce simp: encoded_def)

lemma encode_emit_correct:
  assumes "encoded m room bs None ob ds bits buf"
  shows "\<exists>e ob' ds' k. encode_emit cfg s m buf ob (length ds) bits = Some (e, ob', length ds', k) \<and>
    encoded m room bs e ob' ds' k buf \<and> (e = None \<longrightarrow> k < s)"
  using assms
proof (induction bits arbitrary: ob ds rule: less_induct)
  case (less bits)
  show ?case
  proof (cases "s \<le> bits")
    case False
    then show ?thesis using less.prems by (subst encode_emit.simps) auto
  next
    case True
    let ?d = "unat (drop_bit (bits - s) buf AND mask s)"
    have split: "wbits bits buf = wbits s ?d @ wbits (bits - s) buf"
      using wbits_emit [of s "bits - s" buf] True by simp
    note inv = less.prems [unfolded encoded_def]
    show ?thesis
    proof (cases rule: put_digit [OF less.prems digit_small [of "drop_bit (bits - s) buf"]])
      case 1
      then have "encode_emit cfg s m buf ob (length ds) bits = Some (Some ''Output overflow'', ob, length ds, bits)"
        using True by (subst encode_emit.simps) (simp add: digit_mask)
      moreover have "encoded m room bs (Some ''Output overflow'') ob ds bits buf"
        using inv 1(1) True by (simp add: encoded_def)
      ultimately show ?thesis by blast
    next
      case (2 ob')
      have step: "encode_emit cfg s m buf ob (length ds) bits = encode_emit cfg s m buf ob' (length (ds @ [?d])) (bits - s)"
        using 2(1) True by (subst encode_emit.simps) (simp add: digit_mask)
      have "encoded m room bs None ob' (ds @ [?d]) (bits - s) buf"
        using inv 2(2-) split digit_small by (simp add: encoded_def)
      moreover have "bits - s < bits" using s_bounds True by simp
      ultimately show ?thesis unfolding step by (intro less.IH)
    qed
  qed
qed

lemma encode_read_correct:
  assumes "encoded m room (stream 8 (take il inp)) None ob ds bits buf" "bits < s"
    "il \<le> maxilen" "maxilen \<le> length inp"
  shows "\<exists>e ob' ds' il' k buf'. encode_read cfg s m inp maxilen ob (length ds) il bits buf =
      Some (e, ob', length ds', il', k, buf') \<and>
    encoded m room (stream 8 (take il' inp)) e ob' ds' k buf' \<and> il' \<le> maxilen \<and> (e = None \<longrightarrow> k < s \<and> il' = maxilen)"
  using assms
proof (induction "maxilen - il" arbitrary: il ob ds bits buf)
  case 0
  then show ?case by (subst encode_read.simps) auto
next
  case (Suc n)
  then have il: "il < maxilen" "il < length inp" by simp_all
  let ?buf = "push_bit 8 buf OR ucast (inp ! il)"
  have "wbits (bits + 8) ?buf = wbits bits buf @ wbits 8 (inp ! il)"
    using Suc.prems(2) s_bounds by (intro wbits_read) (auto dest: bit_imp_le_length)
  then have "encoded m room (stream 8 (take (il + 1) inp)) None ob ds (bits + 8) ?buf"
    using Suc.prems(1) il by (simp add: encoded_def take_Suc_conv_app_nth)
  then obtain e ob' ds' k where emit: "encode_emit cfg s m ?buf ob (length ds) (bits + 8) = Some (e, ob', length ds', k)"
    and inv: "encoded m room (stream 8 (take (il + 1) inp)) e ob' ds' k ?buf" and k: "e = None \<longrightarrow> k < s"
    using encode_emit_correct by blast
  show ?case
  proof (cases e)
    case None
    have "encode_read cfg s m inp maxilen ob (length ds) il bits buf =
      encode_read cfg s m inp maxilen ob' (length ds') (il + 1) k ?buf"
      using il emit None by (subst encode_read.simps) simp
    then show ?thesis using Suc.hyps(1) [of "il + 1" ob' ds' k ?buf] Suc.hyps(2) Suc.prems inv k None il by simp
  next
    case (Some x)
    then have "encode_read cfg s m inp maxilen ob (length ds) il bits buf = Some (e, ob', length ds', il + 1, k, ?buf)"
      using il emit by (subst encode_read.simps) simp
    then show ?thesis using inv il Some by (intro exI [of _ e] exI [of _ ob'] exI [of _ ds'] exI conjI) auto
  qed
qed

lemma digits_prefix:
  assumes "stream 8 (take i bs) = stream s ds @ rest" "\<forall>d \<in> set ds. d < 2 ^ s"
  shows "ds = take (length ds) (base_digits s bs)" "s * length ds + length rest = 8 * min (length bs) i"
proof -
  let ?D = "base_digits s bs"
  obtain r where r: "stream s ?D = stream 8 bs @ replicate r False" and small: "\<forall>d \<in> set ?D. d < 2 ^ s"
    using is_digits_base_digits [OF s_bounds(1), of bs] by (auto simp: is_digits_def)
  show len: "s * length ds + length rest = 8 * min (length bs) i"
    using arg_cong [OF assms(1), of length] by simp
  have "take (s * length ds) (stream 8 bs) = take (s * length ds) (stream 8 (take i bs))"
    using len by (simp add: take_stream [symmetric])
  then have "take (s * length ds) (stream 8 bs) = stream s ds" using assms(1) by simp
  moreover have "s * length ds \<le> length (stream 8 bs)" using len by simp
  ultimately have eq: "stream s (take (length ds) ?D) = stream s ds" by (simp add: take_stream [symmetric] r)
  then have "length (take (length ds) ?D) = length ds"
    using arg_cong [OF eq, of length] s_bounds by (metis length_stream mult_cancel1 less_irrefl_nat)
  then show "ds = take (length ds) ?D"
    using stream_inject [OF eq] small assms(2) by (metis in_set_takeD)
qed

lemma writes_spec:
  assumes "writes m room e ob t (base_text cfg bs)" "base_text cfg bs \<noteq> []" "e = None \<longrightarrow> il = length bs"
  shows "encode_spec cfg m bs \<lparr>err = e, out = ob, olen = length t, ilen = il\<rparr>"
  using assms holds_terminated [of ob t] by (auto simp: encode_spec_def writes_def holds_def split: if_splits)

lemma encode_rest_correct:
  assumes "encoded m room (stream 8 bs) None ob ds k buf" "k < s"
  shows "\<exists>e ob' t. encode_rest cfg s m buf ob (length ds) k =
      Some (e, ob', length t, if k = 0 then 0 else if e = None then k + (8 - s) else k) \<and>
    writes m room e ob' t (chars (base_digits s bs))"
proof -
  let ?d = "unat (push_bit (s - k) buf AND mask s)"
  note inv = assms(1) [unfolded encoded_def]
  show ?thesis
  proof (cases "k = 0")
    case True
    then have "is_digits s ds bs" using inv s_bounds by (auto simp: is_digits_def intro!: exI [of _ 0])
    then show ?thesis using True inv is_digits_unique [of s ds bs]
      by (intro exI [of _ None] exI [of _ ob] exI [of _ "chars ds"]) (simp add: encode_rest_def writes_def)
  next
    case False
    have "is_digits s (ds @ [?d]) bs"
      using False assms(2) inv s_bounds wbits_rest [of k s buf] digit_small
      by (auto simp: is_digits_def intro!: exI [of _ "s - k"])
    then have D: "base_digits s bs = ds @ [?d]" by (rule is_digits_unique [symmetric])
    show ?thesis
    proof (cases rule: put_digit [OF assms(1) digit_small [of "push_bit (s - k) buf"]])
      case 1
      then show ?thesis using False inv
        by (intro exI [of _ "Some ''Output overflow''"] exI [of _ ob] exI [of _ "chars ds"])
          (simp add: encode_rest_def writes_def digit_mask D)
    next
      case (2 ob')
      then show ?thesis using False inv
        by (intro exI [of _ None] exI [of _ ob'] exI [of _ "chars (ds @ [?d])"])
          (simp add: encode_rest_def writes_def digit_mask D)
    qed
  qed
qed

lemma encode_pad_correct:
  assumes "s = 6" "bits + 2 * p = 8 \<and> p \<le> 2 \<or> bits = 0 \<and> p = 0" "writes m room None ob t t"
  shows "\<exists>e ob' t'. encode_pad s m ob (length t) bits = Some (e, ob', length t') \<and>
    writes m room e ob' t' (t @ replicate p (of_char CHR ''=''))"
  using assms(2-)
proof (induction p arbitrary: bits ob t)
  case 0
  then show ?case by (subst encode_pad.simps) auto
next
  case (Suc p)
  then have bits: "bits mod 8 \<noteq> 0" "(bits + (8 - s)) + 2 * p = 8 \<and> p \<le> 2" using assms(1) by auto
  let ?c = "of_char CHR ''='' :: u8"
  have W: "0 < m" "m \<le> length ob" "holds ob t" "length t < m" "length ob = room"
    using Suc.prems(2) by (simp_all add: writes_def)
  from put_char_cases [OF W(1-4), of ?c] show ?case
  proof (elim disjE conjE exE)
    assume "length t = m - 1" and "put_char m ?c ob (length t) = Some (Some ''Output overflow'', ob, length t)"
    then have "encode_pad s m ob (length t) bits = Some (Some ''Output overflow'', ob, length t)"
      using bits(1) by (subst encode_pad.simps) simp
    then show ?thesis using \<open>length t = m - 1\<close> W by (auto simp: writes_def)
  next
    fix ob' assume put: "length t < m - 1" "put_char m ?c ob (length t) = Some (None, ob', length t + 1)"
      "holds ob' (t @ [?c])" "length ob' = length ob"
    then have step: "encode_pad s m ob (length t) bits = encode_pad s m ob' (length (t @ [?c])) (bits + (8 - s))"
      using bits(1) by (subst encode_pad.simps) simp
    have "writes m room None ob' (t @ [?c]) (t @ [?c])" using W put by (simp add: writes_def)
    from Suc.IH [OF disjI1 [OF bits(2)] this] show ?thesis unfolding step by simp
  qed
qed

lemma sextets_left:
  assumes "s = 6" "8 * n = s * len + k" "k < s"
  shows "(if k = 0 then 0 else k + (8 - s)) + 2 * ((3 - n mod 3) mod 3) = 8 \<and> (3 - n mod 3) mod 3 \<le> 2 \<or>
    (if k = 0 then 0 else k + (8 - s)) = 0 \<and> (3 - n mod 3) mod 3 = 0"
proof -
  have "k = 2 * (n mod 3)" using sextets_rest [of n len k] assms by simp
  then show ?thesis using mod_3_cases [of n] assms(1) by (elim disjE) simp_all
qed

lemma read_overflow:
  assumes "encoded m room (stream 8 (take i bs)) e ob ds k buf" "e \<noteq> None"
  shows "writes m room e ob (chars ds) (chars (base_digits s bs))"
proof -
  let ?D = "base_digits s bs"
  note inv = assms(1) [unfolded encoded_def]
  have P: "ds = take (length ds) ?D" "s * length ds + k = 8 * min (length bs) i"
    using digits_prefix [of i bs ds "wbits k buf"] inv by simp_all
  obtain r where "stream s ?D = stream 8 bs @ replicate r False"
    using is_digits_base_digits [OF s_bounds(1), of bs] by (auto simp: is_digits_def)
  from arg_cong [OF this, of length] have "8 * length bs \<le> s * length ?D" by simp
  moreover have "s \<le> k" using inv assms(2) by simp
  moreover have "8 * min (length bs) i \<le> 8 * length bs" by simp
  ultimately have "s * length ds < s * length ?D" using P(2) s_bounds(1) by linarith
  then have "m \<le> length ?D" using inv assms(2) by auto
  then show ?thesis using inv assms(2) P(1) by (auto simp: writes_def take_base_chars)
qed

lemma encode_writes:
  assumes "0 < ol" "ol \<le> length ob" "0 < il" "il \<le> length inp"
  shows "\<exists>e ob' t il'. encode ob ol inp il cfg = Some \<lparr>err = e, out = ob', olen = length t, ilen = il'\<rparr> \<and>
    writes ol (length ob) e ob' t (base_text cfg (take il inp)) \<and> (e = None \<longrightarrow> il' = il)"
proof -
  let ?bs = "take il inp" and ?D = "base_digits s (take il inp)"
  let ?t = "base_text cfg ?bs"
  have t: "?t = chars ?D @ replicate (base_padding cfg il) (of_char CHR ''='')"
    using assms(4) by (simp add: base_text_def shval [simplified] min_def)
  note sim = encode_def shval [simplified] binmap_length cfg_bits
  have "encoded ol (length ob) (stream 8 (take 0 inp)) None ob [] 0 0" using assms by (simp add: encoded_def)
  then obtain e ob1 ds il1 k buf where read: "encode_read cfg s ol inp il ob 0 0 0 0 = Some (e, ob1, length ds, il1, k, buf)"
    and inv: "encoded ol (length ob) (stream 8 (take il1 inp)) e ob1 ds k buf" and "il1 \<le> il" and fin: "e = None \<longrightarrow> k < s \<and> il1 = il"
    using encode_read_correct [of ol "length ob" 0 inp ob "[]" 0 0 il] s_bounds(1) assms(4) by auto
  show ?thesis
  proof (cases e)
    case (Some x)
    have "stream 8 (take il1 inp) = stream 8 (take il1 ?bs)" using \<open>il1 \<le> il\<close> by (simp add: min_def)
    then have "writes ol (length ob) e ob1 (chars ds) ?t"
      using read_overflow [of ol "length ob" il1 ?bs e] inv Some unfolding t by (intro writes_more) simp_all
    moreover have "encode ob ol inp il cfg = Some \<lparr>err = e, out = ob1, olen = length (chars ds), ilen = il1\<rparr>"
      using Some assms s_bounds read by (simp add: sim)
    ultimately show ?thesis using Some by blast
  next
    case None
    then have inv2: "encoded ol (length ob) (stream 8 ?bs) None ob1 ds k buf" and k: "k < s" "il1 = il"
      using inv fin by simp_all
    obtain e2 ob2 t2 where rest: "encode_rest cfg s ol buf ob1 (length ds) k =
        Some (e2, ob2, length t2, if k = 0 then 0 else if e2 = None then k + (8 - s) else k)"
      and w: "writes ol (length ob) e2 ob2 t2 (chars ?D)"
      using encode_rest_correct [OF inv2 k(1)] by blast
    consider "e2 \<noteq> None" | "e2 = None" "\<not> wantpadding cfg" | "e2 = None" "wantpadding cfg" by blast
    then show ?thesis
    proof cases
      case 1
      then have "encode ob ol inp il cfg = Some \<lparr>err = e2, out = ob2, olen = length t2, ilen = il\<rparr>"
        using None assms s_bounds read rest k by (simp add: sim)
      moreover have "writes ol (length ob) e2 ob2 t2 ?t" unfolding t by (rule writes_more [OF w 1])
      ultimately show ?thesis by blast
    next
      case 2
      then have "encode ob ol inp il cfg = Some \<lparr>err = e2, out = ob2, olen = length t2, ilen = il\<rparr>"
        using None assms s_bounds read rest k by (simp add: sim)
      moreover have "writes ol (length ob) e2 ob2 t2 ?t" using w 2 by (simp add: t base_padding_def)
      ultimately show ?thesis by blast
    next
      case 3
      then have full: "t2 = chars ?D" using w by (simp add: writes_def)
      have "stream 8 ?bs = stream s ds @ wbits k buf" using inv2 by (simp add: encoded_def)
      from arg_cong [OF this, of length] have "8 * il = s * length ds + k" using assms(4) by simp
      note left = sextets_left [OF padding_sextets [OF 3(2)] this k(1)]
      obtain e3 ob3 t3 where "encode_pad s ol ob2 (length t2) (if k = 0 then 0 else k + (8 - s)) = Some (e3, ob3, length t3)"
        and w3: "writes ol (length ob) e3 ob3 t3 (t2 @ replicate ((3 - il mod 3) mod 3) (of_char CHR ''=''))"
        using encode_pad_correct [OF padding_sextets [OF 3(2)] left, of ol "length ob" ob2 t2] w full 3(1) by blast
      then have "encode ob ol inp il cfg = Some \<lparr>err = e3, out = ob3, olen = length t3, ilen = il\<rparr>"
        using None assms s_bounds read rest k 3 by (cases "k = 0") (simp_all add: sim)
      moreover have "writes ol (length ob) e3 ob3 t3 ?t" using w3 3(2) by (simp add: t full base_padding_def)
      ultimately show ?thesis by blast
    qed
  qed
qed

lemma encode_correct:
  assumes "ol \<le> length ob" "il \<le> length inp"
  shows "\<exists>r. encode ob ol inp il cfg = Some r \<and> length (out r) = length ob \<and>
    (if ol = 0 then err r = Some ''Output overflow'' \<and> r = \<lparr>err = err r, out = ob, olen = 0, ilen = il\<rparr>
     else encode_spec cfg ol (take il inp) r)"
proof -
  note sim = encode_def shval [simplified] binmap_length cfg_bits
  consider "ol = 0" | "0 < ol" "il = 0" | "0 < ol" "0 < il" by blast
  then show ?thesis
  proof cases
    case 1
    then show ?thesis using s_bounds by (simp add: sim)
  next
    case 2
    have "base_text cfg [] = []" using s_bounds by (simp add: base_text_def base_digits_def base_padding_def shval [simplified])
    moreover have "0 < length ob" using 2 assms(1) by linarith
    ultimately show ?thesis using 2 assms s_bounds take_Suc_update [of 0 ob 0] by (simp add: sim encode_spec_def)
  next
    case 3
    have "base_digits s (take il inp) \<noteq> []" using 3 assms(2) s_bounds by (auto simp: base_digits_Nil)
    then have "base_text cfg (take il inp) \<noteq> []" by (simp add: base_text_def shval [simplified] base_chars_def)
    moreover obtain e ob' t il' where "encode ob ol inp il cfg = Some \<lparr>err = e, out = ob', olen = length t, ilen = il'\<rparr>"
      "writes ol (length ob) e ob' t (base_text cfg (take il inp))" "e = None \<longrightarrow> il' = il"
      using encode_writes [OF 3(1) assms(1) 3(2) assms(2)] by blast
    ultimately show ?thesis using writes_spec [of ol "length ob" e ob' t "take il inp" il'] 3 assms
      by (simp add: writes_def min_def)
  qed
qed

text \<open>The decoder keeps the bits read equal to the bits of the bytes written followed by the waiting bits.\<close>

definition decoded :: "nat \<Rightarrow> nat \<Rightarrow> nat list \<Rightarrow> bytes \<Rightarrow> decoder \<Rightarrow> bool" where
  "decoded m room ds bs st \<longleftrightarrow>
     m \<le> room \<and> length (d_out st) = room \<and> take (length bs) (d_out st) = bs \<and> d_olen st = length bs \<and>
     d_ilen st = length ds \<and> d_bits st < 8 \<and> d_padding st = 0 \<and> \<not> d_done st \<and>
     stream s ds = stream 8 bs @ wbits (d_bits st) (d_buf st)"

lemma digit_bits:
  assumes "d < 2 ^ s"
  shows "wbits s (of_nat d :: u8) = wbits s d" "s \<le> i \<Longrightarrow> \<not> bit (of_nat d :: u8) i" "unat (of_nat d :: u8) = d"
proof -
  have d: "take_bit s d = d" using assms by (simp add: take_bit_nat_eq_self)
  have "(2 :: nat) ^ s \<le> 2 ^ 6" using s_bounds by (intro power_increasing) auto
  then show u: "unat (of_nat d :: u8) = d" using assms by (simp add: unat_of_nat)
  show "wbits s (of_nat d :: u8) = wbits s d" using wbits_unat [of s "of_nat d :: u8"] by (simp add: u)
  show "\<not> bit (of_nat d :: u8) i" if "s \<le> i"
  proof -
    have "\<not> bit d i" using that bit_take_bit_iff [of s d i] by (simp add: d)
    then show ?thesis using bit_unsigned_iff [of "of_nat d :: u8" i, where 'a = nat] by (simp add: u)
  qed
qed

lemma decode_digit:
  assumes "decoded m room ds bs st" "d < 2 ^ s" "s * (length ds + 1) < 8 * m + 8"
  shows "\<exists>bs' st'. decode_switch cfg s flags m (of_nat d) st = Some (None, st') \<and> decoded m room (ds @ [d]) bs' st'"
proof -
  let ?k = "d_bits st + s" and ?buf = "push_bit s (d_buf st) OR ucast (of_nat d :: u8) :: u32"
  note inv = assms(1) [unfolded decoded_def]
  have "(2 :: nat) ^ s \<le> 2 ^ 6" using s_bounds by (intro power_increasing) auto
  then have "d < 64" using assms(2) by simp
  then have plain: "(of_nat d :: u8) \<noteq> WS" "(of_nat d :: u8) \<noteq> EQ" "(of_nat d :: u8) \<noteq> IN"
    by (simp_all add: WS_def EQ_def IN_def word_unat_eq_iff digit_bits(3) [OF assms(2)])
  have buf: "wbits ?k ?buf = wbits (d_bits st) (d_buf st) @ wbits s d"
    using digit_bits [OF assms(2)] inv s_bounds wbits_read [of "d_bits st" s "of_nat d" "d_buf st"] by simp
  show ?thesis
  proof (cases "8 \<le> ?k")
    case False
    let ?st = "st\<lparr>d_bits := ?k, d_buf := ?buf, d_ilen := d_ilen st + 1\<rparr>"
    have "decode_switch cfg s flags m (of_nat d) st = Some (None, ?st)"
      using False inv plain by (simp add: decode_switch_def decode_value_def)
    moreover have "decoded m room (ds @ [d]) bs ?st" using False inv buf by (simp add: decoded_def)
    ultimately show ?thesis by blast
  next
    case True
    let ?b = "ucast (drop_bit (?k - 8) ?buf AND 255) :: u8"
    let ?st = "st\<lparr>d_bits := ?k - 8, d_buf := ?buf, d_ilen := d_ilen st + 1, d_out := (d_out st)[length bs := ?b],
      d_olen := length bs + 1\<rparr>"
    from inv have "stream s ds = stream 8 bs @ wbits (d_bits st) (d_buf st)" by simp
    from arg_cong [OF this, of length] have "s * length ds = 8 * length bs + d_bits st" by simp
    then have room: "length bs < m" using True assms(3) by simp
    have "d_bits st < 8" using inv by simp
    then have short: "?k - 8 < 8" using s_bounds(2) by linarith
    have "bit (255 :: u32) i = (i < 8)" for i
      using bit_mask_iff [of 8 i, where 'a = u32] by (auto simp: mask_eq_exp_minus_1)
    then have "wbits 8 ?b = wbits 8 (drop_bit (?k - 8) ?buf)"
      by (intro wbits_cong) (auto simp: bit_simps)
    then have "wbits ?k ?buf = wbits 8 ?b @ wbits (?k - 8) ?buf"
      using wbits_split [of 8 "?k - 8" ?buf] True by simp
    then have "decoded m room (ds @ [d]) (bs @ [?b]) ?st"
      using inv buf room short by (simp add: decoded_def take_Suc_update)
    moreover have "decode_switch cfg s flags m (of_nat d) st = Some (None, ?st)"
      using True inv plain room by (simp add: decode_switch_def decode_value_def)
    ultimately show ?thesis by blast
  qed
qed

lemma decode_digits:
  assumes "decoded m room ds bs st" "\<forall>d \<in> set es. d < 2 ^ s" "s * length (ds @ es) < 8 * m + 8"
    "take (length (ds @ es)) inp = chars (ds @ es)" "length (ds @ es) \<le> maxilen" "length (ds @ es) \<le> length inp"
  shows "\<exists>bs' st'. decode_loop cfg s flags m inp maxilen st = decode_loop cfg s flags m inp maxilen st' \<and>
    decoded m room (ds @ es) bs' st'"
  using assms
proof (induction es arbitrary: ds bs st)
  case (Cons d es)
  note inv = Cons.prems(1) [unfolded decoded_def]
  have here: "inp ! length ds = binmap cfg ! d"
    using arg_cong [OF Cons.prems(4), of "\<lambda>l. l ! length ds"] by (simp add: base_chars_def nth_append)
  have "s * (length ds + 1) \<le> s * length (ds @ d # es)" by simp
  then obtain bs1 st1 where sw: "decode_switch cfg s flags m (of_nat d) st = Some (None, st1)"
    and inv1: "decoded m room (ds @ [d]) bs1 st1"
    using decode_digit [OF Cons.prems(1), of d flags] Cons.prems(2,3) by (meson list.set_intros(1) order_le_less_trans)
  have "unat (binmap cfg ! d) < 256" using unsigned_less [of "binmap cfg ! d", where 'a = nat] by simp
  then have "decode_loop cfg s flags m inp maxilen st = decode_loop cfg s flags m inp maxilen st1"
    using inv sw here Cons.prems txtmap_binmap [of d] by (subst decode_loop.simps) (simp add: txtmap_length)
  then show ?case using Cons.IH [OF inv1] Cons.prems by simp
qed auto

lemma decode_equals_correct:
  assumes "s = 6" "wantpadding cfg" "d_bits st = 2 * p" "p \<le> 2" "d_padding st = 0" "\<not> d_done st"
    "d_ilen st + p = maxilen" "maxilen \<le> length inp" "\<And>i. d_ilen st \<le> i \<Longrightarrow> i < maxilen \<Longrightarrow> inp ! i = of_char CHR ''=''"
  shows "\<exists>st'. decode_loop cfg s flags m inp maxilen st = Some (None, st') \<and> d_out st' = d_out st \<and>
    d_olen st' = d_olen st \<and> d_ilen st' = maxilen \<and> (d_bits st' + d_padding st') mod 8 = 0"
proof -
  have "unat (of_char CHR ''='' :: u8) < length (txtmap cfg)" by (simp add: txtmap_length)
  note sim = txtmap_equals [simplified] txtmap_length decode_switch_def decode_equals_def EQ_def WS_def IN_def
  consider "p = 0" | "p = 1" | "p = 2" using assms(4) by linarith
  then show ?thesis
  proof cases
    case 1
    then show ?thesis using assms by (subst decode_loop.simps) simp
  next
    case 2
    have "inp ! d_ilen st = of_char CHR ''=''" using assms(7) assms(9) [of "d_ilen st"] 2 by simp
    then show ?thesis using assms(1-8) 2 by (subst decode_loop.simps) (simp add: sim decode_loop.simps)
  next
    case 3
    have "inp ! d_ilen st = of_char CHR ''=''" "inp ! Suc (d_ilen st) = of_char CHR ''=''"
      using assms(7) assms(9) [of "d_ilen st"] assms(9) [of "Suc (d_ilen st)"] 3 by simp_all
    then show ?thesis using assms(1-8) 3
      by (subst decode_loop.simps, simp add: sim) (subst decode_loop.simps, simp add: sim decode_loop.simps)
  qed
qed

lemma decode_text:
  assumes "length bs \<le> ol" "ol \<le> length ob" "take (length (base_text cfg bs)) inp = base_text cfg bs"
    "length (base_text cfg bs) \<le> length inp"
  shows "\<exists>ob'. decode ob ol inp (length (base_text cfg bs)) flags cfg =
      Some \<lparr>err = None, out = ob', olen = length bs, ilen = length (base_text cfg bs)\<rparr> \<and>
    take (length bs) ob' = bs \<and> length ob' = length ob"
proof -
  let ?D = "base_digits s bs" and ?t = "base_text cfg bs" and ?p = "base_padding cfg (length bs)"
  let ?st = "\<lparr>d_out = ob, d_olen = 0, d_ilen = 0, d_bits = 0, d_padding = 0, d_buf = 0, d_done = False\<rparr>"
  have t: "?t = chars ?D @ replicate ?p (of_char CHR ''='')"
    by (simp add: base_text_def shval [simplified])
  obtain r where r: "r < s" and D: "stream s ?D = stream 8 bs @ replicate r False" and small: "\<forall>d \<in> set ?D. d < 2 ^ s"
    using is_digits_base_digits [OF s_bounds(1), of bs] by (auto simp: is_digits_def)
  from arg_cong [OF D, of length] have len: "s * length ?D = 8 * length bs + r" by simp
  have "take (length ?D) inp = take (length ?D) (take (length ?t) inp)" by (simp add: t)
  then have pre: "take (length ?D) inp = chars ?D" by (simp add: assms(3)) (simp add: t)
  have eqs: "inp ! i = of_char CHR ''=''" if "length ?D \<le> i" "i < length ?t" for i
  proof -
    have "inp ! i = ?t ! i" using arg_cong [OF assms(3), of "\<lambda>l. l ! i"] that by simp
    then show ?thesis using that by (simp add: t nth_append)
  qed
  have "decoded ol (length ob) [] [] ?st" using assms(2) by (simp add: decoded_def)
  moreover have "s * length ([] @ ?D) < 8 * ol + 8" using len r s_bounds assms(1) by simp
  ultimately obtain bs' st where loop: "decode_loop cfg s flags ol inp (length ?t) ?st = decode_loop cfg s flags ol inp (length ?t) st"
    and inv: "decoded ol (length ob) ?D bs' st"
    using decode_digits [of ol "length ob" "[]" "[]" ?st ?D inp "length ?t" flags] small pre assms(4) by (auto simp: t)
  note inv' = inv [unfolded decoded_def]
  have same: "stream 8 bs @ replicate r False = stream 8 bs' @ wbits (d_bits st) (d_buf st)" using inv' D by simp
  from arg_cong [OF this, of length] have "8 * length bs + r = 8 * length bs' + d_bits st" by simp
  moreover have "r < 8" "d_bits st < 8" using inv' r s_bounds by simp_all
  ultimately have k: "d_bits st = r" "length bs' = length bs" by presburger+
  have bs: "bs' = bs" using same k by (intro stream_bytes_inject) (simp_all add: append_eq_append_conv)
  have shv: "find_shval 1 cfg = s" "s < 8" using shval s_bounds by simp_all
  show ?thesis
  proof (cases "wantpadding cfg")
    case False
    then have "decode_loop cfg s flags ol inp (length ?t) st = Some (None, st)"
      using inv' by (subst decode_loop.simps) (simp add: t base_padding_def)
    then show ?thesis using loop shv k(1) r inv' bs False
      by (intro exI [of _ "d_out st"]) (simp add: decode_def t base_padding_def Let_def)
  next
    case True
    note s6 = padding_sextets [OF True]
    have p: "r = 2 * ?p" "?p \<le> 2"
      using sextets_padding [of "length ?D" "length bs" r] len r True unfolding s6 base_padding_def by simp_all
    obtain st' where "decode_loop cfg s flags ol inp (length ?t) st = Some (None, st')" "d_out st' = d_out st"
      "d_olen st' = d_olen st" "d_ilen st' = length ?t" "(d_bits st' + d_padding st') mod 8 = 0"
      using decode_equals_correct [OF s6 True, of st ?p "length ?t" inp flags ol] inv' k(1) p assms(4) eqs
      by (auto simp: t)
    then show ?thesis using loop shv inv' bs by (intro exI [of _ "d_out st"]) (simp add: decode_def)
  qed
qed

text \<open>Whatever its input, the decoder stays within the two buffers and returns.\<close>

definition decode_bounds :: "nat \<Rightarrow> nat \<Rightarrow> nat \<Rightarrow> decoder \<Rightarrow> bool" where
  "decode_bounds room m maxilen st \<longleftrightarrow> m \<le> room \<and> length (d_out st) = room \<and> d_olen st \<le> m \<and> d_ilen st \<le> maxilen"

lemma decode_switch_bounds:
  assumes "decode_bounds room m maxilen st" "d_ilen st < maxilen"
  shows "\<exists>e st'. decode_switch cfg s flags m c st = Some (e, st') \<and> decode_bounds room m maxilen st' \<and>
    (e = None \<longrightarrow> d_done st' \<or> d_ilen st' = d_ilen st + 1)"
  using assms
  by (auto simp: decode_switch_def decode_value_def decode_equals_def decode_bounds_def Let_def)

lemma decode_loop_bounds:
  assumes "decode_bounds room m maxilen st" "maxilen \<le> length inp"
  shows "\<exists>e st'. decode_loop cfg s flags m inp maxilen st = Some (e, st') \<and> decode_bounds room m maxilen st'"
  using assms(1)
proof (induction "maxilen - d_ilen st" arbitrary: st rule: less_induct)
  case less
  show ?case
  proof (cases "\<not> d_done st \<and> d_ilen st < maxilen")
    case False
    then show ?thesis using less.prems by (subst decode_loop.simps) auto
  next
    case True
    let ?ch = "inp ! d_ilen st"
    have ch: "unat ?ch < 256" using unsigned_less [of ?ch, where 'a = nat] by simp
    obtain e st' where sw: "decode_switch cfg s flags m (txtmap cfg ! unat ?ch) st = Some (e, st')"
      and b: "decode_bounds room m maxilen st'" and nxt: "e = None \<longrightarrow> d_done st' \<or> d_ilen st' = d_ilen st + 1"
      using decode_switch_bounds [OF less.prems] True by blast
    have step: "decode_loop cfg s flags m inp maxilen st =
      (if e = None then decode_loop cfg s flags m inp maxilen st' else Some (e, st'))"
      using True sw ch assms(2) by (subst decode_loop.simps) (auto simp: txtmap_length split: option.split)
    consider "e \<noteq> None" | "e = None" "d_done st'" | "e = None" "d_ilen st' = d_ilen st + 1" using nxt by blast
    then show ?thesis
    proof cases
      case 2
      then show ?thesis using step b by (simp add: decode_loop.simps)
    next
      case 3
      then have "maxilen - d_ilen st' < maxilen - d_ilen st" using True by auto
      from less.hyps [OF this b] show ?thesis using step 3 by simp
    qed (use step b in auto)
  qed
qed

lemma decode_safe:
  assumes "ol \<le> length ob" "il \<le> length inp"
  shows "\<exists>r. decode ob ol inp il flags cfg = Some r \<and> length (out r) = length ob \<and> olen r \<le> ol \<and> ilen r \<le> il"
proof -
  let ?st = "\<lparr>d_out = ob, d_olen = 0, d_ilen = 0, d_bits = 0, d_padding = 0, d_buf = 0, d_done = False\<rparr>"
  have "decode_bounds (length ob) ol il ?st" using assms by (simp add: decode_bounds_def)
  from decode_loop_bounds [OF this assms(2), of flags] show ?thesis
    using shval s_bounds by (auto simp: decode_def decode_bounds_def Let_def)
qed

end

section \<open>The configurations of the code\<close>

text \<open>The text map of a configuration inverts its alphabet; the tables are evaluated.\<close>

definition maps_agree :: "basecfg \<Rightarrow> nat \<Rightarrow> bool" where
  "maps_agree cfg s \<longleftrightarrow> (\<forall>d \<in> set [0..<2 ^ s]. txtmap cfg ! unat (binmap cfg ! d) = of_nat d) \<and>
     txtmap cfg ! 61 = EQ \<and> length (txtmap cfg) = 256 \<and> length (binmap cfg) = 2 ^ s \<and> cfg_bits cfg = 2 ^ s \<and> find_shval 1 cfg = s"

lemma base_codeI:
  assumes "maps_agree cfg s" "0 < s" "s \<le> 6" "wantpadding cfg \<Longrightarrow> s = 6"
  shows "base_code cfg s"
  using assms by unfold_locales (auto simp: maps_agree_def)

lemma configurations_agree:
  "maps_agree base16cfg 4" "maps_agree BASE16CFG 4" "maps_agree base32cfg 5" "maps_agree base32hexcfg 5"
  "maps_agree base64cfg 6" "maps_agree base64urlcfg 6"
  by code_simp+

interpretation base16_lower: base_code base16cfg 4
  by (rule base_codeI [OF configurations_agree(1)]) (simp_all add: base16cfg_def)

interpretation base16_upper: base_code BASE16CFG 4
  by (rule base_codeI [OF configurations_agree(2)]) (simp_all add: BASE16CFG_def)

interpretation base32: base_code base32cfg 5
  by (rule base_codeI [OF configurations_agree(3)]) (simp_all add: base32cfg_def)

interpretation base32hex: base_code base32hexcfg 5
  by (rule base_codeI [OF configurations_agree(4)]) (simp_all add: base32hexcfg_def)

interpretation base64: base_code base64cfg 6
  by (rule base_codeI [OF configurations_agree(5)]) (simp_all add: base64cfg_def)

interpretation base64url: base_code base64urlcfg 6
  by (rule base_codeI [OF configurations_agree(6)]) (simp_all add: base64urlcfg_def)

definition basecfgs :: "basecfg list" where
  "basecfgs = [base16cfg, BASE16CFG, base32cfg, base32hexcfg, base64cfg, base64urlcfg]"

lemma basecfgs_code: "cfg \<in> set basecfgs \<Longrightarrow> \<exists>s. base_code cfg s"
  using base16_lower.base_code_axioms base16_upper.base_code_axioms base32.base_code_axioms
    base32hex.base_code_axioms base64.base_code_axioms base64url.base_code_axioms
  by (auto simp: basecfgs_def)


section \<open>Properties\<close>

lemma base_encode_ok:
  assumes "cfg \<in> set basecfgs" "ol \<le> length ob" "il \<le> length inp"
  shows "\<exists>r. encode ob ol inp il cfg = Some r \<and> length (out r) = length ob \<and>
    (if ol = 0 then err r = Some ''Output overflow'' \<and> r = \<lparr>err = err r, out = ob, olen = 0, ilen = il\<rparr>
     else encode_spec cfg ol (take il inp) r)"
  using basecfgs_code [OF assms(1)] base_code.encode_correct assms(2,3) by blast

lemma base_decode_ok:
  assumes "cfg \<in> set basecfgs" "length bs \<le> ol" "ol \<le> length ob"
    "take (length (base_text cfg bs)) inp = base_text cfg bs" "length (base_text cfg bs) \<le> length inp"
  shows "\<exists>ob'. decode ob ol inp (length (base_text cfg bs)) flags cfg =
      Some \<lparr>err = None, out = ob', olen = length bs, ilen = length (base_text cfg bs)\<rparr> \<and>
    take (length bs) ob' = bs \<and> length ob' = length ob"
  using basecfgs_code [OF assms(1)] base_code.decode_text [of cfg] assms(2-) by blast

text \<open>C19: every encoder writes, within the buffer it is given, the text that spells the bits of its input
  in groups, with the padding its configuration asks for and a terminator, or reports an overflow exactly
  when that does not fit and then has written the part that does.\<close>

theorem base_encode_correct:
  assumes "cfg \<in> set basecfgs" "ol \<le> length ob" "il \<le> length inp" "0 < ol"
  shows "\<exists>r. encode ob ol inp il cfg = Some r \<and> length (out r) = length ob \<and> encode_spec cfg ol (take il inp) r"
  using base_encode_ok [OF assms(1-3)] assms(4) by auto

theorem base_encode_correct_witness:
  "\<exists>r. encode (replicate 9 7) 9 (ascii ''fooba'') 5 base64cfg = Some r \<and> length (out r) = 9 \<and>
    take (olen r) (out r) = ascii ''Zm9vYmE=''"
proof -
  let ?b = "ascii ''fooba''"
  have spelt: "base_text base64cfg ?b = ascii ''Zm9vYmE=''" by code_simp
  have len: "take 5 ?b = ?b" "length (ascii ''Zm9vYmE='') = 8" "length ?b = 5" by (simp_all add: ascii_def)
  obtain r where r: "encode (replicate 9 7) 9 ?b 5 base64cfg = Some r" "length (out r) = length (replicate 9 (7 :: u8))"
    and s: "encode_spec base64cfg 9 (take 5 ?b) r"
    using base_encode_correct [of base64cfg 9 "replicate 9 7" 5 ?b] len(3) by (auto simp: basecfgs_def)
  have "length (base_text base64cfg ?b) < 9" by (simp only: spelt len(2))
  from encode_specD [OF s [unfolded len(1)] this] r show ?thesis by (auto simp: spelt)
qed

text \<open>C14: what an encoder wrote, its decoder reads back as the bytes that were encoded, without an error and
  to the last character.\<close>

theorem base_roundtrip:
  assumes "cfg \<in> set basecfgs" "il \<le> length inp" "length (base_text cfg (take il inp)) < ol" "ol \<le> length ob"
    "il \<le> ol2" "ol2 \<le> length ob2"
  shows "\<exists>r r2. encode ob ol inp il cfg = Some r \<and> err r = None \<and>
    decode ob2 ol2 (out r) (olen r) flags cfg = Some r2 \<and> err r2 = None \<and> ilen r2 = olen r \<and> olen r2 = il \<and>
    take (olen r2) (out r2) = take il inp"
proof -
  let ?bs = "take il inp"
  obtain r where r: "encode ob ol inp il cfg = Some r" "length (out r) = length ob" "encode_spec cfg ol ?bs r"
    using base_encode_ok [OF assms(1,4,2)] assms(3) by auto
  note s = encode_specD [OF r(3) assms(3)]
  obtain ob' where "decode ob2 ol2 (out r) (olen r) flags cfg =
      Some \<lparr>err = None, out = ob', olen = length ?bs, ilen = olen r\<rparr>" "take (length ?bs) ob' = ?bs"
    using base_decode_ok [OF assms(1) _ assms(6) s(3), of flags] assms r(2) s(2) by auto
  then show ?thesis using r(1) s(1) assms(2) by auto
qed

theorem base_roundtrip_witness:
  "\<exists>r r2. encode (replicate 20 0) 20 (ascii ''libkit'') 6 base32hexcfg = Some r \<and> err r = None \<and>
    decode (replicate 6 0) 6 (out r) (olen r) 0 base32hexcfg = Some r2 \<and> err r2 = None \<and> ilen r2 = olen r \<and> olen r2 = 6 \<and>
    take (olen r2) (out r2) = take 6 (ascii ''libkit'')"
proof (rule base_roundtrip)
  have "base_text base32hexcfg (take 6 (ascii ''libkit'')) = ascii ''DHKM4QR9EG''" by code_simp
  then show "length (base_text base32hexcfg (take 6 (ascii ''libkit''))) < 20" by (simp add: ascii_def)
qed (simp_all add: basecfgs_def ascii_def)

text \<open>C27: on any input a decoder returns and has stayed within both of its buffers.\<close>

theorem base_decode_safe:
  assumes "cfg \<in> set basecfgs" "ol \<le> length ob" "il \<le> length inp"
  shows "\<exists>r. decode ob ol inp il flags cfg = Some r \<and> length (out r) = length ob \<and> olen r \<le> ol \<and> ilen r \<le> il"
  using basecfgs_code [OF assms(1)] base_code.decode_safe [of cfg] assms(2,3) by blast

theorem base_decode_safe_witness:
  "\<exists>r. decode (replicate 2 0) 2 (ascii ''Zm9?v=='') 7 1 base64cfg = Some r \<and> length (out r) = length (replicate 2 (0 :: u8)) \<and>
    olen r \<le> 2 \<and> ilen r \<le> 7"
  by (rule base_decode_safe) (simp_all add: basecfgs_def ascii_def)

section \<open>Hexadecimal text\<close>

text \<open>The decoder does not look at the alphabet, so either configuration of base 16 reads both cases.\<close>

lemma decode_switch_txtmap:
  assumes "wantpadding cfg2 = wantpadding cfg"
  shows "decode_switch cfg2 s flags m c st = decode_switch cfg s flags m c st"
  unfolding decode_switch_def decode_equals_def assms ..

lemma decode_loop_txtmap:
  assumes "decode_loop cfg s flags m inp maxilen st = Some y"
  shows "txtmap cfg2 = txtmap cfg \<longrightarrow> wantpadding cfg2 = wantpadding cfg \<longrightarrow> decode_loop cfg2 s flags m inp maxilen st = Some y"
  using assms
proof (rule decode_loop.raw_induct [rotated])
  fix loop cfg s flags m and inp :: bytes and maxilen st y
  let ?body = "(if \<not> d_done st \<and> d_ilen st < maxilen
      then do { ch \<leftarrow> peek inp (d_ilen st);
                c \<leftarrow> peek (txtmap cfg) (unat ch);
                (e, st) \<leftarrow> decode_switch cfg s flags m c st;
                case e of Some _ \<Rightarrow> Some (e, st)
                | None \<Rightarrow> loop cfg s flags m inp maxilen st }
      else Some (None, st))"
  assume IH: "\<And>cfg s flags m inp maxilen st y. loop cfg s flags m inp maxilen st = Some y \<Longrightarrow>
      txtmap cfg2 = txtmap cfg \<longrightarrow> wantpadding cfg2 = wantpadding cfg \<longrightarrow> decode_loop cfg2 s flags m inp maxilen st = Some y"
    and body: "?body = Some y"
  show "txtmap cfg2 = txtmap cfg \<longrightarrow> wantpadding cfg2 = wantpadding cfg \<longrightarrow> decode_loop cfg2 s flags m inp maxilen st = Some y"
  proof (intro impI)
    assume same: "txtmap cfg2 = txtmap cfg" "wantpadding cfg2 = wantpadding cfg"
    then have again: "decode_loop cfg2 s flags m inp maxilen st' = Some y" if "loop cfg s flags m inp maxilen st' = Some y" for st'
      using IH [OF that] by blast
    note sw = decode_switch_txtmap [OF same(2)]
    show "decode_loop cfg2 s flags m inp maxilen st = Some y"
    proof (cases "\<not> d_done st \<and> d_ilen st < maxilen")
      case True
      then obtain ch c e st1 where "peek inp (d_ilen st) = Some ch" "peek (txtmap cfg) (unat ch) = Some c"
        "decode_switch cfg s flags m c st = Some (e, st1)"
        "(case e of Some _ \<Rightarrow> Some (e, st1) | None \<Rightarrow> loop cfg s flags m inp maxilen st1) = Some y"
        using body by (auto simp: bind_eq_Some_conv)
      then show ?thesis using True again [of st1] same(1) by (subst decode_loop.simps) (cases e; auto simp: sw)
    next
      case False
      then have "y = (None, st)" using body by (simp split: if_splits)
      then show ?thesis using False by (subst decode_loop.simps) auto
    qed
  qed
qed

lemma decode_base16: 
  assumes "decode ob ol inp il flags BASE16CFG = Some r"
  shows "decode ob ol inp il flags base16cfg = Some r"
proof -
  let ?st = "\<lparr>d_out = ob, d_olen = 0, d_ilen = 0, d_bits = 0, d_padding = 0, d_buf = 0, d_done = False\<rparr>"
  have cfgs: "find_shval 1 BASE16CFG = 4" "find_shval 1 base16cfg = 4" "txtmap base16cfg = txtmap BASE16CFG"
    "wantpadding base16cfg = wantpadding BASE16CFG"
    by (rule base16_upper.shval base16_lower.shval)+ (simp_all add: base16cfg_def BASE16CFG_def)
  from assms obtain x where x: "decode_loop BASE16CFG 4 flags ol inp il ?st = Some x"
    by (auto simp: decode_def cfgs(1) [simplified] bind_eq_Some_conv)
  then have "decode_loop base16cfg 4 flags ol inp il ?st = Some x"
    using decode_loop_txtmap [of BASE16CFG 4 flags ol inp il ?st x base16cfg] cfgs(3,4) by simp
  then show ?thesis using assms x unfolding decode_def Let_def cfgs by simp
qed

lemma base16_text_length: "find_shval 1 cfg = 4 \<Longrightarrow> \<not> wantpadding cfg \<Longrightarrow> length (base_text cfg bs) = 2 * length bs"
  by (simp add: base_text_def base_digits_def base_padding_def)

text \<open>The text can be copied between the two calls.\<close>

lemma bin2hex_ok:
  assumes "il \<le> length ibin" "2 * il < length ohex" "il \<le> length obin"
  shows "\<exists>hex. kit_bin2hex ohex ibin il fmt = Some (2 * il, hex) \<and> length hex = length ohex \<and>
    (\<forall>hex'. take (2 * il) hex' = take (2 * il) hex \<longrightarrow> 2 * il \<le> length hex' \<longrightarrow>
       (\<exists>bin. kit_hex2bin obin hex' (2 * il) = Some (il, bin) \<and> take il bin = take il ibin \<and> length bin = length obin))"
proof -
  let ?cfg = "if fmt = KIT_BIN2HEX_UPPER then BASE16CFG else base16cfg" and ?bs = "take il ibin"
  have cfg: "?cfg \<in> set basecfgs" "length (base_text ?cfg ?bs) = 2 * il"
    using base16_text_length [of ?cfg ?bs] base16_upper.shval base16_lower.shval assms(1)
    by (simp_all add: basecfgs_def BASE16CFG_def base16cfg_def)
  obtain r where r: "encode ohex (il * 2 + 1) ibin il ?cfg = Some r" "length (out r) = length ohex" "encode_spec ?cfg (il * 2 + 1) ?bs r"
    using base_encode_ok [OF cfg(1), of "il * 2 + 1" ohex il ibin] assms by auto
  note s = encode_specD [OF r(3)]
  have "\<exists>bin. kit_hex2bin obin hex' (2 * il) = Some (il, bin) \<and> take il bin = take il ibin \<and> length bin = length obin"
    if "take (2 * il) hex' = take (2 * il) (out r)" "2 * il \<le> length hex'" for hex'
  proof -
    note copy = that
    obtain ob' where "decode obin il hex' (2 * il) KIT_BASE_DECODE_DEFAULT ?cfg =
        Some \<lparr>err = None, out = ob', olen = il, ilen = 2 * il\<rparr>" "take il ob' = ?bs" "length ob' = length obin"
      using base_decode_ok [OF cfg(1), of ?bs il obin hex' KIT_BASE_DECODE_DEFAULT] s(3) r(2) cfg(2) assms copy by auto
    then have "decode obin il hex' (2 * il) KIT_BASE_DECODE_DEFAULT base16cfg =
        Some \<lparr>err = None, out = ob', olen = il, ilen = 2 * il\<rparr>" and "take il ob' = ?bs" "length ob' = length obin"
      using decode_base16 by (auto split: if_splits)
    then show ?thesis by (simp add: kit_hex2bin_def)
  qed
  then show ?thesis using r(1,2) s(2) cfg(2) by (auto simp: kit_bin2hex_def)
qed

text \<open>Bytes turned into hexadecimal text of either case are turned back into the same bytes, and the
  lengths returned are those of the text and of the bytes.\<close>

lemma bin2hex_roundtrip:
  assumes "il \<le> length ibin" "2 * il < length ohex" "il \<le> length obin"
  shows "\<exists>hex bin. kit_bin2hex ohex ibin il fmt = Some (2 * il, hex) \<and> kit_hex2bin obin hex (2 * il) = Some (il, bin) \<and>
    take il bin = take il ibin"
  using bin2hex_ok [OF assms, of fmt] assms(2) by fastforce

end
