(* ===== verification/Kit_SortedArray.thy ===== *)
theory Kit_SortedArray
  imports Kit_Prelude
begin

text \<open>
  Model of \<^verbatim>\<open>lib-kit/kit-sortedarray.c\<close>: arrays of fixed size elements kept in the order of their keys.
  An array is a block of bytes and a pointer into one is the bytes from there on, so the key of an
  element, the element itself and the rest of the array are all given by an offset. The comparator and the
  visitor are functions the caller supplies; the visitor acts on a value of its own. Positions and counts
  are natural numbers below \<open>2 ^ 32\<close>; where the code adds to the allocated size the wrap-around is written
  out.
\<close>

section \<open>Classes\<close>

definition KIT_SORTEDARRAY_DEFAULT :: u32 where "KIT_SORTEDARRAY_DEFAULT = 0"
definition KIT_SORTEDARRAY_ALLOW_INSERTS :: u32 where "KIT_SORTEDARRAY_ALLOW_INSERTS = 0x01"
definition KIT_SORTEDARRAY_ALLOW_GROWTH :: u32 where "KIT_SORTEDARRAY_ALLOW_GROWTH = 0x02"
definition KIT_SORTEDARRAY_ZERO_COPY :: u32 where "KIT_SORTEDARRAY_ZERO_COPY = 0x04"
definition KIT_SORTEDARRAY_CMP_CAN_FAIL :: u32 where "KIT_SORTEDARRAY_CMP_CAN_FAIL = 0x08"

definition INT_MAX :: int where "INT_MAX = 2147483647"

text \<open>\<^verbatim>\<open>~0U\<close>, the position returned when a comparison fails\<close>

definition NO_POS :: nat where "NO_POS = 4294967295"

record kit_sortedelement_class =
  elem_size :: nat
  keyoffset :: nat
  cmp :: "bytes \<Rightarrow> bytes \<Rightarrow> int"
  has_fmt :: bool

record 'v kit_sortedarray_class =
  elem_class :: kit_sortedelement_class
  visit :: "bytes \<Rightarrow> 'v \<Rightarrow> bool \<times> 'v"
  class_flags :: u32

definition has_flag :: "'v kit_sortedarray_class \<Rightarrow> u32 \<Rightarrow> bool" where
  "has_flag cls flag \<longleftrightarrow> class_flags cls AND flag \<noteq> 0"

definition SORTEDARRAY_ELEM :: "'v kit_sortedarray_class \<Rightarrow> bytes \<Rightarrow> nat \<Rightarrow> bytes" where
  "SORTEDARRAY_ELEM cls arr idx = drop (idx * elem_size (elem_class cls)) arr"

definition SORTEDARRAY_KEY :: "'v kit_sortedarray_class \<Rightarrow> bytes \<Rightarrow> nat \<Rightarrow> bytes" where
  "SORTEDARRAY_KEY cls arr idx = drop (keyoffset (elem_class cls)) (SORTEDARRAY_ELEM cls arr idx)"

section \<open>Searching\<close>

text \<open>The binary search. It returns the position and whether it is a match, or \<open>Inl\<close> the early return.\<close>

function find_loop :: "'v kit_sortedarray_class \<Rightarrow> bytes \<Rightarrow> bytes \<Rightarrow> nat \<Rightarrow> nat \<Rightarrow> nat + nat \<times> bool" where
  "find_loop cls arr key pos lim =
     (if lim = 0 then Inr (pos, False)
      else let i = pos + lim div 2; c = cmp (elem_class cls) key (SORTEDARRAY_KEY cls arr i)
           in if c = 0 then Inr (i, True)
              else if c = INT_MAX \<and> has_flag cls KIT_SORTEDARRAY_CMP_CAN_FAIL then Inl NO_POS
              else if c > 0 then find_loop cls arr key (i + 1) ((lim - 1) div 2)
              else find_loop cls arr key pos (lim div 2))"
  by pat_completeness auto
termination
  by (relation "measure (\<lambda>(cls, arr, key, pos, lim). lim)") auto

declare find_loop.simps [simp del]

definition kit_sortedarray_find_key :: "'v kit_sortedarray_class \<Rightarrow> bytes \<Rightarrow> nat \<Rightarrow> bytes \<Rightarrow> (nat \<times> bool) option" where
  "kit_sortedarray_find_key cls arr cnt key =
     (case find_loop cls arr key 0 cnt of
        Inl pos \<Rightarrow> Some (pos, False)
      | Inr (pos, match) \<Rightarrow>
          do { SXEA6 (has_fmt (elem_class cls) \<longrightarrow> pos = cnt \<or> cmp (elem_class cls) key (SORTEDARRAY_KEY cls arr pos) \<le> 0);
               Some (pos, match) })"

definition kit_sortedarray_get_elem :: "'v kit_sortedarray_class \<Rightarrow> bytes option \<Rightarrow> nat \<Rightarrow> bytes \<Rightarrow> bytes option option" where
  "kit_sortedarray_get_elem cls arr cnt key =
     do { SXEA6 (arr \<noteq> None \<or> cnt = 0);
          (pos, match) \<leftarrow> (case arr of Some a \<Rightarrow> kit_sortedarray_find_key cls a cnt key | None \<Rightarrow> Some (cnt, False));
          Some (if match then Some (SORTEDARRAY_ELEM cls (the arr) pos) else None) }"

section \<open>Adding and deleting\<close>

text \<open>\<^verbatim>\<open>memmove\<close> within a block and \<^verbatim>\<open>memcpy\<close> into one; \<open>None\<close> when they leave it.\<close>

definition memmove :: "bytes \<Rightarrow> nat \<Rightarrow> nat \<Rightarrow> nat \<Rightarrow> bytes option" where
  "memmove a dst src n =
     (if dst + n \<le> length a \<and> src + n \<le> length a
      then Some (take dst a @ take n (drop src a) @ drop (dst + n) a) else None)"

definition memcpy :: "bytes \<Rightarrow> nat \<Rightarrow> bytes \<Rightarrow> nat \<Rightarrow> bytes option" where
  "memcpy a dst src n =
     (if dst + n \<le> length a \<and> n \<le> length src then Some (take dst a @ take n src @ drop (dst + n) a) else None)"

text \<open>
  A caller's array: the block (or \<^verbatim>\<open>NULL\<close>), the number of elements and the number of slots. A reallocation
  of \<open>n\<close> bytes gives a block that starts with the old bytes, followed by whatever \<open>fresh\<close> gives, or fails.
\<close>

record sorted_array =
  blk :: "bytes option"
  cnt :: nat
  slots :: nat

definition kit_realloc :: "(nat \<Rightarrow> bool) \<Rightarrow> (nat \<Rightarrow> u8) \<Rightarrow> bytes option \<Rightarrow> nat \<Rightarrow> bytes option" where
  "kit_realloc ok fresh old n =
     (if ok n then let b = (case old of None \<Rightarrow> [] | Some b \<Rightarrow> b)
                   in Some (take n b @ map fresh [length b..<n])
      else None)"

text \<open>Where a new key goes: \<open>None\<close> is the return of \<^verbatim>\<open>NULL\<close> for a duplicate or an insertion that is not allowed.\<close>

definition add_position :: "'v kit_sortedarray_class \<Rightarrow> sorted_array \<Rightarrow> bytes \<Rightarrow> nat option option" where
  "add_position cls sa key =
     (case (cnt sa, blk sa) of
        (Suc n, Some a) \<Rightarrow>
          let c = cmp (elem_class cls) (SORTEDARRAY_KEY cls a n) key
          in if c = 0 then Some None
             else if c > 0
                  then if has_flag cls KIT_SORTEDARRAY_ALLOW_INSERTS
                       then do { (pos, match) \<leftarrow> kit_sortedarray_find_key cls a (cnt sa) key;
                                 Some (if match then None else Some pos) }
                       else Some None
                  else Some (Some (cnt sa))
      | _ \<Rightarrow> Some (Some (cnt sa)))"

definition add_room :: "(nat \<Rightarrow> bool) \<Rightarrow> (nat \<Rightarrow> u8) \<Rightarrow> 'v kit_sortedarray_class \<Rightarrow> sorted_array \<Rightarrow> sorted_array option" where
  "add_room ok fresh cls sa =
     (if cnt sa = slots sa \<and> \<not> has_flag cls KIT_SORTEDARRAY_ALLOW_GROWTH then None
      else let more = (if cnt sa = slots sa then if slots sa > 100 then slots sa div 2 else 10 else 0);
               total = (slots sa + more) mod 2 ^ 32
           in if blk sa = None \<or> more \<noteq> 0
              then case kit_realloc ok fresh (blk sa) (total * elem_size (elem_class cls)) of
                     None \<Rightarrow> None
                   | Some b \<Rightarrow> Some (sa\<lparr>blk := Some b, slots := total\<rparr>)
              else Some sa)"

text \<open>The result is the position of the new element, or \<open>None\<close> for \<^verbatim>\<open>NULL\<close>, and the array.\<close>

definition kit_sortedarray_add_elem ::
  "(nat \<Rightarrow> bool) \<Rightarrow> (nat \<Rightarrow> u8) \<Rightarrow> 'v kit_sortedarray_class \<Rightarrow> sorted_array \<Rightarrow> bytes \<Rightarrow> (nat option \<times> sorted_array) option" where
  "kit_sortedarray_add_elem ok fresh cls sa element =
     do { SXEA6 (blk sa \<noteq> None \<or> cnt sa = 0);
          let size = elem_size (elem_class cls);
          place \<leftarrow> add_position cls sa (drop (keyoffset (elem_class cls)) element);
          case place of None \<Rightarrow> Some (None, sa)
          | Some pos \<Rightarrow>
              (case add_room ok fresh cls sa of None \<Rightarrow> Some (None, sa)
               | Some sa \<Rightarrow>
                   do { a \<leftarrow> blk sa;
                        a \<leftarrow> (if pos < cnt sa then memmove a ((pos + 1) * size) (pos * size) ((cnt sa - pos) * size) else Some a);
                        a \<leftarrow> memcpy a (pos * size)
                               (if has_flag cls KIT_SORTEDARRAY_ZERO_COPY then replicate size 0xa5 else element) size;
                        Some (Some pos, sa\<lparr>blk := Some a, cnt := cnt sa + 1\<rparr>) }) }"

definition kit_sortedarray_delete_elem :: "'v kit_sortedarray_class \<Rightarrow> bytes option \<Rightarrow> nat \<Rightarrow> bytes \<Rightarrow> (bool \<times> bytes option \<times> nat) option" where
  "kit_sortedarray_delete_elem cls arr n key =
     (case arr of None \<Rightarrow> Some (False, arr, n)
      | Some a \<Rightarrow>
          if n = 0 then Some (False, arr, n)
          else do { (pos, match) \<leftarrow> kit_sortedarray_find_key cls a n key;
                    if \<not> match then Some (False, arr, n)
                    else let size = elem_size (elem_class cls)
                         in do { a \<leftarrow> memmove a (pos * size) ((pos + 1) * size) ((n - pos - 1) * size);
                                 Some (True, Some a, n - 1) } })"

section \<open>Intersection\<close>

text \<open>
  The recursion into the second halves passes the key of an element as the start of the array, as the
  code does. The visitor's value is threaded through; the result is \<^verbatim>\<open>false\<close> as soon as a visit is.
\<close>

function kit_sortedarray_intersect ::
  "'v kit_sortedarray_class \<Rightarrow> bytes \<Rightarrow> nat \<Rightarrow> bytes \<Rightarrow> nat \<Rightarrow> 'v \<Rightarrow> (bool \<times> 'v) option" where
  "kit_sortedarray_intersect cls left left_count right right_count v =
     (if left_count = 0 \<or> right_count = 0 then Some (True, v)
      else if left_count = 1
      then do { (idx, match) \<leftarrow> kit_sortedarray_find_key cls right right_count (drop (keyoffset (elem_class cls)) left);
                if idx = NO_POS \<and> has_flag cls KIT_SORTEDARRAY_CMP_CAN_FAIL then Some (False, v)
                else if match then Some (visit cls left v) else Some (True, v) }
      else let median = left_count div 2
           in do { (idx, match) \<leftarrow> kit_sortedarray_find_key cls right right_count (SORTEDARRAY_KEY cls left median);
                   if idx = NO_POS \<and> has_flag cls KIT_SORTEDARRAY_CMP_CAN_FAIL then Some (False, v)
                   else do { (ok, v) \<leftarrow> (if idx > 0 then kit_sortedarray_intersect cls left (left_count div 2) right idx v
                                         else Some (True, v));
                             if \<not> ok then Some (False, v)
                             else if match
                             then (case visit cls (SORTEDARRAY_ELEM cls left median) v of
                                     (False, v) \<Rightarrow> Some (False, v)
                                   | (True, v) \<Rightarrow>
                                       if median + 1 = left_count - 1
                                       then if idx + 1 < right_count
                                            then do { (idx2, match) \<leftarrow> kit_sortedarray_find_key cls
                                                        (SORTEDARRAY_ELEM cls right (idx + 1)) (right_count - (idx + 1))
                                                        (SORTEDARRAY_KEY cls left (median + 1));
                                                      if idx2 = NO_POS \<and> has_flag cls KIT_SORTEDARRAY_CMP_CAN_FAIL
                                                      then Some (False, v)
                                                      else if match then Some (visit cls (SORTEDARRAY_ELEM cls left (median + 1)) v)
                                                      else Some (True, v) }
                                            else Some (True, v)
                                       else if idx + 1 < right_count
                                       then kit_sortedarray_intersect cls (SORTEDARRAY_KEY cls left (median + 1))
                                              (left_count - (left_count div 2 + 1))
                                              (SORTEDARRAY_KEY cls right (idx + 1)) (right_count - (idx + 1)) v
                                       else Some (True, v))
                             else if idx < right_count
                             then kit_sortedarray_intersect cls (SORTEDARRAY_KEY cls left (median + 1))
                                    (left_count - (left_count div 2 + 1))
                                    (SORTEDARRAY_KEY cls right idx) (right_count - idx) v
                             else Some (True, v) } })"
  by pat_completeness auto
termination
  by (relation "measure (\<lambda>(cls, left, left_count, right, right_count, v). left_count)") auto

declare kit_sortedarray_intersect.simps [simp del]

section \<open>The deprecated interface\<close>

text \<open>These functions build a class from an element class. Its visitor is null, and nothing here calls it.\<close>

definition KIT_SORTEDELEMENT_CLASS_TO_ARRAY_CLASS :: "kit_sortedelement_class \<Rightarrow> u32 \<Rightarrow> unit kit_sortedarray_class" where
  "KIT_SORTEDELEMENT_CLASS_TO_ARRAY_CLASS ec flags = \<lparr>elem_class = ec, visit = (\<lambda>_ v. (False, v)), class_flags = flags\<rparr>"

definition kit_sortedarray_add ::
  "(nat \<Rightarrow> bool) \<Rightarrow> (nat \<Rightarrow> u8) \<Rightarrow> kit_sortedelement_class \<Rightarrow> sorted_array \<Rightarrow> bytes \<Rightarrow> u32 \<Rightarrow> (nat option \<times> sorted_array) option" where
  "kit_sortedarray_add ok fresh ec sa element flags =
     kit_sortedarray_add_elem ok fresh (KIT_SORTEDELEMENT_CLASS_TO_ARRAY_CLASS ec flags) sa element"

definition kit_sortedarray_find :: "kit_sortedelement_class \<Rightarrow> bytes \<Rightarrow> nat \<Rightarrow> bytes \<Rightarrow> (nat \<times> bool) option" where
  "kit_sortedarray_find ec arr n key =
     kit_sortedarray_find_key (KIT_SORTEDELEMENT_CLASS_TO_ARRAY_CLASS ec KIT_SORTEDARRAY_DEFAULT) arr n key"

definition kit_sortedarray_get :: "kit_sortedelement_class \<Rightarrow> bytes option \<Rightarrow> nat \<Rightarrow> bytes \<Rightarrow> bytes option option" where
  "kit_sortedarray_get ec arr n key =
     kit_sortedarray_get_elem (KIT_SORTEDELEMENT_CLASS_TO_ARRAY_CLASS ec KIT_SORTEDARRAY_DEFAULT) arr n key"

definition kit_sortedarray_delete :: "kit_sortedelement_class \<Rightarrow> bytes option \<Rightarrow> nat \<Rightarrow> bytes \<Rightarrow> (bool \<times> bytes option \<times> nat) option" where
  "kit_sortedarray_delete ec arr n key =
     kit_sortedarray_delete_elem (KIT_SORTEDELEMENT_CLASS_TO_ARRAY_CLASS ec KIT_SORTEDARRAY_DEFAULT) arr n key"

end
