(* ===== verification/Kit_SortedArray_Spec.thy ===== *)
theory Kit_SortedArray_Spec
  imports Kit_SortedArray
begin

text \<open>
  Correctness of the sorted arrays of \<^verbatim>\<open>lib-kit/kit-sortedarray.c\<close>. The locale \<open>key_class\<close> states what a comparator
  promises: that it compares ranks of keys, looks at the bytes of the key only, and fails on no key that is
  valid. Searching, adding and deleting are proved there against the list of elements, and the
  intersection in its extension \<open>visiting_class\<close>. Both are interpreted for the arrays of unsigned integers.
\<close>

section \<open>Blocks of elements\<close>

lemma length_concat_const:
  assumes "\<forall>e \<in> set es. length e = n"
  shows "length (concat es) = length es * n"
  using assms by (induction es) simp_all

lemma concat_take_drop:
  assumes "\<forall>e \<in> set es. length e = n" "i \<le> length es"
  shows "take (i * n) (concat es @ rest) = concat (take i es)" "drop (i * n) (concat es @ rest) = concat (drop i es) @ rest"
proof -
  have "\<forall>e \<in> set (take i es). length e = n" using assms(1) by (meson in_set_takeD)
  then have len: "length (concat (take i es)) = i * n" using length_concat_const [of "take i es" n] assms(2) by (simp add: min_def)
  have "concat es @ rest = concat (take i es) @ concat (drop i es) @ rest"
    by (metis append.assoc append_take_drop_id concat_append)
  then show "take (i * n) (concat es @ rest) = concat (take i es)" "drop (i * n) (concat es @ rest) = concat (drop i es) @ rest"
    using len by simp_all
qed

lemma memmove_down:
  "memmove (x @ e @ y @ r) (length x) (length x + length e) (length y) = Some (x @ y @ drop (length y) (e @ y @ r))"
  by (simp add: memmove_def)

lemma memmove_up:
  assumes "k \<le> length r"
  shows "memmove (x @ y @ r) (length x + k) (length x) (length y) = Some (x @ take k (y @ r) @ y @ drop k r)"
  using assms by (simp add: memmove_def)

lemma memcpy_at:
  assumes "length m = n" "n \<le> length src"
  shows "memcpy (x @ m @ r) (length x) src n = Some (x @ take n src @ r)"
  using assms by (simp add: memcpy_def)

text \<open>The elements of an array: each has the size and a key that can be compared, and the keys increase.\<close>

definition elem_key :: "'v kit_sortedarray_class \<Rightarrow> bytes \<Rightarrow> bytes" where
  "elem_key cls e = drop (keyoffset (elem_class cls)) e"

definition sorted_elems :: "'v kit_sortedarray_class \<Rightarrow> (bytes \<Rightarrow> 'k :: linorder) \<Rightarrow> (bytes \<Rightarrow> bool) \<Rightarrow> bytes list \<Rightarrow> bool" where
  "sorted_elems cls rank valid es \<longleftrightarrow>
     (\<forall>e \<in> set es. length e = elem_size (elem_class cls) \<and> valid (elem_key cls e)) \<and>
     sorted_wrt (<) (map (\<lambda>e. rank (elem_key cls e)) es)"

definition starts_with :: "bytes \<Rightarrow> bytes list \<Rightarrow> bool" where
  "starts_with arr es \<longleftrightarrow> (\<exists>rest. arr = concat es @ rest)"

section \<open>Searching\<close>

locale key_class =
  fixes cls :: "'v kit_sortedarray_class" and rank :: "bytes \<Rightarrow> 'k :: linorder" and valid :: "bytes \<Rightarrow> bool" and key_size :: nat
  assumes size_pos: "0 < elem_size (elem_class cls)"
    and key_fits: "keyoffset (elem_class cls) + key_size \<le> elem_size (elem_class cls)"
    and rank_local: "key_size \<le> length x \<Longrightarrow> rank (x @ y) = rank x"
    and valid_local: "key_size \<le> length x \<Longrightarrow> valid (x @ y) = valid x"
    and cmp_eq: "valid x \<Longrightarrow> cmp (elem_class cls) x y = 0 \<longleftrightarrow> rank x = rank y"
    and cmp_greater: "valid x \<Longrightarrow> 0 < cmp (elem_class cls) x y \<longleftrightarrow> rank y < rank x"
    and cmp_total: "valid x \<Longrightarrow> cmp (elem_class cls) x y \<noteq> INT_MAX"
begin

abbreviation esize :: nat where "esize \<equiv> elem_size (elem_class cls)"
abbreviation ekey :: "bytes \<Rightarrow> 'k" where "ekey e \<equiv> rank (elem_key cls e)"
abbreviation sorted_es :: "bytes list \<Rightarrow> bool" where "sorted_es \<equiv> sorted_elems cls rank valid"

lemma key_in_element:
  assumes "length e = esize"
  shows "rank (elem_key cls (e @ r)) = ekey e" "valid (elem_key cls (e @ r)) = valid (elem_key cls e)"
  using rank_local [of "elem_key cls e" r] valid_local [of "elem_key cls e" r] key_fits assms
  by (simp_all add: elem_key_def)

lemma sorted_lengths: "sorted_es es \<Longrightarrow> \<forall>e \<in> set es. length e = esize"
  by (simp add: sorted_elems_def)

lemma element_at:
  assumes "sorted_es es" "i < length es"
  shows "SORTEDARRAY_ELEM cls (concat es @ rest) i = es ! i @ concat (drop (Suc i) es) @ rest"
  using concat_take_drop(2) [OF sorted_lengths [OF assms(1)], of i rest] assms(2)
  by (simp add: SORTEDARRAY_ELEM_def Cons_nth_drop_Suc [symmetric])

lemma key_at:
  assumes "sorted_es es" "i < length es"
  shows "rank (SORTEDARRAY_KEY cls (concat es @ rest) i) = ekey (es ! i)" "valid (SORTEDARRAY_KEY cls (concat es @ rest) i)"
proof -
  have "length (es ! i) = esize" "valid (elem_key cls (es ! i))" using assms by (simp_all add: sorted_elems_def)
  moreover have "SORTEDARRAY_KEY cls (concat es @ rest) i = elem_key cls (es ! i @ concat (drop (Suc i) es) @ rest)"
    unfolding SORTEDARRAY_KEY_def element_at [OF assms] elem_key_def ..
  ultimately show "rank (SORTEDARRAY_KEY cls (concat es @ rest) i) = ekey (es ! i)" "valid (SORTEDARRAY_KEY cls (concat es @ rest) i)"
    by (simp_all only: key_in_element)
qed

lemma keys_less: "sorted_es es \<Longrightarrow> i < j \<Longrightarrow> j < length es \<Longrightarrow> ekey (es ! i) < ekey (es ! j)"
  by (simp add: sorted_elems_def sorted_wrt_iff_nth_less)

lemma keys_le_iff: "sorted_es es \<Longrightarrow> i < length es \<Longrightarrow> j < length es \<Longrightarrow> ekey (es ! i) < ekey (es ! j) \<longleftrightarrow> i < j"
  using keys_less [of es i j] keys_less [of es j i] by (metis less_asym linorder_neqE_nat)

text \<open>Where a key belongs: everything before the position is smaller, everything from it on is not.\<close>

definition position :: "bytes list \<Rightarrow> 'k \<Rightarrow> nat \<Rightarrow> bool" where
  "position es k pos \<longleftrightarrow> pos \<le> length es \<and> (\<forall>i < pos. ekey (es ! i) < k) \<and> (\<forall>i. pos \<le> i \<and> i < length es \<longrightarrow> k \<le> ekey (es ! i))"

lemma find_loop_correct:
  assumes "sorted_es es" "valid key" "pos + lim \<le> length es"
    "\<forall>i < pos. ekey (es ! i) < rank key" "\<forall>i. pos + lim \<le> i \<and> i < length es \<longrightarrow> rank key < ekey (es ! i)"
  shows "\<exists>p mt. find_loop cls (concat es @ rest) key pos lim = Inr (p, mt) \<and> position es (rank key) p \<and>
    (mt \<longleftrightarrow> p < length es \<and> ekey (es ! p) = rank key)"
  using assms(3-)
proof (induction lim arbitrary: pos rule: less_induct)
  case (less lim)
  show ?case
  proof (cases "lim = 0")
    case True
    then show ?thesis using less.prems by (subst find_loop.simps) (auto simp: position_def less_imp_le)
  next
    case False
    let ?i = "pos + lim div 2" and ?c = "cmp (elem_class cls) key (SORTEDARRAY_KEY cls (concat es @ rest) (pos + lim div 2))"
    have i: "?i < length es" using False less.prems(1) by linarith
    note sgn = cmp_eq [OF assms(2)] cmp_greater [OF assms(2)] cmp_total [OF assms(2)] key_at(1) [OF assms(1) i, of rest]
    note mono = keys_less [OF assms(1)]
    consider "rank key = ekey (es ! ?i)" | "ekey (es ! ?i) < rank key" | "rank key < ekey (es ! ?i)" by fastforce
    then show ?thesis
    proof cases
      case 1
      have "ekey (es ! ?i) \<le> ekey (es ! j)" if "?i \<le> j" "j < length es" for j
        using mono [of ?i j] that by (cases "j = ?i") auto
      then have "position es (rank key) ?i" using mono i 1 by (simp add: position_def)
      then show ?thesis using False sgn 1 i by (subst find_loop.simps) (simp add: Let_def)
    next
      case 2
      have "?c \<noteq> 0" "?c \<noteq> INT_MAX" "0 < ?c" using sgn 2 by auto
      then have "find_loop cls (concat es @ rest) key pos lim = find_loop cls (concat es @ rest) key (?i + 1) ((lim - 1) div 2)"
        using False by (subst find_loop.simps) (simp add: Let_def)
      moreover have "(?i + 1) + (lim - 1) div 2 = pos + lim" using False by linarith
      moreover have "ekey (es ! j) < rank key" if "j < ?i + 1" for j
        using mono [of j ?i] i 2 that by (cases "j = ?i") (auto intro: less_trans)
      ultimately show ?thesis using less.IH [of "(lim - 1) div 2" "?i + 1"] less.prems False by auto
    next
      case 3
      have "?c \<noteq> 0" "?c \<noteq> INT_MAX" "\<not> 0 < ?c" using sgn 3 by auto
      then have "find_loop cls (concat es @ rest) key pos lim = find_loop cls (concat es @ rest) key pos (lim div 2)"
        using False by (subst find_loop.simps) (simp add: Let_def)
      moreover have "rank key < ekey (es ! j)" if "?i \<le> j" "j < length es" for j
        using mono [of ?i j] 3 that by (cases "j = ?i") (auto intro: less_trans)
      ultimately show ?thesis using less.IH [of "lim div 2" pos] less.prems False by auto
    qed
  qed
qed

lemma find_key_correct:
  assumes "sorted_es es" "valid key"
  shows "\<exists>p mt. kit_sortedarray_find_key cls (concat es @ rest) (length es) key = Some (p, mt) \<and> position es (rank key) p \<and>
    (mt \<longleftrightarrow> p < length es \<and> ekey (es ! p) = rank key)"
proof -
  have "\<exists>p mt. find_loop cls (concat es @ rest) key 0 (length es) = Inr (p, mt) \<and> position es (rank key) p \<and>
    (mt \<longleftrightarrow> p < length es \<and> ekey (es ! p) = rank key)"
    by (rule find_loop_correct [OF assms]) auto
  then obtain p mt where p: "find_loop cls (concat es @ rest) key 0 (length es) = Inr (p, mt)" "position es (rank key) p"
    "mt \<longleftrightarrow> p < length es \<and> ekey (es ! p) = rank key" by blast
  have "p = length es \<or> cmp (elem_class cls) key (SORTEDARRAY_KEY cls (concat es @ rest) p) \<le> 0"
    using p(2) key_at(1) [OF assms(1), of p rest] cmp_greater [OF assms(2)] unfolding position_def
    by (metis le_eq_less_or_eq linorder_not_less)
  then show ?thesis using p by (simp add: kit_sortedarray_find_key_def)
qed

lemma sorted_es_append:
  "sorted_es (xs @ ys) \<longleftrightarrow> sorted_es xs \<and> sorted_es ys \<and> (\<forall>x \<in> set xs. \<forall>y \<in> set ys. ekey x < ekey y)"
  by (auto simp: sorted_elems_def sorted_wrt_append)

lemma sorted_es_Cons:
  "sorted_es (x # ys) \<longleftrightarrow> length x = esize \<and> valid (elem_key cls x) \<and> sorted_es ys \<and> (\<forall>y \<in> set ys. ekey x < ekey y)"
  by (auto simp: sorted_elems_def)

lemma sorted_es_Nil [simp]: "sorted_es []"
  by (simp add: sorted_elems_def)

lemma position_filter:
  assumes "sorted_es es" "position es k p"
  shows "take p es = filter (\<lambda>e. ekey e < k) es" "drop p es = filter (\<lambda>e. k \<le> ekey e) es"
proof -
  have lo: "\<forall>e \<in> set (take p es). ekey e < k" using assms(2) by (auto simp: position_def in_set_conv_nth)
  have hi: "\<forall>e \<in> set (drop p es). k \<le> ekey e" using assms(2) by (auto simp: position_def in_set_conv_nth)
  have "filter (\<lambda>e. ekey e < k) (take p es @ drop p es) = take p es"
    using lo hi by (auto simp: filter_empty_conv intro!: filter_True simp del: append_take_drop_id)
  moreover have "filter (\<lambda>e. k \<le> ekey e) (take p es @ drop p es) = drop p es"
    using lo hi by (auto simp: filter_empty_conv intro!: filter_True simp del: append_take_drop_id)
  ultimately show "take p es = filter (\<lambda>e. ekey e < k) es" "drop p es = filter (\<lambda>e. k \<le> ekey e) es" by simp_all
qed

lemma member_iff:
  assumes "sorted_es es" "position es k p"
  shows "k \<in> ekey ` set es \<longleftrightarrow> p < length es \<and> ekey (es ! p) = k"
proof
  assume "k \<in> ekey ` set es"
  then obtain i where i: "i < length es" "ekey (es ! i) = k" by (auto simp: in_set_conv_nth)
  then have "p \<le> i" using assms(2) by (auto simp: position_def not_le [symmetric] intro: leI)
  then have "ekey (es ! p) \<le> k" using keys_less [OF assms(1), of p i] i by (cases "p = i") auto
  moreover have "k \<le> ekey (es ! p)" using assms(2) \<open>p \<le> i\<close> i by (auto simp: position_def)
  ultimately show "p < length es \<and> ekey (es ! p) = k" using \<open>p \<le> i\<close> i by auto
qed (auto intro: nth_mem)

lemma find_key_member:
  assumes "sorted_es es" "valid key"
  obtains p where "kit_sortedarray_find_key cls (concat es @ rest) (length es) key = Some (p, rank key \<in> ekey ` set es)"
    "position es (rank key) p"
proof -
  obtain p mt where p: "kit_sortedarray_find_key cls (concat es @ rest) (length es) key = Some (p, mt)"
    "position es (rank key) p" "mt \<longleftrightarrow> p < length es \<and> ekey (es ! p) = rank key"
    using find_key_correct [OF assms, of rest] by blast
  then have "mt \<longleftrightarrow> rank key \<in> ekey ` set es" using member_iff [OF assms(1) p(2)] by blast
  then show ?thesis using that p(1,2) by simp
qed

section \<open>Deleting and adding\<close>

lemma delete_correct:
  assumes "sorted_es es" "valid key"
  shows "\<exists>rest'. kit_sortedarray_delete_elem cls (Some (concat es @ rest)) (length es) key =
      Some (rank key \<in> ekey ` set es, Some (concat (filter (\<lambda>e. ekey e \<noteq> rank key) es) @ rest'),
            length (filter (\<lambda>e. ekey e \<noteq> rank key) es)) \<and>
    length (concat (filter (\<lambda>e. ekey e \<noteq> rank key) es) @ rest') = length (concat es @ rest)"
proof -
  let ?k = "rank key"
  obtain p where p: "kit_sortedarray_find_key cls (concat es @ rest) (length es) key = Some (p, ?k \<in> ekey ` set es)"
    "position es ?k p" using find_key_member [OF assms] by blast
  show ?thesis
  proof (cases "?k \<in> ekey ` set es")
    case False
    then have "filter (\<lambda>e. ekey e \<noteq> ?k) es = es" by (force intro!: filter_True)
    then show ?thesis using p False by (auto simp: kit_sortedarray_delete_elem_def)
  next
    case True
    then have at: "p < length es" "ekey (es ! p) = ?k" using member_iff [OF assms(1) p(2)] by auto
    define xs e ys where parts: "xs = take p es" "e = es ! p" "ys = drop (Suc p) es"
    have es: "es = xs @ e # ys" "length xs = p" using at(1) by (simp_all add: parts id_take_nth_drop [symmetric])
    have order: "\<forall>x \<in> set xs. ekey x < ?k" "\<forall>y \<in> set ys. ?k < ekey y" "length e = esize"
      using assms(1) at(2) unfolding es by (auto simp: sorted_es_append sorted_es_Cons nth_append es(2) [symmetric])
    have "filter (\<lambda>e. ekey e \<noteq> ?k) xs = xs" "filter (\<lambda>e. ekey e \<noteq> ?k) ys = ys"
      using order(1,2) by (force intro!: filter_True)+
    then have filt: "filter (\<lambda>e. ekey e \<noteq> ?k) es = xs @ ys"
      using at(2) unfolding es by (simp add: nth_append es(2) [symmetric])
    have lens: "length (concat xs) = p * esize" "length (concat ys) = length ys * esize"
      using sorted_lengths [OF assms(1)] es length_concat_const [of xs esize] length_concat_const [of ys esize] by auto
    let ?rest = "drop (length (concat ys)) (e @ concat ys @ rest)"
    have "memmove (concat es @ rest) (p * esize) ((p + 1) * esize) ((length es - p - 1) * esize) = Some (concat (xs @ ys) @ ?rest)"
      using memmove_down [of "concat xs" e "concat ys" rest] lens order(3) es by (simp add: algebra_simps)
    moreover have "length (concat (xs @ ys) @ ?rest) = length (concat es @ rest)" using es(1) by simp
    ultimately show ?thesis using p(1) True at(1) filt es
      by (intro exI [of _ ?rest]) (simp add: kit_sortedarray_delete_elem_def Let_def)
  qed
qed

text \<open>An array of the caller represents a list of elements: the block holds them at its start and is as long
  as the number of slots says.\<close>

definition array_repr :: "sorted_array \<Rightarrow> bytes list \<Rightarrow> bool" where
  "array_repr sa es \<longleftrightarrow> sorted_es es \<and> cnt sa = length es \<and> cnt sa \<le> slots sa \<and> slots sa < 2 ^ 32 \<and>
     (case blk sa of None \<Rightarrow> es = [] | Some a \<Rightarrow> length a = slots sa * esize \<and> (\<exists>rest. a = concat es @ rest))"

lemma array_reprD:
  assumes "array_repr sa es"
  shows "sorted_es es" "cnt sa = length es" "cnt sa \<le> slots sa" "slots sa < 2 ^ 32" "blk sa = None \<Longrightarrow> es = []"
    "blk sa = Some a \<Longrightarrow> length a = slots sa * esize" "blk sa = Some a \<Longrightarrow> \<exists>rest. a = concat es @ rest"
  using assms by (auto simp: array_repr_def)

lemma add_room_correct:
  assumes "array_repr sa es" "slots sa + max 10 (slots sa div 2) < 2 ^ 32" "add_room ok fresh cls sa = Some sa'"
  shows "array_repr sa' es" "cnt sa' < slots sa'" "blk sa' \<noteq> None"
proof -
  note r = array_reprD [OF assms(1)]
  let ?more = "if cnt sa = slots sa then if slots sa > 100 then slots sa div 2 else 10 else 0"
  have tot: "(slots sa + ?more) mod 2 ^ 32 = slots sa + ?more" using assms(2) by (intro mod_less) auto
  define more where "more = ?more"
  have "\<not> (cnt sa = slots sa \<and> \<not> has_flag cls KIT_SORTEDARRAY_ALLOW_GROWTH)" 
  proof
    assume "cnt sa = slots sa \<and> \<not> has_flag cls KIT_SORTEDARRAY_ALLOW_GROWTH"
    then have "add_room ok fresh cls sa = None" by (simp add: add_room_def)
    then show False using assms(3) by simp
  qed
  then have room: "(if blk sa = None \<or> more \<noteq> 0
      then case kit_realloc ok fresh (blk sa) ((slots sa + more) * esize) of
             None \<Rightarrow> None | Some b \<Rightarrow> Some (sa\<lparr>blk := Some b, slots := slots sa + more\<rparr>)
      else Some sa) = Some sa'"
    using assms(3) unfolding add_room_def Let_def more_def [symmetric] tot [folded more_def] by presburger
  have bounds: "slots sa + more < 2 ^ 32" "cnt sa = slots sa \<Longrightarrow> 0 < more" using assms(2) by (simp_all add: more_def max_def split: if_splits)
  have "array_repr sa' es \<and> cnt sa' < slots sa' \<and> blk sa' \<noteq> None"
  proof (cases "blk sa = None \<or> more \<noteq> 0")
    case False
    then have "sa' = sa" using room unfolding if_not_P [OF False] by simp
    then show ?thesis using False bounds(2) assms(1) r(3) by (cases "cnt sa = slots sa") auto
  next
    case True
    let ?n = "(slots sa + more) * esize" and ?old = "case blk sa of None \<Rightarrow> [] | Some b \<Rightarrow> b"
    obtain b where re: "kit_realloc ok fresh (blk sa) ?n = Some b" and sa': "sa' = sa\<lparr>blk := Some b, slots := slots sa + more\<rparr>"
      using room True by (cases "kit_realloc ok fresh (blk sa) ?n") simp_all
    have b: "b = take ?n ?old @ map fresh [length ?old..<?n]" using re by (cases "ok ?n") (simp_all add: kit_realloc_def Let_def)
    have old: "length ?old \<le> ?n" "\<exists>rest. ?old = concat es @ rest"
      using r(5-7) by (cases "blk sa"; simp)+
    then have "length b = ?n" "\<exists>rest. b = concat es @ rest" by (auto simp: b)
    moreover have "cnt sa < slots sa + more" using r(3) bounds(2) by (cases "cnt sa = slots sa") auto
    ultimately show ?thesis using r(1,2) bounds(1) by (simp add: array_repr_def sa')
  qed
  then show "array_repr sa' es" "cnt sa' < slots sa'" "blk sa' \<noteq> None" by auto
qed

lemma add_position_correct:
  assumes "array_repr sa es" "valid key"
  shows "\<exists>place. add_position cls sa key = Some place \<and>
    (case place of
       None \<Rightarrow> rank key \<in> ekey ` set es \<or> (\<exists>e \<in> set es. rank key < ekey e) \<and> \<not> has_flag cls KIT_SORTEDARRAY_ALLOW_INSERTS
     | Some pos \<Rightarrow> rank key \<notin> ekey ` set es \<and> position es (rank key) pos \<and>
         (has_flag cls KIT_SORTEDARRAY_ALLOW_INSERTS \<or> (\<forall>e \<in> set es. ekey e < rank key)))"
proof (cases "es = []")
  case True
  then have "add_position cls sa key = Some (Some 0)" using array_reprD(2) [OF assms(1)] by (simp add: add_position_def)
  then show ?thesis using True by (simp add: position_def)
next
  case False
  note r = array_reprD [OF assms(1)]
  obtain a where a: "blk sa = Some a" using False r(5) by (cases "blk sa") auto
  obtain rest where rest: "a = concat es @ rest" using r(7) [OF a] by blast
  obtain n where n: "cnt sa = Suc n" "length es = Suc n" "es ! n = last es" using r(2) False by (cases "length es") (auto simp: last_conv_nth)
  let ?c = "cmp (elem_class cls) (SORTEDARRAY_KEY cls a n) key"
  have k: "rank (SORTEDARRAY_KEY cls a n) = ekey (last es)" "valid (SORTEDARRAY_KEY cls a n)"
    using key_at [OF r(1), of n rest] n by (simp_all add: rest)
  have le_last: "ekey e \<le> ekey (last es)" if "e \<in> set es" for e
    using that keys_less [OF r(1), of _ n] n by (auto simp: in_set_conv_nth less_Suc_eq intro: less_imp_le)
  have last: "last es \<in> set es" using False by simp
  consider "ekey (last es) = rank key" | "ekey (last es) < rank key" | "rank key < ekey (last es)" by fastforce
  then show ?thesis
  proof cases
    case 1
    then have "add_position cls sa key = Some None" using a n cmp_eq [OF k(2), of key] k(1) by (simp add: add_position_def)
    then show ?thesis using 1 last by force
  next
    case 2
    then have "\<not> 0 < ?c" "?c \<noteq> 0" using cmp_eq [OF k(2), of key] cmp_greater [OF k(2), of key] k(1) by auto
    then have "add_position cls sa key = Some (Some (length es))" using a n by (simp add: add_position_def)
    moreover have all: "ekey e < rank key" if "e \<in> set es" for e using le_last [OF that] 2 by auto
    then have "position es (rank key) (length es)" by (auto simp: position_def)
    moreover have "rank key \<notin> ekey ` set es" using all by (metis imageE less_irrefl)
    ultimately show ?thesis using all by auto
  next
    case 3
    then have c: "0 < ?c" "?c \<noteq> 0" using cmp_eq [OF k(2), of key] cmp_greater [OF k(2), of key] k(1) by auto
    obtain p where p: "kit_sortedarray_find_key cls a (length es) key = Some (p, rank key \<in> ekey ` set es)"
      "position es (rank key) p" using find_key_member [OF r(1) assms(2), of rest] rest by blast
    show ?thesis
    proof (cases "has_flag cls KIT_SORTEDARRAY_ALLOW_INSERTS")
      case True
      then have "add_position cls sa key = Some (if rank key \<in> ekey ` set es then None else Some p)"
        using a n c p(1) by (simp add: add_position_def)
      then show ?thesis using p(2) True by auto
    next
      case no: False
      then have "add_position cls sa key = Some None" using a n c by (simp add: add_position_def)
      then show ?thesis using 3 last no by auto
    qed
  qed
qed

lemma insert_sorted:
  assumes "sorted_es es" "position es (ekey x) p" "ekey x \<notin> ekey ` set es" "length x = esize" "valid (elem_key cls x)"
  shows "sorted_es (take p es @ x # drop p es)"
proof -
  have "sorted_es (take p es @ drop p es)" using assms(1) by simp
  moreover have "\<forall>e \<in> set (take p es). ekey e < ekey x" using assms(2) by (auto simp: position_def in_set_conv_nth)
  moreover have "\<forall>e \<in> set (drop p es). ekey x < ekey e"
  proof
    fix e assume e: "e \<in> set (drop p es)"
    then have "ekey x \<le> ekey e" using assms(2) by (auto simp: position_def in_set_conv_nth)
    moreover have "ekey x \<noteq> ekey e" using assms(3) in_set_dropD [OF e] by auto
    ultimately show "ekey x < ekey e" by simp
  qed
  ultimately show ?thesis using assms(4,5) unfolding sorted_es_append sorted_es_Cons by auto
qed

lemma write_element:
  assumes "array_repr sa es" "cnt sa < slots sa" "blk sa = Some a" "position es (rank key) p" "esize \<le> length src"
  shows "\<exists>a1 a2 rest. (if p < cnt sa then memmove a ((p + 1) * esize) (p * esize) ((cnt sa - p) * esize) else Some a) = Some a1 \<and>
    memcpy a1 (p * esize) src esize = Some a2 \<and> a2 = concat (take p es @ take esize src # drop p es) @ rest \<and> length a2 = length a"
proof -
  note r = array_reprD [OF assms(1)]
  obtain rest where a: "a = concat es @ rest" using r(7) [OF assms(3)] by blast
  have p: "p \<le> length es" using assms(4) by (simp add: position_def)
  let ?x = "concat (take p es)" and ?y = "concat (drop p es)"
  have es: "concat es @ rest = ?x @ ?y @ rest" by (metis append.assoc append_take_drop_id concat_append)
  have len: "\<forall>e \<in> set es. length e = esize" by (rule sorted_lengths [OF r(1)])
  have lx: "length ?x = p * esize" using length_concat_const [of "take p es" esize] len p by (auto dest: in_set_takeD)
  have ly: "length ?y = (cnt sa - p) * esize" using length_concat_const [of "drop p es" esize] len r(2) by (auto dest: in_set_dropD)
  have "length a = slots sa * esize" using r(6) [OF assms(3)] .
  moreover have "cnt sa * esize + esize \<le> slots sa * esize" using assms(2) by (metis Suc_leI add.commute mult_Suc mult_le_mono1)
  moreover have "length a = cnt sa * esize + length rest" using length_concat_const [OF len] r(2) by (simp add: a)
  ultimately have room: "esize \<le> length rest" by linarith
  show ?thesis
  proof (cases "p < cnt sa")
    case True
    let ?a1 = "?x @ take esize (?y @ rest) @ ?y @ drop esize rest"
    have "memmove a ((p + 1) * esize) (p * esize) ((cnt sa - p) * esize) = Some ?a1"
      using memmove_up [OF room, of ?x ?y] lx ly by (simp add: a es algebra_simps)
    moreover have "memcpy ?a1 (p * esize) src esize = Some (?x @ take esize src @ ?y @ drop esize rest)"
      using memcpy_at [of "take esize (?y @ rest)" esize src ?x] assms(5) room lx by simp
    moreover have "length (?x @ take esize src @ ?y @ drop esize rest) = length a" using assms(5) room by (simp add: a es)
    ultimately show ?thesis using True by auto
  next
    case False
    then have "drop p es = []" using r(2) p by simp
    moreover have "memcpy a (p * esize) src esize = Some (concat es @ take esize src @ drop esize rest)"
      using memcpy_at [of "take esize rest" esize src "concat es" "drop esize rest"] assms(5) room lx False r(2) p by (simp add: a)
    ultimately show ?thesis using False p r(2) assms(5) room by (auto simp: a)
  qed
qed

lemma add_correct:
  assumes "array_repr sa es" "slots sa + max 10 (slots sa div 2) < 2 ^ 32"
    "length x = esize" "valid (elem_key cls x)" "\<not> has_flag cls KIT_SORTEDARRAY_ZERO_COPY"
  shows "\<exists>res sa'. kit_sortedarray_add_elem ok fresh cls sa x = Some (res, sa') \<and>
    (if ekey x \<in> ekey ` set es \<or> (\<exists>e \<in> set es. ekey x < ekey e) \<and> \<not> has_flag cls KIT_SORTEDARRAY_ALLOW_INSERTS \<or>
        add_room ok fresh cls sa = None
     then res = None \<and> sa' = sa
     else res = Some (length (filter (\<lambda>e. ekey e < ekey x) es)) \<and>
       array_repr sa' (filter (\<lambda>e. ekey e < ekey x) es @ x # filter (\<lambda>e. ekey x < ekey e) es))"
proof -
  note r = array_reprD [OF assms(1)]
  have pre: "blk sa \<noteq> None \<or> cnt sa = 0" using r(2,5) by auto
  obtain place where place: "add_position cls sa (elem_key cls x) = Some place"
    and case_place: "case place of
       None \<Rightarrow> ekey x \<in> ekey ` set es \<or> (\<exists>e \<in> set es. ekey x < ekey e) \<and> \<not> has_flag cls KIT_SORTEDARRAY_ALLOW_INSERTS
     | Some pos \<Rightarrow> ekey x \<notin> ekey ` set es \<and> position es (ekey x) pos \<and>
         (has_flag cls KIT_SORTEDARRAY_ALLOW_INSERTS \<or> (\<forall>e \<in> set es. ekey e < ekey x))"
    using add_position_correct [OF assms(1,4)] by blast
  note sim = kit_sortedarray_add_elem_def Let_def elem_key_def [symmetric]
  show ?thesis
  proof (cases place)
    case None
    then have "kit_sortedarray_add_elem ok fresh cls sa x = Some (None, sa)" using pre place by (simp add: sim)
    then show ?thesis using case_place None by auto
  next
    case (Some p)
    then have p: "ekey x \<notin> ekey ` set es" "position es (ekey x) p"
      "has_flag cls KIT_SORTEDARRAY_ALLOW_INSERTS \<or> (\<forall>e \<in> set es. ekey e < ekey x)" using case_place by auto
    then have fine: "\<not> (ekey x \<in> ekey ` set es \<or> (\<exists>e \<in> set es. ekey x < ekey e) \<and> \<not> has_flag cls KIT_SORTEDARRAY_ALLOW_INSERTS)"
      by (auto dest: less_asym)
    show ?thesis
    proof (cases "add_room ok fresh cls sa")
      case None
      then have "kit_sortedarray_add_elem ok fresh cls sa x = Some (None, sa)" using pre place Some by (simp add: sim)
      then show ?thesis using None by auto
    next
      case room: (Some sa1)
      note r1 = add_room_correct [OF assms(1,2) room]
      obtain a where a: "blk sa1 = Some a" using r1(3) by auto
      obtain a1 a2 rest where w: "(if p < cnt sa1 then memmove a ((p + 1) * esize) (p * esize) ((cnt sa1 - p) * esize) else Some a) = Some a1"
        "memcpy a1 (p * esize) x esize = Some a2" "a2 = concat (take p es @ take esize x # drop p es) @ rest" "length a2 = length a"
        using write_element [OF r1(1,2) a p(2), of x] assms(3) by auto
      let ?es = "take p es @ x # drop p es"
      have "kit_sortedarray_add_elem ok fresh cls sa x = Some (Some p, sa1\<lparr>blk := Some a2, cnt := cnt sa1 + 1\<rparr>)"
        using pre place Some room a w(1,2) assms(5) by (simp add: sim)
      moreover have "array_repr (sa1\<lparr>blk := Some a2, cnt := cnt sa1 + 1\<rparr>) ?es"
        using insert_sorted [OF r(1) p(2,1) assms(3,4)] r1 array_reprD [OF r1(1)] a w(3,4) assms(3) p(2)
        by (auto simp: array_repr_def position_def)
      moreover have "take p es = filter (\<lambda>e. ekey e < ekey x) es" "drop p es = filter (\<lambda>e. ekey x < ekey e) es" "p \<le> length es"
      proof -
        have "filter (\<lambda>e. ekey x \<le> ekey e) es = filter (\<lambda>e. ekey x < ekey e) es"
          using p(1) by (intro filter_cong) (auto simp: order.order_iff_strict)
        then show "take p es = filter (\<lambda>e. ekey e < ekey x) es" "drop p es = filter (\<lambda>e. ekey x < ekey e) es" "p \<le> length es"
          using position_filter [OF r(1) p(2)] p(2) by (simp_all add: position_def)
      qed
      moreover from this have "p = length (filter (\<lambda>e. ekey e < ekey x) es)" by (metis length_take min.absorb2)
      ultimately show ?thesis using fine room by auto
    qed
  qed
qed

lemma get_correct:
  assumes "array_repr sa es" "valid key"
  shows "\<exists>r. kit_sortedarray_get_elem cls (blk sa) (cnt sa) key = Some r \<and>
    (case r of None \<Rightarrow> rank key \<notin> ekey ` set es | Some e \<Rightarrow> take esize e \<in> set es \<and> ekey (take esize e) = rank key)"
proof (cases "blk sa")
  case None
  then show ?thesis using array_reprD(2,5) [OF assms(1)] by (simp add: kit_sortedarray_get_elem_def)
next
  case (Some a)
  note r = array_reprD [OF assms(1)]
  obtain rest where a: "a = concat es @ rest" using r(7) [OF Some] by blast
  obtain p where p: "kit_sortedarray_find_key cls a (length es) key = Some (p, rank key \<in> ekey ` set es)" "position es (rank key) p"
    using find_key_member [OF r(1) assms(2), of rest] a by blast
  have "take esize (SORTEDARRAY_ELEM cls a p) = es ! p \<and> es ! p \<in> set es \<and> ekey (es ! p) = rank key" if "rank key \<in> ekey ` set es"
  proof -
    have "p < length es" "ekey (es ! p) = rank key" using member_iff [OF r(1) p(2)] that by auto
    then show ?thesis using element_at [OF r(1), of p rest] sorted_lengths [OF r(1)] by (simp add: a)
  qed
  then show ?thesis using Some p(1) r(2) by (simp add: kit_sortedarray_get_elem_def)
qed

end

section \<open>Intersection\<close>

text \<open>Visiting a list of elements until a visit fails.\<close>

fun visit_all :: "(bytes \<Rightarrow> 'v \<Rightarrow> bool \<times> 'v) \<Rightarrow> bytes list \<Rightarrow> 'v \<Rightarrow> bool \<times> 'v" where
  "visit_all f [] v = (True, v)"
| "visit_all f (e # es) v = (case f e v of (ok, v) \<Rightarrow> if ok then visit_all f es v else (False, v))"

lemma visit_all_append:
  "visit_all f (xs @ ys) v = (case visit_all f xs v of (ok, v) \<Rightarrow> if ok then visit_all f ys v else (False, v))"
  by (induction xs arbitrary: v) (auto split: prod.split)

lemma visit_all_single: "visit_all f [e] v = f e v"
  by (cases "f e v") auto

locale visiting_class = key_class +
  assumes key_first: "keyoffset (elem_class cls) = 0"
    and visit_local: "length e = elem_size (elem_class cls) \<Longrightarrow> visit cls (e @ r) v = visit cls e v"
begin

lemma key_is_elem: "SORTEDARRAY_KEY cls a i = SORTEDARRAY_ELEM cls a i"
  by (simp add: SORTEDARRAY_KEY_def key_first)

lemma visit_at:
  assumes "sorted_es es" "i < length es"
  shows "visit cls (SORTEDARRAY_ELEM cls (concat es @ rest) i) v = visit cls (es ! i) v"
  using visit_local [of "es ! i"] element_at [OF assms] sorted_lengths [OF assms(1)] assms(2) by simp

text \<open>The elements of the left array whose keys are in the right one\<close>

definition common :: "bytes list \<Rightarrow> bytes list \<Rightarrow> bytes list" where
  "common ls rs = filter (\<lambda>e. ekey e \<in> ekey ` set rs) ls"

lemma common_Nil [simp]: "common [] rs = []" "common ls [] = []"
  by (simp_all add: common_def)

text \<open>Splitting both arrays at a key.\<close>

lemma common_split:
  assumes "sorted_es (xs @ e # ys)" "sorted_es rs" "position rs (ekey e) p"
  shows "common (xs @ e # ys) rs =
    common xs (take p rs) @ (if ekey e \<in> ekey ` set rs then [e] else []) @ common ys (drop p rs)"
    and "ekey e \<in> ekey ` set rs \<Longrightarrow> common ys (drop p rs) = common ys (drop (Suc p) rs)"
proof -
  have xs: "\<forall>x \<in> set xs. ekey x < ekey e" and ys: "\<forall>y \<in> set ys. ekey e < ekey y"
    using assms(1) by (auto simp: sorted_es_append sorted_es_Cons)
  have tk: "set (take p rs) = {r \<in> set rs. ekey r < ekey e}" and dr: "set (drop p rs) = {r \<in> set rs. ekey e \<le> ekey r}"
    using position_filter [OF assms(2,3)] by auto
  have "common xs rs = common xs (take p rs)"
    unfolding common_def using xs tk by (intro filter_cong) (fastforce simp: image_iff)+
  moreover have "common ys rs = common ys (drop p rs)"
    unfolding common_def using ys dr by (intro filter_cong) (fastforce simp: image_iff intro: less_imp_le)+
  ultimately show "common (xs @ e # ys) rs =
      common xs (take p rs) @ (if ekey e \<in> ekey ` set rs then [e] else []) @ common ys (drop p rs)"
    by (simp add: common_def)
  assume "ekey e \<in> ekey ` set rs"
  then have "p < length rs" "ekey (rs ! p) = ekey e" using member_iff [OF assms(2,3)] by auto
  then have "drop p rs = rs ! p # drop (Suc p) rs" by (simp add: Cons_nth_drop_Suc)
  then show "common ys (drop p rs) = common ys (drop (Suc p) rs)"
    unfolding common_def using ys \<open>ekey (rs ! p) = ekey e\<close> by (intro filter_cong) auto
qed

lemma find_in:
  assumes "sorted_es rs" "sorted_es ls" "i < length ls" "length rs < NO_POS"
  obtains p where "kit_sortedarray_find_key cls (concat rs @ r2) (length rs) (SORTEDARRAY_KEY cls (concat ls @ r1) i) =
      Some (p, ekey (ls ! i) \<in> ekey ` set rs)" "position rs (ekey (ls ! i)) p" "p \<noteq> NO_POS"
proof -
  note k = key_at [OF assms(2,3), of r1]
  obtain p where p: "kit_sortedarray_find_key cls (concat rs @ r2) (length rs) (SORTEDARRAY_KEY cls (concat ls @ r1) i) =
      Some (p, ekey (ls ! i) \<in> ekey ` set rs)" "position rs (ekey (ls ! i)) p"
    using find_key_member [OF assms(1) k(2), of r2] unfolding k(1) by blast
  moreover have "p \<noteq> NO_POS" using p(2) assms(4) by (auto simp: position_def)
  ultimately show ?thesis using that by blast
qed

lemma drop_elems:
  assumes "sorted_es es" "i \<le> length es"
  shows "SORTEDARRAY_ELEM cls (concat es @ rest) i = concat (drop i es) @ rest"
  unfolding SORTEDARRAY_ELEM_def by (rule concat_take_drop(2) [OF sorted_lengths [OF assms(1)] assms(2)])

lemma sorted_es_take_drop: "sorted_es es \<Longrightarrow> sorted_es (take i es) \<and> sorted_es (drop i es)"
  using sorted_es_append [of "take i es" "drop i es"] by simp

lemma intersect_correct:
  assumes "sorted_es ls" "sorted_es rs" "length rs < NO_POS"
  shows "kit_sortedarray_intersect cls (concat ls @ r1) (length ls) (concat rs @ r2) (length rs) v =
    Some (visit_all (visit cls) (common ls rs) v)"
  using assms
proof (induction "length ls" arbitrary: ls rs r1 r2 v rule: less_induct)
  case less
  let ?f = "visit cls" and ?m = "length ls div 2"
  note ls = less.prems(1) and rs = less.prems(2)
  consider "ls = [] \<or> rs = []" | (one) e where "ls = [e]" "rs \<noteq> []" | (more) "1 < length ls" "rs \<noteq> []"
    by (cases ls rule: list.exhaust; cases "tl ls") auto
  then show ?case
  proof cases
    case 1
    then show ?thesis by (subst kit_sortedarray_intersect.simps) auto
  next
    case one
    obtain p where p: "kit_sortedarray_find_key cls (concat rs @ r2) (length rs) (SORTEDARRAY_KEY cls (concat ls @ r1) 0) =
        Some (p, ekey (ls ! 0) \<in> ekey ` set rs)" "p \<noteq> NO_POS"
      using find_in [OF rs ls _ less.prems(3), of 0 r2 r1] one by auto
    have "SORTEDARRAY_KEY cls (concat ls @ r1) 0 = concat ls @ r1" by (simp add: key_is_elem SORTEDARRAY_ELEM_def)
    moreover have "visit cls (concat ls @ r1) v = visit cls e v" for v
      using visit_local [of e] sorted_lengths [OF ls] one by simp
    ultimately show ?thesis using p one
      by (subst kit_sortedarray_intersect.simps) (simp add: key_first common_def visit_all_single split: prod.split)
  next
    case more
    define xs e ys where parts: "xs = take ?m ls" "e = ls ! ?m" "ys = drop (Suc ?m) ls"
    have m: "?m < length ls" using more by linarith
    then have split: "ls = xs @ e # ys" "length xs = ?m" "length ys = length ls - (?m + 1)"
      by (simp_all add: parts id_take_nth_drop [symmetric])
    obtain p where p: "kit_sortedarray_find_key cls (concat rs @ r2) (length rs) (SORTEDARRAY_KEY cls (concat ls @ r1) ?m) =
        Some (p, ekey e \<in> ekey ` set rs)" "position rs (ekey e) p" "p \<noteq> NO_POS"
      using find_in [OF rs ls m less.prems(3), of r2 r1] unfolding parts(2) by blast
    have pl: "p \<le> length rs" using p(2) by (simp add: position_def)
    note sets = common_split [OF _ rs p(2), of xs ys, folded split(1), OF ls]
    have sxs: "sorted_es xs" "sorted_es ys" using ls unfolding split(1) by (auto simp: sorted_es_append sorted_es_Cons)
    have first: "(if 0 < p then kit_sortedarray_intersect cls (concat ls @ r1) ?m (concat rs @ r2) p v else Some (True, v)) =
        Some (visit_all ?f (common xs (take p rs)) v)"
    proof (cases "0 < p")
      case True
      let ?l = "e @ concat ys @ r1" and ?r = "concat (drop p rs) @ r2"
      have "concat (take p rs) @ ?r = concat rs @ r2" by (metis append.assoc append_take_drop_id concat_append)
      moreover have "concat xs @ ?l = concat ls @ r1" by (simp add: split(1))
      moreover have "length (take p rs) = p" using pl by simp
      moreover have "kit_sortedarray_intersect cls (concat xs @ ?l) (length xs) (concat (take p rs) @ ?r) (length (take p rs)) v =
          Some (visit_all ?f (common xs (take p rs)) v)"
        using split(2) m sxs(1) sorted_es_take_drop [OF rs, of p] pl less.prems(3) by (intro less.hyps) auto
      ultimately show ?thesis using True split(2) by (simp only: if_True)
    qed simp
    have second: "kit_sortedarray_intersect cls (SORTEDARRAY_KEY cls (concat ls @ r1) (?m + 1)) (length ls - (?m + 1))
        (SORTEDARRAY_KEY cls (concat rs @ r2) i) (length rs - i) w = Some (visit_all ?f (common ys (drop i rs)) w)"
      if "i \<le> length rs" for i w
    proof -
      have "kit_sortedarray_intersect cls (concat ys @ r1) (length ys) (concat (drop i rs) @ r2) (length (drop i rs)) w =
          Some (visit_all ?f (common ys (drop i rs)) w)"
        using split(3) m sxs(2) sorted_es_take_drop [OF rs, of i] less.prems(3) by (intro less.hyps) auto
      moreover have "SORTEDARRAY_KEY cls (concat ls @ r1) (?m + 1) = concat ys @ r1"
        using drop_elems [OF ls, of "?m + 1" r1] m by (simp add: key_is_elem parts(3))
      ultimately show ?thesis using drop_elems [OF rs that, of r2] split(3) by (simp add: key_is_elem)
    qed
    have at_m: "visit cls (SORTEDARRAY_ELEM cls (concat ls @ r1) ?m) w = ?f e w" for w
      using visit_at [OF ls m] by (simp add: parts(2))
    have single: "do { (idx2, match) \<leftarrow> kit_sortedarray_find_key cls (SORTEDARRAY_ELEM cls (concat rs @ r2) i) (length rs - i)
                         (SORTEDARRAY_KEY cls (concat ls @ r1) (?m + 1));
            if idx2 = NO_POS \<and> has_flag cls KIT_SORTEDARRAY_CMP_CAN_FAIL then Some (False, w)
            else if match then Some (visit cls (SORTEDARRAY_ELEM cls (concat ls @ r1) (?m + 1)) w) else Some (True, w) } =
        Some (visit_all ?f (common ys (drop i rs)) w)" if "i \<le> length rs" "?m + 1 = length ls - 1" for i w
    proof -
      have at: "?m + 1 < length ls" "ys = [ls ! (?m + 1)]" using that(2) more split(3)
        by (auto simp: parts(3) Cons_nth_drop_Suc [symmetric])
      have "sorted_es (drop i rs)" "length (drop i rs) < NO_POS" using sorted_es_take_drop [OF rs] less.prems(3) by auto
      then obtain q where "kit_sortedarray_find_key cls (concat (drop i rs) @ r2) (length (drop i rs))
          (SORTEDARRAY_KEY cls (concat ls @ r1) (?m + 1)) = Some (q, ekey (ls ! (?m + 1)) \<in> ekey ` set (drop i rs))" "q \<noteq> NO_POS"
        using find_in [OF _ ls at(1), of "drop i rs" r2 r1] by blast
      then show ?thesis using drop_elems [OF rs that(1), of r2] visit_at [OF ls at(1), of r1 w]
        unfolding at(2) common_def by (simp add: visit_all_single split: prod.split)
    qed
    have empty: "common ys (drop i rs) = []" if "\<not> i < length rs" for i using that by simp
    obtain ok v1 where v1: "visit_all ?f (common xs (take p rs)) v = (ok, v1)" by fastforce
    obtain ok2 v2 where v2: "?f e v1 = (ok2, v2)" by fastforce
    have not1: "length ls \<noteq> 0" "length rs \<noteq> 0" "length ls \<noteq> 1" using more by auto
    note unfolded = kit_sortedarray_intersect.simps [of cls "concat ls @ r1" "length ls" "concat rs @ r2" "length rs" v]
    note go = first v1 p(1,3) not1 sets(1)
    consider "\<not> ok" | "ok" "ekey e \<notin> ekey ` set rs" "p < length rs" | "ok" "ekey e \<notin> ekey ` set rs" "\<not> p < length rs"
      | "ok" "ekey e \<in> ekey ` set rs" "\<not> ok2" | "ok" "ekey e \<in> ekey ` set rs" "ok2" "p + 1 < length rs"
      | "ok" "ekey e \<in> ekey ` set rs" "ok2" "\<not> p + 1 < length rs" by blast
    then show ?thesis
    proof cases
      case 1
      then show ?thesis unfolding unfolded using go by (simp add: Let_def visit_all_append)
    next
      case 2
      then show ?thesis unfolding unfolded using go second [of p v1] pl by (simp add: Let_def visit_all_append)
    next
      case 3
      then have "p = length rs" using pl by simp
      then show ?thesis unfolding unfolded using go 3(1,2) empty [of p] more(2) by (simp add: Let_def visit_all_append)
    next
      case 4
      then show ?thesis unfolding unfolded using go at_m v2 by (simp add: Let_def visit_all_append)
    next
      case 5
      then show ?thesis unfolding unfolded
        using go at_m v2 sets(2) second [of "p + 1" v2] single [of "p + 1" v2] by (simp add: Let_def visit_all_append)
    next
      case 6
      then show ?thesis unfolding unfolded using go at_m v2 sets(2) empty [of "p + 1"] by (simp add: Let_def visit_all_append)
    qed
  qed
qed

end

section \<open>Arrays of unsigned integers\<close>

text \<open>
  The comparator of the unsigned integers that the library's own test arrays use. It reports a failure
  when its left argument is \<^verbatim>\<open>~0U\<close>.
\<close>

definition load_u32 :: "bytes \<Rightarrow> u32" where
  "load_u32 x = ucast (c_at x 0) OR push_bit 8 (ucast (c_at x 1)) OR push_bit 16 (ucast (c_at x 2)) OR push_bit 24 (ucast (c_at x 3))"

definition unsigned_cmp :: "bytes \<Rightarrow> bytes \<Rightarrow> int" where
  "unsigned_cmp lhs rhs =
     (if load_u32 lhs = - 1 then INT_MAX
      else if load_u32 lhs = load_u32 rhs then 0 else if load_u32 lhs < load_u32 rhs then - 1 else 1)"

definition unsigned_class :: "(bytes \<Rightarrow> 'v \<Rightarrow> bool \<times> 'v) \<Rightarrow> u32 \<Rightarrow> 'v kit_sortedarray_class" where
  "unsigned_class vis flags =
     \<lparr>elem_class = \<lparr>elem_size = 4, keyoffset = 0, cmp = unsigned_cmp, has_fmt = True\<rparr>, visit = vis, class_flags = flags\<rparr>"

definition not_magic :: "bytes \<Rightarrow> bool" where
  "not_magic x \<longleftrightarrow> load_u32 x \<noteq> - 1"

definition collect_elem :: "bytes \<Rightarrow> bytes list \<Rightarrow> bool \<times> bytes list" where
  "collect_elem e v = (True, v @ [take 4 e])"

lemma load_u32_local: "4 \<le> length x \<Longrightarrow> load_u32 (x @ y) = load_u32 x"
proof -
  assume "4 \<le> length x"
  then have "c_at (x @ y) i = c_at x i" if "i < 4" for i using that by (simp add: c_at_def nth_append)
  then show ?thesis by (simp add: load_u32_def del: c_at_append)
qed

interpretation unsigned: key_class "unsigned_class vis flags" load_u32 not_magic 4 for vis flags
proof
  show "cmp (elem_class (unsigned_class vis flags)) x y \<noteq> INT_MAX" if "not_magic x" for x y
    using that by (simp add: unsigned_class_def unsigned_cmp_def not_magic_def INT_MAX_def)
qed (auto simp: unsigned_class_def unsigned_cmp_def not_magic_def load_u32_local)

interpretation unsigned_collect: visiting_class "unsigned_class collect_elem flags" load_u32 not_magic 4 for flags
  by unfold_locales (simp_all add: unsigned_class_def collect_elem_def)

section \<open>Properties\<close>

text \<open>C31: the binary search of a sorted array ends at the position where the key belongs: all elements before
  it have smaller keys, none from it on has; and it reports a match exactly when the array has the key.\<close>

theorem sortedarray_find_correct:
  assumes "key_class cls rank valid key_size" "sorted_elems cls rank valid es" "valid key"
  shows "\<exists>p. kit_sortedarray_find_key cls (concat es @ rest) (length es) key =
      Some (p, rank key \<in> (\<lambda>e. rank (elem_key cls e)) ` set es) \<and> p \<le> length es \<and>
    take p es = filter (\<lambda>e. rank (elem_key cls e) < rank key) es \<and>
    drop p es = filter (\<lambda>e. rank key \<le> rank (elem_key cls e)) es"
proof -
  note position = key_class.position_def [OF assms(1)]
  obtain p where "kit_sortedarray_find_key cls (concat es @ rest) (length es) key =
      Some (p, rank key \<in> (\<lambda>e. rank (elem_key cls e)) ` set es)" "key_class.position cls rank es (rank key) p"
    using key_class.find_key_member [OF assms, of rest] by blast
  then show ?thesis using key_class.position_filter [OF assms(1,2)] by (auto simp: position)
qed

definition u32_elem :: "u8 \<Rightarrow> bytes" where
  "u32_elem b = [b, 0, 0, 0]"

lemma u32_elems_sorted: "sorted_elems (unsigned_class vis flags) load_u32 not_magic (map u32_elem [1, 3, 5])"
  by (simp add: sorted_elems_def elem_key_def unsigned_class_def u32_elem_def not_magic_def load_u32_def c_at_def)

theorem sortedarray_find_correct_witness:
  "\<exists>p. kit_sortedarray_find_key (unsigned_class collect_elem 0) (concat (map u32_elem [1, 3, 5]) @ []) (length (map u32_elem [1, 3, 5]))
        (u32_elem 3) =
      Some (p, load_u32 (u32_elem 3) \<in> (\<lambda>e. load_u32 (elem_key (unsigned_class collect_elem 0) e)) ` set (map u32_elem [1, 3, 5])) \<and>
    p \<le> length (map u32_elem [1, 3, 5]) \<and>
    take p (map u32_elem [1, 3, 5]) =
      filter (\<lambda>e. load_u32 (elem_key (unsigned_class collect_elem 0) e) < load_u32 (u32_elem 3)) (map u32_elem [1, 3, 5]) \<and>
    drop p (map u32_elem [1, 3, 5]) =
      filter (\<lambda>e. load_u32 (u32_elem 3) \<le> load_u32 (elem_key (unsigned_class collect_elem 0) e)) (map u32_elem [1, 3, 5])"
  by (rule sortedarray_find_correct [OF unsigned.key_class_axioms u32_elems_sorted])
    (simp add: not_magic_def load_u32_def u32_elem_def c_at_def)

text \<open>C32: adding an element keeps the array sorted, and the elements are then the old ones and the new one in
  its place, moved within the block or copied to a larger one. A duplicate, an insertion before the end
  that the flags forbid, or a lack of room leaves the array as it was and gives the null pointer.\<close>

theorem sortedarray_add_correct:
  assumes "key_class cls rank valid key_size" "key_class.array_repr cls rank valid sa es"
    "slots sa + max 10 (slots sa div 2) < 2 ^ 32" "length x = elem_size (elem_class cls)" "valid (elem_key cls x)"
    "\<not> has_flag cls KIT_SORTEDARRAY_ZERO_COPY"
  shows "\<exists>res sa'. kit_sortedarray_add_elem ok fresh cls sa x = Some (res, sa') \<and>
    (let k = (\<lambda>e. rank (elem_key cls e)) in
     if k x \<in> k ` set es \<or> (\<exists>e \<in> set es. k x < k e) \<and> \<not> has_flag cls KIT_SORTEDARRAY_ALLOW_INSERTS \<or>
        add_room ok fresh cls sa = None
     then res = None \<and> sa' = sa
     else res = Some (length (filter (\<lambda>e. k e < k x) es)) \<and>
       key_class.array_repr cls rank valid sa' (filter (\<lambda>e. k e < k x) es @ x # filter (\<lambda>e. k x < k e) es))"
  unfolding Let_def by (rule key_class.add_correct [OF assms])

theorem sortedarray_add_correct_witness:
  "\<exists>res sa'. kit_sortedarray_add_elem (\<lambda>_. True) (\<lambda>_. 0) (unsigned_class collect_elem 3) \<lparr>blk = None, cnt = 0, slots = 0\<rparr> (u32_elem 7) =
     Some (res, sa') \<and> res = Some 0"
proof -
  have "key_class.array_repr (unsigned_class collect_elem 3) load_u32 not_magic \<lparr>blk = None, cnt = 0, slots = 0\<rparr> []"
    by (simp add: unsigned.array_repr_def)
  from sortedarray_add_correct [OF unsigned.key_class_axioms this, of "u32_elem 7" "\<lambda>_. True" "\<lambda>_. 0"]
  show ?thesis
    by (simp add: unsigned_class_def u32_elem_def elem_key_def not_magic_def load_u32_def c_at_def has_flag_def
        KIT_SORTEDARRAY_ZERO_COPY_def KIT_SORTEDARRAY_ALLOW_GROWTH_def add_room_def kit_realloc_def Let_def) blast
qed

text \<open>C33: deleting a key removes exactly the element that has it, if there is one, and says so; the rest keeps
  its order and the block its length.\<close>

theorem sortedarray_delete_correct:
  assumes "key_class cls rank valid key_size" "sorted_elems cls rank valid es" "valid key"
  shows "\<exists>rest'. kit_sortedarray_delete_elem cls (Some (concat es @ rest)) (length es) key =
      Some (rank key \<in> (\<lambda>e. rank (elem_key cls e)) ` set es,
            Some (concat (filter (\<lambda>e. rank (elem_key cls e) \<noteq> rank key) es) @ rest'),
            length (filter (\<lambda>e. rank (elem_key cls e) \<noteq> rank key) es)) \<and>
    length (concat (filter (\<lambda>e. rank (elem_key cls e) \<noteq> rank key) es) @ rest') = length (concat es @ rest)"
  by (rule key_class.delete_correct [OF assms])

theorem sortedarray_delete_correct_witness:
  "\<exists>rest'. kit_sortedarray_delete_elem (unsigned_class collect_elem 0) (Some (concat (map u32_elem [1, 3, 5]) @ []))
      (length (map u32_elem [1, 3, 5])) (u32_elem 3) =
      Some (True, Some (concat (map u32_elem [1, 5]) @ rest'), length (map u32_elem [1, 5]))"
  using sortedarray_delete_correct [OF unsigned.key_class_axioms u32_elems_sorted, of "u32_elem 3" collect_elem 0 "[]"]
  by (simp add: unsigned_class_def elem_key_def not_magic_def load_u32_def u32_elem_def c_at_def) blast

text \<open>C34: intersecting two sorted arrays whose keys are at the start of their elements visits, in order, exactly
  the elements of the left array whose keys are in the right one, until a visit fails.\<close>

theorem sortedarray_intersect_correct:
  assumes "visiting_class cls rank valid key_size" "sorted_elems cls rank valid ls" "sorted_elems cls rank valid rs"
    "length rs < NO_POS"
  shows "kit_sortedarray_intersect cls (concat ls @ r1) (length ls) (concat rs @ r2) (length rs) v =
    Some (visit_all (visit cls) (filter (\<lambda>e. rank (elem_key cls e) \<in> (\<lambda>e. rank (elem_key cls e)) ` set rs) ls) v)"
  using visiting_class.intersect_correct [OF assms] by (simp add: visiting_class.common_def [OF assms(1)])

theorem sortedarray_intersect_correct_witness:
  "kit_sortedarray_intersect (unsigned_class collect_elem 0) (concat (map u32_elem [1, 3, 5]) @ []) 3
     (concat (map u32_elem [1, 3, 5]) @ []) 3 [] = Some (True, map u32_elem [1, 3, 5])"
  using sortedarray_intersect_correct [OF unsigned_collect.visiting_class_axioms u32_elems_sorted u32_elems_sorted, of 0 "[]" "[]" "[]"]
  by (simp add: NO_POS_def unsigned_class_def elem_key_def u32_elem_def collect_elem_def numeral_3_eq_3)

definition second_byte_class :: "bytes list kit_sortedarray_class" where
  "second_byte_class =
     \<lparr>elem_class = \<lparr>elem_size = 2, keyoffset = 1,
        cmp = (\<lambda>x y. if c_at x 0 = c_at y 0 then 0 else if c_at x 0 < c_at y 0 then - 1 else 1), has_fmt = False\<rparr>,
      visit = (\<lambda>e v. (True, v @ [take 2 e])), class_flags = 0\<rparr>"

text \<open>An example: where the key is not at the start of the element, the intersection goes wrong: the recursion into the
  second half of an array starts at a key instead of an element. Here two arrays of two byte elements, keyed
  by the second byte, have no key in common, and yet an element is visited, at an odd address.\<close>

lemma sortedarray_intersect_keyoffset:
  "kit_sortedarray_intersect second_byte_class [9, 1, 9, 2, 9, 3, 7] 3 [9, 4, 7] 1 [] = Some (True, [[3, 7]])"
  by (simp add: kit_sortedarray_intersect.simps kit_sortedarray_find_key_def find_loop.simps second_byte_class_def
      SORTEDARRAY_KEY_def SORTEDARRAY_ELEM_def c_at_def has_flag_def NO_POS_def INT_MAX_def KIT_SORTEDARRAY_CMP_CAN_FAIL_def)

text \<open>An example: an insertion whose comparison fails. The position \<^verbatim>\<open>~0U\<close> that the search returns is used to write the
  element, which is no address of the block.\<close>

lemma sortedarray_add_failed_comparison:
  "kit_sortedarray_add_elem ok fresh (unsigned_class collect_elem (KIT_SORTEDARRAY_ALLOW_INSERTS OR KIT_SORTEDARRAY_CMP_CAN_FAIL))
     \<lparr>blk = Some [255, 255, 255, 255, 0, 0, 0, 0], cnt = 1, slots = 2\<rparr> [255, 255, 255, 255] = None"
proof -
  have ff: "load_u32 (255 # 255 # 255 # 255 # x) = - 1" for x by (simp add: load_u32_def c_at_def)
  show ?thesis
    by (simp add: kit_sortedarray_add_elem_def add_position_def add_room_def unsigned_class_def unsigned_cmp_def
        kit_sortedarray_find_key_def find_loop.simps SORTEDARRAY_KEY_def SORTEDARRAY_ELEM_def has_flag_def NO_POS_def INT_MAX_def
        KIT_SORTEDARRAY_CMP_CAN_FAIL_def KIT_SORTEDARRAY_ALLOW_INSERTS_def KIT_SORTEDARRAY_ZERO_COPY_def memcpy_def ff)
qed

end
