(* ===== verification/Sxe_Jitson_Source.thy ===== *)
theory Sxe_Jitson_Source
  imports Kit_Prelude
begin

text \<open>
  Model of \<^verbatim>\<open>lib-sxe-jitson/sxe-jitson-source.c\<close> and the inline source functions of \<^verbatim>\<open>sxe-jitson.h\<close>: the
  characters the JSON parser reads. A source is the text, the position of the next character and the
  position of the end; the end of a null terminated text is \<open>None\<close> (the code's maximum pointer), and the byte
  after such a text is its terminator. A returned pointer into the text is its position. Setting
  \<^verbatim>\<open>errno\<close> is not represented.
\<close>

section \<open>Characters\<close>

text \<open>The character classes of \<^verbatim>\<open>ctype.h\<close> in the C locale\<close>

definition isspace :: "u8 \<Rightarrow> bool" where
  "isspace c \<longleftrightarrow> c = 32 \<or> 9 \<le> c \<and> c \<le> 13"

definition isdigit :: "u8 \<Rightarrow> bool" where
  "isdigit c \<longleftrightarrow> 48 \<le> c \<and> c \<le> 57"

definition isxdigit :: "u8 \<Rightarrow> bool" where
  "isxdigit c \<longleftrightarrow> isdigit c \<or> 65 \<le> c \<and> c \<le> 70 \<or> 97 \<le> c \<and> c \<le> 102"

definition identifier_chars :: "u64 list" where
  "identifier_chars = [0x03FF400000000000, 0x07FFFFFE87FFFFFE, 0, 0]"

definition is_identifier_char :: "u8 \<Rightarrow> bool" where
  "is_identifier_char c \<longleftrightarrow> identifier_chars ! unat (drop_bit 6 c) AND push_bit (unat (c AND 0x3f)) 1 \<noteq> 0"

lemma zero_is_no_char [simp]: "\<not> isspace 0" "\<not> isdigit 0" "\<not> isxdigit 0" "\<not> is_identifier_char 0"
  by (simp_all add: isspace_def isdigit_def isxdigit_def is_identifier_char_def identifier_chars_def)

lemma c_at_in: "c_at s i \<noteq> 0 \<Longrightarrow> i < length s"
  by (simp add: c_at_def split: if_splits)

lemma isspace_in: "isspace (c_at s i) \<Longrightarrow> i < length s"
  by (rule c_at_in) auto

lemma isdigit_in: "isdigit (c_at s i) \<Longrightarrow> i < length s"
  by (rule c_at_in) auto

section \<open>Sources\<close>

definition SXE_JITSON_FLAG_STRICT :: u32 where "SXE_JITSON_FLAG_STRICT = 0"
definition SXE_JITSON_FLAG_ALLOW_HEX :: u32 where "SXE_JITSON_FLAG_ALLOW_HEX = 0x00000001"
definition SXE_JITSON_FLAG_ALLOW_CONSTS :: u32 where "SXE_JITSON_FLAG_ALLOW_CONSTS = 0x00000002"
definition SXE_JITSON_FLAG_ALLOW_IDENTS :: u32 where "SXE_JITSON_FLAG_ALLOW_IDENTS = 0x00000004"
definition SXE_JITSON_FLAG_OPTIMIZE :: u32 where "SXE_JITSON_FLAG_OPTIMIZE = 0x00000008"

record sxe_jitson_source =
  json :: bytes
  s_next :: nat
  s_end :: "nat option"
  s_file :: "string option"
  s_line :: u32
  s_flags :: u32

definition sxe_jitson_source_from_buffer :: "bytes \<Rightarrow> nat \<Rightarrow> u32 \<Rightarrow> sxe_jitson_source" where
  "sxe_jitson_source_from_buffer str ln flags =
     \<lparr>json = str, s_next = 0, s_end = Some ln, s_file = None, s_line = 0, s_flags = flags\<rparr>"

definition sxe_jitson_source_from_string :: "bytes \<Rightarrow> u32 \<Rightarrow> sxe_jitson_source" where
  "sxe_jitson_source_from_string str flags =
     \<lparr>json = str, s_next = 0, s_end = None, s_file = None, s_line = 0, s_flags = flags\<rparr>"

definition sxe_jitson_source_set_file_line :: "string option \<Rightarrow> u32 \<Rightarrow> sxe_jitson_source \<Rightarrow> sxe_jitson_source" where
  "sxe_jitson_source_set_file_line fl ln source = source\<lparr>s_file := fl, s_line := ln\<rparr>"

definition at_end :: "sxe_jitson_source \<Rightarrow> bool" where
  "at_end source \<longleftrightarrow> (case s_end source of None \<Rightarrow> False | Some e \<Rightarrow> e \<le> s_next source)"

definition here :: "sxe_jitson_source \<Rightarrow> u8" where
  "here source = c_at (json source) (s_next source)"

definition sxe_jitson_source_consume :: "nat \<Rightarrow> sxe_jitson_source \<Rightarrow> sxe_jitson_source" where
  "sxe_jitson_source_consume sz source =
     source\<lparr>s_line := (if s_line source \<noteq> 0 \<and> here source = 10 then s_line source + 1 else s_line source),
            s_next := s_next source + sz\<rparr>"

definition sxe_jitson_source_get_flags :: "sxe_jitson_source \<Rightarrow> u32" where
  "sxe_jitson_source_get_flags source = s_flags source"

definition sxe_jitson_source_get_consumed :: "sxe_jitson_source \<Rightarrow> nat" where
  "sxe_jitson_source_get_consumed source = s_next source"

definition sxe_jitson_source_is_exhausted :: "sxe_jitson_source \<Rightarrow> bool" where
  "sxe_jitson_source_is_exhausted source \<longleftrightarrow> here source = 0 \<or> at_end source"

definition sxe_jitson_source_peek_char :: "sxe_jitson_source \<Rightarrow> u8" where
  "sxe_jitson_source_peek_char source = (if at_end source then 0 else here source)"

definition sxe_jitson_source_get_char :: "sxe_jitson_source \<Rightarrow> u8 \<times> sxe_jitson_source" where
  "sxe_jitson_source_get_char source =
     (if at_end source \<or> s_end source = None \<and> here source = 0 then (0, source)
      else (here source, sxe_jitson_source_consume 1 source))"

lemma sel_consume [simp]:
  "json (sxe_jitson_source_consume n src) = json src" "s_next (sxe_jitson_source_consume n src) = s_next src + n"
  "s_end (sxe_jitson_source_consume n src) = s_end src" "s_flags (sxe_jitson_source_consume n src) = s_flags src"
  by (simp_all add: sxe_jitson_source_consume_def)

text \<open>The loops over white space and over the characters of a token. Each step moves the position towards
  the end of the text.\<close>

function sxe_jitson_source_peek_nonspace :: "sxe_jitson_source \<Rightarrow> u8 \<times> sxe_jitson_source" where
  "sxe_jitson_source_peek_nonspace source =
     (if \<not> at_end source \<and> isspace (here source) then sxe_jitson_source_peek_nonspace (sxe_jitson_source_consume 1 source)
      else (sxe_jitson_source_peek_char source, source))"
  by pat_completeness auto
termination
  by (relation "measure (\<lambda>source. length (json source) - s_next source)") (auto simp: here_def dest: isspace_in)

function sxe_jitson_source_get_nonspace :: "sxe_jitson_source \<Rightarrow> u8 \<times> sxe_jitson_source" where
  "sxe_jitson_source_get_nonspace source =
     (if isspace (fst (sxe_jitson_source_get_char source)) then sxe_jitson_source_get_nonspace (snd (sxe_jitson_source_get_char source))
      else sxe_jitson_source_get_char source)"
  by pat_completeness auto
termination
  by (relation "measure (\<lambda>source. length (json source) - s_next source)")
    (auto simp: sxe_jitson_source_get_char_def here_def dest: isspace_in split: if_splits)

declare sxe_jitson_source_peek_nonspace.simps [simp del] sxe_jitson_source_get_nonspace.simps [simp del]

text \<open>The position after the characters of a class, from the current one on\<close>

function skip_class :: "(u8 \<Rightarrow> bool) \<Rightarrow> sxe_jitson_source \<Rightarrow> sxe_jitson_source" where
  "skip_class cls source =
     (if cls (sxe_jitson_source_peek_char source) \<and> s_next source < length (json source)
      then skip_class cls (source\<lparr>s_next := s_next source + 1\<rparr>) else source)"
  by pat_completeness auto
termination
  by (relation "measure (\<lambda>(cls, source). length (json source) - s_next source)") auto

declare skip_class.simps [simp del]

text \<open>The identifier or token at the position is given by its position and length, and \<open>None\<close> is the null pointer.\<close>

definition sxe_jitson_source_peek_identifier :: "sxe_jitson_source \<Rightarrow> nat option \<times> nat" where
  "sxe_jitson_source_peek_identifier source =
     (let n = s_next (skip_class is_identifier_char source) - s_next source
      in (if n \<noteq> 0 then Some (s_next source) else None, n))"

definition sxe_jitson_source_peek_token :: "sxe_jitson_source \<Rightarrow> (nat \<times> nat) option \<times> sxe_jitson_source" where
  "sxe_jitson_source_peek_token source =
     (case sxe_jitson_source_peek_nonspace source of (c, source) \<Rightarrow>
        if c = 0 then (None, source)
        else let after = skip_class (\<lambda>c. c \<noteq> 0 \<and> \<not> isspace c) (source\<lparr>s_next := s_next source + 1\<rparr>)
             in (Some (s_next source, 1 + (s_next after - (s_next source + 1))), source))"

definition sxe_jitson_source_get_identifier :: "sxe_jitson_source \<Rightarrow> (nat option \<times> nat) \<times> sxe_jitson_source" where
  "sxe_jitson_source_get_identifier source =
     (case sxe_jitson_source_peek_identifier source of (ident, n) \<Rightarrow> ((ident, n), sxe_jitson_source_consume n source))"

section \<open>Numbers and literals\<close>

definition advance :: "sxe_jitson_source \<Rightarrow> sxe_jitson_source" where
  "advance source = source\<lparr>s_next := s_next source + 1\<rparr>"

text \<open>The parts of a number. Each returns the source after it, or \<open>None\<close> for the jump to \<^verbatim>\<open>INVALID\<close>.\<close>

definition scan_fraction :: "sxe_jitson_source \<Rightarrow> (bool \<times> sxe_jitson_source) option" where
  "scan_fraction source =
     (if sxe_jitson_source_peek_char source = 46
      then let source = advance source
           in if isdigit (sxe_jitson_source_peek_char source) then Some (True, skip_class isdigit source) else None
      else Some (False, source))"

definition scan_exponent :: "sxe_jitson_source \<Rightarrow> (bool \<times> sxe_jitson_source) option" where
  "scan_exponent source =
     (if sxe_jitson_source_peek_char source = 69 \<or> sxe_jitson_source_peek_char source = 101
      then let source = advance source;
               source = (if sxe_jitson_source_peek_char source = 45 \<or> sxe_jitson_source_peek_char source = 43
                         then advance source else source)
           in if isdigit (sxe_jitson_source_peek_char source) then Some (True, skip_class isdigit source) else None
      else Some (False, source))"

text \<open>The result is the position, the length and whether it is an unsigned integer. On the invalid paths the
  position has moved as far as the scan had come, but the parser then gives up.\<close>

definition sxe_jitson_source_get_number :: "sxe_jitson_source \<Rightarrow> ((nat \<times> nat \<times> bool) \<times> sxe_jitson_source) option" where
  "sxe_jitson_source_get_number source =
     (let number = s_next source;
          minus = sxe_jitson_source_peek_char source = 45;
          source = (if minus then advance source else source)
      in if \<not> isdigit (sxe_jitson_source_peek_char source) then None
         else let source = advance source
              in if s_flags source AND SXE_JITSON_FLAG_ALLOW_HEX \<noteq> 0 \<and> c_at (json source) number = 48 \<and>
                    sxe_jitson_source_peek_char source = 120
                 then let source = skip_class isxdigit (advance source)
                      in if s_next source - number \<le> 2 then None
                         else Some ((number, s_next source - number, \<not> minus), source)
                 else do { let source = skip_class isdigit source;
                           (fraction, source) \<leftarrow> scan_fraction source;
                           (exponent, source) \<leftarrow> scan_exponent source;
                           Some ((number, s_next source - number, \<not> minus \<and> \<not> fraction \<and> \<not> exponent), source) })"

function literal_loop :: "sxe_jitson_source \<Rightarrow> sxe_jitson_source option" where
  "literal_loop source =
     (let (c, source') = sxe_jitson_source_get_char source
      in if c = 34 then Some source' else if c = 0 then None else literal_loop source')"
  by pat_completeness auto
termination
  by (relation "measure (\<lambda>source. length (json source) - s_next source)")
    (auto simp: sxe_jitson_source_get_char_def here_def split: if_splits dest: c_at_in)

declare literal_loop.simps [simp del]

definition sxe_jitson_source_get_literal :: "sxe_jitson_source \<Rightarrow> ((nat \<times> nat) \<times> sxe_jitson_source) option" where
  "sxe_jitson_source_get_literal source =
     (if sxe_jitson_source_peek_char source \<noteq> 34 then None
      else do { after \<leftarrow> literal_loop (advance source);
                Some ((s_next source, s_next after - s_next source), after) })"

text \<open>The rest of the source for a message, at most 63 characters. A longer rest ends in dots.\<close>

definition sxe_jitson_source_left :: "sxe_jitson_source \<Rightarrow> bytes" where
  "sxe_jitson_source_left source =
     (if here source = 0 \<or> at_end source then []
      else if (case s_end source of None \<Rightarrow> True | Some e \<Rightarrow> 63 < e - s_next source)
      then let rest = takeWhile (\<lambda>c. c \<noteq> 0) (drop (s_next source) (json source))
           in if 63 < length rest then take 60 rest @ ascii ''...'' else rest
      else take (the (s_end source) - s_next source) (drop (s_next source) (json source)))"

end
