(* ===== verification/Sxe_Jitson_Source_Spec.thy ===== *)
theory Sxe_Jitson_Source_Spec
  imports Sxe_Jitson_Source
begin

text \<open>
  What the source functions of \<^verbatim>\<open>lib-sxe-jitson/sxe-jitson-source.c\<close> read, in terms of the text that is left: white
  space skipping, single characters, and the grammar of numbers with the proof that the number scanner accepts exactly it.
\<close>

section \<open>The text that is left\<close>

text \<open>Every function of a source looks at the text between its position and its end only.\<close>

definition rest :: "sxe_jitson_source \<Rightarrow> bytes" where
  "rest source = drop (s_next source) (case s_end source of None \<Rightarrow> json source | Some e \<Rightarrow> take e (json source))"

definition hd0 :: "bytes \<Rightarrow> u8" where
  "hd0 s = (case s of [] \<Rightarrow> 0 | c # _ \<Rightarrow> c)"

lemma hd0_simps [simp]: "hd0 [] = 0" "hd0 (c # s) = c"
  by (simp_all add: hd0_def)

lemma hd0_drop: "hd0 (drop n s) = c_at s n"
  by (cases "drop n s") (auto simp: c_at_def hd0_def Cons_nth_drop_Suc [symmetric] drop_eq_Nil dest: nth_via_drop split: if_splits)

lemma peek_char_rest: "sxe_jitson_source_peek_char source = hd0 (rest source)"
  by (auto simp: sxe_jitson_source_peek_char_def rest_def hd0_drop at_end_def here_def c_at_def split: option.splits)

lemma rest_forward [simp]: "rest (source\<lparr>s_next := s_next source + n\<rparr>) = drop n (rest source)"
  by (simp add: rest_def add.commute split: option.splits)

lemma rest_advance [simp]: "rest (advance source) = tl (rest source)"
  unfolding advance_def rest_forward by (simp add: drop_Suc)

lemma rest_consume [simp]: "rest (sxe_jitson_source_consume n source) = drop n (rest source)"
  by (simp add: rest_def add.commute split: option.splits)

lemma rest_nonempty: "rest source \<noteq> [] \<Longrightarrow> s_next source < length (json source)"
  by (auto simp: rest_def split: option.splits)

text \<open>A source further along the same text. Only the line number may differ from the position arithmetic.\<close>

definition moved :: "nat \<Rightarrow> sxe_jitson_source \<Rightarrow> sxe_jitson_source \<Rightarrow> bool" where
  "moved n source source' \<longleftrightarrow> json source' = json source \<and> s_next source' = s_next source + n \<and>
     s_end source' = s_end source \<and> s_flags source' = s_flags source"

lemma moved_rest: "moved n source source' \<Longrightarrow> rest source' = drop n (rest source)"
  by (simp add: moved_def rest_def add.commute split: option.splits)

lemma moved_trans: "moved n a b \<Longrightarrow> moved k b c \<Longrightarrow> moved (n + k) a c"
  by (simp add: moved_def)

lemma moved_refl [simp]: "moved 0 a a"
  by (simp add: moved_def)

lemma moved_forward [simp]: "moved n source (source\<lparr>s_next := s_next source + n\<rparr>)"
  by (simp add: moved_def)

lemma moved_consume [simp]: "moved n source (sxe_jitson_source_consume n source)"
  by (simp add: moved_def)

lemma skip_class_rest:
  assumes "\<not> cls 0"
  shows "skip_class cls source = source\<lparr>s_next := s_next source + length (takeWhile cls (rest source))\<rparr>"
  using assms
proof (induction cls source rule: skip_class.induct)
  case (1 cls source)
  show ?case
  proof (cases "rest source")
    case Nil
    then show ?thesis
      using 1(2) by (simp add: skip_class.simps [of cls source] peek_char_rest)
  next
    case (Cons c cs)
    then have len: "s_next source < length (json source)"
      by (simp add: rest_nonempty)
    have "rest (source\<lparr>s_next := s_next source + 1\<rparr>) = cs"
      using Cons by (simp only: rest_forward) simp
    then show ?thesis
      using 1 Cons len by (simp add: skip_class.simps [of cls source] peek_char_rest)
  qed
qed

lemma peek_nonspace_rest:
  "\<exists>source'. sxe_jitson_source_peek_nonspace source = (hd0 (dropWhile isspace (rest source)), source') \<and>
     moved (length (takeWhile isspace (rest source))) source source'"
proof (induction source rule: sxe_jitson_source_peek_nonspace.induct)
  case (1 source)
  show ?case
  proof (cases "\<not> at_end source \<and> isspace (here source)")
    case True
    then have "isspace (hd0 (rest source))"
      by (simp flip: peek_char_rest add: sxe_jitson_source_peek_char_def)
    then obtain c cs where cs: "rest source = c # cs" "isspace c"
      by (cases "rest source") auto
    from 1 [OF True] obtain source' where
      "sxe_jitson_source_peek_nonspace (sxe_jitson_source_consume 1 source) = (hd0 (dropWhile isspace cs), source')"
      "moved (length (takeWhile isspace cs)) (sxe_jitson_source_consume 1 source) source'"
      by (auto simp: cs)
    then show ?thesis
      using True moved_trans [OF moved_consume [of 1 source]]
      by (auto simp: sxe_jitson_source_peek_nonspace.simps [of source] cs)
  next
    case False
    then have "\<not> isspace (hd0 (rest source))"
      by (auto simp flip: peek_char_rest simp: sxe_jitson_source_peek_char_def)
    then show ?thesis
      using False by (cases "rest source") (auto simp: sxe_jitson_source_peek_nonspace.simps [of source] peek_char_rest)
  qed
qed

lemma get_char_rest:
  assumes "rest source = c # cs" and "c \<noteq> 0"
  shows "sxe_jitson_source_get_char source = (c, sxe_jitson_source_consume 1 source)"
proof -
  have "\<not> at_end source" "here source = c"
    using assms peek_char_rest [of source] by (auto simp: sxe_jitson_source_peek_char_def split: if_splits)
  then show ?thesis
    using assms(2) by (auto simp: sxe_jitson_source_get_char_def)
qed

lemma get_char_end:
  assumes "rest source = []" and "case s_end source of None \<Rightarrow> True | Some e \<Rightarrow> e \<le> length (json source)"
  shows "sxe_jitson_source_get_char source = (0, source)"
  using assms by (auto simp: rest_def sxe_jitson_source_get_char_def at_end_def here_def c_at_def split: option.splits)

lemma get_nonspace_rest:
  assumes "dropWhile isspace (rest source) = c # cs" and "c \<noteq> 0"
  shows "\<exists>source'. sxe_jitson_source_get_nonspace source = (c, source') \<and>
     moved (Suc (length (takeWhile isspace (rest source)))) source source'"
  using assms
proof (induction source rule: sxe_jitson_source_get_nonspace.induct)
  case (1 source)
  then obtain d ds where ds: "rest source = d # ds"
    by (cases "rest source") auto
  moreover have "d \<noteq> 0"
    using 1(2,3) ds by (auto split: if_splits)
  ultimately have get: "sxe_jitson_source_get_char source = (d, sxe_jitson_source_consume 1 source)"
    by (rule get_char_rest)
  show ?case
  proof (cases "isspace d")
    case True
    then obtain source' where "sxe_jitson_source_get_nonspace (sxe_jitson_source_consume 1 source) = (c, source')"
      "moved (Suc (length (takeWhile isspace ds))) (sxe_jitson_source_consume 1 source) source'"
      using 1 by (auto simp: get ds)
    then show ?thesis
      using True moved_trans [OF moved_consume [of 1 source]]
      by (auto simp: sxe_jitson_source_get_nonspace.simps [of source] get ds)
  next
    case False
    then show ?thesis
      using 1(2) moved_consume [of 1 source] by (auto simp: sxe_jitson_source_get_nonspace.simps [of source] get ds)
  qed
qed

section \<open>Numbers\<close>

text \<open>The grammar of a number. Unlike the JSON grammar, the code accepts leading zeros.\<close>

definition digits1 :: "bytes \<Rightarrow> bool" where
  "digits1 s \<longleftrightarrow> s \<noteq> [] \<and> list_all isdigit s"

definition fraction_text :: "bytes \<Rightarrow> bool" where
  "fraction_text s \<longleftrightarrow> s = [] \<or> hd0 s = 46 \<and> digits1 (tl s)"

definition exponent_text :: "bytes \<Rightarrow> bool" where
  "exponent_text s \<longleftrightarrow> s = [] \<or> (hd0 s = 69 \<or> hd0 s = 101) \<and>
     digits1 (if hd0 (tl s) = 45 \<or> hd0 (tl s) = 43 then tl (tl s) else tl s)"

definition number_parts :: "bytes \<Rightarrow> bytes \<Rightarrow> bytes \<Rightarrow> bytes \<Rightarrow> bool" where
  "number_parts sign whole frac expo \<longleftrightarrow> (sign = [] \<or> sign = [45]) \<and> digits1 whole \<and> fraction_text frac \<and> exponent_text expo"

text \<open>The character after a number does not continue it: it is no digit, no point when there is neither fraction
  nor exponent yet, and does not begin an exponent when there is none yet.\<close>

definition number_ends :: "bytes \<Rightarrow> bytes \<Rightarrow> u8 \<Rightarrow> bool" where
  "number_ends frac expo c \<longleftrightarrow>
     \<not> isdigit c \<and> (frac = [] \<longrightarrow> expo = [] \<longrightarrow> c \<noteq> 46) \<and> (expo = [] \<longrightarrow> c \<noteq> 69 \<and> c \<noteq> 101)"

lemma isdigit_not [simp]: "\<not> isdigit 45" "\<not> isdigit 43" "\<not> isdigit 46" "\<not> isdigit 69" "\<not> isdigit 101" "\<not> isdigit 120"
  "\<not> isdigit 34" "\<not> isdigit 44" "\<not> isdigit 58" "\<not> isdigit 91" "\<not> isdigit 93" "\<not> isdigit 123" "\<not> isdigit 125"
  by (simp_all add: isdigit_def)

lemma digits1_Cons: "digits1 (c # s) \<longleftrightarrow> isdigit c \<and> list_all isdigit s"
  by (simp add: digits1_def)

lemma takeWhile_all_append: "list_all P xs \<Longrightarrow> takeWhile P (xs @ ys) = xs @ takeWhile P ys"
  by (simp add: list_all_iff takeWhile_append2)

lemma takeWhile_hd0: "\<not> P (hd0 s) \<Longrightarrow> takeWhile P s = []"
  by (cases s) auto

lemmas takeWhile_word = takeWhile_all_append takeWhile_hd0

definition fwd :: "nat \<Rightarrow> sxe_jitson_source \<Rightarrow> sxe_jitson_source" where
  "fwd n source = source\<lparr>s_next := s_next source + n\<rparr>"

lemma fwd_simps [simp]:
  "fwd 0 source = source" "fwd n (fwd m source) = fwd (m + n) source" "rest (fwd n source) = drop n (rest source)"
  "s_flags (fwd n source) = s_flags source" "s_next (fwd n source) = s_next source + n" "json (fwd n source) = json source"
  "s_end (fwd n source) = s_end source"
  by (simp_all add: fwd_def add.assoc)

lemma fwd_advance: "advance source = fwd (Suc 0) source"
  by (simp add: fwd_def advance_def)

lemma skip_class_fwd: "\<not> cls 0 \<Longrightarrow> skip_class cls source = fwd (length (takeWhile cls (rest source))) source"
  by (simp add: skip_class_rest fwd_def)

lemmas source_scan = fwd_advance skip_class_fwd peek_char_rest drop_Suc

lemma scan_digits_sound:
  assumes "isdigit (hd0 s)"
  shows "digits1 (takeWhile isdigit s)" "s = takeWhile isdigit s @ dropWhile isdigit s"
proof -
  show "digits1 (takeWhile isdigit s)"
    using assms by (cases s) (auto simp: digits1_def list_all_iff dest: set_takeWhileD)
qed simp

lemma hd0_dropWhile_digits: "\<not> isdigit (hd0 (dropWhile isdigit s))"
  by (induction s) (auto simp: isdigit_def)

lemma scan_fraction_sound:
  assumes "scan_fraction source = Some (b, source')"
  shows "\<exists>f. rest source = f @ rest source' \<and> fraction_text f \<and> b = (f \<noteq> []) \<and> source' = fwd (length f) source \<and>
    (if f = [] then hd0 (rest source') \<noteq> 46 else \<not> isdigit (hd0 (rest source')))"
proof (cases "hd0 (rest source) = 46")
  case True
  define ds where "ds = takeWhile isdigit (tl (rest source))"
  obtain r where r: "rest source = 46 # r"
    using True by (cases "rest source") auto
  with assms have "isdigit (hd0 r)" "b" "source' = fwd (Suc (length ds)) source"
    by (auto simp: scan_fraction_def source_scan ds_def split: if_splits)
  then show ?thesis
    using scan_digits_sound [of r] r hd0_dropWhile_digits [of r]
    by (intro exI [of _ "46 # ds"]) (auto simp: ds_def fraction_text_def dropWhile_eq_drop)
next
  case False
  then show ?thesis
    using assms by (intro exI [of _ "[]"]) (auto simp: scan_fraction_def source_scan fraction_text_def)
qed

lemma scan_fraction_complete:
  assumes "rest source = f @ t" and "fraction_text f" and "\<not> isdigit (hd0 t)" and "f = [] \<longrightarrow> hd0 t \<noteq> 46"
  shows "scan_fraction source = Some (f \<noteq> [], fwd (length f) source)"
proof (cases f)
  case Nil
  then show ?thesis
    using assms by (simp add: scan_fraction_def source_scan)
next
  case (Cons c ds)
  then have "c = 46" "digits1 ds"
    using assms(2) by (simp_all add: fraction_text_def)
  moreover from this obtain d ds' where "ds = d # ds'" "isdigit d"
    by (cases ds) (auto simp: digits1_def)
  ultimately show ?thesis
    using assms Cons by (simp add: scan_fraction_def source_scan digits1_def takeWhile_word)
qed

lemma scan_exponent_sound:
  assumes "scan_exponent source = Some (b, source')"
  shows "\<exists>e. rest source = e @ rest source' \<and> exponent_text e \<and> b = (e \<noteq> []) \<and> source' = fwd (length e) source \<and>
    (if e = [] then hd0 (rest source') \<noteq> 69 \<and> hd0 (rest source') \<noteq> 101 else \<not> isdigit (hd0 (rest source')))"
proof (cases "hd0 (rest source) = 69 \<or> hd0 (rest source) = 101")
  case True
  then obtain c r where r: "rest source = c # r" "c = 69 \<or> c = 101"
    by (cases "rest source") auto
  define g where "g = (if hd0 r = 45 \<or> hd0 r = 43 then [hd0 r] else [])"
  define r' where "r' = (if hd0 r = 45 \<or> hd0 r = 43 then tl r else r)"
  define ds where "ds = takeWhile isdigit r'"
  have gr: "r = g @ r'"
    by (cases r) (auto simp: g_def r'_def)
  have res: "isdigit (hd0 r')" "b" "source' = fwd (Suc (length g + length ds)) source"
    using assms r by (auto simp: scan_exponent_def source_scan g_def r'_def ds_def Let_def split: if_splits)
  then have ds: "digits1 ds" "r' = ds @ drop (length ds) r'"
    using scan_digits_sound [of r'] by (simp_all add: ds_def dropWhile_eq_drop)
  have "exponent_text (c # g @ ds)"
    using r(2) ds(1) by (cases ds) (auto simp: exponent_text_def g_def digits1_def)
  moreover have "rest source = (c # g @ ds) @ rest source'"
    using ds(2) r res(3) gr by simp
  moreover have "rest source' = dropWhile isdigit r'"
    using r res(3) gr by (simp add: ds_def dropWhile_eq_drop)
  ultimately show ?thesis
    using res hd0_dropWhile_digits [of r'] by (intro exI [of _ "c # g @ ds"]) auto
next
  case False
  then show ?thesis
    using assms by (intro exI [of _ "[]"]) (auto simp: scan_exponent_def source_scan exponent_text_def)
qed

lemma scan_exponent_complete:
  assumes "rest source = e @ t" and "exponent_text e" and "\<not> isdigit (hd0 t)" and "e = [] \<longrightarrow> hd0 t \<noteq> 69 \<and> hd0 t \<noteq> 101"
  shows "scan_exponent source = Some (e \<noteq> [], fwd (length e) source)"
proof (cases e)
  case Nil
  then show ?thesis
    using assms by (simp add: scan_exponent_def source_scan)
next
  case (Cons c r)
  define ds where "ds = (if hd0 r = 45 \<or> hd0 r = 43 then tl r else r)"
  have ds: "c = 69 \<or> c = 101" "digits1 ds"
    using assms(2) Cons by (auto simp: exponent_text_def ds_def)
  then obtain d ds' where d: "ds = d # ds'" "isdigit d"
    by (cases ds) (auto simp: digits1_def)
  obtain x r' where x: "r = x # r'"
    using d by (cases r) (auto simp: ds_def split: if_splits)
  show ?thesis
    using assms(1,3) Cons ds d x unfolding ds_def
    by (auto simp: scan_exponent_def source_scan digits1_def takeWhile_word split: if_splits)
qed

text \<open>Without hexadecimal numbers, the function is a minus sign, digits, a fraction and an exponent.\<close>

lemma get_number_plain:
  assumes "s_flags source AND SXE_JITSON_FLAG_ALLOW_HEX = 0 \<or> c_at (json source) (s_next source) \<noteq> 48 \<or> hd0 (tl (rest source)) \<noteq> 120"
  shows "sxe_jitson_source_get_number source =
    (let sg = (if hd0 (rest source) = 45 then 1 else 0); ds = takeWhile isdigit (drop sg (rest source))
     in if ds = [] then None
        else do { (fraction, s2) \<leftarrow> scan_fraction (fwd (sg + length ds) source);
                  (exponent, s3) \<leftarrow> scan_exponent s2;
                  Some ((s_next source, s_next s3 - s_next source, sg = 0 \<and> \<not> fraction \<and> \<not> exponent), s3) })"
proof -
  define sg :: nat where "sg = (if hd0 (rest source) = 45 then 1 else 0)"
  define r where "r = drop sg (rest source)"
  have src: "(if hd0 (rest source) = 45 then advance source else source) = fwd sg source"
    by (simp add: sg_def fwd_advance)
  show ?thesis
  proof (cases "isdigit (hd0 r)")
    case False
    then have "takeWhile isdigit r = []"
      by (rule takeWhile_hd0)
    then show ?thesis
      using False by (simp add: sxe_jitson_source_get_number_def peek_char_rest src Let_def r_def [symmetric] sg_def [symmetric])
  next
    case True
    then obtain d t where t: "r = d # t" "isdigit d"
      by (cases r) auto
    then have drop: "drop sg (rest source) = d # t"
      by (simp add: r_def)
    then have tl: "drop (Suc sg) (rest source) = t"
      by (metis drop_Suc tl_drop list.sel(3))
    have nohex: "\<not> (s_flags source AND SXE_JITSON_FLAG_ALLOW_HEX \<noteq> 0 \<and> c_at (json source) (s_next source) = 48 \<and> hd0 t = 120)"
    proof (cases "sg = 0")
      case True
      then show ?thesis
        using assms drop by auto
    next
      case False
      then obtain t' where "rest source = 45 # t'"
        by (cases "rest source") (auto simp: sg_def split: if_splits)
      then have "here source = 45"
        using peek_char_rest [of source] by (auto simp: sxe_jitson_source_peek_char_def split: if_splits)
      then show ?thesis
        by (simp add: here_def)
    qed
    show ?thesis
      unfolding sxe_jitson_source_get_number_def peek_char_rest src Let_def
      using t drop tl nohex
      by (simp add: source_scan sg_def [symmetric]) (auto simp: sg_def)
  qed
qed

lemma get_number_sound:
  assumes flag: "s_flags source AND SXE_JITSON_FLAG_ALLOW_HEX = 0" and got: "sxe_jitson_source_get_number source = Some ((p, n, u), source')"
  shows "p = s_next source" "source' = fwd n source" "n \<le> length (rest source)"
    "\<exists>sign whole frac expo t. rest source = sign @ whole @ frac @ expo @ t \<and> n = length (sign @ whole @ frac @ expo) \<and>
       number_parts sign whole frac expo \<and> number_ends frac expo (hd0 t) \<and> u = (sign = [] \<and> frac = [] \<and> expo = [])"
proof -
  define sign :: bytes where "sign = (if hd0 (rest source) = 45 then [45] else [])"
  define ds where "ds = takeWhile isdigit (drop (length sign) (rest source))"
  have sg: "(if hd0 (rest source) = 45 then 1 else 0) = length sign"
    by (simp add: sign_def)
  have eq: "Some ((p, n, u), source') = (if ds = [] then None
        else do { (fraction, s2) \<leftarrow> scan_fraction (fwd (length sign + length ds) source);
                  (exponent, s3) \<leftarrow> scan_exponent s2;
                  Some ((s_next source, s_next s3 - s_next source, length sign = 0 \<and> \<not> fraction \<and> \<not> exponent), s3) })"
    using got unfolding get_number_plain [OF disjI1 [OF flag]] sg Let_def ds_def by simp
  moreover from this obtain fraction s2 where s2: "ds \<noteq> []" "scan_fraction (fwd (length sign + length ds) source) = Some (fraction, s2)"
    by (cases "scan_fraction (fwd (length sign + length ds) source)") (auto split: if_splits)
  ultimately obtain exponent where s3: "scan_exponent s2 = Some (exponent, source')"
    by (cases "scan_exponent s2") auto
  have u: "p = s_next source" "n = s_next source' - s_next source" "u = (length sign = 0 \<and> \<not> fraction \<and> \<not> exponent)"
    using eq by (simp_all add: s2 s3)
  from scan_fraction_sound [OF s2(2)] obtain f where f: "rest (fwd (length sign + length ds) source) = f @ rest s2" "fraction_text f"
      "fraction = (f \<noteq> [])" "s2 = fwd (length sign + length ds + length f) source"
      "if f = [] then hd0 (rest s2) \<noteq> 46 else \<not> isdigit (hd0 (rest s2))"
    unfolding fwd_simps by blast
  from scan_exponent_sound [OF s3] obtain e where e: "rest s2 = e @ rest source'" "exponent_text e" "exponent = (e \<noteq> [])"
      "source' = fwd (length sign + length ds + length f + length e) source"
      "if e = [] then hd0 (rest source') \<noteq> 69 \<and> hd0 (rest source') \<noteq> 101 else \<not> isdigit (hd0 (rest source'))"
    unfolding f(4) fwd_simps(2) by blast
  have split_sign: "rest source = sign @ drop (length sign) (rest source)"
    by (cases "rest source") (auto simp: sign_def)
  have split_ds: "drop (length sign) (rest source) = ds @ drop (length sign + length ds) (rest source)"
    using takeWhile_dropWhile_id [of isdigit "drop (length sign) (rest source)"]
    unfolding dropWhile_eq_drop drop_drop by (simp add: ds_def add.commute)
  have all: "rest source = (sign @ ds @ f @ e) @ rest source'"
    by (subst split_sign, subst split_ds, subst f(1) [unfolded fwd_simps], subst e(1)) simp
  show "p = s_next source" "source' = fwd n source"
    using u e(4) by simp_all
  have n: "n = length (sign @ ds @ f @ e)"
    using u e(4) by simp
  then show "n \<le> length (rest source)"
    by (subst all) simp
  have "\<not> isdigit (hd0 (drop (length sign + length ds) (rest source)))"
    using hd0_dropWhile_digits [of "drop (length sign) (rest source)"] unfolding dropWhile_eq_drop drop_drop by (simp add: ds_def add.commute)
  then have "number_ends f e (hd0 (rest source'))"
    using f(1,5) e(1,5) unfolding fwd_simps number_ends_def by (cases f; cases e) auto
  moreover have "number_parts sign ds f e"
    using s2(1) f(2) e(2) by (auto simp: number_parts_def sign_def digits1_def ds_def list_all_iff dest: set_takeWhileD)
  ultimately show "\<exists>sign whole frac expo t. rest source = sign @ whole @ frac @ expo @ t \<and> n = length (sign @ whole @ frac @ expo) \<and>
       number_parts sign whole frac expo \<and> number_ends frac expo (hd0 t) \<and> u = (sign = [] \<and> frac = [] \<and> expo = [])"
    using all n unfolding u(3) f(3) e(3) length_0_conv not_not by fastforce
qed

lemma get_number_complete:
  assumes flag: "s_flags source AND SXE_JITSON_FLAG_ALLOW_HEX = 0" and tx: "rest source = sign @ whole @ frac @ expo @ t" and parts: "number_parts sign whole frac expo" and t: "number_ends frac expo (hd0 t)"
  shows "sxe_jitson_source_get_number source =
    Some ((s_next source, length (sign @ whole @ frac @ expo), sign = [] \<and> frac = [] \<and> expo = []),
          fwd (length (sign @ whole @ frac @ expo)) source)"
proof -
  obtain d ds where d: "whole = d # ds" "isdigit d" "list_all isdigit ds"
    using parts by (cases whole) (auto simp: number_parts_def digits1_def)
  have d45: "d \<noteq> 45"
    using d(2) by auto
  then have sg: "(if hd0 (rest source) = 45 then 1 else 0) = length sign"
    using parts tx d by (auto simp: number_parts_def)
  have expo0: "\<not> isdigit (hd0 (expo @ t))" "frac = [] \<longrightarrow> hd0 (expo @ t) \<noteq> 46"
    using parts t by (cases expo; auto simp: number_parts_def exponent_text_def number_ends_def)+
  then have frac0: "\<not> isdigit (hd0 (frac @ expo @ t))"
    using parts by (cases frac; auto simp: number_parts_def fraction_text_def)+
  have "takeWhile isdigit (frac @ expo @ t) = []"
    using frac0 by (rule takeWhile_hd0)
  then have whole: "takeWhile isdigit (drop (length sign) (rest source)) = whole"
    using d tx by (simp add: takeWhile_word)
  have "scan_fraction (fwd (length sign + length whole) source) =
      Some (frac \<noteq> [], fwd (length sign + length whole + length frac) source)"
    using scan_fraction_complete [of "fwd (length sign + length whole) source" frac "expo @ t"] tx parts expo0
    by (simp add: number_parts_def)
  moreover have "scan_exponent (fwd (length sign + length whole + length frac) source) =
      Some (expo \<noteq> [], fwd (length sign + length whole + length frac + length expo) source)"
    using scan_exponent_complete [of "fwd (length sign + length whole + length frac) source" expo t] tx parts t
    by (simp add: number_parts_def number_ends_def)
  ultimately show ?thesis
    unfolding get_number_plain [OF disjI1 [OF flag]] sg whole Let_def using d by (simp add: add.assoc)
qed

text \<open>C35: Reading a number, with hexadecimal numbers not allowed. \<^verbatim>\<open>sxe_jitson_source_get_number\<close> returns a number
  exactly when the text from the position on begins with an optional minus sign, digits, an optional fraction and an
  optional exponent, and no further character continues it: no digit follows, no point if there is neither fraction
  nor exponent, and no exponent letter if there is no exponent. It then returns where this text begins and its whole
  length, has moved the source to its end, and reports an unsigned integer exactly when it is only digits. In every
  other case it returns NULL.\<close>

theorem source_number_correct:
  assumes "s_flags source AND SXE_JITSON_FLAG_ALLOW_HEX = 0"
  shows "sxe_jitson_source_get_number source = Some ((number, n, is_uint), source') \<longleftrightarrow>
    number = s_next source \<and> source' = fwd n source \<and>
    (\<exists>sign whole frac expo t. rest source = sign @ whole @ frac @ expo @ t \<and> n = length (sign @ whole @ frac @ expo) \<and>
       number_parts sign whole frac expo \<and> number_ends frac expo (hd0 t) \<and> (is_uint \<longleftrightarrow> sign = [] \<and> frac = [] \<and> expo = []))"
proof
  assume "sxe_jitson_source_get_number source = Some ((number, n, is_uint), source')"
  note sound = get_number_sound [OF assms this]
  show "number = s_next source \<and> source' = fwd n source \<and>
    (\<exists>sign whole frac expo t. rest source = sign @ whole @ frac @ expo @ t \<and> n = length (sign @ whole @ frac @ expo) \<and>
       number_parts sign whole frac expo \<and> number_ends frac expo (hd0 t) \<and> (is_uint \<longleftrightarrow> sign = [] \<and> frac = [] \<and> expo = []))"
    using sound(1,2,4) by (intro conjI)
next
  assume "number = s_next source \<and> source' = fwd n source \<and>
    (\<exists>sign whole frac expo t. rest source = sign @ whole @ frac @ expo @ t \<and> n = length (sign @ whole @ frac @ expo) \<and>
       number_parts sign whole frac expo \<and> number_ends frac expo (hd0 t) \<and> (is_uint \<longleftrightarrow> sign = [] \<and> frac = [] \<and> expo = []))"
  then obtain sign whole frac expo t where "number = s_next source" "source' = fwd n source"
    and tx: "rest source = sign @ whole @ frac @ expo @ t" "number_parts sign whole frac expo" "number_ends frac expo (hd0 t)"
    and "n = length (sign @ whole @ frac @ expo)" "is_uint \<longleftrightarrow> sign = [] \<and> frac = [] \<and> expo = []"
    by blast
  with get_number_complete [OF assms tx] show "sxe_jitson_source_get_number source = Some ((number, n, is_uint), source')"
    by simp
qed

definition test_source :: sxe_jitson_source where
  "test_source = sxe_jitson_source_from_buffer (ascii ''-12.5e3]'') 8 SXE_JITSON_FLAG_STRICT"

theorem source_number_correct_witness:
  "s_flags test_source AND SXE_JITSON_FLAG_ALLOW_HEX = 0 \<and>
   sxe_jitson_source_get_number test_source = Some ((0, 7, False), fwd 7 test_source)"
proof -
  have flag: "s_flags test_source AND SXE_JITSON_FLAG_ALLOW_HEX = 0"
    by (simp add: test_source_def sxe_jitson_source_from_buffer_def SXE_JITSON_FLAG_STRICT_def)
  have chars: "rest test_source = [45] @ ascii ''12'' @ ascii ''.5'' @ ascii ''e3'' @ ascii '']''"
    by code_simp
  have "number_parts [45] (ascii ''12'') (ascii ''.5'') (ascii ''e3'') \<and> number_ends (ascii ''.5'') (ascii ''e3'') (hd0 (ascii '']''))"
    by code_simp
  moreover have "s_next test_source = 0" by code_simp
  moreover have "7 = length ([45] @ ascii ''12'' @ ascii ''.5'' @ ascii ''e3'')" "ascii ''.5'' \<noteq> []" by code_simp+
  ultimately show ?thesis
    using source_number_correct [OF flag, of 0 7 False "fwd 7 test_source"] flag chars
    by (intro conjI) (simp, metis not_Cons_self2)
qed

end
