(* ===== verification/Sxe_Factory.thy ===== *)
theory Sxe_Factory
  imports Kit_Prelude
begin

text \<open>
  Model of \<^verbatim>\<open>lib-sxe-jitson/sxe-factory.c\<close>, the builder of character strings that the JSON printer writes to, and of
  \<^verbatim>\<open>lib-sxe-jitson/sxe-unicode.c\<close>, the UTF-8 encoder its parser uses. The allocator is a parameter: for a size it
  gives the contents of a fresh block or \<open>None\<close>.
\<close>

section \<open>UTF-8\<close>

text \<open>The count returned and the bytes written to \<^verbatim>\<open>utf_out\<close>\<close>

definition sxe_unicode_to_utf8 :: "u32 \<Rightarrow> u32 \<times> bytes" where
  "sxe_unicode_to_utf8 unicode =
     (if unicode \<le> 0x7F then (1, [ucast unicode])
      else if unicode \<le> 0x7FF
      then (2, [ucast (0xC0 OR drop_bit 6 unicode), ucast (0x80 OR (unicode AND 0x3F))])
      else if unicode \<le> 0xFFFF
      then (3, [ucast (0xE0 OR drop_bit 12 unicode), ucast (0x80 OR (drop_bit 6 unicode AND 0x3F)),
                ucast (0x80 OR (unicode AND 0x3F))])
      else if unicode \<le> 0x10FFFF
      then (4, [ucast (0xF0 OR drop_bit 18 unicode), ucast (0x80 OR (drop_bit 12 unicode AND 0x3F)),
                ucast (0x80 OR (drop_bit 6 unicode AND 0x3F)), ucast (0x80 OR (unicode AND 0x3F))])
      else (0, []))"

text \<open>A decoder of RFC 3629. First the value of a sequence: the leading byte gives the number of continuation bytes, and
  each of those has the bits 10 at its top.\<close>

definition tail6 :: "u8 \<Rightarrow> u32 option" where
  "tail6 b = (if b AND 0xC0 = 0x80 then Some (ucast (b AND 0x3F)) else None)"

fun utf8_value :: "bytes \<Rightarrow> (u32 \<times> bytes) option" where
  "utf8_value [] = None"
| "utf8_value (b # bs) =
     (if b AND 0x80 = 0 then Some (ucast b, bs)
      else if b AND 0xE0 = 0xC0
      then (case bs of b1 # bs \<Rightarrow> do { x \<leftarrow> tail6 b1; Some (push_bit 6 (ucast (b AND 0x1F)) OR x, bs) } | _ \<Rightarrow> None)
      else if b AND 0xF0 = 0xE0
      then (case bs of b1 # b2 # bs \<Rightarrow> do { x \<leftarrow> tail6 b1; y \<leftarrow> tail6 b2;
              Some (push_bit 12 (ucast (b AND 0x0F)) OR push_bit 6 x OR y, bs) } | _ \<Rightarrow> None)
      else if b AND 0xF8 = 0xF0
      then (case bs of b1 # b2 # b3 # bs \<Rightarrow> do { x \<leftarrow> tail6 b1; y \<leftarrow> tail6 b2; z \<leftarrow> tail6 b3;
              Some (push_bit 18 (ucast (b AND 0x07)) OR push_bit 12 x OR push_bit 6 y OR z, bs) } | _ \<Rightarrow> None)
      else None)"

text \<open>A sequence is valid only if its value is a scalar value, that is a code point that is no surrogate, and no shorter
  sequence has this value.\<close>

definition utf8_surrogate :: "u32 \<Rightarrow> bool" where
  "utf8_surrogate u \<longleftrightarrow> 0xD800 \<le> u \<and> u \<le> 0xDFFF"

definition utf8_length :: "u32 \<Rightarrow> nat" where
  "utf8_length u = (if u < 0x80 then 1 else if u < 0x800 then 2 else if u < 0x10000 then 3 else 4)"

definition utf8_decode :: "bytes \<Rightarrow> (u32 \<times> bytes) option" where
  "utf8_decode bs =
     do { (u, rest) \<leftarrow> utf8_value bs;
          if u \<le> 0x10FFFF \<and> \<not> utf8_surrogate u \<and> length bs - length rest = utf8_length u then Some (u, rest) else None }"

text \<open>Equations of words are checked bit by bit.\<close>

lemma word_eq_upt: "x = y \<longleftrightarrow> list_all (\<lambda>i. bit x i = bit y i) [0..<LENGTH('a)]" for x y :: "'a::len word"
  by (auto simp: list_all_iff bit_word_eqI)

lemma small_bits:
  fixes x :: "'a::len word"
  assumes "unat x < 2 ^ n" and "n \<le> i"
  shows "\<not> bit x i"
proof -
  have "take_bit n (unat x) = unat x"
    using assms(1) by (simp add: take_bit_nat_eq_self)
  then have "bit (unat x) i = bit (take_bit n (unat x)) i"
    by simp
  then show ?thesis
    using assms(2) by (simp add: bit_simps)
qed

lemma continuation:
  fixes u :: u32
  shows "tail6 (ucast (0x80 OR (u AND 0x3F))) = Some (u AND 0x3F)"
  by (simp add: tail6_def word_eq_upt upt_conv_Cons bit_simps)

lemma utf8_2:
  fixes u :: u32
  assumes "unat u < 2 ^ 11"
  shows "utf8_value [ucast (0xC0 OR drop_bit 6 u), ucast (0x80 OR (u AND 0x3F))] = Some (u, [])"
proof -
  note b = small_bits [OF assms(1)]
  show ?thesis
    by (simp add: continuation word_eq_upt upt_conv_Cons bit_simps b) (simp add: eval_nat_numeral)
qed

lemma utf8_3:
  fixes u :: u32
  assumes "unat u < 2 ^ 16"
  shows "utf8_value [ucast (0xE0 OR drop_bit 12 u), ucast (0x80 OR (drop_bit 6 u AND 0x3F)), ucast (0x80 OR (u AND 0x3F))] = Some (u, [])"
proof -
  note b = small_bits [OF assms(1)]
  show ?thesis
    by (simp add: continuation word_eq_upt upt_conv_Cons bit_simps b) (simp add: eval_nat_numeral)
qed

lemma utf8_4:
  fixes u :: u32
  assumes "unat u < 2 ^ 21"
  shows "utf8_value [ucast (0xF0 OR drop_bit 18 u), ucast (0x80 OR (drop_bit 12 u AND 0x3F)),
    ucast (0x80 OR (drop_bit 6 u AND 0x3F)), ucast (0x80 OR (u AND 0x3F))] = Some (u, [])"
proof -
  note b = small_bits [OF assms(1)]
  show ?thesis
    by (simp add: continuation word_eq_upt upt_conv_Cons bit_simps b) (simp add: eval_nat_numeral)
qed

lemma utf8_1: "unat u < 2 ^ 7 \<Longrightarrow> utf8_value [ucast (u :: u32)] = Some (u, [])"
  using small_bits [of u 7] by (simp add: word_eq_upt upt_conv_Cons bit_simps)

text \<open>C36: Encoding a Unicode scalar value gives its UTF-8 sequence: the count returned is the number of bytes, which is
  the shortest possible, and a decoder of RFC 3629 that rejects overlong sequences gives the value back. A surrogate, for which RFC 3629
  has no encoding, is encoded in three bytes that such a decoder rejects, and a number that is no code point is
  rejected with 0.\<close>

theorem utf8_roundtrip:
  "case sxe_unicode_to_utf8 unicode of (n, bs) \<Rightarrow> length bs = unat n \<and>
     (if 0x10FFFF < unicode then n = 0
      else if utf8_surrogate unicode then n = 3 \<and> utf8_value bs = Some (unicode, []) \<and> utf8_decode bs = None
      else utf8_decode bs = Some (unicode, []))"
  using utf8_1 [of unicode] utf8_2 [of unicode] utf8_3 [of unicode] utf8_4 [of unicode]
  by (auto simp: sxe_unicode_to_utf8_def word_le_nat_alt word_less_nat_alt utf8_decode_def utf8_surrogate_def utf8_length_def
      simp del: utf8_value.simps)

section \<open>Factories\<close>

text \<open>
  \<^verbatim>\<open>data\<close> is the block of memory, \<open>None\<close> for the null pointer. Sizes are 64 bit words and their arithmetic wraps
  around, so the loop that doubles the size need not end: it is a partial function.
\<close>

record sxe_factory =
  f_len :: u64
  f_size :: u64
  f_maxincr :: u64
  f_data :: "bytes option"

definition sxe_factory_alloc_make :: "u64 \<Rightarrow> u64 \<Rightarrow> sxe_factory" where
  "sxe_factory_alloc_make minsize maxincr =
     \<lparr>f_len = 0, f_size = (if minsize \<noteq> 0 then minsize else 8), f_maxincr = (if maxincr \<noteq> 0 then maxincr else 4096), f_data = None\<rparr>"

partial_function (option) reserve_loop :: "u64 \<Rightarrow> u64 \<Rightarrow> u64 \<Rightarrow> u64 option" where
  "reserve_loop needed maxincr newsize =
     (if newsize < needed
      then reserve_loop needed maxincr (if maxincr \<le> newsize then newsize + maxincr else push_bit 1 newsize)
      else Some newsize)"

declare reserve_loop.simps [code]

text \<open>Reallocation: the new block starts with what the old one held.\<close>

type_synonym allocator = "nat \<Rightarrow> bytes option"

definition kit_realloc :: "allocator \<Rightarrow> bytes option \<Rightarrow> nat \<Rightarrow> bytes option" where
  "kit_realloc alloc old n =
     (let d = (case old of None \<Rightarrow> [] | Some d \<Rightarrow> take n d)
      in map_option (\<lambda>fresh. d @ drop (length d) fresh) (alloc n))"

text \<open>A returned pointer into the block is its offset. The outer \<open>None\<close> is a loop that does not end, or an access
  outside the block.\<close>

definition sxe_factory_reserve :: "allocator \<Rightarrow> u64 \<Rightarrow> sxe_factory \<Rightarrow> (nat option \<times> sxe_factory) option" where
  "sxe_factory_reserve alloc ln factory =
     (let needed = f_len factory + ln + 1
      in if f_size factory < needed \<or> f_data factory = None
         then do { newsize \<leftarrow> reserve_loop needed (f_maxincr factory) (f_size factory);
                   Some (case kit_realloc alloc (f_data factory) (unat newsize) of
                           None \<Rightarrow> (None, factory)
                         | Some newdata \<Rightarrow> (Some (unat (f_len factory)), factory\<lparr>f_data := Some newdata, f_size := newsize\<rparr>)) }
         else Some (Some (unat (f_len factory)), factory))"

definition sxe_factory_commit :: "u64 \<Rightarrow> sxe_factory \<Rightarrow> sxe_factory option" where
  "sxe_factory_commit ln factory =
     do { d \<leftarrow> f_data factory;
          d \<leftarrow> poke d (unat (f_len factory + ln)) 0;
          Some (factory\<lparr>f_len := f_len factory + ln, f_data := Some d\<rparr>) }"

definition memcpy_at :: "bytes \<Rightarrow> nat \<Rightarrow> bytes \<Rightarrow> bytes option" where
  "memcpy_at d i bs = (if i + length bs \<le> length d then Some (take i d @ bs @ drop (i + length bs) d) else None)"

definition sxe_factory_add :: "allocator \<Rightarrow> bytes \<Rightarrow> u64 \<Rightarrow> sxe_factory \<Rightarrow> (int \<times> sxe_factory) option" where
  "sxe_factory_add alloc bs ln factory =
     (let ln = (if ln \<noteq> 0 then ln else of_nat (length (takeWhile (\<lambda>c. c \<noteq> 0) bs)))
      in do { (reservation, factory) \<leftarrow> sxe_factory_reserve alloc ln factory;
              case reservation of
                None \<Rightarrow> Some (- 1, factory)
              | Some i \<Rightarrow> do { d \<leftarrow> f_data factory;
                               d \<leftarrow> (if unat ln \<le> length bs then memcpy_at d i (take (unat ln) bs) else None);
                               factory \<leftarrow> sxe_factory_commit ln (factory\<lparr>f_data := Some d\<rparr>);
                               Some (sint ln, factory) } })"

definition sxe_factory_look :: "sxe_factory \<Rightarrow> bytes option \<times> u64" where
  "sxe_factory_look factory = (f_data factory, f_len factory)"

definition sxe_factory_remove :: "allocator \<Rightarrow> sxe_factory \<Rightarrow> (bytes option \<times> u64) \<times> sxe_factory" where
  "sxe_factory_remove alloc factory =
     (let (data, len_out) = sxe_factory_look factory;
          data = (if f_len factory + 1 < f_size factory
                  then case kit_realloc alloc (f_data factory) (unat (f_len factory + 1)) of
                         None \<Rightarrow> f_data factory | Some data \<Rightarrow> Some data
                  else data)
      in ((data, len_out), factory\<lparr>f_data := None, f_len := 0\<rparr>))"

section \<open>Correctness of factories\<close>

definition allocates :: "allocator \<Rightarrow> bool" where
  "allocates alloc \<longleftrightarrow> (\<forall>n fresh. alloc n = Some fresh \<longrightarrow> length fresh = n)"

definition factory_ok :: "sxe_factory \<Rightarrow> bool" where
  "factory_ok factory \<longleftrightarrow> 0 < f_size factory \<and> 0 < f_maxincr factory \<and>
     (case f_data factory of None \<Rightarrow> f_len factory = 0
      | Some d \<Rightarrow> length d = unat (f_size factory) \<and> f_len factory < f_size factory)"

definition factory_text :: "sxe_factory \<Rightarrow> bytes" where
  "factory_text factory = (case f_data factory of None \<Rightarrow> [] | Some d \<Rightarrow> take (unat (f_len factory)) d)"

lemma factory_make_ok: "factory_ok (sxe_factory_alloc_make minsize maxincr)"
  by (simp add: factory_ok_def sxe_factory_alloc_make_def word_gt_0)

lemma length_kit_realloc:
  "allocates alloc \<Longrightarrow> kit_realloc alloc old n = Some d \<Longrightarrow> length d = n"
  by (auto simp: kit_realloc_def allocates_def Let_def split: option.splits)

text \<open>The loop ends, with a size that is large enough, for every length below half the address space.\<close>

lemma reserve_loop_ok:
  assumes "0 < newsize" and "0 < maxincr" and "unat needed \<le> 2 ^ 63"
  shows "\<exists>r. reserve_loop needed maxincr newsize = Some r \<and> needed \<le> r \<and> newsize \<le> r"
  using assms(1)
proof (induction "unat needed - unat newsize" arbitrary: newsize rule: less_induct)
  case less
  show ?case
  proof (cases "newsize < needed")
    case False
    then show ?thesis
      by (simp add: reserve_loop.simps [of _ _ newsize])
  next
    case True
    define big where "big = (if maxincr \<le> newsize then newsize + maxincr else push_bit 1 newsize)"
    have small: "unat newsize < 2 ^ 63" "0 < unat newsize" "0 < unat maxincr"
      using True assms less.prems by (auto simp: word_less_nat_alt unat_gt_0)
    have "unat big = (if maxincr \<le> newsize then unat newsize + unat maxincr else 2 * unat newsize)"
      using small by (auto simp: big_def push_bit_eq_mult unat_word_ariths word_le_nat_alt)
    then have bigger: "unat newsize < unat big"
      using small by (auto split: if_splits)
    then have "\<exists>r. reserve_loop needed maxincr big = Some r \<and> needed \<le> r \<and> big \<le> r"
      using less.hyps [of big] True by (auto simp: word_less_nat_alt)
    moreover have "reserve_loop needed maxincr newsize = reserve_loop needed maxincr big"
      unfolding big_def using True by (subst reserve_loop.simps) simp
    ultimately show ?thesis
      using bigger by (auto simp: word_less_nat_alt word_le_nat_alt)
  qed
qed

lemma reserve_ok:
  assumes ok: "factory_ok factory" and alloc: "allocates alloc" and room: "unat (f_len factory) + unat ln < 2 ^ 63"
  shows "\<exists>i factory'. sxe_factory_reserve alloc ln factory = Some (i, factory') \<and>
    (case i of None \<Rightarrow> factory' = factory
     | Some i \<Rightarrow> i = unat (f_len factory) \<and> factory_ok factory' \<and> f_len factory' = f_len factory \<and> f_data factory' \<noteq> None \<and>
         factory_text factory' = factory_text factory \<and> i + unat ln < unat (f_size factory'))"
proof -
  define needed where "needed = f_len factory + ln + 1"
  have needed: "unat needed = unat (f_len factory) + unat ln + 1"
    using room by (simp add: needed_def unat_word_ariths)
  show ?thesis
  proof (cases "f_size factory < needed \<or> f_data factory = None")
    case False
    then show ?thesis
      using ok needed by (auto simp: sxe_factory_reserve_def needed_def [symmetric] word_less_nat_alt)
  next
    case True
    obtain newsize where new: "reserve_loop needed (f_maxincr factory) (f_size factory) = Some newsize"
        "needed \<le> newsize" "f_size factory \<le> newsize"
      using reserve_loop_ok [of "f_size factory" "f_maxincr factory" needed] ok needed room by (auto simp: factory_ok_def)
    show ?thesis
    proof (cases "kit_realloc alloc (f_data factory) (unat newsize)")
      case None
      then show ?thesis
        using True new by (simp add: sxe_factory_reserve_def needed_def [symmetric])
    next
      case (Some d)
      have len: "length d = unat newsize"
        using length_kit_realloc [OF alloc Some] .
      have "factory_text (factory\<lparr>f_data := Some d, f_size := newsize\<rparr>) = factory_text factory"
        using Some ok new(3)
        by (auto simp: factory_text_def factory_ok_def kit_realloc_def word_less_nat_alt word_le_nat_alt Let_def split: option.splits)
      moreover have "f_len factory < newsize"
        using new(2) needed by (simp add: word_less_nat_alt word_le_nat_alt)
      moreover from this have "newsize \<noteq> 0"
        by auto
      ultimately show ?thesis
        using True new Some len ok needed
        by (simp add: sxe_factory_reserve_def needed_def [symmetric] factory_ok_def word_le_nat_alt word_gt_0)
    qed
  qed
qed

lemma commit_ok:
  assumes ok: "factory_ok factory" and d: "f_data factory = Some d" and room: "unat (f_len factory) + unat ln < unat (f_size factory)"
  shows "\<exists>factory'. sxe_factory_commit ln factory = Some factory' \<and> factory_ok factory' \<and>
    f_len factory' = f_len factory + ln \<and> f_size factory' = f_size factory \<and>
    f_data factory' = Some (d[unat (f_len factory) + unat ln := 0])"
proof -
  have "unat (f_len factory + ln) = unat (f_len factory) + unat ln"
    using room unsigned_less [of "f_size factory", where 'a = nat] by (intro unat_plus_no_overflow) simp
  then show ?thesis
    using assms by (simp add: sxe_factory_commit_def factory_ok_def word_less_nat_alt)
qed

lemma add_ok:
  assumes ok: "factory_ok factory" and alloc: "allocates alloc" and bs: "bs \<noteq> []"
    and room: "unat (f_len factory) + length bs < 2 ^ 63"
  shows "sxe_factory_add alloc bs (of_nat (length bs)) factory = Some (- 1, factory) \<and>
      sxe_factory_reserve alloc (of_nat (length bs)) factory = Some (None, factory) \<or>
    (\<exists>factory' d. sxe_factory_add alloc bs (of_nat (length bs)) factory = Some (int (length bs), factory') \<and>
       factory_ok factory' \<and> factory_text factory' = factory_text factory @ bs \<and>
       f_data factory' = Some d \<and> d ! unat (f_len factory') = 0 \<and> unat (f_len factory') = unat (f_len factory) + length bs)"
proof -
  define ln :: u64 where "ln = of_nat (length bs)"
  have ln: "unat ln = length bs" "ln \<noteq> 0"
    using room bs by (simp_all add: ln_def unat_of_nat word_unat_eq_iff)
  have "uint ln = int (length bs)"
    by (simp flip: ln(1))
  then have "sint ln = int (length bs)"
    using room signed_take_bit_int_eq_self [of 63 "uint ln"] by (simp add: sint_uint)
  obtain i f1 where r: "sxe_factory_reserve alloc ln factory = Some (i, f1)"
      "case i of None \<Rightarrow> f1 = factory
       | Some i \<Rightarrow> i = unat (f_len factory) \<and> factory_ok f1 \<and> f_len f1 = f_len factory \<and> f_data f1 \<noteq> None \<and>
           factory_text f1 = factory_text factory \<and> i + unat ln < unat (f_size f1)"
    using reserve_ok [OF ok alloc, of ln] ln room by auto
  show ?thesis
  proof (cases i)
    case None
    then show ?thesis
      using r ln unfolding ln_def [symmetric] by (simp add: sxe_factory_add_def)
  next
    case (Some k)
    then obtain d where f1: "k = unat (f_len factory)" "factory_ok f1" "f_len f1 = f_len factory" "f_data f1 = Some d"
        "factory_text f1 = factory_text factory" "k + length bs < unat (f_size f1)"
      using r(2) ln by auto
    define d1 where "d1 = take k d @ bs @ drop (k + length bs) d"
    have d: "length d = unat (f_size f1)"
      using f1 by (simp add: factory_ok_def)
    then have d1: "memcpy_at d k bs = Some d1" "length d1 = unat (f_size f1)"
      using f1 by (simp_all add: memcpy_at_def d1_def)
    have "factory_ok (f1\<lparr>f_data := Some d1\<rparr>)"
      using f1 d1 by (simp add: factory_ok_def)
    from commit_ok [OF this, of d1 ln] obtain f2 where f2:
      "sxe_factory_commit ln (f1\<lparr>f_data := Some d1\<rparr>) = Some f2" "factory_ok f2" "f_len f2 = f_len factory + ln"
      "f_data f2 = Some (d1[k + length bs := 0])"
      using f1 ln by auto
    have lens: "unat (f_len f2) = k + length bs"
      using f2(3) f1 ln room by (simp add: unat_word_ariths)
    have "factory_text f2 = take k d @ bs"
      using f2(4) lens f1(6) d by (simp add: factory_text_def d1_def)
    moreover have "take k d = factory_text factory"
      using f1 by (simp add: factory_text_def)
    ultimately show ?thesis
      using r(1) Some f1 f2 d1 d ln lens \<open>sint ln = int (length bs)\<close>
      by (simp add: sxe_factory_add_def ln_def [symmetric])
  qed
qed

lemma remove_ok:
  assumes ok: "factory_ok factory" and data: "f_data factory = Some d" "d ! unat (f_len factory) = 0" and small: "unat (f_len factory) < 2 ^ 63"
  obtains b where "sxe_factory_remove alloc factory = ((Some b, f_len factory), factory\<lparr>f_data := None, f_len := 0\<rparr>)"
    "take (unat (f_len factory) + 1) b = factory_text factory @ [0]" "unat (f_len factory) = length (factory_text factory)"
proof -
  define k where "k = unat (f_len factory)"
  have k: "k < length d" "factory_text factory = take k d"
    using ok data(1) by (simp_all add: factory_ok_def factory_text_def k_def word_less_nat_alt)
  have k1: "unat (f_len factory + 1) = k + 1"
    using small by (simp add: k_def unat_word_ariths)
  have whole: "take (k + 1) d = take k d @ [0]"
    using k(1) data(2) by (simp add: k_def take_Suc_conv_app_nth)
  define e where "e = (if f_len factory + 1 < f_size factory
      then case kit_realloc alloc (Some d) (k + 1) of None \<Rightarrow> Some d | Some e \<Rightarrow> Some e else Some d)"
  have "\<exists>b. e = Some b \<and> take (k + 1) b = take k d @ [0]"
    using whole k(1) by (auto simp: e_def kit_realloc_def Let_def split: option.splits)
  then obtain b where b: "e = Some b" "take (k + 1) b = take k d @ [0]"
    by blast
  have "sxe_factory_remove alloc factory = ((e, f_len factory), factory\<lparr>f_data := None, f_len := 0\<rparr>)"
    using data(1) k1 by (simp add: sxe_factory_remove_def sxe_factory_look_def e_def split: option.split)
  moreover have "take (unat (f_len factory) + 1) b = factory_text factory @ [0]" "unat (f_len factory) = length (factory_text factory)"
    using b(2) k by (simp_all add: k_def)
  ultimately show thesis
    using that [of b] b(1) by simp
qed

text \<open>C37: Adding characters to a factory. Unless the allocator fails, when -1 is returned and the factory is as before, the length is
  returned, the text of the factory is extended by the characters, and the block removed from it begins with the
  whole text and a terminating zero. No byte outside the block is written, and the loop that finds the new size
  ends, for every text shorter than half the address space.\<close>

theorem factory_add_correct:
  assumes "factory_ok factory" and "allocates alloc" and "bs \<noteq> []" and "unat (f_len factory) + length bs < 2 ^ 63"
  shows "case sxe_factory_add alloc bs (of_nat (length bs)) factory of
      None \<Rightarrow> False
    | Some (n, factory') \<Rightarrow> n = - 1 \<and> factory' = factory \<or>
        n = int (length bs) \<and> factory_ok factory' \<and> factory_text factory' = factory_text factory @ bs \<and>
        (case sxe_factory_remove alloc factory' of ((Some d, ln), factory'') \<Rightarrow>
           unat ln = length (factory_text factory') \<and> take (unat ln + 1) d = factory_text factory' @ [0] \<and>
           factory_ok factory'' \<and> factory_text factory'' = []
         | _ \<Rightarrow> False)"
proof (cases "sxe_factory_add alloc bs (of_nat (length bs)) factory = Some (- 1, factory)")
  case False
  then obtain factory' d where add: "sxe_factory_add alloc bs (of_nat (length bs)) factory = Some (int (length bs), factory')"
      "factory_ok factory'" "factory_text factory' = factory_text factory @ bs" "f_data factory' = Some d"
      "d ! unat (f_len factory') = 0" "unat (f_len factory') = unat (f_len factory) + length bs"
    using add_ok [OF assms] by auto
  have "unat (f_len factory') < 2 ^ 63"
    using assms(4) add(6) by simp
  then obtain b where b: "sxe_factory_remove alloc factory' = ((Some b, f_len factory'), factory'\<lparr>f_data := None, f_len := 0\<rparr>)"
      "take (unat (f_len factory') + 1) b = factory_text factory' @ [0]" "unat (f_len factory') = length (factory_text factory')"
    by (rule remove_ok [OF add(2,4,5)])
  moreover have "factory_ok (factory'\<lparr>f_data := None, f_len := 0\<rparr>)" "factory_text (factory'\<lparr>f_data := None, f_len := 0\<rparr>) = []"
    using add(2) by (simp_all add: factory_ok_def factory_text_def)
  ultimately show ?thesis
    using add(1-3) by (simp del: One_nat_def)
qed simp

definition test_alloc :: allocator where
  "test_alloc n = (if n < 100 then Some (replicate n 0xAA) else None)"

theorem factory_add_correct_witness:
  "\<exists>factory'. sxe_factory_add test_alloc (ascii ''hello, world'') 12 (sxe_factory_alloc_make 4 8) = Some (12, factory') \<and>
     factory_text factory' = ascii ''hello, world''"
proof -
  have "allocates test_alloc"
    by (simp add: allocates_def test_alloc_def)
  note add = factory_add_correct [OF factory_make_ok [of 4 8] this, of "ascii ''hello, world''"]
  have "map_option fst (sxe_factory_add test_alloc (ascii ''hello, world'') 12 (sxe_factory_alloc_make 4 8)) = Some 12"
    by code_simp
  moreover have "ascii ''hello, world'' \<noteq> []" "length (ascii ''hello, world'') = 12" "f_len (sxe_factory_alloc_make 4 8) = 0"
    "factory_text (sxe_factory_alloc_make 4 8) = []"
    by (simp_all add: ascii_def sxe_factory_alloc_make_def factory_text_def)
  ultimately show ?thesis
    using add by (auto split: option.splits)
qed

end
