(* ===== verification/Kit_Bits.thy ===== *)
theory Kit_Bits
  imports Kit_Prelude
begin

text \<open>
  Models of the bit level utilities: the bit masks of \<^verbatim>\<open>lib-kit/kit-bits.c\<close> and \<^verbatim>\<open>kit-bits.h\<close>, and the integer helpers of
  \<^verbatim>\<open>lib-sxe-util/sxe-uint64.c\<close> and \<^verbatim>\<open>sxe-unsigned.c\<close>. An access outside a mask is \<open>None\<close>.
\<close>

section \<open>Bit masks\<close>

text \<open>Bit 0 is the top bit of the first byte. The shifts are those of a C int, and storing into a byte keeps the low 8 bits.\<close>

definition bit_of_byte :: "nat \<Rightarrow> u8" where
  "bit_of_byte i = ucast (push_bit (7 - i mod 8) (1 :: u32))"

definition high_bits :: "nat \<Rightarrow> u8" where
  "high_bits n = ucast (push_bit (8 - n mod 8) (0xFF :: u32))"

definition kit_bits_set :: "bytes \<Rightarrow> nat \<Rightarrow> bytes option" where
  "kit_bits_set me i = do { b \<leftarrow> peek me (i div 8); poke me (i div 8) (b OR bit_of_byte i) }"

definition kit_bits_clear :: "bytes \<Rightarrow> nat \<Rightarrow> bytes option" where
  "kit_bits_clear me i = do { b \<leftarrow> peek me (i div 8); poke me (i div 8) (b AND NOT (bit_of_byte i)) }"

definition kit_bits_isset :: "bytes \<Rightarrow> nat \<Rightarrow> bool option" where
  "kit_bits_isset me i = do { b \<leftarrow> peek me (i div 8); Some (b AND bit_of_byte i \<noteq> 0) }"

definition kit_bits_copy :: "bytes \<Rightarrow> bytes \<Rightarrow> nat \<Rightarrow> (nat \<times> bytes) option" where
  "kit_bits_copy d s num_bits =
     (let num_bytes = (num_bits + 7) div 8
      in if length d < num_bytes \<or> length s < num_bytes then None
         else let d = take num_bytes s @ drop num_bytes d
              in if 0 < num_bits mod 8
                 then do { b \<leftarrow> peek d (num_bytes - 1);
                           d \<leftarrow> poke d (num_bytes - 1) (b AND high_bits num_bits);
                           Some (num_bytes, d) }
                 else Some (num_bytes, d))"

definition kit_bits_equal :: "bytes \<Rightarrow> bytes \<Rightarrow> nat \<Rightarrow> bool option" where
  "kit_bits_equal s1 s2 num_bits =
     (let num_bytes = num_bits div 8
      in if length s1 < num_bytes \<or> length s2 < num_bytes then None
         else if take num_bytes s1 \<noteq> take num_bytes s2 then Some False
         else if num_bits mod 8 = 0 then Some True
         else do { x \<leftarrow> peek s1 num_bytes; y \<leftarrow> peek s2 num_bytes;
                   Some (drop_bit (8 - num_bits mod 8) (x XOR y) = 0) })"

fun any_loop :: "bytes \<Rightarrow> nat \<Rightarrow> bool option" where
  "any_loop bits 0 = Some False"
| "any_loop bits (Suc n) =
     do { b \<leftarrow> peek bits 0; if b \<noteq> 0 then Some True else any_loop (tl bits) n }"

definition kit_bits_isset_any :: "bytes \<Rightarrow> nat \<Rightarrow> bool option" where
  "kit_bits_isset_any bits num_bits =
     do { found \<leftarrow> any_loop bits (num_bits div 8);
          if found then Some True
          else if 0 < num_bits mod 8
          then do { b \<leftarrow> peek bits (num_bits div 8); Some (b AND high_bits num_bits \<noteq> 0) }
          else Some False }"

text \<open>The bits a mask stands for\<close>

definition mask_bit :: "bytes \<Rightarrow> nat \<Rightarrow> bool" where
  "mask_bit me i = bit (me ! (i div 8)) (7 - i mod 8)"

lemma bit_bit_of_byte: "bit (bit_of_byte i) k \<longleftrightarrow> k = 7 - i mod 8"
proof -
  have "7 - i mod 8 < 8"
    by simp
  then show ?thesis
    by (auto simp: bit_of_byte_def bit_simps)
qed

lemma bit_0xFF: "bit (0xFF :: u32) j \<longleftrightarrow> j < 8"
proof -
  have ff: "(0xFF :: u32) = mask 8"
    by (simp add: mask_eq_exp_minus_1)
  show ?thesis
    unfolding ff bit_mask_iff by auto
qed

lemma bit_high_bits: "0 < n mod 8 \<Longrightarrow> k < 8 \<Longrightarrow> bit (high_bits n) k \<longleftrightarrow> 8 - n mod 8 \<le> k"
  unfolding high_bits_def bit_ucast_iff bit_push_bit_iff bit_0xFF by auto

lemma bit_of_byte_and: "b AND bit_of_byte i \<noteq> 0 \<longleftrightarrow> bit b (7 - i mod 8)"
  unfolding bit_eq_iff [of "b AND bit_of_byte i"] bit_and_iff bit_bit_of_byte by auto

lemma same_bit: "7 - i mod 8 = 7 - j mod 8 \<and> i div 8 = j div 8 \<longleftrightarrow> i = (j :: nat)"
proof -
  have "i mod 8 < 8" "j mod 8 < 8"
    by simp_all
  then have "7 - i mod 8 = 7 - j mod 8 \<longleftrightarrow> i mod 8 = j mod 8"
    by linarith
  then show ?thesis
    using div_mult_mod_eq [of i 8] div_mult_mod_eq [of j 8] by metis
qed

text \<open>Bit masks behave as arrays of bits: within the mask, a bit reads as set after \<^verbatim>\<open>kit_bits_set\<close> and as not set
  after \<^verbatim>\<open>kit_bits_clear\<close>, and all other bits read as before.\<close>

theorem kit_bits_get_set:
  assumes "i < 8 * length me" and "j < 8 * length me"
  shows "kit_bits_isset me j = Some (mask_bit me j) \<and>
    do { me' \<leftarrow> kit_bits_set me i; kit_bits_isset me' j } = Some (j = i \<or> mask_bit me j) \<and>
    do { me' \<leftarrow> kit_bits_clear me i; kit_bits_isset me' j } = Some (j \<noteq> i \<and> mask_bit me j)"
proof -
  have in_mask: "i div 8 < length me" "j div 8 < length me"
    using assms by auto
  have "bit (me ! (j div 8) OR bit_of_byte i) (7 - j mod 8) \<longleftrightarrow> mask_bit me j \<or> 7 - j mod 8 = 7 - i mod 8"
    "bit (me ! (j div 8) AND NOT (bit_of_byte i)) (7 - j mod 8) \<longleftrightarrow> mask_bit me j \<and> 7 - j mod 8 \<noteq> 7 - i mod 8"
    by (auto simp: bit_simps bit_bit_of_byte mask_bit_def dest: bit_imp_le_length)
  then show ?thesis
    using in_mask same_bit [of j i]
    by (cases "j div 8 = i div 8") (auto simp: kit_bits_isset_def kit_bits_set_def kit_bits_clear_def bit_of_byte_and mask_bit_def)
qed

text \<open>A range of bits is a number of whole bytes and the top bits of the byte after them.\<close>

lemma mask_bit_split: "t < 8 \<Longrightarrow> mask_bit me (8 * q + t) = bit (me ! q) (7 - t)"
  by (simp add: mask_bit_def)

lemma all_bits_split:
  fixes n :: nat
  shows "(\<forall>j < n. P j) \<longleftrightarrow> (\<forall>q < n div 8. \<forall>t < 8. P (8 * q + t)) \<and> (\<forall>t < n mod 8. P (8 * (n div 8) + t))" (is "_ \<longleftrightarrow> ?R")
proof
  assume all: "\<forall>j < n. P j"
  have "8 * q + t < n" if "q < n div 8" "t < 8" for q t
    using that by linarith
  moreover have "8 * (n div 8) + t < n" if "t < n mod 8" for t
    using that div_mult_mod_eq [of n 8] by linarith
  ultimately show ?R
    using all by blast
next
  assume R: ?R
  show "\<forall>j < n. P j"
  proof (intro allI impI)
    fix j
    assume "j < n"
    then consider "j div 8 < n div 8" | "j div 8 = n div 8" "j mod 8 < n mod 8"
      using div_mult_mod_eq [of n 8] div_mult_mod_eq [of j 8] by (metis div_le_mono less_imp_le_nat nat_add_left_cancel_less nat_less_le)
    then have "P (8 * (j div 8) + j mod 8)"
    proof cases
      case 1
      show ?thesis
        by (rule R [THEN conjunct1, rule_format, OF 1]) simp
    next
      case 2
      show ?thesis
        unfolding 2(1) by (rule R [THEN conjunct2, rule_format, OF 2(2)])
    qed
    then show "P j"
      by simp
  qed
qed

lemma byte_eq_iff: "x = y \<longleftrightarrow> (\<forall>t < 8. bit x (7 - t) = bit y (7 - t))" for x y :: u8
proof
  assume all: "\<forall>t < 8. bit x (7 - t) = bit y (7 - t)"
  have "bit x k = bit y k" if "k < 8" for k
    using all [rule_format, of "7 - k"] that by simp
  then show "x = y"
    by (intro bit_word_eqI) simp
qed simp

lemma top_bits_zero: "r \<le> 8 \<Longrightarrow> drop_bit (8 - r) (x XOR y) = 0 \<longleftrightarrow> (\<forall>t < r. bit x (7 - t) = bit y (7 - t))" for x y :: u8
  unfolding byte_eq_iff [of "drop_bit (8 - r) (x XOR y)"]
proof safe
  fix t
  assume r: "r \<le> 8" and z: "\<forall>t < 8. bit (drop_bit (8 - r) (x XOR y)) (7 - t) = bit 0 (7 - t)" and t: "t < r"
  have "\<not> bit (drop_bit (8 - r) (x XOR y)) (r - 1 - t)"
    using z [rule_format, of "7 - (r - 1 - t)"] r t by simp
  then show "bit x (7 - t) \<Longrightarrow> bit y (7 - t)" "bit y (7 - t) \<Longrightarrow> bit x (7 - t)"
    using r t by (auto simp: bit_simps)
next
  fix t
  assume r: "r \<le> 8" and e: "\<forall>t < r. bit x (7 - t) = bit y (7 - t)" and t: "t < (8 :: nat)"
  show "bit (drop_bit (8 - r) (x XOR y)) (7 - t) \<Longrightarrow> bit 0 (7 - t)"
  proof (cases "7 - t < r")
    case True
    then have "r - 1 - (7 - t) < r" "7 - (r - 1 - (7 - t)) = 8 - r + (7 - t)"
      using r by linarith+
    then show "bit (drop_bit (8 - r) (x XOR y)) (7 - t) \<Longrightarrow> bit 0 (7 - t)"
      using e [rule_format, of "r - 1 - (7 - t)"] by (simp add: bit_drop_bit_eq bit_xor_iff)
  next
    case False
    then show "bit (drop_bit (8 - r) (x XOR y)) (7 - t) \<Longrightarrow> bit 0 (7 - t)"
      by (auto simp: bit_simps dest!: bit_imp_le_length)
  qed
qed simp


lemma take_eq_bits:
  "n \<le> length xs \<Longrightarrow> n \<le> length ys \<Longrightarrow>
     take n xs = take n ys \<longleftrightarrow> (\<forall>q < n. \<forall>t < 8. bit (xs ! q :: u8) (7 - t) = bit (ys ! q) (7 - t))"
  by (auto simp: list_eq_iff_nth_eq simp flip: byte_eq_iff)

lemma any_loop_eq: "n \<le> length bits \<Longrightarrow> any_loop bits n = Some (\<exists>q < n. bits ! q \<noteq> 0)"
proof (induction n arbitrary: bits)
  case (Suc n)
  then obtain b bs where bs: "bits = b # bs" "n \<le> length bs"
    by (cases bits) auto
  have "(\<exists>q < Suc n. (b # bs) ! q \<noteq> 0) \<longleftrightarrow> b \<noteq> 0 \<or> (\<exists>q < n. bs ! q \<noteq> 0)"
    by (auto simp: less_Suc_eq_0_disj)
  then show ?case
    using Suc.IH [OF bs(2)] bs(1) by simp
qed simp

lemma bits_equal_ok:
  assumes "num_bits \<le> 8 * length s1" and "num_bits \<le> 8 * length s2"
  shows "kit_bits_equal s1 s2 num_bits = Some (\<forall>j < num_bits. mask_bit s1 j = mask_bit s2 j)"
proof -
  have n: "num_bits div 8 \<le> length s1" "num_bits div 8 \<le> length s2"
    "num_bits mod 8 \<noteq> 0 \<Longrightarrow> num_bits div 8 < length s1" "num_bits mod 8 \<noteq> 0 \<Longrightarrow> num_bits div 8 < length s2"
    using assms div_mult_mod_eq [of num_bits 8] by linarith+
  have top: "drop_bit (8 - num_bits mod 8) (x XOR y) = 0 \<longleftrightarrow> (\<forall>t < num_bits mod 8. bit x (7 - t) = bit y (7 - t))" for x y :: u8
    by (rule top_bits_zero) (simp add: less_imp_le)
  have "(\<forall>j < num_bits. mask_bit s1 j = mask_bit s2 j) \<longleftrightarrow>
    take (num_bits div 8) s1 = take (num_bits div 8) s2 \<and>
    drop_bit (8 - num_bits mod 8) (s1 ! (num_bits div 8) XOR s2 ! (num_bits div 8)) = 0"
    unfolding all_bits_split [of num_bits] take_eq_bits [OF n(1,2)] top by (simp add: mask_bit_split)
  then show ?thesis
    using n by (auto simp: kit_bits_equal_def Let_def)
qed

lemma and_high_bits: "0 < n mod 8 \<Longrightarrow> b AND high_bits n \<noteq> 0 \<longleftrightarrow> (\<exists>t < n mod 8. bit b (7 - t))"
proof -
  assume n: "0 < n mod 8"
  have "bit (high_bits n) (7 - t) \<longleftrightarrow> t < n mod 8" if "t < 8" for t
    using bit_high_bits [OF n, of "7 - t"] that by auto
  moreover have "n mod 8 < 8"
    by simp
  ultimately have "(\<forall>t < 8. \<not> (bit b (7 - t) \<and> bit (high_bits n) (7 - t))) \<longleftrightarrow> (\<forall>t < n mod 8. \<not> bit b (7 - t))"
    by (meson less_trans)
  then show ?thesis
    using byte_eq_iff [of "b AND high_bits n" 0] by (simp add: bit_and_iff)
qed

lemma bits_any_ok:
  assumes "num_bits \<le> 8 * length bits"
  shows "kit_bits_isset_any bits num_bits = Some (\<exists>j < num_bits. mask_bit bits j)"
proof -
  have n: "num_bits div 8 \<le> length bits" "num_bits mod 8 \<noteq> 0 \<Longrightarrow> num_bits div 8 < length bits"
    using assms div_mult_mod_eq [of num_bits 8] by linarith+
  have "(\<exists>j < num_bits. mask_bit bits j) \<longleftrightarrow>
    (\<exists>q < num_bits div 8. bits ! q \<noteq> 0) \<or> (\<exists>t < num_bits mod 8. bit (bits ! (num_bits div 8)) (7 - t))"
    using all_bits_split [of num_bits "\<lambda>j. \<not> mask_bit bits j"] byte_eq_iff [of _ 0] by (auto simp: mask_bit_split)
  then show ?thesis
    using n and_high_bits [of num_bits] by (auto simp: kit_bits_isset_any_def any_loop_eq)
qed


lemma bits_copy_ok:
  assumes "num_bits \<le> 8 * length d" and "num_bits \<le> 8 * length s"
  shows "\<exists>d'. kit_bits_copy d s num_bits = Some ((num_bits + 7) div 8, d') \<and> length d' = length d \<and>
    (\<forall>j < 8 * length d. mask_bit d' j =
       (if j < num_bits then mask_bit s j else 8 * ((num_bits + 7) div 8) \<le> j \<and> mask_bit d j))"
proof -
  define n where "n = (num_bits + 7) div 8"
  define r where "r = num_bits mod 8"
  have nd: "n = num_bits div 8 + (if 0 < r then 1 else 0)"
    unfolding n_def r_def by presburger
  have n: "n \<le> length d" "n \<le> length s"
    using assms unfolding n_def by linarith+
  have nr: "num_bits = (if 0 < r then 8 * (n - 1) + r else 8 * n)" "0 < r \<Longrightarrow> 0 < n" "r < 8"
    using nd div_mult_mod_eq [of num_bits 8] by (auto simp: r_def)
  define d0 where "d0 = take n s @ drop n d"
  define d' where "d' = (if 0 < r then d0[n - 1 := d0 ! (n - 1) AND high_bits num_bits] else d0)"
  have len: "length d0 = length d" "length d' = length d"
    using n by (simp_all add: d0_def d'_def)
  have "n - 1 < length d0" if "0 < r"
    using n nr(2) len that by simp
  then have "kit_bits_copy d s num_bits = Some (n, d')"
    using n by (simp add: kit_bits_copy_def Let_def n_def [symmetric] r_def [symmetric] d0_def [symmetric] d'_def)
  moreover have "mask_bit d' j = (if j < num_bits then mask_bit s j else 8 * n \<le> j \<and> mask_bit d j)" if "j < 8 * length d" for j
  proof -
    define q t where "q = j div 8" and "t = j mod 8"
    have j: "j = 8 * q + t" "t < 8" "q < length d"
      using that by (simp_all add: q_def t_def)
    have d0: "d0 ! q = (if q < n then s ! q else d ! q)"
      using n j by (auto simp: d0_def nth_append)
    have "bit (high_bits num_bits) (7 - t) \<longleftrightarrow> t < r" if "0 < r"
      using bit_high_bits [of num_bits "7 - t"] that j(2) by (auto simp: r_def)
    then have "bit (d' ! q) (7 - t) = (if q < n then bit (s ! q) (7 - t) \<and> (0 < r \<and> q = n - 1 \<longrightarrow> t < r) else bit (d ! q) (7 - t))"
      using d0 len j n nr(2) by (auto simp: d'_def nth_list_update bit_and_iff)
    moreover have "j < num_bits \<longleftrightarrow> q < n \<and> (0 < r \<and> q = n - 1 \<longrightarrow> t < r)" "8 * n \<le> j \<longleftrightarrow> \<not> q < n"
      using j nr by auto
    ultimately show ?thesis
      unfolding j(1) mask_bit_split [OF j(2)] by auto
  qed
  ultimately show ?thesis
    using len by (auto simp: n_def)
qed

text \<open>C38: The operations on ranges of bits. Within the masks, \<^verbatim>\<open>kit_bits_copy\<close> copies exactly the first bits, clears the
  remaining bits of the last byte it writes and leaves the bytes after it alone, \<^verbatim>\<open>kit_bits_equal\<close> compares exactly the first bits, and
  \<^verbatim>\<open>kit_bits_isset_any\<close> tells whether one of them is set.\<close>

theorem kit_bits_range_correct:
  assumes "num_bits \<le> 8 * length d" and "num_bits \<le> 8 * length s"
  shows "(\<exists>d'. kit_bits_copy d s num_bits = Some ((num_bits + 7) div 8, d') \<and> length d' = length d \<and>
      (\<forall>j < 8 * length d. mask_bit d' j =
         (if j < num_bits then mask_bit s j else 8 * ((num_bits + 7) div 8) \<le> j \<and> mask_bit d j))) \<and>
    kit_bits_equal d s num_bits = Some (\<forall>j < num_bits. mask_bit d j = mask_bit s j) \<and>
    kit_bits_isset_any d num_bits = Some (\<exists>j < num_bits. mask_bit d j)"
  using bits_copy_ok [OF assms] bits_equal_ok [OF assms] bits_any_ok [OF assms(1)] by (intro conjI)

theorem kit_bits_range_correct_witness:
  "\<exists>d'. kit_bits_copy [0x0f, 0xff, 0xff] [0xaa, 0xff] 10 = Some (2, d') \<and> length d' = 3 \<and> mask_bit d' 9 \<and> \<not> mask_bit d' 10 \<and> mask_bit d' 16 \<and>
     kit_bits_equal [0x0f, 0xff, 0xff] [0xaa, 0xff] 10 = Some False \<and> kit_bits_isset_any [0x0f, 0xff, 0xff] 10 = Some True"
proof -
  let ?d = "[0x0f, 0xff, 0xff] :: u8 list" and ?s = "[0xaa, 0xff] :: u8 list"
  have c: "\<exists>d'. kit_bits_copy ?d ?s 10 = Some ((10 + 7) div 8, d') \<and> length d' = length ?d \<and>
      (\<forall>j < 8 * length ?d. mask_bit d' j = (if j < 10 then mask_bit ?s j else 8 * ((10 + 7) div 8) \<le> j \<and> mask_bit ?d j))"
    "kit_bits_equal ?d ?s 10 = Some (\<forall>j < 10. mask_bit ?d j = mask_bit ?s j)"
    "kit_bits_isset_any ?d 10 = Some (\<exists>j < 10. mask_bit ?d j)"
    using kit_bits_range_correct [of 10 ?d ?s] by simp_all
  have b: "mask_bit ?s 9" "mask_bit ?d 16" "\<not> mask_bit ?d 0" "mask_bit ?s 0" "mask_bit ?d 9" by code_simp+
  have "\<not> (\<forall>j < 10. mask_bit ?d j = mask_bit ?s j)" "\<exists>j < 10. mask_bit ?d j"
    using b(3,4) by (metis zero_less_numeral) (rule exI [of _ 9], use b(5) in simp)
  moreover obtain d' where "kit_bits_copy ?d ?s 10 = Some (2, d')" "length d' = 3"
    and m: "\<forall>j < 24. mask_bit d' j = (if j < 10 then mask_bit ?s j else 16 \<le> j \<and> mask_bit ?d j)"
    using c(1) by auto
  moreover have "mask_bit d' 9" "\<not> mask_bit d' 10" "mask_bit d' 16"
    using m [rule_format, of 9] m [rule_format, of 10] m [rule_format, of 16] b(1,2) by simp_all
  ultimately show ?thesis using c(2,3) by (intro exI [of _ d']) simp
qed

section \<open>Unsigned integers\<close>

text \<open>The compiler's count of leading zeros, which is undefined for 0\<close>

definition builtin_clzll :: "u64 \<Rightarrow> nat option" where
  "builtin_clzll v = find (\<lambda>i. bit v (63 - i)) [0..<64]"

definition sxe_uint64_log2 :: "u64 \<Rightarrow> nat option" where
  "sxe_uint64_log2 v = do { n \<leftarrow> builtin_clzll v; Some (63 - n) }"

definition sxe_uint64_align :: "u64 \<Rightarrow> u64 \<Rightarrow> u64" where
  "sxe_uint64_align v multiple =
     (let m = (if multiple AND (multiple - 1) \<noteq> 0 then v mod multiple else v AND (multiple - 1))
      in if m \<noteq> 0 then v - m + multiple else v)"

definition sxe_uint64_cmp :: "u64 \<Rightarrow> u64 \<Rightarrow> int" where
  "sxe_uint64_cmp left right = (if left < right then - 1 else if left = right then 0 else 1)"

text \<open>The logarithms of the byte values, each in a nibble\<close>

definition sxe_log2_table :: "u32 list" where
  "sxe_log2_table =
    [0x22221100, 0x33333333, 0x44444444, 0x44444444, 0x55555555, 0x55555555, 0x55555555, 0x55555555,
     0x66666666, 0x66666666, 0x66666666, 0x66666666, 0x66666666, 0x66666666, 0x66666666, 0x66666666,
     0x77777777, 0x77777777, 0x77777777, 0x77777777, 0x77777777, 0x77777777, 0x77777777, 0x77777777,
     0x77777777, 0x77777777, 0x77777777, 0x77777777, 0x77777777, 0x77777777, 0x77777777, 0x77777777]"

definition sxe_mask_table :: "u32 list" where
  "sxe_mask_table =
    [0x00000001, 0x00000003, 0x00000007, 0x0000000F, 0x0000001F, 0x00000003F, 0x0000007F, 0x000000FF,
     0x000001FF, 0x000003FF, 0x000007FF, 0x00000FFF, 0x00001FFF, 0x000003FFF, 0x00007FFF, 0x0000FFFF,
     0x0001FFFF, 0x0003FFFF, 0x0007FFFF, 0x000FFFFF, 0x001FFFFF, 0x0003FFFFF, 0x007FFFFF, 0x00FFFFFF,
     0x01FFFFFF, 0x03FFFFFF, 0x07FFFFFF, 0x0FFFFFFF, 0x1FFFFFFF, 0x03FFFFFFF, 0x7FFFFFFF, 0xFFFFFFFF]"

definition log2_lookup :: "u32 \<Rightarrow> u32" where
  "log2_lookup number = drop_bit (unat ((number AND 0x7) * 4)) (sxe_log2_table ! unat (drop_bit 3 number)) AND 0xF"

definition sxe_unsigned_log2 :: "u32 \<Rightarrow> u32" where
  "sxe_unsigned_log2 number =
     (if 0xFFFF < number
      then let shift = (if 0xFFFFFF < number then 24 else 16) in log2_lookup (drop_bit shift number) + of_nat shift
      else if 0xFF < number
      then log2_lookup (drop_bit 8 number) + 8
      else log2_lookup number)"

definition sxe_unsigned_mask :: "u32 \<Rightarrow> u32" where
  "sxe_unsigned_mask number = sxe_mask_table ! unat (sxe_unsigned_log2 number)"

lemma log2_lookup_all: "list_all (\<lambda>n. drop_bit (unat (log2_lookup (word_of_int n))) (word_of_int n :: u32) = 1) [1..255] \<and> log2_lookup 0 = 0"
  by code_simp


lemma log2_lookup_byte:
  assumes "0 < number" and "number \<le> 0xFF"
  shows "drop_bit (unat (log2_lookup number)) number = 1"
proof -
  have "uint number \<in> set [1..255]"
    using assms by (simp add: word_less_def word_le_def)
  then have "drop_bit (unat (log2_lookup (word_of_int (uint number)))) (word_of_int (uint number) :: u32) = 1"
    using log2_lookup_all unfolding list_all_iff by blast
  then show ?thesis
    by simp
qed

lemma log2_lookup_small: "unat (log2_lookup number) < 16"
proof -
  have m: "(0xF :: u32) = mask 4"
    by (simp add: mask_eq_exp_minus_1)
  have "unat (x AND 0xF) < 16" for x :: u32
    unfolding m using and_mask_lt_2p [of x 4] by (subst of_nat_less_iff [where 'a = int, symmetric]) simp
  then show ?thesis
    unfolding log2_lookup_def .
qed

lemma unat_drop_bit_div: "unat (drop_bit n w) = unat w div 2 ^ n" for w :: "'a::len word"
  unfolding unat_drop_bit_eq by (rule drop_bit_eq_div)

lemma drop_bit_1: "drop_bit n w = 1 \<longleftrightarrow> 2 ^ n \<le> unat w \<and> unat w < 2 ^ Suc n" for w :: "'a::len word"
proof -
  have "drop_bit n w = 1 \<longleftrightarrow> unat w div 2 ^ n = 1"
    unfolding word_unat_eq_iff unat_drop_bit_div by simp
  also have "\<dots> \<longleftrightarrow> 2 ^ n \<le> unat w \<and> unat w < 2 ^ Suc n"
  proof
    assume "unat w div 2 ^ n = 1"
    then have "unat w = 2 ^ n + unat w mod 2 ^ n"
      using mult_div_mod_eq [of "2 ^ n" "unat w"] by simp
    moreover have "unat w mod 2 ^ n < 2 ^ n"
      by simp
    ultimately show "2 ^ n \<le> unat w \<and> unat w < 2 ^ Suc n"
      unfolding power_Suc by linarith
  next
    assume "2 ^ n \<le> unat w \<and> unat w < 2 ^ Suc n"
    then show "unat w div 2 ^ n = 1"
      by (intro div_nat_eqI) simp_all
  qed
  finally show ?thesis .
qed

lemma sxe_unsigned_log2_bit:
  assumes "number \<noteq> 0"
  shows "drop_bit (unat (sxe_unsigned_log2 number)) number = 1" "unat (sxe_unsigned_log2 number) < 32"
proof -
  define shift :: nat where "shift = (if 0xFFFFFF < number then 24 else if 0xFFFF < number then 16 else if 0xFF < number then 8 else 0)"
  define w where "w = drop_bit shift number"
  have eq: "sxe_unsigned_log2 number = log2_lookup w + of_nat shift"
    by (auto simp: sxe_unsigned_log2_def shift_def w_def Let_def word_less_nat_alt)
  have "unat w = unat number div 2 ^ shift"
    unfolding w_def by (rule unat_drop_bit_div)
  moreover have "unat number < 2 ^ 32"
    using unsigned_less [of number, where 'a = nat] by simp
  ultimately have "0 < unat w" "unat w \<le> 0xFF"
    using assms by (auto simp: shift_def word_less_nat_alt unat_gt_0 split: if_splits)
  then have w: "drop_bit (unat (log2_lookup w)) w = 1"
    by (intro log2_lookup_byte) (simp_all add: word_less_nat_alt word_le_nat_alt)
  have sum: "unat (sxe_unsigned_log2 number) = unat (log2_lookup w) + shift"
    using log2_lookup_small [of w] by (simp add: eq unat_word_ariths shift_def)
  then show one: "drop_bit (unat (sxe_unsigned_log2 number)) number = 1"
    using w by (simp add: w_def)
  have "2 ^ unat (sxe_unsigned_log2 number) < (2 :: nat) ^ 32"
    using one [unfolded drop_bit_1] \<open>unat number < 2 ^ 32\<close> by linarith
  then show "unat (sxe_unsigned_log2 number) < 32"
    by (rule power_less_imp_less_exp [rotated]) simp
qed

lemma mask_table: "i < 32 \<Longrightarrow> sxe_mask_table ! i = mask (Suc i)"
proof -
  have "list_all (\<lambda>i. sxe_mask_table ! i = mask (Suc i)) [0..<32]"
    by code_simp
  then show "i < 32 \<Longrightarrow> sxe_mask_table ! i = mask (Suc i)"
    by (auto simp: list_all_iff)
qed

lemma uint64_log2_ok:
  assumes "v \<noteq> 0"
  shows "\<exists>n. sxe_uint64_log2 v = Some n \<and> 2 ^ n \<le> unat v \<and> unat v < 2 ^ Suc n"
proof -
  obtain k where k: "k < 64" "bit v k"
    using assms bit_word_eqI [of v 0] by auto
  then obtain i where i: "find (\<lambda>i. bit v (63 - i)) [0..<64] = Some i"
    by (cases "find (\<lambda>i. bit v (63 - i)) [0..<64]") (auto simp: find_None_iff dest!: spec [of _ "63 - k"])
  then have "i < 64" "bit v (63 - i)" and above: "\<And>j. j < i \<Longrightarrow> \<not> bit v (63 - j)"
    by (auto simp: find_Some_iff)
  have "drop_bit (63 - i) v = 1"
  proof (rule bit_word_eqI)
    fix n
    assume "n < LENGTH(64)"
    show "bit (drop_bit (63 - i) v) n = bit 1 n"
    proof (cases "0 < n \<and> n \<le> i")
      case True
      then have "\<not> bit v (63 - i + n)"
        using above [of "i - n"] \<open>i < 64\<close> by simp
      then show ?thesis
        using True by (simp add: bit_drop_bit_eq bit_1_iff)
    next
      case False
      then show ?thesis
        using \<open>bit v (63 - i)\<close> \<open>i < 64\<close> by (auto simp: bit_drop_bit_eq bit_1_iff dest: bit_imp_le_length)
    qed
  qed
  then show ?thesis
    unfolding drop_bit_1 using i by (simp add: sxe_uint64_log2_def builtin_clzll_def)
qed


text \<open>The logarithms. For a number other than 0, \<^verbatim>\<open>sxe_unsigned_log2\<close>, which looks bytes up in a table of nibbles, and
  \<^verbatim>\<open>sxe_uint64_log2\<close> return the largest exponent of a power of two that is not above the number, and \<^verbatim>\<open>sxe_unsigned_mask\<close>
  returns the smallest mask of low bits that covers it.\<close>

lemma log2_correct:
  assumes "number \<noteq> 0" and "v \<noteq> 0"
  shows "2 ^ unat (sxe_unsigned_log2 number) \<le> unat number \<and> unat number < 2 ^ Suc (unat (sxe_unsigned_log2 number)) \<and>
    sxe_unsigned_mask number = mask (Suc (unat (sxe_unsigned_log2 number))) \<and>
    (\<exists>n. sxe_uint64_log2 v = Some n \<and> 2 ^ n \<le> unat v \<and> unat v < 2 ^ Suc n)"
  using sxe_unsigned_log2_bit [OF assms(1)] uint64_log2_ok [OF assms(2)]
  unfolding drop_bit_1 by (simp add: sxe_unsigned_mask_def mask_table)

text \<open>The test \<open>m AND (m - 1) = 0\<close> tells powers of two.\<close>

lemma and_pred_power: "0 < m \<Longrightarrow> m AND (m - 1) = 0 \<Longrightarrow> \<exists>k. m = 2 ^ k" for m :: nat
proof (induction m rule: less_induct)
  case (less m)
  show ?case
  proof (cases "even m")
    case True
    then obtain n where n: "m = 2 * n" "0 < n"
      using less.prems by (auto elim: evenE)
    have "(2 * n - Suc 0) div 2 = n - Suc 0"
      using n by arith
    then have "m AND (m - 1) = 2 * (n AND (n - 1))"
      using n by (simp add: and_nat_rec [of "2 * n"])
    then obtain k where "n = 2 ^ k"
      using less.IH [of n] less.prems n by auto
    then show ?thesis
      using n by (intro exI [of _ "Suc k"]) simp
  next
    case False
    then obtain n where n: "m = 2 * n + 1"
      by (auto elim: oddE)
    have "m AND (m - 1) = 2 * n"
      using n by (simp add: and_nat_rec [of "Suc (2 * n)"])
    then show ?thesis
      using less.prems n by (intro exI [of _ 0]) simp
  qed
qed

lemma align_mod:
  fixes v multiple :: u64
  assumes "0 < multiple" and "multiple AND (multiple - 1) = 0"
  shows "v AND (multiple - 1) = v mod multiple"
proof -
  have pred: "unat (multiple - 1) = unat multiple - 1"
    using assms(1) by (simp add: unat_minus_one word_gt_0)
  have "unat multiple AND (unat multiple - 1) = 0"
    using assms(2) unfolding pred [symmetric] unsigned_and_eq [symmetric] by simp
  moreover have "0 < unat multiple"
    using assms(1) by (simp add: unat_gt_0)
  ultimately obtain k where k: "unat multiple = 2 ^ k"
    using and_pred_power by blast
  have "unat (v AND (multiple - 1)) = unat v AND mask k"
    unfolding unsigned_and_eq pred k by (simp add: mask_eq_exp_minus_1)
  also have "\<dots> = unat v mod unat multiple"
    by (simp add: k take_bit_eq_mod flip: take_bit_eq_mask)
  finally show ?thesis
    by (simp add: word_unat_eq_iff unat_mod)
qed

text \<open>Aligning a value returns the smallest multiple that is not below it, whether or not the multiple is a power of
  two, as long as that does not exceed 64 bits.\<close>

lemma uint64_align_correct:
  assumes "0 < multiple" and "unat v + unat multiple \<le> 2 ^ 64"
  shows "unat multiple dvd unat (sxe_uint64_align v multiple) \<and> v \<le> sxe_uint64_align v multiple \<and>
    unat (sxe_uint64_align v multiple) - unat v < unat multiple"
proof -
  have align: "sxe_uint64_align v multiple = (if v mod multiple \<noteq> 0 then v - v mod multiple + multiple else v)"
    using align_mod [OF assms(1)] by (simp add: sxe_uint64_align_def)
  have pos: "0 < unat multiple"
    using assms(1) by (simp add: unat_gt_0)
  define m where "m = unat v mod unat multiple"
  have m: "unat (v mod multiple) = m" "m \<le> unat v" "m < unat multiple"
    using pos by (simp_all add: m_def unat_mod)
  show ?thesis
  proof (cases "m = 0")
    case True
    then have "v mod multiple = 0"
      using m(1) by (simp add: word_unat_eq_iff)
    then show ?thesis
      using True pos by (simp add: align m_def dvd_eq_mod_eq_0)
  next
    case False
    have sub: "unat (v - v mod multiple) = unat v - m"
      using m by (subst unat_sub) (simp_all add: word_le_nat_alt)
    have sum: "unat (v - v mod multiple + multiple) = unat v - m + unat multiple"
      unfolding sub [symmetric] using False m(2) assms(2) sub by (intro unat_plus_no_overflow) simp
    have "unat multiple dvd unat v - m + unat multiple"
      unfolding m_def by (intro dvd_add dvd_minus_mod dvd_refl)
    moreover have "unat v \<le> unat v - m + unat multiple" "unat v - m + unat multiple - unat v < unat multiple"
      using m(2,3) False by linarith+
    moreover have "v mod multiple \<noteq> 0"
      using False m(1) by (metis unsigned_0)
    ultimately show ?thesis
      unfolding align word_le_nat_alt by (simp only: sum if_True simp_thms)
  qed
qed

end
