(* ===== verification/Kit_Strings.thy ===== *)
theory Kit_Strings
  imports Sxe_Hex Kit_Base_Spec
begin

text \<open>
  Models of the string utilities: \<^verbatim>\<open>lib-sxe-util/sxe-rot13.c\<close> and \<^verbatim>\<open>sxe-str.c\<close>, \<^verbatim>\<open>lib-kit/kit-bool.c\<close> and
  \<^verbatim>\<open>kit-basename.c\<close>, and the printable forms of identifiers of \<^verbatim>\<open>lib-kit/kit-guid.c\<close> and \<^verbatim>\<open>kit-deviceid.c\<close>. A C string is
  the list of its bytes before the terminator and \<open>c_at\<close> reads the terminator at its end. A returned pointer into a string is
  its position. An access outside a buffer is \<open>None\<close>. The calls of the logging package are left out.
\<close>

section \<open>ROT13\<close>

definition sxe_rot13_char :: bytes where
  "sxe_rot13_char = [
     0x00, 0x01, 0x02, 0x03, 0x04, 0x05, 0x06, 0x07, 0x08, 0x09, 0x0a, 0x0b, 0x0c, 0x0d, 0x0e, 0x0f,
     0x10, 0x11, 0x12, 0x13, 0x14, 0x15, 0x16, 0x17, 0x18, 0x19, 0x1a, 0x1b, 0x1c, 0x1d, 0x1e, 0x1f,
     0x20, 0x21, 0x22, 0x23, 0x24, 0x25, 0x26, 0x27, 0x28, 0x29, 0x2a, 0x2b, 0x2c, 0x2d, 0x2e, 0x2f,
     0x30, 0x31, 0x32, 0x33, 0x34, 0x35, 0x36, 0x37, 0x38, 0x39, 0x3a, 0x3b, 0x3c, 0x3d, 0x3e, 0x3f,
     0x40, 0x4e, 0x4f, 0x50, 0x51, 0x52, 0x53, 0x54, 0x55, 0x56, 0x57, 0x58, 0x59, 0x5a, 0x41, 0x42,
     0x43, 0x44, 0x45, 0x46, 0x47, 0x48, 0x49, 0x4a, 0x4b, 0x4c, 0x4d, 0x5b, 0x5c, 0x5d, 0x5e, 0x5f,
     0x60, 0x6e, 0x6f, 0x70, 0x71, 0x72, 0x73, 0x74, 0x75, 0x76, 0x77, 0x78, 0x79, 0x7a, 0x61, 0x62,
     0x63, 0x64, 0x65, 0x66, 0x67, 0x68, 0x69, 0x6a, 0x6b, 0x6c, 0x6d, 0x7b, 0x7c, 0x7d, 0x7e, 0x7f,
     0x80, 0x81, 0x82, 0x83, 0x84, 0x85, 0x86, 0x87, 0x88, 0x89, 0x8a, 0x8b, 0x8c, 0x8d, 0x8e, 0x8f,
     0x90, 0x91, 0x92, 0x93, 0x94, 0x95, 0x96, 0x97, 0x98, 0x99, 0x9a, 0x9b, 0x9c, 0x9d, 0x9e, 0x9f,
     0xa0, 0xa1, 0xa2, 0xa3, 0xa4, 0xa5, 0xa6, 0xa7, 0xa8, 0xa9, 0xaa, 0xab, 0xac, 0xad, 0xae, 0xaf,
     0xb0, 0xb1, 0xb2, 0xb3, 0xb4, 0xb5, 0xb6, 0xb7, 0xb8, 0xb9, 0xba, 0xbb, 0xbc, 0xbd, 0xbe, 0xbf,
     0xc0, 0xc1, 0xc2, 0xc3, 0xc4, 0xc5, 0xc6, 0xc7, 0xc8, 0xc9, 0xca, 0xcb, 0xcc, 0xcd, 0xce, 0xcf,
     0xd0, 0xd1, 0xd2, 0xd3, 0xd4, 0xd5, 0xd6, 0xd7, 0xd8, 0xd9, 0xda, 0xdb, 0xdc, 0xdd, 0xde, 0xdf,
     0xe0, 0xe1, 0xe2, 0xe3, 0xe4, 0xe5, 0xe6, 0xe7, 0xe8, 0xe9, 0xea, 0xeb, 0xec, 0xed, 0xee, 0xef,
     0xf0, 0xf1, 0xf2, 0xf3, 0xf4, 0xf5, 0xf6, 0xf7, 0xf8, 0xf9, 0xfa, 0xfb, 0xfc, 0xfd, 0xfe, 0xff]"

definition sxe_rot13_hex_to_nibble :: bytes where
  "sxe_rot13_hex_to_nibble = [
     0xff, 0xff, 0xff, 0xff, 0xff, 0xff, 0xff, 0xff, 0xff, 0xff, 0xff, 0xff, 0xff, 0xff, 0xff, 0xff,
     0xff, 0xff, 0xff, 0xff, 0xff, 0xff, 0xff, 0xff, 0xff, 0xff, 0xff, 0xff, 0xff, 0xff, 0xff, 0xff,
     0xff, 0xff, 0xff, 0xff, 0xff, 0xff, 0xff, 0xff, 0xff, 0xff, 0xff, 0xff, 0xff, 0xff, 0xff, 0xff,
     0x00, 0x01, 0x02, 0x03, 0x04, 0x05, 0x06, 0x07, 0x08, 0x09, 0xff, 0xff, 0xff, 0xff, 0xff, 0xff,
     0xff, 0xff, 0xff, 0xff, 0xff, 0xff, 0xff, 0xff, 0xff, 0xff, 0xff, 0xff, 0xff, 0xff, 0x0a, 0x0b,
     0x0c, 0x0d, 0x0e, 0x0f, 0xff, 0xff, 0xff, 0xff, 0xff, 0xff, 0xff, 0xff, 0xff, 0xff, 0xff, 0xff,
     0xff, 0xff, 0xff, 0xff, 0xff, 0xff, 0xff, 0xff, 0xff, 0xff, 0xff, 0xff, 0xff, 0xff, 0x0a, 0x0b,
     0x0c, 0x0d, 0x0e, 0x0f, 0xff, 0xff, 0xff, 0xff, 0xff, 0xff, 0xff, 0xff, 0xff, 0xff, 0xff, 0xff,
     0xff, 0xff, 0xff, 0xff, 0xff, 0xff, 0xff, 0xff, 0xff, 0xff, 0xff, 0xff, 0xff, 0xff, 0xff, 0xff,
     0xff, 0xff, 0xff, 0xff, 0xff, 0xff, 0xff, 0xff, 0xff, 0xff, 0xff, 0xff, 0xff, 0xff, 0xff, 0xff,
     0xff, 0xff, 0xff, 0xff, 0xff, 0xff, 0xff, 0xff, 0xff, 0xff, 0xff, 0xff, 0xff, 0xff, 0xff, 0xff,
     0xff, 0xff, 0xff, 0xff, 0xff, 0xff, 0xff, 0xff, 0xff, 0xff, 0xff, 0xff, 0xff, 0xff, 0xff, 0xff,
     0xff, 0xff, 0xff, 0xff, 0xff, 0xff, 0xff, 0xff, 0xff, 0xff, 0xff, 0xff, 0xff, 0xff, 0xff, 0xff,
     0xff, 0xff, 0xff, 0xff, 0xff, 0xff, 0xff, 0xff, 0xff, 0xff, 0xff, 0xff, 0xff, 0xff, 0xff, 0xff,
     0xff, 0xff, 0xff, 0xff, 0xff, 0xff, 0xff, 0xff, 0xff, 0xff, 0xff, 0xff, 0xff, 0xff, 0xff, 0xff,
     0xff, 0xff, 0xff, 0xff, 0xff, 0xff, 0xff, 0xff, 0xff, 0xff, 0xff, 0xff, 0xff, 0xff, 0xff, 0xff]"

definition SXE_ROT13_CHAR :: "u8 \<Rightarrow> u8" where
  "SXE_ROT13_CHAR character = sxe_rot13_char ! unat character"

text \<open>The buffer is the memory from \<^verbatim>\<open>string\<close> on.\<close>

fun sxe_strn_rot13_in_place :: "bytes \<Rightarrow> nat \<Rightarrow> bytes option" where
  "sxe_strn_rot13_in_place buf 0 = Some buf"
| "sxe_strn_rot13_in_place [] (Suc n) = None"
| "sxe_strn_rot13_in_place (c # cs) (Suc n) =
     (if c = 0 then Some (c # cs)
      else do { cs \<leftarrow> sxe_strn_rot13_in_place cs n; Some (SXE_ROT13_CHAR c # cs) })"

fun sxe_strn_rot13 :: "bytes \<Rightarrow> bytes \<Rightarrow> nat \<Rightarrow> bytes option" where
  "sxe_strn_rot13 buffer str 0 = Some buffer"
| "sxe_strn_rot13 (b # buffer) (c # cs) (Suc n) =
     (if c = 0 then Some (0 # buffer)
      else do { buffer \<leftarrow> sxe_strn_rot13 buffer cs n; Some (SXE_ROT13_CHAR c # buffer) })"
| "sxe_strn_rot13 buffer str (Suc n) = None"

text \<open>The index into the table is the sign extended character, outside the table from \<open>0x80\<close> on.\<close>

fun rot13_hex_loop :: "bytes \<Rightarrow> nat \<Rightarrow> u32 \<Rightarrow> u32 option" where
  "rot13_hex_loop t 0 res = Some res"
| "rot13_hex_loop [] (Suc n) res = Some res"
| "rot13_hex_loop (c # cs) (Suc n) res =
     (if c = 0 then Some res
      else do { nib \<leftarrow> (if c < 0x80 then Some (sxe_rot13_hex_to_nibble ! unat c) else None);
                if nib = 0xff then Some SXE_UNSIGNED_MAXIMUM
                else rot13_hex_loop cs n (push_bit 4 res OR ucast nib) })"

definition sxe_rot13_hex_to_unsigned :: "bytes \<Rightarrow> nat \<Rightarrow> u32 option" where
  "sxe_rot13_hex_to_unsigned t text_length = rot13_hex_loop t text_length 0"

section \<open>Searches\<close>

text \<open>\<^verbatim>\<open>&buf[n - 1]\<close> is computed with an unsigned \<open>n\<close>, which wraps around for 0.\<close>

fun strnchr_loop :: "bytes \<Rightarrow> u8 \<Rightarrow> nat \<Rightarrow> nat \<Rightarrow> nat option" where
  "strnchr_loop [] c i lim = None"
| "strnchr_loop (b # buf) c i lim =
     (if lim < i then None
      else if b = 0 then None
      else if b = c then Some i
      else strnchr_loop buf c (i + 1) lim)"

definition sxe_strnchr :: "bytes \<Rightarrow> u8 \<Rightarrow> u32 \<Rightarrow> nat option" where
  "sxe_strnchr buf c n = strnchr_loop buf c 0 (unat (n - 1))"

text \<open>The search from the end looks at every byte, the outer \<open>None\<close> is a read outside the buffer.\<close>

fun rstrnchr_loop :: "bytes \<Rightarrow> u8 \<Rightarrow> nat \<Rightarrow> nat option option" where
  "rstrnchr_loop buf c 0 = Some None"
| "rstrnchr_loop buf c (Suc i) =
     do { b \<leftarrow> peek buf i; if b = c then Some (Some i) else rstrnchr_loop buf c i }"

definition sxe_rstrnchr :: "bytes \<Rightarrow> u8 \<Rightarrow> u32 \<Rightarrow> nat option option" where
  "sxe_rstrnchr buf c n = rstrnchr_loop buf c (Suc (unat (n - 1)))"

fun strncspn_loop :: "bytes \<Rightarrow> bytes \<Rightarrow> nat \<Rightarrow> nat \<Rightarrow> nat option" where
  "strncspn_loop [] reject i n = None"
| "strncspn_loop (b # buf) reject i n =
     (if n \<le> i \<or> b = 0 then None
      else if b \<in> set reject then Some i
      else strncspn_loop buf reject (i + 1) n)"

definition sxe_strncspn :: "bytes \<Rightarrow> bytes \<Rightarrow> u32 \<Rightarrow> nat option" where
  "sxe_strncspn buf reject n = strncspn_loop buf reject 0 (unat n)"

text \<open>The number of positions left to try, the last one first\<close>

fun rstrnstr_loop :: "bytes \<Rightarrow> bytes \<Rightarrow> nat \<Rightarrow> nat option option" where
  "rstrnstr_loop haystack needle 0 = Some None"
| "rstrnstr_loop haystack needle (Suc i) =
     (if length haystack < i + length needle then None
      else if take (length needle) (drop i haystack) = needle then Some (Some i)
      else rstrnstr_loop haystack needle i)"

definition sxe_rstrnstr :: "bytes \<Rightarrow> bytes \<Rightarrow> u32 \<Rightarrow> nat option option" where
  "sxe_rstrnstr haystack needle haystack_len =
     rstrnstr_loop haystack needle (Suc (unat haystack_len) - length needle)"

text \<open>Comparison without case, in the C locale\<close>

definition tolower :: "u8 \<Rightarrow> u8" where
  "tolower c = (if 0x41 \<le> c \<and> c \<le> 0x5a then c + 0x20 else c)"

definition strncasecmp_eq :: "bytes \<Rightarrow> bytes \<Rightarrow> nat \<Rightarrow> bool" where
  "strncasecmp_eq s t n \<longleftrightarrow>
     map tolower (takeWhile (\<lambda>c. c \<noteq> 0) (take n s)) = map tolower (takeWhile (\<lambda>c. c \<noteq> 0) (take n t))"

fun strncasestr_loop :: "bytes \<Rightarrow> bytes \<Rightarrow> nat \<Rightarrow> nat \<Rightarrow> nat option" where
  "strncasestr_loop [] str i lim = None"
| "strncasestr_loop (b # buf) str i lim =
     (if lim < i then None
      else if b = 0 then None
      else if strncasecmp_eq (b # buf) str (length str) then Some i
      else strncasestr_loop buf str (i + 1) lim)"

definition sxe_strncasestr :: "bytes \<Rightarrow> bytes \<Rightarrow> u32 \<Rightarrow> nat option" where
  "sxe_strncasestr buf str n =
     (if unat n < length str then None else strncasestr_loop buf str 0 (unat n - length str))"

section \<open>Booleans and base names\<close>

text \<open>Whether the text was understood, and the new content of \<^verbatim>\<open>*val\<close> if it is set\<close>

definition kit_bool_from_strn :: "bytes \<Rightarrow> nat \<Rightarrow> bool \<times> bool option" where
  "kit_bool_from_strn txt ln =
     (if ln = 1 \<and> strncasecmp_eq txt (ascii ''1'') ln \<or> ln = 3 \<and> strncasecmp_eq txt (ascii ''yes'') ln \<or>
         ln = 4 \<and> strncasecmp_eq txt (ascii ''true'') ln
      then (True, Some True)
      else if ln = 1 \<and> strncasecmp_eq txt (ascii ''0'') ln \<or> ln = 2 \<and> strncasecmp_eq txt (ascii ''no'') ln \<or>
         ln = 5 \<and> strncasecmp_eq txt (ascii ''false'') ln
      then (True, Some False)
      else (False, None))"

definition kit_bool_to_str :: "bool \<Rightarrow> bytes" where
  "kit_bool_to_str flag = (if flag then ascii ''true'' else ascii ''false'')"

definition kit_bool_from_str :: "bytes \<Rightarrow> bool \<times> bool option" where
  "kit_bool_from_str txt = kit_bool_from_strn txt (length txt)"

fun strrchr :: "bytes \<Rightarrow> u8 \<Rightarrow> nat option" where
  "strrchr [] c = None"
| "strrchr (b # s) c =
     (case strrchr s c of Some i \<Rightarrow> Some (Suc i) | None \<Rightarrow> if b = c then Some 0 else None)"

definition kit_basename :: "bytes \<Rightarrow> bytes" where
  "kit_basename path = (case strrchr path 0x2f of Some i \<Rightarrow> drop (i + 1) path | None \<Rightarrow> path)"

section \<open>Printable identifiers\<close>

type_synonym kit_guid = bytes
type_synonym kit_deviceid = bytes

definition KIT_GUID_SIZE :: nat where "KIT_GUID_SIZE = 16"
definition KIT_GUID_STR_LEN :: nat where "KIT_GUID_STR_LEN = 2 * KIT_GUID_SIZE"
definition KIT_DEVICEID_SIZE :: nat where "KIT_DEVICEID_SIZE = 8"
definition KIT_DEVICEID_STR_LEN :: nat where "KIT_DEVICEID_STR_LEN = 2 * KIT_DEVICEID_SIZE"

definition kit_guid_nil :: kit_guid where "kit_guid_nil = replicate 16 0"
definition kit_deviceid_nil :: kit_deviceid where "kit_deviceid_nil = replicate 8 0"

text \<open>\<open>None\<close> for the null pointer. The digits are written to the buffer, and no terminator after them.\<close>

definition kit_guid_to_buf :: "kit_guid option \<Rightarrow> bytes \<Rightarrow> nat \<Rightarrow> bytes option" where
  "kit_guid_to_buf guid buf sz =
     do { SXEA6 (KIT_GUID_STR_LEN + 1 \<le> sz);
          let hex = sxe_hex_from_bytes (case guid of Some g \<Rightarrow> g | None \<Rightarrow> kit_guid_nil);
          Some (hex @ drop (length hex) buf) }"

text \<open>The string in a static buffer, which is zero at first; only its digits are ever written.\<close>

definition kit_guid_to_str :: "kit_guid option \<Rightarrow> bytes option" where
  "kit_guid_to_str guid =
     do { buf \<leftarrow> kit_guid_to_buf guid (replicate (KIT_GUID_STR_LEN + 1) 0) (KIT_GUID_STR_LEN + 1);
          Some (takeWhile (\<lambda>c. c \<noteq> 0) buf) }"

definition kit_md5_to_str :: "bytes option \<Rightarrow> bytes option" where
  "kit_md5_to_str md5 =
     do { buf \<leftarrow> kit_guid_to_buf md5 (replicate (KIT_GUID_STR_LEN + 1) 0) (KIT_GUID_STR_LEN + 1);
          Some (takeWhile (\<lambda>c. c \<noteq> 0) buf) }"

text \<open>The result of \<^verbatim>\<open>sxe_hex_to_bytes\<close> is ignored: bytes after a character that is no digit keep what the object held.\<close>

definition kit_guid_from_str :: "kit_guid \<Rightarrow> bytes \<Rightarrow> kit_guid option" where
  "kit_guid_from_str guid str_hex =
     (if length str_hex \<noteq> KIT_GUID_STR_LEN then Some kit_guid_nil
      else do { (_, bs) \<leftarrow> sxe_hex_to_bytes str_hex (of_nat KIT_GUID_STR_LEN);
                Some (bs @ drop (length bs) guid) })"

fun memcmp :: "bytes \<Rightarrow> bytes \<Rightarrow> int" where
  "memcmp (x # xs) (y # ys) = (if x < y then - 1 else if y < x then 1 else memcmp xs ys)"
| "memcmp _ _ = 0"

definition kit_guid_cmp :: "kit_guid option \<Rightarrow> kit_guid option \<Rightarrow> int" where
  "kit_guid_cmp guid1 guid2 =
     (case (guid1, guid2) of
        (None, None) \<Rightarrow> 0 | (None, Some _) \<Rightarrow> - 1 | (Some _, None) \<Rightarrow> 1 | (Some g1, Some g2) \<Rightarrow> memcmp g1 g2)"

definition kit_deviceid_to_buf :: "kit_deviceid option \<Rightarrow> bytes \<Rightarrow> nat \<Rightarrow> bytes option" where
  "kit_deviceid_to_buf deviceid buf sz =
     do { SXEA6 (KIT_DEVICEID_STR_LEN + 1 \<le> sz);
          (_, buf) \<leftarrow> kit_bin2hex buf (case deviceid of Some d \<Rightarrow> d | None \<Rightarrow> kit_deviceid_nil) KIT_DEVICEID_SIZE KIT_BIN2HEX_LOWER;
          Some buf }"

definition kit_deviceid_from_str :: "kit_deviceid \<Rightarrow> bytes \<Rightarrow> kit_deviceid option" where
  "kit_deviceid_from_str deviceid str_hex =
     (if length str_hex \<noteq> KIT_DEVICEID_STR_LEN then Some kit_deviceid_nil
      else do { (_, bin) \<leftarrow> kit_hex2bin deviceid str_hex KIT_DEVICEID_STR_LEN; Some bin })"

definition kit_deviceid_cmp :: "kit_deviceid option \<Rightarrow> kit_deviceid option \<Rightarrow> int" where
  "kit_deviceid_cmp deviceid1 deviceid2 =
     (case (deviceid1, deviceid2) of
        (None, None) \<Rightarrow> 0 | (None, Some _) \<Rightarrow> - 1 | (Some _, None) \<Rightarrow> 1 | (Some d1, Some d2) \<Rightarrow> memcmp d1 d2)"

section \<open>Facts\<close>

lemma rot13_table:
  "list_all (\<lambda>c. SXE_ROT13_CHAR (SXE_ROT13_CHAR (word_of_int c)) = word_of_int c \<and> (SXE_ROT13_CHAR (word_of_int c) = 0) = (c = 0) \<and>
     (c < 128 \<longrightarrow> nibble (SXE_ROT13_CHAR (word_of_int c)) = sxe_rot13_hex_to_nibble ! unat (word_of_int c :: u8))) [0..255]"
  by code_simp

lemma rot13_char:
  "SXE_ROT13_CHAR (SXE_ROT13_CHAR c) = c" "SXE_ROT13_CHAR c = 0 \<longleftrightarrow> c = 0"
  "c < 0x80 \<Longrightarrow> nibble (SXE_ROT13_CHAR c) = sxe_rot13_hex_to_nibble ! unat c"
proof -
  have "uint c \<in> set [0..255]"
    using uint_lt2p [of c] by simp
  note table = rot13_table [unfolded list_all_iff, rule_format, OF this]
  show "SXE_ROT13_CHAR (SXE_ROT13_CHAR c) = c" "SXE_ROT13_CHAR c = 0 \<longleftrightarrow> c = 0"
    using table by (simp_all add: uint_0_iff)
  show "c < 0x80 \<Longrightarrow> nibble (SXE_ROT13_CHAR c) = sxe_rot13_hex_to_nibble ! unat c"
    using table by (simp add: word_less_def)
qed

text \<open>The string of a GUID is its digits.\<close>

lemma hex_no_nul: "0 \<notin> set (sxe_hex_from_bytes bs)"
  using nibble_of_digit(2) [OF nibbles_of_byte(1)] nibble_of_digit(2) [OF nibbles_of_byte(2)]
  by (auto simp: sxe_hex_from_bytes_def)

lemma kit_guid_to_str_text:
  assumes "length g = KIT_GUID_SIZE"
  shows "kit_guid_to_str (Some g) = Some (sxe_hex_from_bytes g)"
proof -
  have "takeWhile (\<lambda>c. c \<noteq> 0) (sxe_hex_from_bytes g @ [0]) = sxe_hex_from_bytes g"
    using hex_no_nul [of g] by (metis (mono_tags, lifting) append.right_neutral takeWhile.simps takeWhile_append2)
  then show ?thesis using assms by (simp add: kit_guid_to_str_def kit_guid_to_buf_def KIT_GUID_STR_LEN_def KIT_GUID_SIZE_def)
qed

text \<open>ROT13 undoes itself.\<close>

lemma strn_rot13_twice: "sxe_strn_rot13_in_place buf n = Some buf' \<Longrightarrow> sxe_strn_rot13_in_place buf' n = Some buf"
  by (induction buf n arbitrary: buf' rule: sxe_strn_rot13_in_place.induct) (auto simp: rot13_char split: if_splits bind_splits)

text \<open>C39: Bytes of an identifier that are printed are read back, whatever the object they are read into held, and a text of the
  wrong length is read as the nil identifier.\<close>

theorem identifier_roundtrip:
  assumes "length g = KIT_GUID_SIZE" and "length old = KIT_GUID_SIZE"
    and "length d = KIT_DEVICEID_SIZE" and "length old_d = KIT_DEVICEID_SIZE" and "KIT_DEVICEID_STR_LEN < length buf"
  shows "do { t \<leftarrow> kit_guid_to_str (Some g); kit_guid_from_str old t } = Some g \<and>
    do { t \<leftarrow> kit_deviceid_to_buf (Some d) buf (length buf); kit_deviceid_from_str old_d (take KIT_DEVICEID_STR_LEN t) } = Some d \<and>
    (length t \<noteq> KIT_GUID_STR_LEN \<longrightarrow> kit_guid_from_str old t = Some kit_guid_nil)"
proof -
  have "sxe_hex_to_bytes (sxe_hex_from_bytes g) 32 = Some (SXE_RETURN_OK, g)"
    using assms(1) hex_to_bytes_from_bytes [of g] by (simp add: KIT_GUID_SIZE_def)
  then have "do { t \<leftarrow> kit_guid_to_str (Some g); kit_guid_from_str old t } = Some g"
    using assms(1,2) by (simp add: kit_guid_to_str_text kit_guid_from_str_def KIT_GUID_STR_LEN_def KIT_GUID_SIZE_def)
  moreover obtain hex where hex: "kit_bin2hex buf d 8 KIT_BIN2HEX_LOWER = Some (16, hex)" "length hex = length buf"
      "\<exists>bin. kit_hex2bin old_d (take 16 hex) 16 = Some (8, bin) \<and> take 8 bin = take 8 d \<and> length bin = length old_d"
    using bin2hex_ok [of 8 d buf old_d KIT_BIN2HEX_LOWER] assms(3-5) by (auto simp: KIT_DEVICEID_SIZE_def KIT_DEVICEID_STR_LEN_def)
  then have "do { t \<leftarrow> kit_deviceid_to_buf (Some d) buf (length buf); kit_deviceid_from_str old_d (take KIT_DEVICEID_STR_LEN t) } = Some d"
    using assms(3-5) by (auto simp: kit_deviceid_to_buf_def kit_deviceid_from_str_def KIT_DEVICEID_STR_LEN_def KIT_DEVICEID_SIZE_def)
  moreover have "length t \<noteq> KIT_GUID_STR_LEN \<longrightarrow> kit_guid_from_str old t = Some kit_guid_nil"
    by (simp add: kit_guid_from_str_def)
  ultimately show ?thesis
    by blast
qed

theorem identifier_roundtrip_witness:
  "do { t \<leftarrow> kit_guid_to_str (Some (replicate 16 0xa5)); kit_guid_from_str (replicate 16 1) t } = Some (replicate 16 0xa5)"
  using identifier_roundtrip [of "replicate 16 0xa5" "replicate 16 1" "replicate 8 0" "replicate 8 1" "replicate 17 0" "[]"]
  by (simp add: KIT_GUID_SIZE_def KIT_DEVICEID_SIZE_def KIT_DEVICEID_STR_LEN_def)

text \<open>What the searches find, for a length other than 0: the first or the last match in the part of the string they look at.\<close>

definition first_match :: "(nat \<Rightarrow> bool) \<Rightarrow> (nat \<Rightarrow> bool) \<Rightarrow> nat option \<Rightarrow> bool" where
  "first_match within P res \<longleftrightarrow>
     (case res of Some i \<Rightarrow> within i \<and> P i \<and> (\<forall>j < i. \<not> P j) | None \<Rightarrow> \<forall>i. within i \<longrightarrow> \<not> P i)"

definition last_match :: "nat \<Rightarrow> (nat \<Rightarrow> bool) \<Rightarrow> nat option \<Rightarrow> bool" where
  "last_match n P res \<longleftrightarrow>
     (case res of Some i \<Rightarrow> i < n \<and> P i \<and> (\<forall>j. i < j \<longrightarrow> j < n \<longrightarrow> \<not> P j) | None \<Rightarrow> \<forall>i < n. \<not> P i)"

text \<open>The positions before the terminator and below a limit\<close>

definition in_str :: "bytes \<Rightarrow> nat \<Rightarrow> nat \<Rightarrow> bool" where
  "in_str buf n i \<longleftrightarrow> i < n \<and> i < length buf \<and> (\<forall>j \<le> i. buf ! j \<noteq> 0)"

lemma first_match_Suc:
  assumes "first_match (\<lambda>i. within (Suc i)) (\<lambda>i. P (Suc i)) res" and "\<not> P 0"
  shows "first_match within P (map_option Suc res)"
  using assms by (auto simp: first_match_def less_Suc_eq_0_disj split: option.splits) (metis not0_implies_Suc)

lemma in_str_Cons: "in_str (b # buf) (Suc n) (Suc i) \<longleftrightarrow> b \<noteq> 0 \<and> in_str buf n i"
proof -
  have "(\<forall>j \<le> Suc i. (b # buf) ! j \<noteq> 0) \<longleftrightarrow> b \<noteq> 0 \<and> (\<forall>j \<le> i. buf ! j \<noteq> 0)"
    by (metis Suc_le_mono not0_implies_Suc nth_Cons_0 nth_Cons_Suc zero_le)
  then show ?thesis
    by (auto simp: in_str_def)
qed

lemma in_str_0: "\<not> in_str buf 0 i" "\<not> in_str [] n i" "\<not> in_str (0 # buf) n i" "in_str (b # buf) (Suc n) 0 \<longleftrightarrow> b \<noteq> 0"
  by (auto simp: in_str_def)

fun find_str :: "bytes \<Rightarrow> nat \<Rightarrow> (u8 \<Rightarrow> bool) \<Rightarrow> nat option" where
  "find_str [] n P = None"
| "find_str (b # buf) 0 P = None"
| "find_str (b # buf) (Suc n) P = (if b = 0 then None else if P b then Some 0 else map_option Suc (find_str buf n P))"

lemma find_str_first: "first_match (in_str buf n) (\<lambda>i. P (buf ! i)) (find_str buf n P)"
proof (induction buf n P rule: find_str.induct)
  case (3 b buf n P)
  show ?case
  proof (cases "b = 0 \<or> P b")
    case True
    then show ?thesis
      by (auto simp: first_match_def in_str_0)
  next
    case False
    then have "first_match (in_str (b # buf) (Suc n)) (\<lambda>i. P ((b # buf) ! i)) (map_option Suc (find_str buf n P))"
      using 3 by (intro first_match_Suc) (simp_all add: in_str_Cons)
    then show ?thesis
      using False by simp
  qed
qed (auto simp: first_match_def in_str_0)

lemma map_option_add_0: "map_option ((+) (0 :: nat)) x = x"
  by (cases x) simp_all

lemma strnchr_loop_find: "i \<le> Suc lim \<Longrightarrow> strnchr_loop buf c i lim = map_option ((+) i) (find_str buf (Suc lim - i) (\<lambda>b. b = c))"
proof (induction buf c i lim rule: strnchr_loop.induct)
  case (2 b buf c i lim)
  then show ?case
    by (cases "Suc lim - i") (auto simp: option.map_comp comp_def Suc_diff_le)
qed simp

lemma strncspn_loop_find: "i \<le> n \<Longrightarrow> strncspn_loop buf reject i n = map_option ((+) i) (find_str buf (n - i) (\<lambda>b. b \<in> set reject))"
proof (induction buf reject i n rule: strncspn_loop.induct)
  case (2 b buf reject i n)
  show ?case
  proof (cases "n - i")
    case (Suc k)
    then have "n - Suc i = k" "n \<noteq> i"
      by auto
    then show ?thesis
      using 2 Suc by (simp add: option.map_comp comp_def)
  qed (use 2 in simp)
qed simp

lemma rstrnchr_loop_last:
  "n \<le> length buf \<Longrightarrow> \<exists>res. rstrnchr_loop buf c n = Some res \<and> last_match n (\<lambda>i. buf ! i = c) res"
proof (induction n)
  case (Suc n)
  then obtain res where "rstrnchr_loop buf c n = Some res" "last_match n (\<lambda>i. buf ! i = c) res"
    by auto
  then show ?case
    using Suc.prems by (auto simp: last_match_def less_Suc_eq split: option.splits)
qed (simp add: last_match_def)

lemma rstrnstr_loop_last:
  "n + length needle \<le> Suc (length haystack) \<Longrightarrow>
     \<exists>res. rstrnstr_loop haystack needle n = Some res \<and> last_match n (\<lambda>i. take (length needle) (drop i haystack) = needle) res"
proof (induction n)
  case (Suc n)
  then obtain res where "rstrnstr_loop haystack needle n = Some res"
      "last_match n (\<lambda>i. take (length needle) (drop i haystack) = needle) res"
    by auto
  then show ?case
    using Suc.prems by (auto simp: last_match_def less_Suc_eq split: option.splits)
qed (simp add: last_match_def)

text \<open>C40: The bounded searches, for a length other than 0. \<^verbatim>\<open>sxe_strnchr\<close> and \<^verbatim>\<open>sxe_strncspn\<close> return the first match within the length
  and before the terminator, \<^verbatim>\<open>sxe_rstrnchr\<close> and \<^verbatim>\<open>sxe_rstrnstr\<close> the last match in the buffer, and NULL exactly when there is
  none.\<close>

theorem str_search_correct:
  assumes "n \<noteq> 0" and "unat n \<le> length buf" and "length needle \<le> unat n"
  shows "first_match (in_str buf (unat n)) (\<lambda>i. buf ! i = c) (sxe_strnchr buf c n) \<and>
    first_match (in_str buf (unat n)) (\<lambda>i. buf ! i \<in> set reject) (sxe_strncspn buf reject n) \<and>
    (\<exists>res. sxe_rstrnchr buf c n = Some res \<and> last_match (unat n) (\<lambda>i. buf ! i = c) res) \<and>
    (\<exists>res. sxe_rstrnstr buf needle n = Some res \<and>
       last_match (Suc (unat n - length needle)) (\<lambda>i. take (length needle) (drop i buf) = needle) res)"
proof -
  have n: "Suc (unat (n - 1)) = unat n"
    using assms(1) by (simp add: unat_minus_one unat_gt_0 Suc_pred')
  have "sxe_strnchr buf c n = find_str buf (unat n) (\<lambda>b. b = c)"
    using strnchr_loop_find [of 0 "unat (n - 1)" buf c] n by (simp add: sxe_strnchr_def map_option_add_0)
  moreover have "sxe_strncspn buf reject n = find_str buf (unat n) (\<lambda>b. b \<in> set reject)"
    using strncspn_loop_find [of 0 "unat n" buf reject] by (simp add: sxe_strncspn_def map_option_add_0)
  moreover have "Suc (unat n) - length needle = Suc (unat n - length needle)"
    using assms(3) by (rule Suc_diff_le)
  ultimately show ?thesis
    using find_str_first [of buf "unat n" "\<lambda>b. b = c"] find_str_first [of buf "unat n" "\<lambda>b. b \<in> set reject"]
      rstrnchr_loop_last [OF assms(2), of c] rstrnstr_loop_last [of "Suc (unat n - length needle)" needle buf] assms n
    by (simp add: sxe_rstrnchr_def sxe_rstrnstr_def)
qed

theorem str_search_correct_witness:
  "first_match (in_str (ascii ''a/b/c'') 5) (\<lambda>i. ascii ''a/b/c'' ! i = 0x2f) (sxe_strnchr (ascii ''a/b/c'') 0x2f 5) \<and>
   sxe_strnchr (ascii ''a/b/c'') 0x2f 5 = Some 1"
proof -
  have "sxe_strnchr (ascii ''a/b/c'') 0x2f 5 = Some 1"
    by code_simp
  moreover have "length (ascii ''a/b/c'') = 5"
    by (simp add: ascii_def)
  ultimately show ?thesis
    using str_search_correct [of 5 "ascii ''a/b/c''" "[]" "0x2f" "[]"] by simp
qed

end
