(* ===== verification/Sxe_Jitson.thy ===== *)
theory Sxe_Jitson
  imports Sxe_Jitson_Source Sxe_Factory
begin

text \<open>
  Model of the jitson tokens of \<^verbatim>\<open>lib-sxe-jitson/sxe-jitson.h\<close> and of the parser of \<^verbatim>\<open>lib-sxe-jitson/sxe-jitson-stack.c\<close>. A
  stack holds a block of memory, the list of its bytes, with 16 bytes per token: the type, the length, and 8 bytes that
  are the union of the other fields; the bytes of a string run on into the tokens after its first. An access
  outside the block is \<open>None\<close>, as is a failed assertion. Counts and indices are natural numbers, with the wrap-around of the
  32 bit sums of \<^verbatim>\<open>sxe_jitson_stack_expand\<close> written out. Setting \<^verbatim>\<open>errno\<close> and logging are left out.
\<close>

section \<open>Little endian memory\<close>

fun le_word :: "bytes \<Rightarrow> 'a::len word" where
  "le_word [] = 0"
| "le_word (b # bs) = ucast b OR push_bit 8 (le_word bs)"

fun le_bytes :: "nat \<Rightarrow> 'a::len word \<Rightarrow> bytes" where
  "le_bytes 0 w = []"
| "le_bytes (Suc n) w = ucast w # le_bytes n (drop_bit 8 w)"

definition read_at :: "bytes \<Rightarrow> nat \<Rightarrow> nat \<Rightarrow> bytes option" where
  "read_at m i n = (if i + n \<le> length m then Some (take n (drop i m)) else None)"

section \<open>Tokens\<close>

definition SXE_JITSON_TYPE_INVALID :: u32 where "SXE_JITSON_TYPE_INVALID = 0"
definition SXE_JITSON_TYPE_NULL :: u32 where "SXE_JITSON_TYPE_NULL = 1"
definition SXE_JITSON_TYPE_BOOL :: u32 where "SXE_JITSON_TYPE_BOOL = 2"
definition SXE_JITSON_TYPE_NUMBER :: u32 where "SXE_JITSON_TYPE_NUMBER = 3"
definition SXE_JITSON_TYPE_STRING :: u32 where "SXE_JITSON_TYPE_STRING = 4"
definition SXE_JITSON_TYPE_ARRAY :: u32 where "SXE_JITSON_TYPE_ARRAY = 5"
definition SXE_JITSON_TYPE_OBJECT :: u32 where "SXE_JITSON_TYPE_OBJECT = 6"
definition SXE_JITSON_TYPE_REFERENCE :: u32 where "SXE_JITSON_TYPE_REFERENCE = 7"

definition SXE_JITSON_TYPE_MASK :: u32 where "SXE_JITSON_TYPE_MASK = 0x0000FFFF"
definition SXE_JITSON_TYPE_MK_SORT :: u32 where "SXE_JITSON_TYPE_MK_SORT = 0x00010000"
definition SXE_JITSON_TYPE_IS_LOCAL :: u32 where "SXE_JITSON_TYPE_IS_LOCAL = 0x00020000"
definition SXE_JITSON_TYPE_IS_HOMO :: u32 where "SXE_JITSON_TYPE_IS_HOMO = 0x01000000"
definition SXE_JITSON_TYPE_IS_UNIF :: u32 where "SXE_JITSON_TYPE_IS_UNIF = 0x02000000"
definition SXE_JITSON_TYPE_IS_ORD :: u32 where "SXE_JITSON_TYPE_IS_ORD = 0x04000000"
definition SXE_JITSON_TYPE_IS_UINT :: u32 where "SXE_JITSON_TYPE_IS_UINT = 0x08000000"
definition SXE_JITSON_TYPE_REVERSED :: u32 where "SXE_JITSON_TYPE_REVERSED = 0x08000000"
definition SXE_JITSON_TYPE_IS_KEY :: u32 where "SXE_JITSON_TYPE_IS_KEY = 0x10000000"
definition SXE_JITSON_TYPE_IS_COPY :: u32 where "SXE_JITSON_TYPE_IS_COPY = 0"
definition SXE_JITSON_TYPE_IS_REF :: u32 where "SXE_JITSON_TYPE_IS_REF = 0x20000000"
definition SXE_JITSON_TYPE_IS_OWN :: u32 where "SXE_JITSON_TYPE_IS_OWN = 0x40000000"
definition SXE_JITSON_TYPE_INDEXED :: u32 where "SXE_JITSON_TYPE_INDEXED = 0x40000000"
definition SXE_JITSON_TYPE_ALLOCED :: u32 where "SXE_JITSON_TYPE_ALLOCED = 0x80000000"

lemmas type_defs = SXE_JITSON_TYPE_INVALID_def SXE_JITSON_TYPE_NULL_def SXE_JITSON_TYPE_BOOL_def SXE_JITSON_TYPE_NUMBER_def
  SXE_JITSON_TYPE_STRING_def SXE_JITSON_TYPE_ARRAY_def SXE_JITSON_TYPE_OBJECT_def SXE_JITSON_TYPE_REFERENCE_def
  SXE_JITSON_TYPE_MASK_def SXE_JITSON_TYPE_MK_SORT_def SXE_JITSON_TYPE_IS_LOCAL_def SXE_JITSON_TYPE_IS_HOMO_def SXE_JITSON_TYPE_IS_UNIF_def SXE_JITSON_TYPE_IS_ORD_def
  SXE_JITSON_TYPE_IS_UINT_def SXE_JITSON_TYPE_REVERSED_def SXE_JITSON_TYPE_IS_KEY_def SXE_JITSON_TYPE_IS_COPY_def SXE_JITSON_TYPE_IS_REF_def SXE_JITSON_TYPE_IS_OWN_def SXE_JITSON_TYPE_INDEXED_def
  SXE_JITSON_TYPE_ALLOCED_def

definition SXE_JITSON_TOKEN_SIZE :: nat where "SXE_JITSON_TOKEN_SIZE = 16"
definition SXE_JITSON_STRING_SIZE :: nat where "SXE_JITSON_STRING_SIZE = 8"

record sxe_jitson_stack =
  maximum :: nat
  count :: nat
  jitsons :: "bytes option"
  s_open :: nat
  s_last :: nat
  borrow :: nat

text \<open>Reading and writing the fields of the token at an index: \<^verbatim>\<open>type\<close>, \<^verbatim>\<open>len\<close>, \<^verbatim>\<open>integer\<close>, and the bytes of \<^verbatim>\<open>string\<close>\<close>

definition tok_type :: "sxe_jitson_stack \<Rightarrow> nat \<Rightarrow> u32 option" where
  "tok_type st i = do { m \<leftarrow> jitsons st; bs \<leftarrow> read_at m (16 * i) 4; Some (le_word bs) }"

definition tok_len :: "sxe_jitson_stack \<Rightarrow> nat \<Rightarrow> u32 option" where
  "tok_len st i = do { m \<leftarrow> jitsons st; bs \<leftarrow> read_at m (16 * i + 4) 4; Some (le_word bs) }"

definition tok_integer :: "sxe_jitson_stack \<Rightarrow> nat \<Rightarrow> u64 option" where
  "tok_integer st i = do { m \<leftarrow> jitsons st; bs \<leftarrow> read_at m (16 * i + 8) 8; Some (le_word bs) }"

definition set_bytes :: "nat \<Rightarrow> bytes \<Rightarrow> sxe_jitson_stack \<Rightarrow> sxe_jitson_stack option" where
  "set_bytes off bs st = do { m \<leftarrow> jitsons st; m \<leftarrow> memcpy_at m off bs; Some (st\<lparr>jitsons := Some m\<rparr>) }"

definition set_type :: "nat \<Rightarrow> u32 \<Rightarrow> sxe_jitson_stack \<Rightarrow> sxe_jitson_stack option" where
  "set_type i w st = set_bytes (16 * i) (le_bytes 4 w) st"

definition set_tok_len :: "nat \<Rightarrow> u32 \<Rightarrow> sxe_jitson_stack \<Rightarrow> sxe_jitson_stack option" where
  "set_tok_len i w st = set_bytes (16 * i + 4) (le_bytes 4 w) st"

definition set_integer :: "nat \<Rightarrow> u64 \<Rightarrow> sxe_jitson_stack \<Rightarrow> sxe_jitson_stack option" where
  "set_integer i w st = set_bytes (16 * i + 8) (le_bytes 8 w) st"

definition set_string :: "nat \<Rightarrow> nat \<Rightarrow> bytes \<Rightarrow> sxe_jitson_stack \<Rightarrow> sxe_jitson_stack option" where
  "set_string i j bs st = set_bytes (16 * i + 8 + j) bs st"

section \<open>The stack\<close>

text \<open>The value of an unsigned result\<close>

definition wrap32 :: "nat \<Rightarrow> nat" where
  "wrap32 n = unat (of_nat n :: u32)"

definition JITSON_STACK_MAX_INCR :: nat where "JITSON_STACK_MAX_INCR = 4096"

text \<open>\<open>None\<close> when the block cannot be allocated\<close>

definition sxe_jitson_stack_make :: "allocator \<Rightarrow> nat \<Rightarrow> sxe_jitson_stack option" where
  "sxe_jitson_stack_make alloc init_size =
     map_option (\<lambda>m. \<lparr>maximum = init_size, count = 0, jitsons = Some m, s_open = 0, s_last = 0, borrow = 0\<rparr>) (alloc (init_size * 16))"

text \<open>The first new index, or \<open>None\<close> for \<^verbatim>\<open>SXE_JITSON_STACK_ERROR\<close>. The division by the maximum fails for a maximum of 0.\<close>

definition expand_maximum :: "nat \<Rightarrow> nat \<Rightarrow> nat option" where
  "expand_maximum mx expanded =
     (if expanded < JITSON_STACK_MAX_INCR
      then if mx = 0 then None else Some (wrap32 (((expanded - 1) div mx + 1) * mx))
      else Some (wrap32 (((expanded - 1) div JITSON_STACK_MAX_INCR + 1) * JITSON_STACK_MAX_INCR)))"

definition sxe_jitson_stack_expand :: "allocator \<Rightarrow> nat \<Rightarrow> sxe_jitson_stack \<Rightarrow> (nat option \<times> sxe_jitson_stack) option" where
  "sxe_jitson_stack_expand alloc extra st =
     (let expanded = wrap32 (count st + extra); first = wrap32 (expanded + (2 ^ 32 - wrap32 extra))
      in if maximum st < expanded
         then do { new_maximum \<leftarrow> expand_maximum (maximum st) expanded;
                   Some (case kit_realloc alloc (jitsons st) (new_maximum * 16) of
                           None \<Rightarrow> (None, st)
                         | Some new_jitsons \<Rightarrow>
                             (Some first, st\<lparr>maximum := new_maximum, jitsons := Some new_jitsons, count := expanded\<rparr>)) }
         else if jitsons st = None
         then Some (case alloc (maximum st * 16) of
                      None \<Rightarrow> (None, st)
                    | Some m \<Rightarrow> (Some first, st\<lparr>jitsons := Some m, count := expanded\<rparr>))
         else Some (Some first, st\<lparr>count := expanded\<rparr>))"

definition sxe_jitson_stack_clear :: "sxe_jitson_stack \<Rightarrow> sxe_jitson_stack" where
  "sxe_jitson_stack_clear st = st\<lparr>count := borrow st, s_open := 0\<rparr>"

definition sxe_jitson_stack_borrow :: "sxe_jitson_stack \<Rightarrow> sxe_jitson_stack \<times> sxe_jitson_stack" where
  "sxe_jitson_stack_borrow st = (st\<lparr>s_open := 0, s_last := 0, borrow := count st\<rparr>, st)"

definition sxe_jitson_stack_return :: "sxe_jitson_stack \<Rightarrow> sxe_jitson_stack \<Rightarrow> sxe_jitson_stack option" where
  "sxe_jitson_stack_return st iou =
     do { SXEA1 (borrow st = count iou);
          Some (st\<lparr>s_open := s_open iou, s_last := s_last iou, borrow := borrow iou, count := count iou\<rparr>) }"

text \<open>The tokens of the value, \<open>None\<close> for a null pointer. The first token is marked as allocated.\<close>

definition mark_alloced :: "bytes \<Rightarrow> bytes option" where
  "mark_alloced v = do { t \<leftarrow> read_at v 0 4; memcpy_at v 0 (le_bytes 4 (le_word t OR SXE_JITSON_TYPE_ALLOCED)) }"

definition sxe_jitson_stack_get_jitson :: "allocator \<Rightarrow> sxe_jitson_stack \<Rightarrow> (bytes option \<times> sxe_jitson_stack) option" where
  "sxe_jitson_stack_get_jitson alloc st =
     do { m \<leftarrow> jitsons st;
          SXEA1 (s_open st = 0);
          if borrow st \<noteq> 0
          then do { SXEA1 (borrow st < count st);
                    v \<leftarrow> read_at m (16 * borrow st) (16 * (count st - borrow st));
                    case alloc (16 * (count st - borrow st)) of
                      None \<Rightarrow> Some (None, st)
                    | Some _ \<Rightarrow> do { v \<leftarrow> mark_alloced v; Some (Some v, st\<lparr>count := borrow st\<rparr>) } }
          else do { let ret = (if count st < maximum st
                               then case kit_realloc alloc (Some m) (16 * count st) of Some v \<Rightarrow> v | None \<Rightarrow> m
                               else m);
                    ret \<leftarrow> mark_alloced ret;
                    Some (Some ret, st\<lparr>jitsons := None, count := 0\<rparr>) } }"

section \<open>Strings\<close>

definition hex_digit_value :: "u8 \<Rightarrow> u32 option" where
  "hex_digit_value c =
     (if 48 \<le> c \<and> c \<le> 57 then Some (ucast c - 48)
      else if 97 \<le> c \<and> c \<le> 102 then Some (ucast c - 97 + 10)
      else if 65 \<le> c \<and> c \<le> 70 then Some (ucast c - 65 + 10)
      else None)"

text \<open>The four digits of a Unicode escape. \<open>None\<close> for the jump to \<^verbatim>\<open>ERROR\<close>.\<close>

fun get_unicode :: "nat \<Rightarrow> u32 \<Rightarrow> sxe_jitson_source \<Rightarrow> u32 option \<times> sxe_jitson_source" where
  "get_unicode 0 unicode source = (Some unicode, source)"
| "get_unicode (Suc n) unicode source =
     (case sxe_jitson_source_get_char source of (c, source) \<Rightarrow>
        case hex_digit_value c of
          Some d \<Rightarrow> get_unicode n (push_bit 4 unicode + d) source
        | None \<Rightarrow> (None, source))"

text \<open>The bytes an escape sequence stands for\<close>

definition get_escape :: "sxe_jitson_source \<Rightarrow> bytes option \<times> sxe_jitson_source" where
  "get_escape source =
     (case sxe_jitson_source_get_char source of (c, source) \<Rightarrow>
        if c = 34 \<or> c = 92 \<or> c = 47 then (Some [c], source)
        else if c = 98 then (Some [8], source)
        else if c = 102 then (Some [12], source)
        else if c = 110 then (Some [10], source)
        else if c = 114 then (Some [13], source)
        else if c = 116 then (Some [9], source)
        else if c = 117
        then (case get_unicode 4 0 source of
                (Some unicode, source) \<Rightarrow> (Some (snd (sxe_unicode_to_utf8 unicode)), source)
              | (None, source) \<Rightarrow> (None, source))
        else (None, source))"

text \<open>Appending to the string at an index: the bytes after those its length counts\<close>

definition append_string :: "nat \<Rightarrow> bytes \<Rightarrow> sxe_jitson_stack \<Rightarrow> sxe_jitson_stack option" where
  "append_string idx bs st =
     do { ln \<leftarrow> tok_len st idx;
          st \<leftarrow> set_string idx (unat ln) bs st;
          set_tok_len idx (ln + of_nat (length bs)) st }"

text \<open>The loop over the characters. The first byte of a character is written before the room for the others and
  the terminator is checked.\<close>

partial_function (option) load_string_loop ::
  "allocator \<Rightarrow> nat \<Rightarrow> nat \<Rightarrow> sxe_jitson_stack \<Rightarrow> sxe_jitson_source \<Rightarrow> (bool \<times> sxe_jitson_stack \<times> sxe_jitson_source) option" where
  "load_string_loop alloc idx space st source =
     (case sxe_jitson_source_get_char source of (c, source) \<Rightarrow>
        if c = 34
        then do { ln \<leftarrow> tok_len st idx;
                  st \<leftarrow> set_string idx (unat ln) [0] st;
                  Some (True, st, source) }
        else if c = 0 then Some (False, st\<lparr>count := idx\<rparr>, source)
        else case (if c = 92 then get_escape source else (Some [c], source)) of
               (None, source) \<Rightarrow> Some (False, st\<lparr>count := idx\<rparr>, source)
             | (Some utf8, source) \<Rightarrow>
                 do { st \<leftarrow> append_string idx (take 1 utf8) st;
                      (room, st) \<leftarrow> (if space - 1 < length utf8 then sxe_jitson_stack_expand alloc 1 st else Some (Some idx, st));
                      if room = None then Some (False, st\<lparr>count := idx\<rparr>, source)
                      else do { let space = (if space - 1 < length utf8 then space - 1 + 16 else space - 1);
                                st \<leftarrow> (if 1 < length utf8 then append_string idx (drop 1 utf8) st else Some st);
                                load_string_loop alloc idx (space - (length utf8 - 1)) st source } })"

declare load_string_loop.simps [code]

definition sxe_jitson_stack_load_string ::
  "allocator \<Rightarrow> sxe_jitson_stack \<Rightarrow> sxe_jitson_source \<Rightarrow> (bool \<times> sxe_jitson_stack \<times> sxe_jitson_source) option" where
  "sxe_jitson_stack_load_string alloc st source =
     (case sxe_jitson_source_get_nonspace source of (c, source) \<Rightarrow>
        if c \<noteq> 34 then Some (False, st, source)
        else do { (idx, st) \<leftarrow> sxe_jitson_stack_expand alloc 1 st;
                  case idx of
                    None \<Rightarrow> Some (False, st, source)
                  | Some idx \<Rightarrow> do { st \<leftarrow> set_type idx SXE_JITSON_TYPE_STRING st;
                                     st \<leftarrow> set_tok_len idx 0 st;
                                     load_string_loop alloc idx SXE_JITSON_STRING_SIZE st source } })"

section \<open>Sizes and constants\<close>

text \<open>Values as the tokens of a block of memory of their own. Of an indexed array or object the size is in the index, which is
  not represented, nor is the text a string refers to.\<close>

definition v_type :: "bytes \<Rightarrow> u32 option" where
  "v_type v = do { bs \<leftarrow> read_at v 0 4; Some (le_word bs) }"

definition v_len :: "bytes \<Rightarrow> u32 option" where
  "v_len v = do { bs \<leftarrow> read_at v 4 4; Some (le_word bs) }"

definition v_integer :: "bytes \<Rightarrow> u64 option" where
  "v_integer v = do { bs \<leftarrow> read_at v 8 8; Some (le_word bs) }"

definition v_string :: "bytes \<Rightarrow> bytes" where
  "v_string v = takeWhile (\<lambda>c. c \<noteq> 0) (drop 8 v)"

definition has :: "u32 \<Rightarrow> u32 \<Rightarrow> bool" where
  "has t flag \<longleftrightarrow> t AND flag \<noteq> 0"

definition sxe_jitson_string_len :: "bytes \<Rightarrow> nat option" where
  "sxe_jitson_string_len v =
     do { t \<leftarrow> v_type v;
          if has t SXE_JITSON_TYPE_IS_REF then None
          else if has t SXE_JITSON_TYPE_IS_KEY then Some (length (v_string v))
          else do { n \<leftarrow> v_len v; Some (unat n) } }"

definition sxe_jitson_string_size :: "bytes \<Rightarrow> nat option" where
  "sxe_jitson_string_size v =
     do { t \<leftarrow> v_type v;
          if has t SXE_JITSON_TYPE_IS_REF then Some 1
          else do { n \<leftarrow> sxe_jitson_string_len v;
                    Some (1 + (n + SXE_JITSON_TOKEN_SIZE - SXE_JITSON_STRING_SIZE) div SXE_JITSON_TOKEN_SIZE) } }"

definition sxe_jitson_size_indexed :: "bytes \<Rightarrow> nat option" where
  "sxe_jitson_size_indexed v =
     do { t \<leftarrow> v_type v;
          if has t SXE_JITSON_TYPE_INDEXED then None
          else do { n \<leftarrow> v_integer v; Some (unat (ucast n :: u32)) } }"

definition sxe_jitson_array_size :: "bytes \<Rightarrow> nat option" where
  "sxe_jitson_array_size v =
     do { t \<leftarrow> v_type v;
          if has t SXE_JITSON_TYPE_IS_REF then Some 2
          else if has t SXE_JITSON_TYPE_IS_UNIF
          then do { n \<leftarrow> v_len v; bs \<leftarrow> read_at v 12 4;
                    Some (unat (1 + n * of_nat ((unat (le_word bs :: u32) + 15) div 16) :: u32)) }
          else sxe_jitson_size_indexed v }"

definition sxe_jitson_size :: "bytes \<Rightarrow> nat option" where
  "sxe_jitson_size v =
     do { t \<leftarrow> v_type v;
          let t = t AND SXE_JITSON_TYPE_MASK;
          if t = SXE_JITSON_TYPE_STRING then sxe_jitson_string_size v
          else if t = SXE_JITSON_TYPE_ARRAY then sxe_jitson_array_size v
          else if t = SXE_JITSON_TYPE_OBJECT then sxe_jitson_size_indexed v
          else if t \<in> {SXE_JITSON_TYPE_NULL, SXE_JITSON_TYPE_BOOL, SXE_JITSON_TYPE_NUMBER, SXE_JITSON_TYPE_REFERENCE} then Some 1
          else None }"

text \<open>The tokens of the literals, in memory that is zero at first\<close>

definition sxe_jitson_make_bool :: "bool \<Rightarrow> bytes" where
  "sxe_jitson_make_bool boolean = le_bytes 4 SXE_JITSON_TYPE_BOOL @ replicate 4 0 @ [if boolean then 1 else 0] @ replicate 7 0"

definition sxe_jitson_make_null :: bytes where
  "sxe_jitson_make_null = le_bytes 4 SXE_JITSON_TYPE_NULL @ replicate 12 0"

text \<open>A constant is a value or a cast, a function that is given the stack and the value after it.\<close>

datatype jconst =
    Const_Value bytes
  | Const_Cast "sxe_jitson_stack \<Rightarrow> bytes \<Rightarrow> (bool \<times> sxe_jitson_stack) option"

definition builtin_symbols :: "bytes \<Rightarrow> jconst option" where
  "builtin_symbols name =
     (if name = ascii ''true'' then Some (Const_Value (sxe_jitson_make_bool True))
      else if name = ascii ''false'' then Some (Const_Value (sxe_jitson_make_bool False))
      else if name = ascii ''null'' then Some (Const_Value sxe_jitson_make_null)
      else None)"

text \<open>What the parser calls: the allocator, the symbol table once constants are registered, \<^verbatim>\<open>strtod\<close> (the bits of the double and the
  number of characters it takes), the comparison of two values, given by the memory from their first token on, deep copying of an array, object or owned string, and the hook for
  identifiers.\<close>

record jitson_env =
  env_alloc :: allocator
  all_symbols :: "bytes \<Rightarrow> jconst option"
  env_strtod :: "bytes \<Rightarrow> u64 \<times> nat"
  env_cmp :: "bytes \<Rightarrow> bytes \<Rightarrow> int"
  env_clone :: "bytes \<Rightarrow> bytes option"
  env_push_ident :: "(sxe_jitson_stack \<Rightarrow> bytes \<Rightarrow> (bool \<times> sxe_jitson_stack) option) option"

definition sxe_jitson_const_get :: "jitson_env \<Rightarrow> u32 \<Rightarrow> bytes \<Rightarrow> jconst option" where
  "sxe_jitson_const_get env flags name =
     (if flags AND SXE_JITSON_FLAG_ALLOW_CONSTS \<noteq> 0 then all_symbols env name else builtin_symbols name)"

text \<open>The deep copy of a value whose tokens were copied. Only strings that own their text, arrays and objects have more than their
  tokens.\<close>

definition sxe_jitson_clone :: "jitson_env \<Rightarrow> bytes \<Rightarrow> bytes option" where
  "sxe_jitson_clone env v =
     do { t \<leftarrow> v_type v;
          if t AND SXE_JITSON_TYPE_MASK \<in> {SXE_JITSON_TYPE_NULL, SXE_JITSON_TYPE_BOOL, SXE_JITSON_TYPE_NUMBER, SXE_JITSON_TYPE_REFERENCE} \<or>
             t AND SXE_JITSON_TYPE_MASK = SXE_JITSON_TYPE_STRING \<and> \<not> has t SXE_JITSON_TYPE_IS_OWN
          then Some v
          else env_clone env v }"

text \<open>A copy that cannot be made deep leaves the tokens it copied.\<close>

definition sxe_jitson_stack_dup_at_index ::
  "jitson_env \<Rightarrow> nat \<Rightarrow> bytes \<Rightarrow> nat \<Rightarrow> sxe_jitson_stack \<Rightarrow> (bool \<times> sxe_jitson_stack) option" where
  "sxe_jitson_stack_dup_at_index env idx val sz st =
     do { sz \<leftarrow> (if sz \<noteq> 0 then Some sz else sxe_jitson_size val);
          (room, st) \<leftarrow> (if count st < idx + sz then sxe_jitson_stack_expand (env_alloc env) (idx + sz - count st) st else Some (Some idx, st));
          if room = None then Some (False, st)
          else do { v \<leftarrow> read_at val 0 (16 * sz);
                    let (ok, v) = (case sxe_jitson_clone env v of Some v \<Rightarrow> (True, v) | None \<Rightarrow> (False, v));
                    st \<leftarrow> set_bytes (16 * idx) v st;
                    t \<leftarrow> tok_type st idx;
                    st \<leftarrow> set_type idx (t AND NOT SXE_JITSON_TYPE_ALLOCED) st;
                    Some (ok, st) } }"

section \<open>Numbers\<close>

text \<open>\<^verbatim>\<open>strtoul\<close> for a text that starts with a digit: the value, the largest integer if it does not fit, and the
  number of characters. The base is 10, or that of the prefix.\<close>

definition number_value :: "int \<Rightarrow> bytes \<Rightarrow> int" where
  "number_value base ds = foldl (\<lambda>n c. n * base + (case hex_digit_value c of Some d \<Rightarrow> uint d | None \<Rightarrow> 0)) 0 ds"

definition saturate :: "int \<Rightarrow> u64" where
  "saturate n = (if n < 2 ^ 64 then word_of_int n else - 1)"

definition strtoul :: "bytes \<Rightarrow> bool \<Rightarrow> u64 \<times> nat" where
  "strtoul s prefixed =
     (if prefixed \<and> c_at s 0 = 48 \<and> (c_at s 1 = 120 \<or> c_at s 1 = 88) \<and> isxdigit (c_at s 2)
      then let ds = takeWhile isxdigit (drop 2 s) in (saturate (number_value 16 ds), 2 + length ds)
      else if prefixed \<and> c_at s 0 = 48
      then let ds = takeWhile (\<lambda>c. 48 \<le> c \<and> c \<le> 55) s in (saturate (number_value 8 ds), length ds)
      else let ds = takeWhile isdigit s in (saturate (number_value 10 ds), length ds))"

section \<open>The parser\<close>

definition INV :: u8 where "INV = 0"
definition SYM :: u8 where "SYM = 1"
definition QOT :: u8 where "QOT = 2"
definition DIG :: u8 where "DIG = 4"
definition ALP :: u8 where "ALP = 5"

definition jitson_class :: bytes where
  "jitson_class = [
     INV, INV, INV, INV, INV, INV, INV, INV, INV, INV, INV, INV, INV, INV, INV, INV,
     INV, INV, INV, INV, INV, INV, INV, INV, INV, INV, INV, INV, INV, INV, INV, INV,
     INV, SYM, 34, SYM, SYM, SYM, SYM, QOT, 40, 41, SYM, SYM, SYM, 45, SYM, SYM,
     DIG, DIG, DIG, DIG, DIG, DIG, DIG, DIG, DIG, DIG, SYM, SYM, SYM, SYM, SYM, SYM,
     SYM, ALP, ALP, ALP, ALP, ALP, ALP, ALP, ALP, ALP, ALP, ALP, ALP, ALP, ALP, ALP,
     ALP, ALP, ALP, ALP, ALP, ALP, ALP, ALP, ALP, ALP, ALP, 91, SYM, 93, SYM, ALP,
     QOT, ALP, ALP, ALP, ALP, ALP, ALP, ALP, ALP, ALP, ALP, ALP, ALP, ALP, ALP, ALP,
     ALP, ALP, ALP, ALP, ALP, ALP, ALP, ALP, ALP, ALP, ALP, 123, SYM, 125, SYM, INV,
     INV, INV, INV, INV, INV, INV, INV, INV, INV, INV, INV, INV, INV, INV, INV, INV,
     INV, INV, INV, INV, INV, INV, INV, INV, INV, INV, INV, INV, INV, INV, INV, INV,
     INV, INV, INV, INV, INV, INV, INV, INV, INV, INV, INV, INV, INV, INV, INV, INV,
     INV, INV, INV, INV, INV, INV, INV, INV, INV, INV, INV, INV, INV, INV, INV, INV,
     INV, INV, INV, INV, INV, INV, INV, INV, INV, INV, INV, INV, INV, INV, INV, INV,
     INV, INV, INV, INV, INV, INV, INV, INV, INV, INV, INV, INV, INV, INV, INV, INV,
     INV, INV, INV, INV, INV, INV, INV, INV, INV, INV, INV, INV, INV, INV, INV, INV] @ replicate 16 INV"

definition load_fail :: "nat \<Rightarrow> sxe_jitson_stack \<Rightarrow> sxe_jitson_source \<Rightarrow> (bool \<times> sxe_jitson_stack \<times> sxe_jitson_source) option" where
  "load_fail idx st source = Some (False, st\<lparr>count := idx\<rparr>, source)"

text \<open>The characters after the token, which \<^verbatim>\<open>strtoul\<close> and \<^verbatim>\<open>strtod\<close> look at, need not be in the source. When the text ends
  with the number, the byte after it is taken to be a terminator, as it is for a C string; for a buffer without one the
  code reads a byte that does not belong to it.\<close>

definition load_number ::
  "jitson_env \<Rightarrow> nat \<Rightarrow> sxe_jitson_stack \<Rightarrow> sxe_jitson_source \<Rightarrow> (bool \<times> sxe_jitson_stack \<times> sxe_jitson_source) option" where
  "load_number env idx st source =
     (case sxe_jitson_source_get_number source of
        None \<Rightarrow> load_fail idx st source
      | Some ((token, ln, is_uint), source) \<Rightarrow>
          if is_uint
          then do { st \<leftarrow> set_type idx (SXE_JITSON_TYPE_NUMBER OR SXE_JITSON_TYPE_IS_UINT) st;
                    let (v, n) = strtoul (drop token (json source)) (s_flags source AND SXE_JITSON_FLAG_ALLOW_HEX \<noteq> 0);
                    st \<leftarrow> set_integer idx v st;
                    SXEA6 (n = ln);
                    Some (True, st, source) }
          else do { st \<leftarrow> set_type idx SXE_JITSON_TYPE_NUMBER st;
                    let (v, n) = env_strtod env (drop token (json source));
                    st \<leftarrow> set_integer idx v st;
                    SXEA6 (n = ln);
                    Some (True, st, source) })"

text \<open>The properties of an array that are detected while it is parsed, after its next element was loaded\<close>

definition check_element ::
  "jitson_env \<Rightarrow> nat \<Rightarrow> nat \<Rightarrow> nat \<Rightarrow> u32 \<Rightarrow> sxe_jitson_stack \<Rightarrow> sxe_jitson_stack option" where
  "check_element env idx previous current flags st =
     do { ln \<leftarrow> tok_len st idx;
          if flags AND SXE_JITSON_FLAG_OPTIMIZE \<noteq> 0 \<and> 0 < ln
          then do { m \<leftarrow> jitsons st;
                    t \<leftarrow> tok_type st idx;
                    st \<leftarrow> (if has t SXE_JITSON_TYPE_IS_ORD \<and> 0 < env_cmp env (drop (16 * previous) m) (drop (16 * current) m)
                          then set_type idx (t AND NOT SXE_JITSON_TYPE_IS_ORD) st else Some st);
                    t \<leftarrow> tok_type st idx;
                    st \<leftarrow> (if has t SXE_JITSON_TYPE_IS_UNIF \<and>
                             (of_nat current - of_nat previous :: u32) \<noteq> of_nat (count st) - of_nat current
                          then set_type idx (t AND NOT SXE_JITSON_TYPE_IS_UNIF) st else Some st);
                    t \<leftarrow> tok_type st idx;
                    p \<leftarrow> tok_type st previous;
                    c \<leftarrow> tok_type st current;
                    if has t SXE_JITSON_TYPE_IS_HOMO \<and> p \<noteq> c
                    then set_type idx (t AND NOT SXE_JITSON_TYPE_IS_HOMO) st else Some st }
          else Some st }"

text \<open>The end of an array. The type of the elements of a uniform array is taken from the token at the index \<^verbatim>\<open>stack->open\<close>.\<close>

definition close_array :: "nat \<Rightarrow> sxe_jitson_stack \<Rightarrow> sxe_jitson_stack option" where
  "close_array idx st =
     do { ln \<leftarrow> tok_len st idx;
          t \<leftarrow> tok_type st idx;
          st \<leftarrow> (if ln \<le> 1 then set_type idx (t AND NOT SXE_JITSON_TYPE_IS_ORD) st else Some st);
          t \<leftarrow> tok_type st idx;
          if ln \<noteq> 0 \<and> has t SXE_JITSON_TYPE_IS_UNIF
          then do { e \<leftarrow> (if has t SXE_JITSON_TYPE_IS_HOMO then tok_type st (s_open st) else Some SXE_JITSON_TYPE_INVALID);
                    set_bytes (16 * idx + 8) (le_bytes 4 e @ le_bytes 4 (of_nat (16 * (count st - (idx + 1)) div unat ln) :: u32)) st }
          else set_integer idx (of_nat (count st - idx)) st }"

text \<open>The points at which the parser calls itself or loops: at a value, at a member of the object at an index with the next
  character, and at an element of the array at an index.\<close>

datatype load_point = Load_Value | Load_Member nat u8 | Load_Element nat

partial_function (option) load ::
  "jitson_env \<Rightarrow> load_point \<Rightarrow> sxe_jitson_stack \<Rightarrow> sxe_jitson_source \<Rightarrow> (bool \<times> sxe_jitson_stack \<times> sxe_jitson_source) option" where
  "load env pt st source =
     (case pt of
        Load_Value \<Rightarrow>
          (case sxe_jitson_source_peek_nonspace source of (c, source) \<Rightarrow>
             if c = 0 then Some (False, st, source)
             else do { (new, st) \<leftarrow> sxe_jitson_stack_expand (env_alloc env) 1 st;
                       case new of
                         None \<Rightarrow> Some (False, st, source)
                       | Some idx \<Rightarrow>
                           (let st = st\<lparr>s_last := idx\<rparr>; cls = jitson_class ! unat c
                            in if cls = 34
                               then sxe_jitson_stack_load_string (env_alloc env) (st\<lparr>count := count st - 1\<rparr>) source
                               else if cls = 123
                               then do { st \<leftarrow> set_type idx SXE_JITSON_TYPE_OBJECT st;
                                         st \<leftarrow> set_tok_len idx 0 st;
                                         case sxe_jitson_source_peek_nonspace (sxe_jitson_source_consume 1 source) of (c, source) \<Rightarrow>
                                           if c = 125
                                           then do { st \<leftarrow> set_integer idx 1 st;
                                                     Some (True, st, sxe_jitson_source_consume 1 source) }
                                           else load env (Load_Member idx c) st source }
                               else if cls = 91
                               then do { let optimized = s_flags source AND SXE_JITSON_FLAG_OPTIMIZE \<noteq> 0;
                                         let ordered = SXE_JITSON_TYPE_IS_ORD OR SXE_JITSON_TYPE_IS_UNIF OR SXE_JITSON_TYPE_IS_HOMO;
                                         let t = (if optimized then SXE_JITSON_TYPE_ARRAY OR ordered else SXE_JITSON_TYPE_ARRAY);
                                         st \<leftarrow> set_type idx t st;
                                         st \<leftarrow> set_tok_len idx 0 st;
                                         case sxe_jitson_source_peek_nonspace (sxe_jitson_source_consume 1 source) of (c, source) \<Rightarrow>
                                           if c = 93
                                           then do { st \<leftarrow> set_type idx (t AND NOT SXE_JITSON_TYPE_IS_ORD) st;
                                                     st \<leftarrow> set_integer idx 1 st;
                                                     Some (True, st, sxe_jitson_source_consume 1 source) }
                                           else load env (Load_Element idx) st source }
                               else if cls = 45 \<or> cls = DIG
                               then load_number env idx st source
                               else if cls = ALP
                               then (case sxe_jitson_source_get_identifier source of ((_, n), source') \<Rightarrow>
                                      let name = take n (drop (s_next source) (json source)); source = source'
                                      in case sxe_jitson_const_get env (s_flags source) name of
                                           Some (Const_Value v) \<Rightarrow>
                                             do { (ok, st) \<leftarrow> sxe_jitson_stack_dup_at_index env idx v 0 st; Some (ok, st, source) }
                                         | Some (Const_Cast castfunc) \<Rightarrow>
                                             (case sxe_jitson_source_get_nonspace source of (c, source) \<Rightarrow>
                                                if c \<noteq> 40 then load_fail idx st source
                                                else case sxe_jitson_stack_borrow (st\<lparr>count := count st - 1\<rparr>) of (st, iou) \<Rightarrow>
                                                  do { (ok, st, source) \<leftarrow> load env Load_Value st source;
                                                       (cast_arg, st) \<leftarrow>
                                                         (if ok then sxe_jitson_stack_get_jitson (env_alloc env) st else Some (None, st));
                                                       st \<leftarrow> sxe_jitson_stack_return st iou;
                                                       case cast_arg of
                                                         None \<Rightarrow> load_fail idx st source
                                                       | Some arg \<Rightarrow>
                                                           (case sxe_jitson_source_get_nonspace source of (c, source) \<Rightarrow>
                                                              if c \<noteq> 41 then load_fail idx st source
                                                              else do { (ok, st) \<leftarrow> castfunc st arg;
                                                                        if ok then Some (True, st, source)
                                                                        else load_fail idx st source }) })
                                         | None \<Rightarrow>
                                             (case env_push_ident env of
                                                Some push_ident \<Rightarrow>
                                                  if s_flags source AND SXE_JITSON_FLAG_ALLOW_IDENTS \<noteq> 0
                                                  then do { (ok, st) \<leftarrow> push_ident (st\<lparr>count := count st - 1\<rparr>) name;
                                                            if ok then Some (True, st, source) else load_fail idx st source }
                                                  else load_fail idx st source
                                              | None \<Rightarrow> load_fail idx st source))
                               else load_fail idx st source) })
      | Load_Member idx c \<Rightarrow>
          if c \<noteq> 34 then load_fail idx st source
          else do { let previous = count st;
                    (ok, st, source) \<leftarrow> sxe_jitson_stack_load_string (env_alloc env) st source;
                    if \<not> ok then load_fail idx st source
                    else case sxe_jitson_source_get_nonspace source of (c, source) \<Rightarrow>
                      if c \<noteq> 58 then load_fail idx st source
                      else do { (ok, st, source) \<leftarrow> load env Load_Value st source;
                                if \<not> ok then load_fail idx st source
                                else do { ln \<leftarrow> tok_len st idx;
                                          st \<leftarrow> set_tok_len idx (ln + 1) st;
                                          t \<leftarrow> tok_type st previous;
                                          st \<leftarrow> set_type previous (t OR SXE_JITSON_TYPE_IS_KEY) st;
                                          case sxe_jitson_source_get_nonspace source of (c, source) \<Rightarrow>
                                            if c = 44
                                            then (case sxe_jitson_source_peek_nonspace source of (c, source) \<Rightarrow>
                                                    if c \<noteq> 0 then load env (Load_Member idx c) st source
                                                    else load_fail idx st source)
                                            else if c = 125
                                            then do { st \<leftarrow> set_integer idx (of_nat (count st - idx)) st; Some (True, st, source) }
                                            else load_fail idx st source } } }
      | Load_Element idx \<Rightarrow>
          do { let previous = s_last st;
               let current = count st;
               (ok, st, source) \<leftarrow> load env Load_Value st source;
               if \<not> ok then load_fail idx st source
               else do { st \<leftarrow> check_element env idx previous current (s_flags source) st;
                         ln \<leftarrow> tok_len st idx;
                         st \<leftarrow> set_tok_len idx (ln + 1) st;
                         case sxe_jitson_source_get_nonspace source of (c, source) \<Rightarrow>
                           if c = 44 then load env (Load_Element idx) st source
                           else if c \<noteq> 93 then load_fail idx st source
                           else do { st \<leftarrow> close_array idx st; Some (True, st, source) } } })"

declare load.simps [code]

definition sxe_jitson_stack_load_json ::
  "jitson_env \<Rightarrow> sxe_jitson_stack \<Rightarrow> sxe_jitson_source \<Rightarrow> (bool \<times> sxe_jitson_stack \<times> sxe_jitson_source) option" where
  "sxe_jitson_stack_load_json env st source = load env Load_Value st source"

text \<open>The number of characters parsed, or \<open>None\<close> for the null pointer\<close>

definition sxe_jitson_stack_parse_json ::
  "jitson_env \<Rightarrow> u32 \<Rightarrow> sxe_jitson_stack \<Rightarrow> bytes \<Rightarrow> (nat option \<times> sxe_jitson_stack) option" where
  "sxe_jitson_stack_parse_json env flags st str =
     do { (ok, st, source) \<leftarrow> sxe_jitson_stack_load_json env st (sxe_jitson_source_from_string str flags);
          Some (if ok then Some (sxe_jitson_source_get_consumed source) else None, st) }"

text \<open>A new value parsed on the stack of the thread\<close>

definition sxe_jitson_new :: "jitson_env \<Rightarrow> u32 \<Rightarrow> sxe_jitson_stack \<Rightarrow> bytes \<Rightarrow> (bytes option \<times> sxe_jitson_stack) option" where
  "sxe_jitson_new env flags st str =
     do { (parsed, st) \<leftarrow> sxe_jitson_stack_parse_json env flags st str;
          case parsed of
            None \<Rightarrow> Some (None, sxe_jitson_stack_clear st)
          | Some _ \<Rightarrow> sxe_jitson_stack_get_jitson (env_alloc env) st }"

end
