(* ===== verification/Sxe_Jitson_Build.thy ===== *)
theory Sxe_Jitson_Build
  imports Kit_SortedArray Sxe_Jitson
begin

text \<open>
  Model of the functions of \<^verbatim>\<open>lib-sxe-jitson/sxe-jitson-stack.c\<close> that construct values on a stack: collections are opened, values
  and member names are added to the innermost one, and it is closed. The flags of the process are a parameter. The text a string
  refers to and the value a reference refers to are given by their address.
\<close>

section \<open>Collections under construction\<close>

text \<open>The fields of \<^verbatim>\<open>partial\<close>: whether a member name waits for its value, the last element, and the enclosing collection\<close>

definition tok_no_value :: "sxe_jitson_stack \<Rightarrow> nat \<Rightarrow> bool option" where
  "tok_no_value st i = do { m \<leftarrow> jitsons st; bs \<leftarrow> read_at m (16 * i + 8) 1; Some (bs \<noteq> [0]) }"

definition tok_last :: "sxe_jitson_stack \<Rightarrow> nat \<Rightarrow> u32 option" where
  "tok_last st i = do { m \<leftarrow> jitsons st; bs \<leftarrow> read_at m (16 * i + 8) 4; Some (le_word bs) }"

definition tok_collection :: "sxe_jitson_stack \<Rightarrow> nat \<Rightarrow> u32 option" where
  "tok_collection st i = do { m \<leftarrow> jitsons st; bs \<leftarrow> read_at m (16 * i + 12) 4; Some (le_word bs) }"

definition set_no_value :: "nat \<Rightarrow> bool \<Rightarrow> sxe_jitson_stack \<Rightarrow> sxe_jitson_stack option" where
  "set_no_value i b st = set_bytes (16 * i + 8) [if b then 1 else 0] st"

definition set_last :: "nat \<Rightarrow> u32 \<Rightarrow> sxe_jitson_stack \<Rightarrow> sxe_jitson_stack option" where
  "set_last i w st = set_bytes (16 * i + 8) (le_bytes 4 w) st"

definition set_collection :: "nat \<Rightarrow> u32 \<Rightarrow> sxe_jitson_stack \<Rightarrow> sxe_jitson_stack option" where
  "set_collection i w st = set_bytes (16 * i + 12) (le_bytes 4 w) st"

definition clear_type :: "nat \<Rightarrow> u32 \<Rightarrow> sxe_jitson_stack \<Rightarrow> sxe_jitson_stack option" where
  "clear_type i flag st = do { t \<leftarrow> tok_type st i; set_type i (t AND NOT flag) st }"

definition SXE_JITSON_STACK_ERROR :: nat where "SXE_JITSON_STACK_ERROR = 4294967295"

section \<open>Adding values\<close>

text \<open>The flags of the collection that the size and the type of a new element end\<close>

definition check_uniform :: "nat \<Rightarrow> u32 \<Rightarrow> bool \<Rightarrow> nat \<Rightarrow> sxe_jitson_stack \<Rightarrow> sxe_jitson_stack option" where
  "check_uniform sz elem_type has_element collection st =
     do { t \<leftarrow> tok_type st collection;
          ln \<leftarrow> tok_len st collection;
          if ln = 0 then Some st
          else do { st \<leftarrow> (if has t SXE_JITSON_TYPE_IS_UNIF \<and>
                             sz \<noteq> (count st - (if has_element then 0 else sz) - (collection + 1)) div unat ln
                          then do { SXEA1 (\<not> has t SXE_JITSON_TYPE_MK_SORT); clear_type collection SXE_JITSON_TYPE_IS_UNIF st }
                          else Some st);
                    if has t SXE_JITSON_TYPE_IS_HOMO
                    then do { e \<leftarrow> tok_type st (collection + 1);
                              if e AND SXE_JITSON_TYPE_MASK \<noteq> elem_type then clear_type collection SXE_JITSON_TYPE_IS_HOMO st else Some st }
                    else Some st } }"

text \<open>Where a new element goes in an array that is kept sorted, from the index after the last element. The elements from there on
  are moved up.\<close>

definition insert_index ::
  "jitson_env \<Rightarrow> nat \<Rightarrow> bytes option \<Rightarrow> nat \<Rightarrow> nat \<Rightarrow> nat \<Rightarrow> sxe_jitson_stack \<Rightarrow> (nat \<times> sxe_jitson_stack) option" where
  "insert_index env sz element collection ln idx st =
     do { SXEA6 (element \<noteq> None);
          m \<leftarrow> jitsons st;
          let new = the element;
          if env_cmp env (drop (16 * (idx - sz)) m) new > 0
          then do { let cls = (\<lparr>elem_class = \<lparr>elem_size = sz * 16, keyoffset = 0, cmp = env_cmp env, has_fmt = False\<rparr>,
                               visit = (\<lambda>_ v. (False, v)), class_flags = KIT_SORTEDARRAY_CMP_CAN_FAIL\<rparr> :: unit kit_sortedarray_class);
                    (i, _) \<leftarrow> kit_sortedarray_find_key cls (drop (16 * (collection + 1)) m) ln new;
                    SXEA6 (i < ln);
                    let idx = collection + 1 + sz * i;
                    m \<leftarrow> memmove m (16 * (idx + 1)) (16 * idx) ((ln - i) * sz * 16);
                    Some (idx, st\<lparr>jitsons := Some m\<rparr>) }
          else Some (idx, st) }"

text \<open>The order of an array, checked against the last element\<close>

definition check_order :: "jitson_env \<Rightarrow> nat \<Rightarrow> bytes option \<Rightarrow> nat \<Rightarrow> sxe_jitson_stack \<Rightarrow> sxe_jitson_stack option" where
  "check_order env sz element collection st =
     do { m \<leftarrow> jitsons st;
          l \<leftarrow> tok_last st collection;
          case element of
            Some new \<Rightarrow> if env_cmp env (drop (16 * unat l) m) new > 0 then clear_type collection SXE_JITSON_TYPE_IS_ORD st else Some st
          | None \<Rightarrow> if sz \<noteq> 0 \<and> env_cmp env (drop (16 * unat l) m) (drop (16 * s_last st) m) > 0
                    then clear_type collection SXE_JITSON_TYPE_IS_ORD st else Some st }"

text \<open>The index of the new element, or \<open>None\<close> for \<^verbatim>\<open>SXE_JITSON_STACK_ERROR\<close>\<close>

definition sxe_jitson_stack_add_value ::
  "jitson_env \<Rightarrow> nat \<Rightarrow> u32 \<Rightarrow> bytes option \<Rightarrow> sxe_jitson_stack \<Rightarrow> (nat option \<times> sxe_jitson_stack) option" where
  "sxe_jitson_stack_add_value env sz elem_type element st =
     do { SXEA1 (s_open st \<noteq> 0);
          SXEA6 (sz \<noteq> 0 \<or> element = None);
          let collection = s_open st - 1;
          t \<leftarrow> tok_type st collection;
          let is_array = (t AND SXE_JITSON_TYPE_MASK = SXE_JITSON_TYPE_ARRAY);
          SXEA1 (is_array \<or> t AND SXE_JITSON_TYPE_MASK = SXE_JITSON_TYPE_OBJECT);
          no_value \<leftarrow> tok_no_value st collection;
          SXEA1 (is_array \<or> no_value);
          ln \<leftarrow> tok_len st collection;
          st \<leftarrow> check_uniform sz elem_type (element \<noteq> None) collection st;
          (new, st) \<leftarrow> (case element of
                          Some _ \<Rightarrow> sxe_jitson_stack_expand (env_alloc env) sz st
                        | None \<Rightarrow> Some (Some (count st - sz), st));
          case new of
            None \<Rightarrow> Some (None, st\<lparr>s_last := SXE_JITSON_STACK_ERROR\<rparr>)
          | Some idx \<Rightarrow>
              do { let st = st\<lparr>s_last := idx\<rparr>;
                   (idx, st) \<leftarrow> (if ln \<noteq> 0 \<and> has t SXE_JITSON_TYPE_MK_SORT
                                then insert_index env sz element collection (unat ln) idx st
                                else if ln \<noteq> 0 \<and> has t SXE_JITSON_TYPE_IS_ORD
                                then do { st \<leftarrow> check_order env sz element collection st; Some (idx, st) }
                                else Some (idx, st));
                   st \<leftarrow> (case element of Some new \<Rightarrow> set_bytes (16 * idx) (take (16 * sz) new) st | None \<Rightarrow> Some st);
                   st \<leftarrow> (if is_array
                         then if sz \<noteq> 0 then set_last collection (of_nat (s_last st)) st else Some st
                         else set_no_value collection False st);
                   ln \<leftarrow> tok_len st collection;
                   st \<leftarrow> set_tok_len collection (ln + 1) st;
                   Some (Some idx, st) } }"

definition sxe_jitson_stack_value_added :: "jitson_env \<Rightarrow> u32 \<Rightarrow> sxe_jitson_stack \<Rightarrow> sxe_jitson_stack option" where
  "sxe_jitson_stack_value_added env flags st =
     do { let collection = s_open st - 1;
          t \<leftarrow> tok_type st collection;
          if flags AND SXE_JITSON_FLAG_OPTIMIZE \<noteq> 0 \<and> t AND SXE_JITSON_TYPE_MASK = SXE_JITSON_TYPE_ARRAY
          then do { ln \<leftarrow> tok_len st collection;
                    st \<leftarrow> (if 1 < ln \<and> has t SXE_JITSON_TYPE_IS_ORD
                          then do { m \<leftarrow> jitsons st;
                                    l \<leftarrow> tok_last st collection;
                                    if env_cmp env (drop (16 * unat l) m) (drop (16 * s_last st) m) > 0
                                    then clear_type collection SXE_JITSON_TYPE_IS_ORD st else Some st }
                          else Some st);
                    set_last collection (of_nat (s_last st)) st }
          else Some st }"

definition sxe_jitson_stack_open_collection :: "jitson_env \<Rightarrow> u32 \<Rightarrow> u32 \<Rightarrow> sxe_jitson_stack \<Rightarrow> (bool \<times> sxe_jitson_stack) option" where
  "sxe_jitson_stack_open_collection env flags t st =
     do { let type_check = t AND NOT SXE_JITSON_TYPE_IS_LOCAL;
          SXEA6 (type_check = SXE_JITSON_TYPE_ARRAY \<or> type_check = SXE_JITSON_TYPE_OBJECT \<or>
                 type_check = SXE_JITSON_TYPE_ARRAY OR SXE_JITSON_TYPE_MK_SORT);
          st \<leftarrow> (if s_open st \<noteq> 0 then do { (_, st) \<leftarrow> sxe_jitson_stack_add_value env 0 t None st; Some st } else Some st);
          (new, st) \<leftarrow> sxe_jitson_stack_expand (env_alloc env) 1 st;
          case new of
            None \<Rightarrow> Some (False, st)
          | Some idx \<Rightarrow>
              do { st \<leftarrow> set_type idx (if t AND SXE_JITSON_TYPE_MASK = SXE_JITSON_TYPE_ARRAY \<and>
                                      (flags AND SXE_JITSON_FLAG_OPTIMIZE \<noteq> 0 \<or> has t SXE_JITSON_TYPE_MK_SORT)
                                   then t OR SXE_JITSON_TYPE_IS_ORD OR SXE_JITSON_TYPE_IS_UNIF OR SXE_JITSON_TYPE_IS_HOMO else t) st;
                   st \<leftarrow> set_tok_len idx 0 st;
                   st \<leftarrow> set_no_value idx False st;
                   st \<leftarrow> set_collection idx (of_nat (s_open st)) st;
                   Some (True, st\<lparr>s_open := idx + 1\<rparr>) } }"

section \<open>Strings\<close>

text \<open>The tokens after the first one, until the rest of the string and its terminator fit\<close>

function push_string_rest ::
  "allocator \<Rightarrow> nat \<Rightarrow> bytes \<Rightarrow> sxe_jitson_stack \<Rightarrow> (bool \<times> sxe_jitson_stack) option" where
  "push_string_rest alloc unwind str st =
     do { (new, st) \<leftarrow> sxe_jitson_stack_expand alloc 1 st;
          case new of
            None \<Rightarrow> Some (False, st\<lparr>count := unwind\<rparr>)
          | Some idx \<Rightarrow>
              if length str < SXE_JITSON_TOKEN_SIZE
              then do { st \<leftarrow> set_bytes (16 * idx) (str @ [0]) st; Some (True, st) }
              else do { st \<leftarrow> set_bytes (16 * idx) (take SXE_JITSON_TOKEN_SIZE str) st;
                        push_string_rest alloc unwind (drop SXE_JITSON_TOKEN_SIZE str) st } }"
  by pat_completeness auto
termination
  by (relation "measure (\<lambda>(alloc, unwind, str, st). length str)") (auto simp: SXE_JITSON_TOKEN_SIZE_def)

text \<open>A string is given by the bytes at its address, up to the first zero or the end of the list, where its terminator is; and by its address
  for the case that it is only referred to.\<close>

definition c_string :: "bytes \<Rightarrow> bytes" where
  "c_string str = takeWhile (\<lambda>c. c \<noteq> 0) str"

definition sxe_jitson_stack_push_string ::
  "allocator \<Rightarrow> bytes \<Rightarrow> u64 \<Rightarrow> u32 \<Rightarrow> sxe_jitson_stack \<Rightarrow> (bool \<times> sxe_jitson_stack) option" where
  "sxe_jitson_stack_push_string alloc str address t st =
     do { (new, st) \<leftarrow> sxe_jitson_stack_expand alloc 1 st;
          case new of
            None \<Rightarrow> Some (False, st)
          | Some unwind \<Rightarrow>
              do { let t = (if has t SXE_JITSON_TYPE_IS_OWN then SXE_JITSON_TYPE_IS_REF OR t else t);
                   st \<leftarrow> set_type unwind (SXE_JITSON_TYPE_STRING OR t) st;
                   if has t SXE_JITSON_TYPE_IS_REF
                   then do { st \<leftarrow> set_integer unwind address st; st \<leftarrow> set_tok_len unwind 0 st; Some (True, st) }
                   else let str = c_string str
                        in if 2 ^ 32 \<le> length str then Some (False, st\<lparr>count := unwind\<rparr>)
                   else do { st \<leftarrow> set_tok_len unwind (of_nat (length str)) st;
                             if length str < SXE_JITSON_STRING_SIZE
                             then do { st \<leftarrow> set_string unwind 0 (str @ [0]) st; Some (True, st) }
                             else do { st \<leftarrow> set_string unwind 0 (take SXE_JITSON_STRING_SIZE str) st;
                                       push_string_rest alloc unwind (drop SXE_JITSON_STRING_SIZE str) st } } } }"

text \<open>A length of 0 stands for the length of the string.\<close>

definition sxe_jitson_stack_push_string_reversed ::
  "allocator \<Rightarrow> bytes \<Rightarrow> nat \<Rightarrow> sxe_jitson_stack \<Rightarrow> (bool \<times> sxe_jitson_stack) option" where
  "sxe_jitson_stack_push_string_reversed alloc str ln st =
     do { let ln = (if ln \<noteq> 0 then ln else length (c_string str));
          if 2 ^ 32 \<le> ln then Some (False, st)
          else do { (new, st) \<leftarrow> sxe_jitson_stack_expand alloc ((ln + 2 * SXE_JITSON_TOKEN_SIZE - SXE_JITSON_STRING_SIZE) div SXE_JITSON_TOKEN_SIZE) st;
                    case new of
                      None \<Rightarrow> Some (False, st)
                    | Some idx \<Rightarrow>
                        do { st \<leftarrow> set_type idx (SXE_JITSON_TYPE_STRING OR SXE_JITSON_TYPE_IS_COPY OR SXE_JITSON_TYPE_REVERSED) st;
                             st \<leftarrow> set_tok_len idx (of_nat ln) st;
                             cs \<leftarrow> read_at (str @ [0]) 0 ln;
                             st \<leftarrow> set_string idx 0 (rev cs) st;
                             st \<leftarrow> set_string idx ln [0] st;
                             Some (True, st) } } }"

definition sxe_jitson_stack_add_member_name ::
  "jitson_env \<Rightarrow> bytes \<Rightarrow> u64 \<Rightarrow> u32 \<Rightarrow> sxe_jitson_stack \<Rightarrow> (bool \<times> sxe_jitson_stack) option" where
  "sxe_jitson_stack_add_member_name env name address t st =
     do { SXEA1 (s_open st \<noteq> 0);
          let object = s_open st - 1;
          ot \<leftarrow> tok_type st object;
          SXEA1 (ot AND NOT SXE_JITSON_TYPE_IS_LOCAL = SXE_JITSON_TYPE_OBJECT);
          no_value \<leftarrow> tok_no_value st object;
          SXEA1 (\<not> no_value);
          SXEA1 (t AND NOT (SXE_JITSON_TYPE_IS_REF OR SXE_JITSON_TYPE_IS_OWN OR SXE_JITSON_TYPE_IS_LOCAL) = 0);
          st \<leftarrow> set_no_value object True st;
          sxe_jitson_stack_push_string (env_alloc env) name address (t OR SXE_JITSON_TYPE_IS_KEY) st }"

definition sxe_jitson_make_string_ref :: "u64 \<Rightarrow> bytes" where
  "sxe_jitson_make_string_ref address = le_bytes 4 (SXE_JITSON_TYPE_STRING OR SXE_JITSON_TYPE_IS_REF) @ le_bytes 4 (0 :: u32) @ le_bytes 8 address"

definition sxe_jitson_stack_add_string ::
  "jitson_env \<Rightarrow> u32 \<Rightarrow> bytes \<Rightarrow> u64 \<Rightarrow> u32 \<Rightarrow> sxe_jitson_stack \<Rightarrow> (bool \<times> sxe_jitson_stack) option" where
  "sxe_jitson_stack_add_string env flags str address t st =
     do { SXEA1 (s_open st \<noteq> 0);
          SXEA1 (t AND NOT (SXE_JITSON_TYPE_IS_REF OR SXE_JITSON_TYPE_IS_OWN) = 0);
          let t = (if t = SXE_JITSON_TYPE_IS_OWN then SXE_JITSON_TYPE_IS_OWN OR SXE_JITSON_TYPE_IS_REF else t);
          if has t SXE_JITSON_TYPE_IS_REF
          then do { let string_ref = sxe_jitson_make_string_ref address;
                    string_ref \<leftarrow> memcpy_at string_ref 0 (le_bytes 4 (SXE_JITSON_TYPE_STRING OR SXE_JITSON_TYPE_IS_REF OR t AND SXE_JITSON_TYPE_IS_OWN));
                    (new, st) \<leftarrow> sxe_jitson_stack_add_value env 1 SXE_JITSON_TYPE_STRING (Some string_ref) st;
                    Some (new \<noteq> None, st) }
          else do { (new, st) \<leftarrow> sxe_jitson_stack_add_value env 0 SXE_JITSON_TYPE_STRING None st;
                    if new = None then Some (False, st)
                    else do { let st = st\<lparr>s_last := count st\<rparr>;
                              (ok, st) \<leftarrow> sxe_jitson_stack_push_string (env_alloc env) str address t st;
                              if \<not> ok
                              then do { ln \<leftarrow> tok_len st (s_open st - 1);
                                        st \<leftarrow> set_tok_len (s_open st - 1) (ln - 1) st;
                                        Some (False, st) }
                              else do { st \<leftarrow> sxe_jitson_stack_value_added env flags st; Some (True, st) } } } }"

section \<open>Fixed size values\<close>

text \<open>The bytes of a local variable that are not set are whatever they were.\<close>

definition sxe_jitson_make_number :: "bytes \<Rightarrow> u64 \<Rightarrow> bytes" where
  "sxe_jitson_make_number junk number = le_bytes 4 SXE_JITSON_TYPE_NUMBER @ junk @ le_bytes 8 number"

definition sxe_jitson_make_uint :: "bytes \<Rightarrow> u64 \<Rightarrow> bytes" where
  "sxe_jitson_make_uint junk num = le_bytes 4 (SXE_JITSON_TYPE_NUMBER OR SXE_JITSON_TYPE_IS_UINT) @ junk @ le_bytes 8 num"

text \<open>A reference to a value given by its address and its tokens: a reference to a reference refers to the same value.\<close>

definition sxe_jitson_make_reference :: "bytes \<Rightarrow> u64 \<Rightarrow> bytes \<Rightarrow> bytes option" where
  "sxe_jitson_make_reference junk address to =
     do { t \<leftarrow> v_type to;
          target \<leftarrow> (if t AND SXE_JITSON_TYPE_MASK = SXE_JITSON_TYPE_REFERENCE then v_integer to else Some address);
          Some (le_bytes 4 SXE_JITSON_TYPE_REFERENCE @ junk @ le_bytes 8 target) }"

definition sxe_jitson_stack_add_null :: "jitson_env \<Rightarrow> sxe_jitson_stack \<Rightarrow> (bool \<times> sxe_jitson_stack) option" where
  "sxe_jitson_stack_add_null env st =
     do { (new, st) \<leftarrow> sxe_jitson_stack_add_value env 1 SXE_JITSON_TYPE_NULL (Some sxe_jitson_make_null) st; Some (new \<noteq> None, st) }"

definition sxe_jitson_stack_add_bool :: "jitson_env \<Rightarrow> bool \<Rightarrow> sxe_jitson_stack \<Rightarrow> (bool \<times> sxe_jitson_stack) option" where
  "sxe_jitson_stack_add_bool env boolean st =
     do { (new, st) \<leftarrow> sxe_jitson_stack_add_value env 1 SXE_JITSON_TYPE_BOOL (Some (sxe_jitson_make_bool boolean)) st;
          Some (new \<noteq> None, st) }"

definition sxe_jitson_stack_add_number :: "jitson_env \<Rightarrow> bytes \<Rightarrow> u64 \<Rightarrow> sxe_jitson_stack \<Rightarrow> (bool \<times> sxe_jitson_stack) option" where
  "sxe_jitson_stack_add_number env junk number st =
     do { (new, st) \<leftarrow> sxe_jitson_stack_add_value env 1 SXE_JITSON_TYPE_NUMBER (Some (sxe_jitson_make_number junk number)) st;
          Some (new \<noteq> None, st) }"

definition sxe_jitson_stack_add_uint :: "jitson_env \<Rightarrow> bytes \<Rightarrow> u64 \<Rightarrow> sxe_jitson_stack \<Rightarrow> (bool \<times> sxe_jitson_stack) option" where
  "sxe_jitson_stack_add_uint env junk num st =
     do { (new, st) \<leftarrow> sxe_jitson_stack_add_value env 1 SXE_JITSON_TYPE_NUMBER (Some (sxe_jitson_make_uint junk num)) st;
          Some (new \<noteq> None, st) }"

definition sxe_jitson_stack_add_reference ::
  "jitson_env \<Rightarrow> bytes \<Rightarrow> u64 \<Rightarrow> bytes \<Rightarrow> sxe_jitson_stack \<Rightarrow> (bool \<times> sxe_jitson_stack) option" where
  "sxe_jitson_stack_add_reference env junk address to st =
     do { ref \<leftarrow> sxe_jitson_make_reference junk address to;
          t \<leftarrow> v_type to;
          (new, st) \<leftarrow> sxe_jitson_stack_add_value env 1 t (Some ref) st;
          Some (new \<noteq> None, st) }"

definition sxe_jitson_stack_add_dup :: "jitson_env \<Rightarrow> u32 \<Rightarrow> bytes \<Rightarrow> sxe_jitson_stack \<Rightarrow> (bool \<times> sxe_jitson_stack) option" where
  "sxe_jitson_stack_add_dup env flags val st =
     do { sz \<leftarrow> sxe_jitson_size val;
          (ok, st) \<leftarrow> sxe_jitson_stack_dup_at_index env (count st) val sz st;
          if \<not> ok then Some (False, st)
          else do { t \<leftarrow> v_type val;
                    (new, st) \<leftarrow> sxe_jitson_stack_add_value env sz t None st;
                    SXEA1 (new \<noteq> None);
                    st \<leftarrow> sxe_jitson_stack_value_added env flags st;
                    Some (True, st) } }"

section \<open>Closing\<close>

definition sxe_jitson_stack_close_collection :: "jitson_env \<Rightarrow> u32 \<Rightarrow> sxe_jitson_stack \<Rightarrow> sxe_jitson_stack option" where
  "sxe_jitson_stack_close_collection env flags st =
     do { SXEA1 (s_open st \<noteq> 0);
          let idx = s_open st - 1;
          t \<leftarrow> tok_type st idx;
          no_value \<leftarrow> tok_no_value st idx;
          SXEA1 (t \<noteq> SXE_JITSON_TYPE_OBJECT \<or> \<not> no_value);
          outer \<leftarrow> tok_collection st idx;
          SXEA1 (unat outer < s_open st);
          let st = st\<lparr>s_open := unat outer\<rparr>;
          ln \<leftarrow> tok_len st idx;
          st \<leftarrow> (if ln \<noteq> 0 \<and> t AND (SXE_JITSON_TYPE_MASK OR SXE_JITSON_TYPE_IS_UNIF) = SXE_JITSON_TYPE_ARRAY OR SXE_JITSON_TYPE_IS_UNIF
                then do { e \<leftarrow> (if has t SXE_JITSON_TYPE_IS_HOMO then tok_type st (idx + 1) else Some SXE_JITSON_TYPE_INVALID);
                          let e = (if has t SXE_JITSON_TYPE_IS_HOMO then SXE_JITSON_TYPE_MASK AND e else SXE_JITSON_TYPE_INVALID);
                          set_bytes (16 * idx + 8) (le_bytes 4 e @ le_bytes 4 (of_nat (16 * (count st - (idx + 1)) div unat ln) :: u32)) st }
                else set_integer idx (of_nat (count st - idx)) st);
          if s_open st \<noteq> 0 then sxe_jitson_stack_value_added env flags st else Some st }"

text \<open>A concatenation of two arrays given by their addresses and lengths\<close>

definition sxe_jitson_stack_push_concat_array ::
  "allocator \<Rightarrow> u64 \<Rightarrow> u32 \<Rightarrow> u64 \<Rightarrow> u32 \<Rightarrow> u32 \<Rightarrow> sxe_jitson_stack \<Rightarrow> (bool \<times> sxe_jitson_stack) option" where
  "sxe_jitson_stack_push_concat_array alloc array1 len1 array2 len2 t st =
     do { SXEA6 (t = SXE_JITSON_TYPE_IS_REF \<or> t = SXE_JITSON_TYPE_IS_OWN);
          if 2 ^ 32 \<le> uint len1 + uint len2 then Some (False, st)
          else do { (new, st) \<leftarrow> sxe_jitson_stack_expand alloc 2 st;
                    case new of
                      None \<Rightarrow> Some (False, st)
                    | Some idx \<Rightarrow>
                        do { st \<leftarrow> set_type idx (SXE_JITSON_TYPE_ARRAY OR SXE_JITSON_TYPE_IS_REF OR t) st;
                             st \<leftarrow> set_tok_len idx (len1 + len2) st;
                             st \<leftarrow> set_integer idx array1 st;
                             st \<leftarrow> set_bytes (16 * idx + 16) (le_bytes 8 array2) st;
                             Some (True, st) } } }"

end
