(* ===== verification/Sxe_Jitson_Text.thy ===== *)
theory Sxe_Jitson_Text
  imports Sxe_Jitson Sxe_Jitson_Source_Spec
begin

text \<open>
  JSON values, and a reference parser from texts to values that is independent of stacks and sources. It follows
  the grammar of \<^verbatim>\<open>json.org\<close>, which the comments of \<^verbatim>\<open>lib-sxe-jitson/sxe-jitson-stack.c\<close> refer to, except where the code
  accepts more: numbers may have leading zeros, strings may contain control characters, and the vertical tab and the form
  feed are white space.
\<close>

section \<open>Values\<close>

text \<open>A number is an unsigned integer or the bits of a double.\<close>

datatype jvalue =
    JNull
  | JBool bool
  | JUint u64
  | JNumber u64
  | JString bytes
  | JArray "jvalue list"
  | JObject "(bytes \<times> jvalue) list"

section \<open>Strings\<close>

definition skip_space :: "bytes \<Rightarrow> bytes" where
  "skip_space s = dropWhile isspace s"

lemma skip_space_split: "takeWhile isspace s @ skip_space s = s"
  by (simp add: skip_space_def)

lemma length_skip_space: "length (skip_space s) \<le> length s"
  by (simp add: skip_space_def length_dropWhile_le)

text \<open>The value of four hexadecimal digits\<close>

fun unicode_digits :: "nat \<Rightarrow> u32 \<Rightarrow> bytes \<Rightarrow> (u32 \<times> bytes) option" where
  "unicode_digits 0 u s = Some (u, s)"
| "unicode_digits (Suc n) u [] = None"
| "unicode_digits (Suc n) u (c # s) = (case hex_digit_value c of None \<Rightarrow> None | Some d \<Rightarrow> unicode_digits n (push_bit 4 u + d) s)"

definition simple_escapes :: "(u8 \<times> u8) list" where
  "simple_escapes = [(34, 34), (92, 92), (47, 47), (98, 8), (102, 12), (110, 10), (114, 13), (116, 9)]"

definition escape :: "bytes \<Rightarrow> (bytes \<times> bytes) option" where
  "escape s =
     (case s of [] \<Rightarrow> None
      | c # s \<Rightarrow> (case map_of simple_escapes c of
                   Some b \<Rightarrow> Some ([b], s)
                 | None \<Rightarrow> if c = 117 then map_option (\<lambda>(u, r). (snd (sxe_unicode_to_utf8 u), r)) (unicode_digits 4 0 s) else None))"

lemma unicode_digits_length: "unicode_digits n u s = Some (v, r) \<Longrightarrow> length s = length r + n"
  by (induction n u s rule: unicode_digits.induct) (auto split: option.splits)

lemma unat_ucast_u8 [simp]: "unat (ucast (c :: u8) :: u32) = unat c"
proof -
  have "unat c < 2 ^ 32"
    using unsigned_less [of c, where 'a = nat] by simp
  then show ?thesis
    by (simp add: unsigned_ucast_eq take_bit_nat_eq_self)
qed

lemma hex_digit_value_bound:
  assumes "hex_digit_value c = Some d"
  shows "unat d < 16"
proof -
  have sub: "unat (ucast c - w :: u32) = unat c - unat w" if "unat w \<le> unat c" for w
    using that by (subst unat_sub) (simp_all add: word_le_nat_alt)
  consider (digit) "48 \<le> unat c" "unat c \<le> 57" "d = ucast c - 48"
    | (lower) "97 \<le> unat c" "unat c \<le> 102" "d = ucast c - 87"
    | (upper) "65 \<le> unat c" "unat c \<le> 70" "d = ucast c - 55"
    using assms by (auto simp: hex_digit_value_def word_le_nat_alt split: if_splits)
  then show ?thesis
    by cases (simp_all add: sub)
qed

lemma unicode_digits_bound:
  assumes "unicode_digits n u s = Some (v, r)" and "unat u < 16 ^ k" and "k + n \<le> 7"
  shows "unat v < 16 ^ (k + n)"
  using assms
proof (induction n u s arbitrary: k rule: unicode_digits.induct)
  case (3 n u c s)
  from "3.prems"(1) obtain d where d: "hex_digit_value c = Some d" "unicode_digits n (push_bit 4 u + d) s = Some (v, r)"
    by (auto split: option.splits)
  have "unat d < 16"
    using d(1) by (rule hex_digit_value_bound)
  moreover have "(16::nat) ^ Suc k \<le> 16 ^ 7"
    using "3.prems"(3) by (intro power_increasing) simp_all
  ultimately have small: "16 * unat u + unat d < 16 ^ Suc k" "16 * unat u + unat d < 2 ^ 32"
    using "3.prems"(2) by simp_all
  have "push_bit 4 u + d = word_of_nat (16 * unat u + unat d)"
    by (simp add: push_bit_eq_mult)
  then have "unat (push_bit 4 u + d) = 16 * unat u + unat d"
    using small(2) by (simp only: unat_of_nat) simp
  then show ?case
    using "3.IH" [OF d, of "Suc k"] small(1) "3.prems"(3) by simp
qed simp_all

lemma utf8_length:
  assumes "unat u < 0x10000"
  shows "1 \<le> length (snd (sxe_unicode_to_utf8 u))" "length (snd (sxe_unicode_to_utf8 u)) \<le> 4"
  using assms by (auto simp: sxe_unicode_to_utf8_def word_le_nat_alt)

lemma escape_length:
  assumes "escape s = Some (u, r)"
  shows "1 \<le> length u" "length u \<le> 4" "length u + length r \<le> length s"
proof -
  obtain c t where s: "s = c # t"
    using assms by (auto simp: escape_def split: list.splits)
  have "1 \<le> length u \<and> length u \<le> 4 \<and> length u + length r \<le> length s"
  proof (cases "map_of simple_escapes c")
    case None
    then obtain v where v: "unicode_digits 4 0 t = Some (v, r)" "u = snd (sxe_unicode_to_utf8 v)"
      using assms s by (auto simp: escape_def split: if_splits)
    have "unat v < 16 ^ (0 + 4)"
      using v(1) by (rule unicode_digits_bound) simp_all
    then show ?thesis
      using utf8_length [of v] unicode_digits_length [OF v(1)] v(2) s by simp
  qed (use assms s in \<open>auto simp: escape_def\<close>)
  then show "1 \<le> length u" "length u \<le> 4" "length u + length r \<le> length s"
    by simp_all
qed

text \<open>The contents of a string literal up to its closing quotation mark\<close>

function string_chars :: "bytes \<Rightarrow> (bytes \<times> bytes) option" where
  "string_chars [] = None"
| "string_chars (c # s) =
     (if c = 34 then Some ([], s)
      else if c = 0 then None
      else case (if c = 92 then escape s else Some ([c], s)) of
             None \<Rightarrow> None
           | Some (u, r) \<Rightarrow> map_option (\<lambda>(us, r). (u @ us, r)) (string_chars r))"
  by pat_completeness auto
termination
  by (relation "measure length") (auto split: if_splits dest!: escape_length(3))

lemma string_chars_length: "string_chars s = Some (u, r) \<Longrightarrow> length u + length r < length s"
proof (induction s arbitrary: u r rule: string_chars.induct)
  case (2 c s)
  show ?case
  proof (cases "c = 34 \<or> c = 0")
    case False
    then obtain u0 r0 where u0: "(if c = 92 then escape s else Some ([c], s)) = Some (u0, r0)"
      using "2.prems" by (auto split: option.splits)
    then have "length u0 + length r0 \<le> Suc (length s)"
      using escape_length(3) [of s u0 r0] by (auto split: if_splits)
    moreover obtain us where us: "string_chars r0 = Some (us, r)" "u = u0 @ us"
      using "2.prems" False u0 by auto
    ultimately show ?thesis
      using "2.IH" [OF _ _ u0 refl us(1)] False by simp
  qed (use "2.prems" in auto)
qed simp

section \<open>Numbers\<close>

definition take_fraction :: "bytes \<Rightarrow> bytes option" where
  "take_fraction s =
     (if hd0 s = 46 then let ds = takeWhile isdigit (tl s) in if ds = [] then None else Some (46 # ds) else Some [])"

definition take_exponent :: "bytes \<Rightarrow> bytes option" where
  "take_exponent s =
     (if hd0 s = 69 \<or> hd0 s = 101
      then let sg = (if hd0 (tl s) = 45 \<or> hd0 (tl s) = 43 then 1 else 0); ds = takeWhile isdigit (drop sg (tl s))
           in if ds = [] then None else Some (take (1 + sg + length ds) s)
      else Some [])"

text \<open>The characters of the number at the start of a text, and whether it is an unsigned integer\<close>

definition take_number :: "bytes \<Rightarrow> (bytes \<times> bool) option" where
  "take_number s =
     (let sg = (if hd0 s = 45 then 1 else 0); ds = takeWhile isdigit (drop sg s)
      in if ds = [] then None
         else do { f \<leftarrow> take_fraction (drop (sg + length ds) s);
                   e \<leftarrow> take_exponent (drop (sg + length ds + length f) s);
                   Some (take (sg + length ds + length f + length e) s, sg = 0 \<and> f = [] \<and> e = []) })"

lemma takeWhile_hd0_Nil: "\<not> P 0 \<Longrightarrow> takeWhile P s = [] \<longleftrightarrow> \<not> P (hd0 s)"
  by (cases s) auto

lemma scan_fraction_take:
  "scan_fraction source = map_option (\<lambda>f. (f \<noteq> [], fwd (length f) source)) (take_fraction (rest source))"
  by (auto simp: scan_fraction_def source_scan take_fraction_def Let_def takeWhile_hd0_Nil)

lemma scan_exponent_take:
  "scan_exponent source = map_option (\<lambda>e. (e \<noteq> [], fwd (length e) source)) (take_exponent (rest source))"
proof (cases "hd0 (rest source) = 69 \<or> hd0 (rest source) = 101")
  case True
  then obtain c r where r: "rest source = c # r"
    by (cases "rest source") auto
  define sg :: nat where "sg = (if hd0 r = 45 \<or> hd0 r = 43 then 1 else 0)"
  have adv: "(if hd0 r = 45 \<or> hd0 r = 43 then advance (advance source) else advance source) = fwd (Suc sg) source"
    by (simp add: sg_def fwd_advance)
  have "sg \<le> length r"
    by (cases r) (auto simp: sg_def)
  moreover have "length (takeWhile isdigit (drop sg r)) \<le> length (drop sg r)"
    by (rule length_takeWhile_le)
  ultimately have "min (length r) (sg + length (takeWhile isdigit (drop sg r))) = sg + length (takeWhile isdigit (drop sg r))"
    by simp
  then show ?thesis
    using True r adv
    by (auto simp: scan_exponent_def peek_char_rest take_exponent_def Let_def takeWhile_hd0_Nil skip_class_fwd sg_def [symmetric])
next
  case False
  then show ?thesis
    by (simp add: scan_exponent_def peek_char_rest take_exponent_def)
qed

lemma take_fraction_length: "take_fraction s = Some f \<Longrightarrow> length f \<le> length s"
  using length_takeWhile_le [of isdigit "tl s"] by (cases s) (auto simp: take_fraction_def Let_def split: if_splits)

lemma take_exponent_length: "take_exponent s = Some e \<Longrightarrow> length e \<le> length s"
  by (auto simp: take_exponent_def Let_def split: if_splits)

lemma take_number_split:
  assumes "take_number s = Some (t, is_uint)"
  obtains sg ds f e where "sg = (if hd0 s = 45 then 1 else 0)" "ds = takeWhile isdigit (drop sg s)" "ds \<noteq> []"
    "take_fraction (drop (sg + length ds) s) = Some f" "take_exponent (drop (sg + length ds + length f) s) = Some e"
    "t = take (sg + length ds + length f + length e) s" "is_uint = (sg = 0 \<and> f = [] \<and> e = [])"
    "sg + length ds + length f + length e \<le> length s"
proof -
  define sg :: nat where "sg = (if hd0 s = 45 then 1 else 0)"
  define ds where "ds = takeWhile isdigit (drop sg s)"
  from assms have ne: "ds \<noteq> []"
    by (auto simp: take_number_def Let_def ds_def sg_def split: if_splits)
  with assms obtain f e where f: "take_fraction (drop (sg + length ds) s) = Some f"
      "take_exponent (drop (sg + length ds + length f) s) = Some e"
      "t = take (sg + length ds + length f + length e) s" "is_uint = (sg = 0 \<and> f = [] \<and> e = [])"
    unfolding take_number_def Let_def sg_def [symmetric] ds_def [symmetric] by (auto simp: bind_eq_Some_conv)
  have "sg \<le> length s"
    by (cases s) (auto simp: sg_def)
  moreover have "length ds \<le> length s - sg"
    using length_takeWhile_le [of isdigit "drop sg s"] by (simp add: ds_def)
  ultimately have "sg + length ds + length f + length e \<le> length s"
    using take_fraction_length [OF f(1)] take_exponent_length [OF f(2)] by simp
  then show thesis
    by (rule that [OF sg_def ds_def ne f])
qed

lemma take_number_length:
  assumes "take_number s = Some (t, is_uint)"
  shows "t = take (length t) s" "0 < length t" "length t \<le> length s"
  using assms by (elim take_number_split, simp)+

lemma get_number_take:
  assumes "s_flags source AND SXE_JITSON_FLAG_ALLOW_HEX = 0"
  shows "sxe_jitson_source_get_number source =
    map_option (\<lambda>(t, is_uint). ((s_next source, length t, is_uint), fwd (length t) source)) (take_number (rest source))"
proof (cases "take_number (rest source)")
  case None
  then show ?thesis
    unfolding get_number_plain [OF disjI1 [OF assms]]
    by (auto simp: take_number_def Let_def scan_fraction_take scan_exponent_take add.commute split: if_splits option.splits bind_splits)
next
  case (Some r)
  obtain t is_uint where r: "r = (t, is_uint)"
    by (cases r)
  obtain sg ds f e where "sg = (if hd0 (rest source) = 45 then 1 else 0)" "ds = takeWhile isdigit (drop sg (rest source))" "ds \<noteq> []"
    "take_fraction (drop (sg + length ds) (rest source)) = Some f"
    "take_exponent (drop (sg + length ds + length f) (rest source)) = Some e"
    "t = take (sg + length ds + length f + length e) (rest source)" "is_uint = (sg = 0 \<and> f = [] \<and> e = [])"
    "sg + length ds + length f + length e \<le> length (rest source)"
    by (rule take_number_split [OF Some [unfolded r]])
  note parts = this
  show ?thesis
    unfolding get_number_plain [OF disjI1 [OF assms]] Some r Let_def parts(1) [symmetric] parts(2) [symmetric]
    using parts by (simp add: scan_fraction_take scan_exponent_take add.commute add.left_commute)
qed

section \<open>The reference parser\<close>

definition json_literal :: "bytes \<Rightarrow> jvalue option" where
  "json_literal name =
     (if name = ascii ''true'' then Some (JBool True)
      else if name = ascii ''false'' then Some (JBool False)
      else if name = ascii ''null'' then Some JNull
      else None)"

lemma skip_space_Cons: "skip_space s = c # r \<Longrightarrow> length r < length s"
  using length_skip_space [of s] by simp

text \<open>The value at the start of a text and the text after it. The parameter gives the double nearest to a number. The conditions on
  lengths always hold.\<close>

function parse_value :: "(bytes \<Rightarrow> u64) \<Rightarrow> bytes \<Rightarrow> (jvalue \<times> bytes) option"
  and parse_elements :: "(bytes \<Rightarrow> u64) \<Rightarrow> bytes \<Rightarrow> (jvalue list \<times> bytes) option"
  and parse_members :: "(bytes \<Rightarrow> u64) \<Rightarrow> bytes \<Rightarrow> ((bytes \<times> jvalue) list \<times> bytes) option" where
  "parse_value dbl s =
     (case skip_space s of
        [] \<Rightarrow> None
      | c # r \<Rightarrow>
          if c = 34 then map_option (\<lambda>(u, r). (JString u, r)) (string_chars r)
          else if c = 123
          then if hd0 (skip_space r) = 125 then Some (JObject [], tl (skip_space r))
               else map_option (\<lambda>(ms, r). (JObject ms, r)) (parse_members dbl r)
          else if c = 91
          then if hd0 (skip_space r) = 93 then Some (JArray [], tl (skip_space r))
               else map_option (\<lambda>(vs, r). (JArray vs, r)) (parse_elements dbl r)
          else if c = 45 \<or> isdigit c
          then map_option (\<lambda>(t, is_uint). (if is_uint then JUint (saturate (number_value 10 t)) else JNumber (dbl t), drop (length t) (c # r)))
                 (take_number (c # r))
          else map_option (\<lambda>v. (v, dropWhile is_identifier_char (c # r))) (json_literal (takeWhile is_identifier_char (c # r))))"
| "parse_elements dbl s =
     (case parse_value dbl s of
        None \<Rightarrow> None
      | Some (v, r) \<Rightarrow>
          (case skip_space r of
             [] \<Rightarrow> None
           | c # r \<Rightarrow>
               if c = 44 \<and> length r < length s then map_option (\<lambda>(vs, r). (v # vs, r)) (parse_elements dbl r)
               else if c = 93 then Some ([v], r)
               else None))"
| "parse_members dbl s =
     (case skip_space s of
        [] \<Rightarrow> None
      | c # r \<Rightarrow>
          if c \<noteq> 34 then None
          else case string_chars r of
                 None \<Rightarrow> None
               | Some (k, r) \<Rightarrow>
                   (case skip_space r of
                      [] \<Rightarrow> None
                    | c # r \<Rightarrow>
                        if c \<noteq> 58 then None
                        else case parse_value dbl r of
                               None \<Rightarrow> None
                             | Some (v, r) \<Rightarrow>
                                 (case skip_space r of
                                    [] \<Rightarrow> None
                                  | c # r \<Rightarrow>
                                      if c = 44 \<and> length r < length s then map_option (\<lambda>(ms, r). ((k, v) # ms, r)) (parse_members dbl r)
                                      else if c = 125 then Some ([(k, v)], r)
                                      else None)))"
  by pat_completeness auto

termination
  by (relation "measure (\<lambda>x. case x of Inl (_, s) \<Rightarrow> 2 * length s | Inr (Inl (_, s)) \<Rightarrow> Suc (2 * length s) | Inr (Inr (_, s)) \<Rightarrow> Suc (2 * length s))")
    (auto dest!: skip_space_Cons string_chars_length)

declare parse_value.simps [simp del] parse_elements.simps [simp del] parse_members.simps [simp del]

lemma parse_value_Cons:
  assumes "skip_space s = c # t"
  shows "parse_value dbl s =
    (if c = 34 then map_option (\<lambda>(u, r). (JString u, r)) (string_chars t)
     else if c = 123
     then if hd0 (skip_space t) = 125 then Some (JObject [], tl (skip_space t))
          else map_option (\<lambda>(ms, r). (JObject ms, r)) (parse_members dbl t)
     else if c = 91
     then if hd0 (skip_space t) = 93 then Some (JArray [], tl (skip_space t))
          else map_option (\<lambda>(vs, r). (JArray vs, r)) (parse_elements dbl t)
     else if c = 45 \<or> isdigit c
     then map_option (\<lambda>(n, is_uint). (if is_uint then JUint (saturate (number_value 10 n)) else JNumber (dbl n), drop (length n) (c # t)))
            (take_number (c # t))
     else map_option (\<lambda>v. (v, dropWhile is_identifier_char (c # t))) (json_literal (takeWhile is_identifier_char (c # t))))"
  by (subst parse_value.simps) (simp add: assms)

lemma json_literal_Nil [simp]: "json_literal [] = None"
  by (simp add: json_literal_def ascii_def)

lemma tl_skip_space: "hd0 (skip_space t) = c \<Longrightarrow> c \<noteq> 0 \<Longrightarrow> length (tl (skip_space t)) < length t"
  using length_skip_space [of t] by (cases "skip_space t") auto

lemma parse_shorter:
  shows "parse_value dbl s = Some (v, r) \<Longrightarrow> length r < length s"
    and "parse_elements dbl s = Some (vs, r) \<Longrightarrow> length r < length s"
    and "parse_members dbl s = Some (ms, r) \<Longrightarrow> length r < length s"
proof (induction dbl s and dbl s and dbl s arbitrary: v r and vs r and ms r rule: parse_value_parse_elements_parse_members.induct)
  case (1 dbl s)
  show ?case
  proof (cases "skip_space s")
    case (Cons c t)
    then have t: "length t < length s"
      by (rule skip_space_Cons)
    have "length r < Suc (length t)"
      using "1.prems" "1.IH" [OF Cons] length_dropWhile_le [of is_identifier_char t]
      by (auto simp: parse_value_Cons [OF Cons] split: if_splits
          dest!: string_chars_length take_number_length(2) dest: tl_skip_space)
    with t show ?thesis
      by simp
  qed (use "1.prems" in \<open>simp add: parse_value.simps [of dbl s]\<close>)
next
  case (2 dbl s)
  from "2.prems" obtain v t where v: "parse_value dbl s = Some (v, t)"
    by (auto simp: parse_elements.simps [of dbl s] split: option.splits)
  with "2.prems" obtain c t' where c: "skip_space t = c # t'"
    by (auto simp: parse_elements.simps [of dbl s] split: list.splits)
  have "length t' < length s"
    using skip_space_Cons [OF c] "2.IH"(1) [OF v] by simp
  then show ?case
    using "2.prems" "2.IH"(2) [OF v refl c] by (auto simp: parse_elements.simps [of dbl s] v c split: if_splits)
next
  case (3 dbl s)
  from "3.prems" obtain t where c: "skip_space s = 34 # t"
    by (auto simp: parse_members.simps [of dbl s] split: list.splits if_splits)
  with "3.prems" obtain k t1 where k: "string_chars t = Some (k, t1)"
    by (auto simp: parse_members.simps [of dbl s] split: option.splits)
  with c "3.prems" obtain t2 where t2: "skip_space t1 = 58 # t2"
    by (auto simp: parse_members.simps [of dbl s] split: list.splits if_splits)
  with k c "3.prems" obtain v t3 where v: "parse_value dbl t2 = Some (v, t3)"
    by (auto simp: parse_members.simps [of dbl s] split: option.splits)
  with t2 k c "3.prems" obtain d t4 where d: "skip_space t3 = d # t4"
    by (auto simp: parse_members.simps [of dbl s] split: list.splits)
  have "length t4 < length s"
    using skip_space_Cons [OF d] "3.IH"(1) [OF c _ k refl t2 _ v] skip_space_Cons [OF t2] string_chars_length [OF k] skip_space_Cons [OF c]
    by simp
  then show ?case
    using "3.prems" "3.IH"(2) [OF c _ k refl t2 _ v refl d] by (auto simp: parse_members.simps [of dbl s] c k t2 v d split: if_splits)
qed

text \<open>The recursion equations without the conditions on lengths\<close>

lemma parse_elements_eq:
  "parse_elements dbl s =
     (case parse_value dbl s of
        None \<Rightarrow> None
      | Some (v, r) \<Rightarrow>
          (case skip_space r of
             [] \<Rightarrow> None
           | c # r \<Rightarrow>
               if c = 44 then map_option (\<lambda>(vs, r). (v # vs, r)) (parse_elements dbl r)
               else if c = 93 then Some ([v], r)
               else None))"
proof (cases "parse_value dbl s")
  case (Some p)
  obtain v r where p: "p = (v, r)"
    by (cases p)
  show ?thesis
  proof (cases "skip_space r")
    case (Cons c r')
    then have "length r' < length s"
      using parse_shorter(1) [OF Some [unfolded p]] skip_space_Cons by fastforce
    then show ?thesis
      by (simp add: parse_elements.simps [of dbl s] Some p Cons)
  qed (simp add: parse_elements.simps [of dbl s] Some p)
qed (simp add: parse_elements.simps [of dbl s])

lemma parse_members_eq:
  "parse_members dbl s =
     (case skip_space s of
        [] \<Rightarrow> None
      | c # r \<Rightarrow>
          if c \<noteq> 34 then None
          else case string_chars r of
                 None \<Rightarrow> None
               | Some (k, r) \<Rightarrow>
                   (case skip_space r of
                      [] \<Rightarrow> None
                    | c # r \<Rightarrow>
                        if c \<noteq> 58 then None
                        else case parse_value dbl r of
                               None \<Rightarrow> None
                             | Some (v, r) \<Rightarrow>
                                 (case skip_space r of
                                    [] \<Rightarrow> None
                                  | c # r \<Rightarrow>
                                      if c = 44 then map_option (\<lambda>(ms, r). ((k, v) # ms, r)) (parse_members dbl r)
                                      else if c = 125 then Some ([(k, v)], r)
                                      else None)))"
proof -
  have "length t4 < length s" if "skip_space s = c # t" "string_chars t = Some (k, t1)" "skip_space t1 = c' # t2"
    "parse_value dbl t2 = Some (v, t3)" "skip_space t3 = d # t4" for c t k t1 c' t2 v t3 d t4
    using skip_space_Cons [OF that(1)] string_chars_length [OF that(2)] skip_space_Cons [OF that(3)] parse_shorter(1) [OF that(4)]
      skip_space_Cons [OF that(5)] by simp
  then show ?thesis
    by (simp add: parse_members.simps [of dbl s] split: list.splits option.splits prod.splits)
qed

end
