(* ===== verification/Sxe_Jitson_Stack_Spec.thy ===== *)
theory Sxe_Jitson_Stack_Spec
  imports Sxe_Jitson_Text
begin

text \<open>
  The contents of a jitson stack: what the operations on its tokens read and write, as rules for calls that return, and
  the loading of strings.
\<close>

section \<open>Calls that return\<close>

definition runs :: "'a option \<Rightarrow> ('a \<Rightarrow> bool) \<Rightarrow> bool" where
  "runs c P \<longleftrightarrow> (\<exists>r. c = Some r \<and> P r)"

lemma runs_Some [simp]: "runs (Some r) P \<longleftrightarrow> P r"
  by (simp add: runs_def)

lemma runs_bind: "runs c (\<lambda>r. runs (f r) P) \<Longrightarrow> runs (Option.bind c f) P"
  by (auto simp: runs_def)

lemma runs_bind_iff: "runs (Option.bind c f) P \<longleftrightarrow> runs c (\<lambda>r. runs (f r) P)"
  by (cases c) (simp_all add: runs_def)

lemma runs_mono: "runs c P \<Longrightarrow> (\<And>r. P r \<Longrightarrow> Q r) \<Longrightarrow> runs c Q"
  by (auto simp: runs_def)

lemma runs_SXEA6: "b \<Longrightarrow> P () \<Longrightarrow> runs (SXEA6 b) P"
  by (simp add: runs_def)

section \<open>Little endian memory\<close>

lemma length_le_bytes [simp]: "length (le_bytes n w) = n"
  by (induction n arbitrary: w) simp_all

lemma le_bytes_eq_Nil [simp]: "le_bytes n w = [] \<longleftrightarrow> n = 0"
  by (cases n) simp_all

lemma le_word_bytes: "le_word (le_bytes n (w :: 'a::len word)) = take_bit (8 * n) w"
proof (induction n arbitrary: w)
  case (Suc n)
  have "bit (ucast (ucast w :: u8) OR push_bit 8 (take_bit (8 * n) (drop_bit 8 w))) k = bit (take_bit (8 * Suc n) w) k" if "k < LENGTH('a)" for k
    using that by (cases "k < 8") (auto simp: bit_or_iff bit_ucast_iff bit_push_bit_iff bit_take_bit_iff bit_drop_bit_eq)
  then show ?case
    using Suc by (auto intro: bit_word_eqI)
qed simp

lemma le_word_bytes_u32 [simp]: "le_word (le_bytes 4 (w :: u32)) = w"
  using le_word_bytes [of 4 w] by (simp add: take_bit_word_eq_self)

lemma le_word_bytes_u64 [simp]: "le_word (le_bytes 8 (w :: u64)) = w"
  using le_word_bytes [of 8 w] by (simp add: take_bit_word_eq_self)

lemma memcpy_at_middle:
  "length a = off \<Longrightarrow> length bs = length old \<Longrightarrow> memcpy_at (a @ old @ b) off bs = Some (a @ bs @ b)"
  by (simp add: memcpy_at_def)

lemma read_at_middle: "length a = off \<Longrightarrow> length x = n \<Longrightarrow> read_at (a @ x @ b) off n = Some x"
  by (simp add: read_at_def)

section \<open>The contents of a stack\<close>

text \<open>A stack has the contents \<open>cs\<close>, and the frame that parsing does not touch is \<open>fr\<close>.\<close>

definition on_stack :: "nat \<times> nat \<Rightarrow> sxe_jitson_stack \<Rightarrow> bytes \<Rightarrow> bool" where
  "on_stack fr st cs \<longleftrightarrow> (s_open st, borrow st) = fr \<and> length cs = 16 * count st \<and> 0 < maximum st \<and> maximum st \<le> 2 ^ 30 \<and>
     (case jitsons st of None \<Rightarrow> cs = []
      | Some m \<Rightarrow> length m = 16 * maximum st \<and> count st \<le> maximum st \<and> take (16 * count st) m = cs)"

text \<open>An allocator that does not fail for blocks up to 16 gigabytes\<close>

definition ample :: "allocator \<Rightarrow> bool" where
  "ample alloc \<longleftrightarrow> (\<forall>n \<le> 2 ^ 34. \<exists>fresh. alloc n = Some fresh \<and> length fresh = n)"

lemma on_stack_length: "on_stack fr st cs \<Longrightarrow> length cs = 16 * count st"
  by (simp add: on_stack_def)

lemma on_stack_last [simp]: "on_stack fr (st\<lparr>s_last := l\<rparr>) cs = on_stack fr st cs"
  by (cases "jitsons st") (simp_all add: on_stack_def)

lemma on_stack_truncate:
  assumes "on_stack fr st (a @ b)" and "length a = 16 * i"
  shows "on_stack fr (st\<lparr>count := i\<rparr>) a"
proof (cases "jitsons st")
  case (Some m)
  have "take (16 * i) (take (16 * count st) m) = a"
    using assms Some by (simp add: on_stack_def)
  moreover have "i \<le> count st"
    using assms by (simp add: on_stack_def)
  ultimately show ?thesis
    using assms Some by (simp add: on_stack_def min_def)
qed (use assms in \<open>simp add: on_stack_def\<close>)

lemma on_stack_memory:
  assumes "on_stack fr st cs" and "cs \<noteq> []"
  obtains junk where "jitsons st = Some (cs @ junk)"
proof (cases "jitsons st")
  case (Some m)
  then have "m = cs @ drop (16 * count st) m"
    using assms(1) by (auto simp: on_stack_def)
  then show thesis
    using Some that by metis
qed (use assms in \<open>simp add: on_stack_def\<close>)

lemma on_stack_write:
  assumes "on_stack fr st (a @ old @ b)" and "length bs = length old" and "old \<noteq> []"
  shows "\<exists>st'. set_bytes (length a) bs st = Some st' \<and> on_stack fr st' (a @ bs @ b)"
proof -
  obtain junk where m: "jitsons st = Some ((a @ old @ b) @ junk)"
    using assms(1) by (rule on_stack_memory) (use assms(3) in simp)
  have "memcpy_at (a @ old @ b @ junk) (length a) bs = Some (a @ bs @ b @ junk)"
    using assms(2) by (intro memcpy_at_middle) simp_all
  then show ?thesis
    using assms(1,2) m by (auto simp: set_bytes_def on_stack_def)
qed

lemma on_stack_read:
  assumes "on_stack fr st (a @ x @ b)" and "x \<noteq> []"
  shows "do { m \<leftarrow> jitsons st; read_at m (length a) (length x) } = Some x"
proof -
  obtain junk where m: "jitsons st = Some ((a @ x @ b) @ junk)"
    using assms(1) by (rule on_stack_memory) (use assms(2) in simp)
  then show ?thesis
    using read_at_middle [of a "length a" x "length x" "b @ junk"] by simp
qed

text \<open>The rules for the fields of a token\<close>

lemma tok_type_at:
  assumes "on_stack fr st (a @ le_bytes 4 t @ b)" and "length a = 16 * i"
  shows "tok_type st i = Some t"
  using on_stack_read [OF assms(1)] assms(2) by (cases "jitsons st") (simp_all add: tok_type_def)

lemma tok_len_at:
  assumes "on_stack fr st (a @ x @ le_bytes 4 n @ b)" and "length a = 16 * i" and "length x = 4"
  shows "tok_len st i = Some n"
  using on_stack_read [of fr st "a @ x" "le_bytes 4 n" b] assms by (cases "jitsons st") (simp_all add: tok_len_def)

lemma set_bytes_at:
  assumes st: "on_stack fr st (a @ x @ b)" and len: "length a = i" "length x = length w" "x \<noteq> []"
    and P: "\<And>st'. on_stack fr st' (a @ w @ b) \<Longrightarrow> P st'"
  shows "runs (set_bytes i w st) P"
proof -
  obtain st' where "set_bytes (length a) w st = Some st'" "on_stack fr st' (a @ w @ b)"
    using on_stack_write [OF st] len by metis
  then show ?thesis
    using P len(1) by (simp add: runs_def)
qed

lemma set_type_at:
  assumes "on_stack fr st (a @ x @ b)" and "length a = 16 * i" and "length x = 4"
    and "\<And>st'. on_stack fr st' (a @ le_bytes 4 w @ b) \<Longrightarrow> P st'"
  shows "runs (set_type i w st) P"
  unfolding set_type_def by (rule set_bytes_at [OF assms(1)]) (use assms in auto)

lemma set_tok_len_at:
  assumes "on_stack fr st (a @ x @ y @ b)" and "length a = 16 * i" and "length x = 4" and "length y = 4"
    and "\<And>st'. on_stack fr st' (a @ x @ le_bytes 4 w @ b) \<Longrightarrow> P st'"
  shows "runs (set_tok_len i w st) P"
  unfolding set_tok_len_def by (rule set_bytes_at [of fr st "a @ x" y b]) (use assms in auto)

lemma set_integer_at:
  assumes "on_stack fr st (a @ x @ y @ z @ b)" and "length a = 16 * i" and "length x = 4" and "length y = 4" and "length z = 8"
    and "\<And>st'. on_stack fr st' (a @ x @ y @ le_bytes 8 w @ b) \<Longrightarrow> P st'"
  shows "runs (set_integer i w st) P"
  unfolding set_integer_def by (rule set_bytes_at [of fr st "a @ x @ y" z b]) (use assms in auto)

lemma wrap32_small: "n < 2 ^ 32 \<Longrightarrow> wrap32 n = n"
  by (simp add: wrap32_def unat_of_nat)

lemma wrap32_minus: "n + k < 2 ^ 32 \<Longrightarrow> wrap32 (n + k + (2 ^ 32 - wrap32 k)) = n"
proof -
  assume n: "n + k < 2 ^ 32"
  then have "n + k + (2 ^ 32 - wrap32 k) = n + 2 ^ 32" by (simp add: wrap32_small)
  then have "wrap32 (n + k + (2 ^ 32 - wrap32 k)) = (n + 2 ^ 32) mod 2 ^ 32" by (simp only: wrap32_def unat_of_nat) simp
  then show ?thesis using n by simp
qed

lemma expand_maximum_ok:
  assumes "0 < mx" and "mx < e" and "e \<le> 2 ^ 29"
  shows "\<exists>n. expand_maximum mx e = Some n \<and> e \<le> n \<and> n \<le> 2 ^ 30"
proof -
  have up: "e \<le> ((e - 1) div k + 1) * k \<and> ((e - 1) div k + 1) * k < e + k" if "0 < k" for k
  proof -
    have "(e - 1) div k * k + (e - 1) mod k = e - 1" "(e - 1) mod k < k"
      using that by simp_all
    then show ?thesis
      using assms by (simp only: add_mult_distrib nat_mult_1) linarith
  qed
  show ?thesis
  proof (cases "e < 4096")
    case True
    have "((e - 1) div mx + 1) * mx < 2 ^ 30"
      using up [OF assms(1)] True assms(2) by simp
    then show ?thesis
      using True up [OF assms(1)] assms(1) by (simp add: expand_maximum_def JITSON_STACK_MAX_INCR_def wrap32_small)
  next
    case False
    have "((e - 1) div 4096 + 1) * 4096 < 2 ^ 30"
      using up [of 4096] assms(3) by simp
    then show ?thesis
      using False up [of 4096] by (simp add: expand_maximum_def JITSON_STACK_MAX_INCR_def wrap32_small)
  qed
qed

lemma expand_runs:
  assumes st: "on_stack fr st cs" and alloc: "ample alloc" and room: "length cs + 16 * k \<le> 2 ^ 32"
    and P: "\<And>st' junk. on_stack fr st' (cs @ junk) \<Longrightarrow> length junk = 16 * k \<Longrightarrow> P (Some (length cs div 16), st')"
  shows "runs (sxe_jitson_stack_expand alloc k st) P"
proof -
  define e where "e = count st + k"
  have len: "length cs = 16 * count st"
    using st by (rule on_stack_length)
  have e: "e \<le> 2 ^ 28" "wrap32 (count st + k) = e" "e - k = length cs div 16"
    using room len by (simp_all add: e_def wrap32_small)
  have first: "wrap32 (e + (2 ^ 32 - wrap32 k)) = e - k"
    using room len wrap32_minus [of "count st" k] by (simp add: e_def)
  have grown: "runs (Some (Some (e - k), st\<lparr>maximum := n, jitsons := Some m, count := e\<rparr>)) P"
    if m: "length m = 16 * n" "take (length cs) m = cs" "e \<le> n" "n \<le> 2 ^ 30" "0 < n" for m n
  proof -
    have "take (16 * e) m = cs @ take (16 * k) (drop (length cs) m)"
      using m(2) len by (metis add_mult_distrib2 e_def take_add)
    then have "on_stack fr (st\<lparr>maximum := n, jitsons := Some m, count := e\<rparr>) (cs @ take (16 * k) (drop (length cs) m))"
      using st m len by (simp add: on_stack_def e_def)
    then show ?thesis
      using P m len e(3) by (simp add: e_def)
  qed
  show ?thesis
  proof (cases "maximum st < e")
    case True
    obtain n where n: "expand_maximum (maximum st) e = Some n" "e \<le> n" "n \<le> 2 ^ 30"
      using expand_maximum_ok [of "maximum st" e] st True e by (auto simp: on_stack_def)
    have "n * 16 \<le> 2 ^ 34"
      using n(3) by simp
    then obtain fresh where fresh: "alloc (n * 16) = Some fresh" "length fresh = n * 16"
      using alloc unfolding ample_def by blast
    obtain m where m: "kit_realloc alloc (jitsons st) (n * 16) = Some m" "length m = 16 * n" "take (length cs) m = cs"
    proof (cases "jitsons st")
      case None
      then show thesis
        using st fresh that by (simp add: kit_realloc_def on_stack_def)
    next
      case (Some d)
      then show thesis
        using st fresh n len True e that by (simp add: kit_realloc_def on_stack_def)
    qed
    show ?thesis
      using True n(1,2) m(1) e(2) grown [OF m(2,3) n(2,3)] by (simp add: sxe_jitson_stack_expand_def first [simplified])
  next
    case False
    show ?thesis
    proof (cases "jitsons st")
      case None
      have mx: "maximum st * 16 \<le> 2 ^ 34" "e \<le> maximum st" "maximum st \<le> 2 ^ 30" "cs = []" "0 < maximum st"
        using st None False by (simp_all add: on_stack_def)
      then obtain m where m: "alloc (maximum st * 16) = Some m" "length m = 16 * maximum st"
        using alloc unfolding ample_def by (metis mult.commute)
      show ?thesis
        using False None m e(2) mx grown [of m "maximum st"] by (simp add: sxe_jitson_stack_expand_def first [simplified])
    next
      case (Some m)
      then have "length m = 16 * maximum st" "take (length cs) m = cs" "e \<le> maximum st" "maximum st \<le> 2 ^ 30" "0 < maximum st"
        using st False len by (simp_all add: on_stack_def)
      then have "runs (Some (Some (e - k), st\<lparr>maximum := maximum st, jitsons := Some m, count := e\<rparr>)) P"
        by (rule grown)
      moreover have "st\<lparr>maximum := maximum st, jitsons := Some m, count := e\<rparr> = st\<lparr>count := e\<rparr>"
        using Some by (cases st) simp
      ultimately have "P (Some (e - k), st\<lparr>count := e\<rparr>)"
        by (simp only: runs_Some)
      then show ?thesis
        using False Some e(2) by (simp add: sxe_jitson_stack_expand_def first [simplified])
    qed
  qed
qed

section \<open>Reading from a source\<close>

text \<open>A source that is further along the text of another one, with the rest \<open>s\<close> before it\<close>

definition left :: "sxe_jitson_source \<Rightarrow> sxe_jitson_source \<Rightarrow> bytes \<Rightarrow> bool" where
  "left src source s \<longleftrightarrow> (\<exists>t. rest src = t @ s \<and> moved (length t) src source)"

text \<open>A source that ends where its buffer ends\<close>

definition whole_text :: "sxe_jitson_source \<Rightarrow> bool" where
  "whole_text source \<longleftrightarrow> s_end source = None \<or> s_end source = Some (length (json source))"

lemma left_self [simp]: "left src src (rest src)"
  by (simp add: left_def)

lemma left_rest: "left src source s \<Longrightarrow> rest source = s"
  by (auto simp: left_def moved_rest)

lemma left_moved:
  assumes "left src source (t @ s)" and "moved (length t) source source'"
  shows "left src source' s"
proof -
  from assms(1) obtain t' where "rest src = t' @ t @ s" "moved (length t') src source"
    unfolding left_def by blast
  then show ?thesis
    using moved_trans [OF _ assms(2)] unfolding left_def by (intro exI [of _ "t' @ t"]) simp
qed

lemma left_flags: "left src source s \<Longrightarrow> s_flags source = s_flags src"
  by (auto simp: left_def moved_def)

lemma left_whole: "left src source s \<Longrightarrow> whole_text src \<Longrightarrow> whole_text source"
  by (auto simp: left_def moved_def whole_text_def)

lemma whole_text_rest: "whole_text source \<Longrightarrow> rest source = drop (s_next source) (json source)"
  by (auto simp: whole_text_def rest_def)

lemma get_char_left:
  assumes "left src source s" and "whole_text src"
  obtains source' where "sxe_jitson_source_get_char source = (hd0 s, source')" "hd0 s \<noteq> 0 \<Longrightarrow> left src source' (tl s)"
proof (cases s)
  case Nil
  then have "sxe_jitson_source_get_char source = (0, source)"
    using left_whole [OF assms] left_rest [OF assms(1)] by (intro get_char_end) (auto simp: whole_text_def)
  then show thesis
    using Nil that by simp
next
  case (Cons c r)
  show thesis
  proof (cases "c = 0")
    case True
    then have "sxe_jitson_source_peek_char source = 0"
      using Cons left_rest [OF assms(1)] by (simp add: peek_char_rest)
    then have "fst (sxe_jitson_source_get_char source) = 0"
      by (auto simp: sxe_jitson_source_peek_char_def sxe_jitson_source_get_char_def split: if_splits)
    then show thesis
      using that [of "snd (sxe_jitson_source_get_char source)"] Cons True by (simp add: prod_eq_iff)
  next
    case False
    have "sxe_jitson_source_get_char source = (c, sxe_jitson_source_consume 1 source)"
      using Cons left_rest [OF assms(1)] False by (simp add: get_char_rest)
    moreover have "left src (sxe_jitson_source_consume 1 source) r"
      using left_moved [of src source "[c]" r] assms(1) Cons by simp
    ultimately show thesis
      using that Cons by simp
  qed
qed

lemma peek_nonspace_left:
  assumes "left src source s"
  obtains source' where "sxe_jitson_source_peek_nonspace source = (hd0 (skip_space s), source')" "left src source' (skip_space s)"
proof -
  obtain source' where p: "sxe_jitson_source_peek_nonspace source = (hd0 (dropWhile isspace s), source')"
      "moved (length (takeWhile isspace s)) source source'"
    using peek_nonspace_rest [of source] unfolding left_rest [OF assms] by blast
  have "left src source' (skip_space s)"
    by (rule left_moved [OF _ p(2)]) (simp add: skip_space_split assms)
  then show thesis
    using that p(1) by (simp add: skip_space_def)
qed

lemma get_nonspace_left:
  assumes "left src source s" and "whole_text src"
  obtains source' where "sxe_jitson_source_get_nonspace source = (hd0 (skip_space s), source')"
    "hd0 (skip_space s) \<noteq> 0 \<Longrightarrow> left src source' (tl (skip_space s))"
  using assms(1)
proof (induction s arbitrary: source thesis)
  case Nil
  from get_char_left [OF Nil.prems(2) assms(2)] obtain source' where "sxe_jitson_source_get_char source = (0, source')"
    by auto
  then show ?case
    using Nil.prems(1) by (simp add: sxe_jitson_source_get_nonspace.simps [of source] skip_space_def)
next
  case (Cons c s)
  from get_char_left [OF Cons.prems(2) assms(2)] obtain source' where
    get: "sxe_jitson_source_get_char source = (c, source')" "c \<noteq> 0 \<Longrightarrow> left src source' s"
    by auto
  show ?case
  proof (cases "isspace c")
    case True
    then have "c \<noteq> 0"
      by auto
    with Cons.IH [OF _ get(2)] obtain source'' where "sxe_jitson_source_get_nonspace source' = (hd0 (skip_space s), source'')"
      "hd0 (skip_space s) \<noteq> 0 \<Longrightarrow> left src source'' (tl (skip_space s))"
      by blast
    then show ?thesis
      using Cons.prems(1) True get(1) by (simp add: sxe_jitson_source_get_nonspace.simps [of source] skip_space_def)
  next
    case False
    then show ?thesis
      using Cons.prems(1) get by (simp add: sxe_jitson_source_get_nonspace.simps [of source] skip_space_def)
  qed
qed

section \<open>Loading strings\<close>

lemma hex_digit_value_0 [simp]: "hex_digit_value 0 = None"
  by (simp add: hex_digit_value_def)

lemma get_unicode_left:
  assumes "left src source s" and "whole_text src"
  obtains v source' where "get_unicode n u source = (v, source')"
    "v = map_option fst (unicode_digits n u s)" "\<And>w r. unicode_digits n u s = Some (w, r) \<Longrightarrow> left src source' r"
  using assms(1)
proof (induction n u s arbitrary: source thesis rule: unicode_digits.induct)
  case (2 n u)
  from get_char_left [OF "2.prems"(2) assms(2)] obtain source' where "sxe_jitson_source_get_char source = (0, source')"
    by auto
  then show ?case
    using "2.prems"(1) by simp
next
  case (3 n u c s)
  from get_char_left [OF "3.prems"(2) assms(2)] obtain source' where
    get: "sxe_jitson_source_get_char source = (c, source')" "c \<noteq> 0 \<Longrightarrow> left src source' s"
    by auto
  show ?case
  proof (cases "hex_digit_value c")
    case None
    then show ?thesis
      using "3.prems"(1) get(1) by simp
  next
    case (Some d)
    then have "c \<noteq> 0"
      by (cases "c = 0") auto
    with "3.IH" [OF Some _ get(2)] obtain v source'' where "get_unicode n (push_bit 4 u + d) source' = (v, source'')"
      "v = map_option fst (unicode_digits n (push_bit 4 u + d) s)"
      "\<And>w r. unicode_digits n (push_bit 4 u + d) s = Some (w, r) \<Longrightarrow> left src source'' r"
      by blast
    then show ?thesis
      using "3.prems"(1) get(1) Some by simp
  qed
qed simp

lemma get_escape_left:
  assumes "left src source s" and "whole_text src"
  obtains v source' where "get_escape source = (v, source')"
    "v = map_option fst (escape s)" "\<And>u r. escape s = Some (u, r) \<Longrightarrow> left src source' r"
proof -
  from get_char_left [OF assms] obtain source' where
    get: "sxe_jitson_source_get_char source = (hd0 s, source')" "hd0 s \<noteq> 0 \<Longrightarrow> left src source' (tl s)"
    by blast
  show thesis
  proof (cases s)
    case Nil
    then show thesis
      using that get by (simp add: get_escape_def escape_def)
  next
    case (Cons c r)
    show thesis
    proof (cases "c = 117")
      case True
      then have "left src source' r"
        using get(2) Cons by simp
      from get_unicode_left [OF this assms(2), of 4 0] obtain v source'' where u: "get_unicode 4 0 source' = (v, source'')"
        "v = map_option fst (unicode_digits 4 0 r)" "\<And>w r'. unicode_digits 4 0 r = Some (w, r') \<Longrightarrow> left src source'' r'"
        by blast
      show thesis
      proof (cases "unicode_digits 4 0 r")
        case None
        then show thesis
          using that [of None source''] True Cons get(1) u by (simp add: get_escape_def escape_def simple_escapes_def)
      next
        case (Some p)
        obtain w r' where p: "p = (w, r')"
          by (cases p)
        have esc: "escape s = Some (snd (sxe_unicode_to_utf8 w), r')"
          using True Cons Some p by (simp add: escape_def simple_escapes_def)
        have "get_escape source = (Some (snd (sxe_unicode_to_utf8 w)), source'')"
          using True Cons get(1) u(1,2) Some p by (simp add: get_escape_def)
        then show thesis
          by (rule that) (use esc u(3) Some p in auto)
      qed
    next
      case False
      have "get_escape source = (map_option fst (escape s), source')"
        using False Cons get(1) by (simp add: get_escape_def escape_def simple_escapes_def)
      moreover have "r' = r \<and> c \<noteq> 0" if "escape s = Some (u, r')" for u r'
      proof -
        from that obtain b where b: "map_of simple_escapes c = Some b" "r' = r"
          using False Cons by (simp add: escape_def split: option.splits if_splits)
        then show ?thesis
          by (cases "c = 0") (simp_all add: simple_escapes_def)
      qed
      ultimately show thesis
        using that get(2) Cons by auto
    qed
  qed
qed

text \<open>A string that is being loaded, with room after it, and one that is complete\<close>

definition string_bytes :: "u32 \<Rightarrow> bytes \<Rightarrow> bytes \<Rightarrow> bytes" where
  "string_bytes t str room = le_bytes 4 t @ le_bytes 4 (of_nat (length str) :: u32) @ str @ room"

definition string_tokens :: "u32 \<Rightarrow> bytes \<Rightarrow> bytes \<Rightarrow> bool" where
  "string_tokens t str bs \<longleftrightarrow> (\<exists>junk. bs = string_bytes t str (0 # junk)) \<and> length bs = 16 * (1 + (length str + 8) div 16)"

lemma length_string_bytes [simp]: "length (string_bytes t str room) = 8 + length str + length room"
  by (simp add: string_bytes_def)

lemma append_string_at:
  assumes st: "on_stack fr st (cs @ string_bytes t str room)" and idx: "length cs = 16 * idx"
    and len: "length str < 2 ^ 32" "bs \<noteq> []" "length bs \<le> length room"
    and P: "\<And>st'. on_stack fr st' (cs @ string_bytes t (str @ bs) (drop (length bs) room)) \<Longrightarrow> P st'"
  shows "runs (append_string idx bs st) P"
proof -
  let ?n = "of_nat (length str) :: u32"
  have n: "unat ?n = length str"
    using len(1) by (simp add: unat_of_nat)
  have ln: "tok_len st idx = Some ?n"
    using tok_len_at [of fr st cs "le_bytes 4 t" ?n "str @ room" idx] st idx by (simp add: string_bytes_def)
  have room: "room = take (length bs) room @ drop (length bs) room"
    by simp
  have "runs (set_string idx (unat ?n) bs st) (\<lambda>st. runs (set_tok_len idx (?n + of_nat (length bs)) st) P)"
    unfolding set_string_def
  proof (rule set_bytes_at)
    show "on_stack fr st ((cs @ le_bytes 4 t @ le_bytes 4 ?n @ str) @ take (length bs) room @ drop (length bs) room)"
      using st unfolding string_bytes_def by simp
    show "runs (set_tok_len idx (?n + of_nat (length bs)) st') P"
      if "on_stack fr st' ((cs @ le_bytes 4 t @ le_bytes 4 ?n @ str) @ bs @ drop (length bs) room)" for st'
      using that by (intro set_tok_len_at [of fr st' cs "le_bytes 4 t" "le_bytes 4 ?n" "str @ bs @ drop (length bs) room"] P)
        (simp_all add: idx string_bytes_def)
  qed (use len n idx in auto)
  then show ?thesis
    by (simp add: append_string_def ln runs_bind)
qed

lemma runs_bindI: "c = Some r \<Longrightarrow> runs (f r) P \<Longrightarrow> runs (Option.bind c f) P"
  by simp

lemma string_char_left:
  assumes "left src source s" and "whole_text src"
  obtains v source' where "(if c = 92 then get_escape source else (Some [c], source)) = (v, source')"
    "v = map_option fst (if c = 92 then escape s else Some ([c], s))"
    "\<And>u r. (if c = 92 then escape s else Some ([c], s)) = Some (u, r) \<Longrightarrow> left src source' r"
proof (cases "c = 92")
  case True
  obtain v source' where "get_escape source = (v, source')"
    "v = map_option fst (escape s)" "\<And>u r. escape s = Some (u, r) \<Longrightarrow> left src source' r"
    using get_escape_left [OF assms] by blast
  then show thesis
    using that True by simp
qed (use that assms in simp)

lemma string_char_length:
  assumes "(if c = 92 then escape s else Some ([c], s)) = Some (u, r)"
  shows "1 \<le> length u" "length u \<le> 4" "length u + length r \<le> Suc (length s)"
  using assms escape_length [of s u r] by (auto split: if_splits)

lemma token_round: "r + n = 16 * k \<Longrightarrow> 1 \<le> r \<Longrightarrow> r \<le> 16 \<Longrightarrow> Suc (n div 16) = (k :: nat)"
  by arith

definition string_loaded :: "nat \<times> nat \<Rightarrow> sxe_jitson_source \<Rightarrow> bytes \<Rightarrow> bytes \<Rightarrow> (bytes \<times> bytes) option \<Rightarrow>
    bool \<times> sxe_jitson_stack \<times> sxe_jitson_source \<Rightarrow> bool" where
  "string_loaded fr src cs str parsed res =
     (case res of (ok, st, source) \<Rightarrow>
        (case parsed of
           None \<Rightarrow> \<not> ok \<and> on_stack fr st cs
         | Some (u, r) \<Rightarrow> ok \<and> left src source r \<and> (\<exists>bs. string_tokens SXE_JITSON_TYPE_STRING (str @ u) bs \<and> on_stack fr st (cs @ bs))))"

lemma load_string_loop_runs:
  assumes "on_stack fr st (cs @ string_bytes SXE_JITSON_TYPE_STRING str room)" and "length cs = 16 * idx"
    and "1 \<le> length room" and "length room \<le> 16" and "left src source s" and "whole_text src" and "ample alloc"
    and "length cs + 24 + length str + length s \<le> 2 ^ 32"
  shows "runs (load_string_loop alloc idx (length room) st source) (string_loaded fr src cs str (string_chars s))"
  using assms(1-5,8)
proof (induction s arbitrary: st source str room rule: string_chars.induct)
  case 1
  from get_char_left [OF "1.prems"(5) assms(6)] obtain source' where "sxe_jitson_source_get_char source = (0, source')"
    by auto
  then show ?case
    using on_stack_truncate [OF "1.prems"(1,2)] by (simp add: load_string_loop.simps [of alloc idx] string_loaded_def)
next
  case (2 c s)
  from get_char_left [OF "2.prems"(5) assms(6)] obtain source1 where
    get: "sxe_jitson_source_get_char source = (c, source1)" "c \<noteq> 0 \<Longrightarrow> left src source1 s"
    by auto
  have fail: "on_stack fr (st\<lparr>count := idx\<rparr>) cs"
    using on_stack_truncate [OF "2.prems"(1,2)] .
  consider (quote) "c = 34" | (zero) "c = 0" | (char) "c \<noteq> 34" "c \<noteq> 0"
    by blast
  then show ?case
  proof cases
    case quote
    have ln: "tok_len st idx = Some (of_nat (length str))"
      using tok_len_at [of fr st cs "le_bytes 4 SXE_JITSON_TYPE_STRING" _ "str @ room" idx] "2.prems"(1,2) by (simp add: string_bytes_def)
    have n: "unat (of_nat (length str) :: u32) = length str"
      using "2.prems"(6) by (simp add: unat_of_nat)
    have "runs (set_string idx (length str) [0] st) (\<lambda>st. string_loaded fr src cs str (Some ([], s)) (True, st, source1))"
      unfolding set_string_def
    proof (rule set_bytes_at)
      show "on_stack fr st ((cs @ le_bytes 4 SXE_JITSON_TYPE_STRING @ le_bytes 4 (of_nat (length str) :: u32) @ str) @ take 1 room @ tl room)"
        using "2.prems"(1,3) by (cases room) (simp_all add: string_bytes_def)
      show "string_loaded fr src cs str (Some ([], s)) (True, st', source1)"
        if "on_stack fr st' ((cs @ le_bytes 4 SXE_JITSON_TYPE_STRING @ le_bytes 4 (of_nat (length str) :: u32) @ str) @ [0] @ tl room)" for st'
      proof -
        have st': "on_stack fr st' (cs @ string_bytes SXE_JITSON_TYPE_STRING str (0 # tl room))"
          using that by (simp add: string_bytes_def)
        have "length room + (length str + 8) = 16 * (count st' - idx)"
          using on_stack_length [OF st'] "2.prems"(2,3) by (simp add: diff_mult_distrib2)
        then have "length (string_bytes SXE_JITSON_TYPE_STRING str (0 # tl room)) = 16 * (1 + (length str + 8) div 16)"
          using "2.prems"(3,4) by (simp add: token_round)
        then have "string_tokens SXE_JITSON_TYPE_STRING str (string_bytes SXE_JITSON_TYPE_STRING str (0 # tl room))"
          unfolding string_tokens_def by blast
        then show ?thesis
          using st' get(2) quote by (auto simp: string_loaded_def)
      qed
    qed (use "2.prems" in \<open>auto simp: Suc_le_eq\<close>)
    then show ?thesis
      using quote get(1) ln n by (simp add: load_string_loop.simps [of alloc idx] runs_bind)
  next
    case zero
    then show ?thesis
      using get(1) fail by (simp add: load_string_loop.simps [of alloc idx] string_loaded_def)
  next
    case char
    then have left1: "left src source1 s"
      using get(2) by simp
    obtain v source2 where v: "(if c = 92 then get_escape source1 else (Some [c], source1)) = (v, source2)"
      "v = map_option fst (if c = 92 then escape s else Some ([c], s))"
      "\<And>u r. (if c = 92 then escape s else Some ([c], s)) = Some (u, r) \<Longrightarrow> left src source2 r"
      using string_char_left [OF left1 assms(6)] by blast
    show ?thesis
    proof (cases "if c = 92 then escape s else Some ([c], s)")
      case None
      then show ?thesis
        using get(1) fail char v(1,2) by (simp add: load_string_loop.simps [of alloc idx] string_loaded_def)
    next
      case (Some p)
      obtain u r where p: "p = (u, r)"
        by (cases p)
      note u = string_char_length [OF Some [unfolded p]]
      define space where "space = (if length room - 1 < length u then length room - 1 + 16 else length room - 1)"
      have small: "length str < 2 ^ 32" "length (str @ take 1 u) < 2 ^ 32"
        using "2.prems"(6) by auto
      let ?go = "\<lambda>st. runs (load_string_loop alloc idx (space - (length u - 1)) st source2) (string_loaded fr src cs str (string_chars (c # s)))"
      have go: "?go st3" if "on_stack fr st3 (cs @ string_bytes SXE_JITSON_TYPE_STRING (str @ u) room3)" "length room3 = space - (length u - 1)"
        for st3 room3
      proof -
        have "runs (load_string_loop alloc idx (length room3) st3 source2) (string_loaded fr src cs (str @ u) (string_chars r))"
          using "2.IH" [OF char Some [unfolded p] refl that(1) "2.prems"(2)] that(2) "2.prems"(3,4,6) v(3) [OF Some [unfolded p]] u
          by (simp add: space_def split: if_splits)
        then show ?thesis
          unfolding that(2) by (rule runs_mono) (use char Some p in \<open>auto simp: string_loaded_def split: option.splits\<close>)
      qed
      have rest_chars: "runs (if 1 < length u then append_string idx (drop 1 u) st2 else Some st2) ?go"
        if st2: "on_stack fr st2 (cs @ string_bytes SXE_JITSON_TYPE_STRING (str @ take 1 u) room2)" "length room2 = space" for st2 room2
      proof (cases "1 < length u")
        case True
        have "runs (append_string idx (drop 1 u) st2) ?go"
        proof (rule append_string_at [OF st2(1) "2.prems"(2) small(2)])
          show "?go st'" if "on_stack fr st' (cs @ string_bytes SXE_JITSON_TYPE_STRING ((str @ take 1 u) @ drop 1 u) (drop (length (drop 1 u)) room2))" for st'
            using go [of st' "drop (length (drop 1 u)) room2"] that st2(2) by simp
        qed (use True st2(2) u "2.prems"(3) space_def in auto)
        then show ?thesis
          using True by simp
      next
        case False
        then have "take 1 u = u"
          by simp
        then show ?thesis
          using False st2 go [of st2 room2] u by simp
      qed
      have grow: "runs (if length room - 1 < length u then sxe_jitson_stack_expand alloc 1 st1 else Some (Some idx, st1))
          (\<lambda>(rm, st2). rm \<noteq> None \<and> runs (if 1 < length u then append_string idx (drop 1 u) st2 else Some st2) ?go)"
        if st1: "on_stack fr st1 (cs @ string_bytes SXE_JITSON_TYPE_STRING (str @ take 1 u) (drop 1 room))" for st1
      proof (cases "length room - 1 < length u")
        case True
        have "runs (sxe_jitson_stack_expand alloc 1 st1)
          (\<lambda>(rm, st2). rm \<noteq> None \<and> runs (if 1 < length u then append_string idx (drop 1 u) st2 else Some st2) ?go)"
          by (rule expand_runs [OF st1 assms(7)])
            (use True rest_chars "2.prems"(6) u in \<open>auto simp: space_def string_bytes_def\<close>)
        then show ?thesis
          using True by simp
      next
        case False
        then show ?thesis
          using rest_chars [OF st1] by (simp add: space_def)
      qed
      have "runs (append_string idx (take 1 u) st) (\<lambda>st1. runs (if length room - 1 < length u then sxe_jitson_stack_expand alloc 1 st1 else Some (Some idx, st1))
          (\<lambda>(rm, st2). rm \<noteq> None \<and> runs (if 1 < length u then append_string idx (drop 1 u) st2 else Some st2) ?go))"
        (is "runs _ ?Q")
      proof (rule append_string_at [OF "2.prems"(1,2) small(1)])
        show "?Q st'" if "on_stack fr st' (cs @ string_bytes SXE_JITSON_TYPE_STRING (str @ take 1 u) (drop (length (take 1 u)) room))" for st'
          by (rule grow) (use that u in \<open>simp add: min_absorb2\<close>)
      qed (use u "2.prems"(3) in auto)
      moreover have "load_string_loop alloc idx (length room) st source =
          Option.bind (append_string idx (take 1 u) st) (\<lambda>st1.
            Option.bind (if length room - 1 < length u then sxe_jitson_stack_expand alloc 1 st1 else Some (Some idx, st1)) (\<lambda>(rm, st2).
              if rm = None then Some (False, st2\<lparr>count := idx\<rparr>, source2)
              else Option.bind (if 1 < length u then append_string idx (drop 1 u) st2 else Some st2) (\<lambda>st3.
                load_string_loop alloc idx (space - (length u - 1)) st3 source2)))"
        by (subst load_string_loop.simps) (use char get(1) v(1,2) Some p in \<open>simp add: space_def Let_def cong: if_cong\<close>)
      ultimately show ?thesis
        by (fastforce intro!: runs_bind elim!: runs_mono simp: runs_bind)
    qed
  qed
qed

definition quoted_string :: "bytes \<Rightarrow> (bytes \<times> bytes) option" where
  "quoted_string s = (case skip_space s of [] \<Rightarrow> None | c # r \<Rightarrow> if c = 34 then string_chars r else None)"

lemma load_string_runs:
  assumes st: "on_stack fr st cs" and left: "left src source s" and src: "whole_text src" and alloc: "ample alloc"
    and room: "length cs + 16 * (length s + 1) \<le> 2 ^ 32"
  shows "runs (sxe_jitson_stack_load_string alloc st source) (string_loaded fr src cs [] (quoted_string s))"
proof -
  from get_nonspace_left [OF left src] obtain source' where
    get: "sxe_jitson_source_get_nonspace source = (hd0 (skip_space s), source')"
      "hd0 (skip_space s) \<noteq> 0 \<Longrightarrow> left src source' (tl (skip_space s))"
    by blast
  show ?thesis
  proof (cases "hd0 (skip_space s) = 34")
    case False
    then have "quoted_string s = None"
      by (cases "skip_space s") (auto simp: quoted_string_def)
    then show ?thesis
      using False get(1) st by (simp add: sxe_jitson_stack_load_string_def string_loaded_def)
  next
    case True
    then obtain r where r: "skip_space s = 34 # r"
      by (cases "skip_space s") auto
    have idx: "length cs = 16 * (length cs div 16)"
      using on_stack_length [OF st] by simp
    have loop: "runs (load_string_loop alloc (length cs div 16) 8 st' source') (string_loaded fr src cs [] (quoted_string s))"
      if st': "on_stack fr st' (cs @ le_bytes 4 SXE_JITSON_TYPE_STRING @ le_bytes 4 (0 :: u32) @ junk)" "length junk = 8" for st' junk
    proof -
      have "runs (load_string_loop alloc (length cs div 16) (length junk) st' source') (string_loaded fr src cs [] (string_chars r))"
        by (rule load_string_loop_runs) (use st' idx get(2) r src alloc room skip_space_Cons [OF r] in \<open>simp_all add: string_bytes_def\<close>)
      then show ?thesis
        using st'(2) r by (simp add: quoted_string_def)
    qed
    have "runs (sxe_jitson_stack_expand alloc 1 st) (\<lambda>(new, st). new = Some (length cs div 16) \<and>
        runs (set_type (length cs div 16) SXE_JITSON_TYPE_STRING st) (\<lambda>st.
          runs (set_tok_len (length cs div 16) 0 st) (\<lambda>st.
            runs (load_string_loop alloc (length cs div 16) 8 st source') (string_loaded fr src cs [] (quoted_string s)))))"
    proof (rule expand_runs [OF st alloc])
      fix st' junk
      assume st': "on_stack fr st' (cs @ junk)" "length junk = 16 * 1"
      define a b c where "a = take 4 junk" and "b = take 4 (drop 4 junk)" and "c = drop 8 junk"
      have abc: "junk = a @ b @ c" "length a = 4" "length b = 4" "length c = 8"
        using st'(2) append_take_drop_id [of 4 junk] append_take_drop_id [of 4 "drop 4 junk"] by (simp_all add: a_def b_def c_def)
      have "runs (set_type (length cs div 16) SXE_JITSON_TYPE_STRING st') (\<lambda>st.
          runs (set_tok_len (length cs div 16) 0 st) (\<lambda>st.
            runs (load_string_loop alloc (length cs div 16) 8 st source') (string_loaded fr src cs [] (quoted_string s))))"
        by (rule set_type_at [of fr st' cs a "b @ c", OF _ idx abc(2)], use st'(1) abc(1) in simp)
          (rule set_tok_len_at [OF _ idx], assumption, use abc loop in simp_all)
      then show "case (Some (length cs div 16), st') of (new, st) \<Rightarrow> new = Some (length cs div 16) \<and>
        runs (set_type (length cs div 16) SXE_JITSON_TYPE_STRING st) (\<lambda>st.
          runs (set_tok_len (length cs div 16) 0 st) (\<lambda>st.
            runs (load_string_loop alloc (length cs div 16) 8 st source') (string_loaded fr src cs [] (quoted_string s))))"
        by simp
    qed (use room in simp)
    then show ?thesis
      using True get(1) unfolding sxe_jitson_stack_load_string_def SXE_JITSON_STRING_SIZE_def
      by (fastforce intro!: runs_bind elim!: runs_mono simp: runs_bind)
  qed
qed

end
