(* ===== verification/Sxe_Jitson_Spec.thy ===== *)
theory Sxe_Jitson_Spec
  imports Sxe_Jitson_Stack_Spec
begin

text \<open>
  The parser of \<^verbatim>\<open>lib-sxe-jitson/sxe-jitson-stack.c\<close> agrees with the reference parser on every text, and the tokens it leaves on
  the stack represent the value that was parsed.
\<close>

section \<open>Values as tokens\<close>

inductive value_tokens :: "jvalue \<Rightarrow> bytes \<Rightarrow> bool" where
  tokens_null: "value_tokens JNull sxe_jitson_make_null"
| tokens_bool: "value_tokens (JBool b) (sxe_jitson_make_bool b)"
| tokens_uint: "length junk = 4 \<Longrightarrow> value_tokens (JUint n) (le_bytes 4 (SXE_JITSON_TYPE_NUMBER OR SXE_JITSON_TYPE_IS_UINT) @ junk @ le_bytes 8 n)"
| tokens_number: "length junk = 4 \<Longrightarrow> value_tokens (JNumber n) (le_bytes 4 SXE_JITSON_TYPE_NUMBER @ junk @ le_bytes 8 n)"
| tokens_string: "string_tokens SXE_JITSON_TYPE_STRING s bs \<Longrightarrow> value_tokens (JString s) bs"
| tokens_array: "list_all2 value_tokens vs bss \<Longrightarrow>
    value_tokens (JArray vs) (le_bytes 4 SXE_JITSON_TYPE_ARRAY @ le_bytes 4 (of_nat (length vs) :: u32) @
      le_bytes 8 (of_nat (1 + length (concat bss) div 16) :: u64) @ concat bss)"
| tokens_object: "list_all2 (string_tokens (SXE_JITSON_TYPE_STRING OR SXE_JITSON_TYPE_IS_KEY)) (map fst ms) kss \<Longrightarrow>
    list_all2 value_tokens (map snd ms) vss \<Longrightarrow>
    value_tokens (JObject ms) (le_bytes 4 SXE_JITSON_TYPE_OBJECT @ le_bytes 4 (of_nat (length ms) :: u32) @
      le_bytes 8 (of_nat (1 + length (concat (map2 (@) kss vss)) div 16) :: u64) @ concat (map2 (@) kss vss))"

section \<open>Classes of characters and literals\<close>

lemma class_table:
  "\<forall>n \<in> set [0..<256]. let cls = jitson_class ! n; c = of_nat n :: u8 in
     (cls = 34) = (c = 34) \<and> (cls = 123) = (c = 123) \<and> (cls = 91) = (c = 91) \<and> (cls = 45 \<or> cls = DIG) = (c = 45 \<or> isdigit c) \<and>
     (c = 116 \<or> c = 102 \<or> c = 110 \<longrightarrow> cls = ALP)"
  by code_simp

lemma class_of:
  "jitson_class ! unat c = 34 \<longleftrightarrow> c = 34" "jitson_class ! unat c = 123 \<longleftrightarrow> c = 123" "jitson_class ! unat c = 91 \<longleftrightarrow> c = 91"
  "jitson_class ! unat c = 45 \<or> jitson_class ! unat c = DIG \<longleftrightarrow> c = 45 \<or> isdigit c"
  "c = 116 \<or> c = 102 \<or> c = 110 \<Longrightarrow> jitson_class ! unat c = ALP"
proof -
  have "unat c \<in> set [0..<256]"
    using unsigned_less [of c, where 'a = nat] by simp
  from bspec [OF class_table this]
  show "jitson_class ! unat c = 34 \<longleftrightarrow> c = 34" "jitson_class ! unat c = 123 \<longleftrightarrow> c = 123" "jitson_class ! unat c = 91 \<longleftrightarrow> c = 91"
    "jitson_class ! unat c = 45 \<or> jitson_class ! unat c = DIG \<longleftrightarrow> c = 45 \<or> isdigit c"
    "c = 116 \<or> c = 102 \<or> c = 110 \<Longrightarrow> jitson_class ! unat c = ALP"
    by (auto simp: Let_def)
qed

lemma split_token:
  assumes "length junk = 16"
  obtains a b c :: bytes where "junk = a @ b @ c" "length a = 4" "length b = 4" "length c = 8"
proof
  show "junk = take 4 junk @ take 4 (drop 4 junk) @ drop 8 junk"
    using append_take_drop_id [of 4 junk] append_take_drop_id [of 4 "drop 4 junk"] by simp
qed (use assms in simp_all)

text \<open>The tokens of the literals are copied as they are.\<close>

definition plain_token :: "u32 \<Rightarrow> bytes \<Rightarrow> bool" where
  "plain_token t v \<longleftrightarrow> length v = 16 \<and> v_type v = Some t \<and> take 4 v = le_bytes 4 t \<and> t \<in> {SXE_JITSON_TYPE_NULL, SXE_JITSON_TYPE_BOOL}"

lemma plain_token_bool: "plain_token SXE_JITSON_TYPE_BOOL (sxe_jitson_make_bool b)"
  by (cases b) code_simp+

lemma plain_token_null: "plain_token SXE_JITSON_TYPE_NULL sxe_jitson_make_null"
  by code_simp

lemma plain_types:
  assumes "t \<in> {SXE_JITSON_TYPE_NULL, SXE_JITSON_TYPE_BOOL}"
  shows "t AND SXE_JITSON_TYPE_MASK = t" "t AND NOT SXE_JITSON_TYPE_ALLOCED = t"
    "t \<noteq> SXE_JITSON_TYPE_STRING" "t \<noteq> SXE_JITSON_TYPE_ARRAY" "t \<noteq> SXE_JITSON_TYPE_OBJECT"
  using assms by (auto simp: type_defs)

lemma dup_literal_runs:
  assumes v: "plain_token t v" and st: "on_stack fr st (cs @ junk)" and idx: "length cs = 16 * idx" "length junk = 16"
    and P: "\<And>st'. on_stack fr st' (cs @ v) \<Longrightarrow> P (True, st')"
  shows "runs (sxe_jitson_stack_dup_at_index env idx v 0 st) P"
proof -
  have t: "v_type v = Some t" "length v = 16" "v = le_bytes 4 t @ drop 4 v" "t \<in> {SXE_JITSON_TYPE_NULL, SXE_JITSON_TYPE_BOOL}"
    using v append_take_drop_id [of 4 v] unfolding plain_token_def by metis+
  have sz: "sxe_jitson_size v = Some 1"
    using t(1,4) plain_types [OF t(4)] by (auto simp: sxe_jitson_size_def)
  have cl: "sxe_jitson_clone env v = Some v"
    using t(1,4) plain_types [OF t(4)] by (auto simp: sxe_jitson_clone_def)
  have rd: "read_at v 0 16 = Some v"
    using t(2) by (simp add: read_at_def)
  have cnt: "count st = idx + 1"
    using on_stack_length [OF st] idx by simp
  have last: "runs (set_type idx (t AND NOT SXE_JITSON_TYPE_ALLOCED) st') (\<lambda>st. P (True, st)) \<and> tok_type st' idx = Some t"
    if st': "on_stack fr st' (cs @ v)" for st'
  proof
    have st'': "on_stack fr st' (cs @ le_bytes 4 t @ drop 4 v)"
      using st' t(3) by simp
    then show "tok_type st' idx = Some t"
      using idx(1) by (rule tok_type_at)
    show "runs (set_type idx (t AND NOT SXE_JITSON_TYPE_ALLOCED) st') (\<lambda>st. P (True, st))"
      using st'' idx(1) by (rule set_type_at) (use plain_types(2) [OF t(4)] t(3) P in auto)
  qed
  have "runs (set_bytes (16 * idx) v st) (\<lambda>st'. runs (set_type idx (t AND NOT SXE_JITSON_TYPE_ALLOCED) st') (\<lambda>st. P (True, st)) \<and> tok_type st' idx = Some t)"
    by (rule set_bytes_at [of fr st cs junk "[]"]) (use st idx t(2) last in auto)
  then show ?thesis
    by (auto simp: sxe_jitson_stack_dup_at_index_def sz cl rd cnt runs_def)
qed

section \<open>Texts without extensions\<close>

text \<open>The double nearest to a number, as \<^verbatim>\<open>strtod\<close> returns it: it takes the characters of the number, except that it would take a
  hexadecimal number after \<^verbatim>\<open>-0x\<close>.\<close>

definition strtod_ok :: "(bytes \<Rightarrow> u64 \<times> nat) \<Rightarrow> (bytes \<Rightarrow> u64) \<Rightarrow> bool" where
  "strtod_ok strtod dbl \<longleftrightarrow>
     (\<forall>s t. take_number s = Some (t, False) \<longrightarrow> (t = [45, 48] \<longrightarrow> c_at s 2 \<noteq> 120 \<and> c_at s 2 \<noteq> 88) \<longrightarrow> strtod s = (dbl t, length t))"

definition no_hex :: "bytes \<Rightarrow> bool" where
  "no_hex s \<longleftrightarrow> list_all (\<lambda>n. take 3 (drop n s) \<noteq> [45, 48, 120] \<and> take 3 (drop n s) \<noteq> [45, 48, 88]) [0..<length s]"

definition strict_flags :: "u32 \<Rightarrow> bool" where
  "strict_flags flags \<longleftrightarrow> flags AND SXE_JITSON_FLAG_ALLOW_HEX = 0 \<and> flags AND SXE_JITSON_FLAG_ALLOW_CONSTS = 0 \<and>
     flags AND SXE_JITSON_FLAG_ALLOW_IDENTS = 0 \<and> flags AND SXE_JITSON_FLAG_OPTIMIZE = 0"

definition strict_reader :: "jitson_env \<Rightarrow> (bytes \<Rightarrow> u64) \<Rightarrow> sxe_jitson_source \<Rightarrow> bool" where
  "strict_reader env dbl src \<longleftrightarrow> ample (env_alloc env) \<and> whole_text src \<and> strict_flags (s_flags src) \<and>
     strtod_ok (env_strtod env) dbl \<and> no_hex (rest src)"

lemma no_hex_suffix:
  assumes "no_hex (a @ [45, 48] @ b)"
  shows "hd0 b \<noteq> 120" "hd0 b \<noteq> 88"
proof -
  have "take 3 (drop (length a) (a @ [45, 48] @ b)) \<noteq> [45, 48, 120] \<and> take 3 (drop (length a) (a @ [45, 48] @ b)) \<noteq> [45, 48, 88]"
    using assms unfolding no_hex_def list_all_iff by (rule bspec) simp
  then show "hd0 b \<noteq> 120" "hd0 b \<noteq> 88"
    by (cases b; auto)+
qed

section \<open>Results\<close>

definition value_loaded :: "nat \<times> nat \<Rightarrow> sxe_jitson_source \<Rightarrow> bytes \<Rightarrow> bytes \<Rightarrow> (jvalue \<times> bytes) option \<Rightarrow>
    bool \<times> sxe_jitson_stack \<times> sxe_jitson_source \<Rightarrow> bool" where
  "value_loaded fr src cs s parsed res =
     (case res of (ok, st, source) \<Rightarrow>
        (case parsed of
           None \<Rightarrow> \<not> ok \<and> on_stack fr st cs
         | Some (v, r) \<Rightarrow> ok \<and> left src source r \<and>
             (\<exists>bs. value_tokens v bs \<and> on_stack fr st (cs @ bs) \<and> length bs + 16 * length r \<le> 16 * length s)))"

lemma load_number_runs:
  assumes rd: "strict_reader env dbl src" and st: "on_stack fr st (cs @ junk)" and idx: "length cs = 16 * idx" "length junk = 16"
    and left: "left src source s"
  shows "runs (load_number env idx st source)
    (value_loaded fr src cs s (map_option (\<lambda>(t, is_uint). (if is_uint then JUint (saturate (number_value 10 t)) else JNumber (dbl t), drop (length t) s))
       (take_number s)))"
proof -
  have flags: "s_flags source AND SXE_JITSON_FLAG_ALLOW_HEX = 0"
    using rd left_flags [OF left] by (simp add: strict_reader_def strict_flags_def)
  note num = get_number_take [OF flags, unfolded left_rest [OF left]]
  show ?thesis
  proof (cases "take_number s")
    case None
    then show ?thesis
      using num on_stack_truncate [OF st idx(1)] by (simp add: load_number_def load_fail_def value_loaded_def)
  next
    case (Some p)
    obtain t is_uint where p: "p = (t, is_uint)"
      by (cases p)
    note t = take_number_length [OF Some [unfolded p]]
    have here: "drop (s_next source) (json source) = s"
      using whole_text_rest [OF left_whole [OF left]] rd left_rest [OF left] by (simp add: strict_reader_def)
    have after: "left src (fwd (length t) source) (drop (length t) s)"
    proof (rule left_moved)
      show "left src source (t @ drop (length t) s)"
        using left t(1) by (metis append_take_drop_id)
      show "moved (length t) source (fwd (length t) source)"
        by (simp add: moved_def)
    qed
    obtain a b c where junk: "junk = a @ b @ c" "length a = 4" "length b = 4" "length c = 8"
      using idx(2) by (rule split_token)
    have stored: "runs (set_type idx w st) (\<lambda>st. runs (set_integer idx n st)
        (\<lambda>st. value_loaded fr src cs s (Some (v, drop (length t) s)) (True, st, fwd (length t) source)))"
      if v: "value_tokens v (le_bytes 4 w @ b @ le_bytes 8 n)" for v w n
    proof (rule set_type_at [of fr st cs a "b @ c"])
      show "runs (set_integer idx n st') (\<lambda>st. value_loaded fr src cs s (Some (v, drop (length t) s)) (True, st, fwd (length t) source))"
        if "on_stack fr st' (cs @ le_bytes 4 w @ b @ c)" for st'
      proof (rule set_integer_at [of fr st' cs "le_bytes 4 w" b c "[]"])
        show "value_loaded fr src cs s (Some (v, drop (length t) s)) (True, st'', fwd (length t) source)"
          if "on_stack fr st'' (cs @ le_bytes 4 w @ b @ le_bytes 8 n @ [])" for st''
          unfolding value_loaded_def prod.case option.case
        proof (intro conjI exI)
          show "length (le_bytes 4 w @ b @ le_bytes 8 n) + 16 * length (drop (length t) s) \<le> 16 * length s"
            using t(2,3) junk(3) by (cases t) simp_all
        qed (use that v after in simp_all)
      qed (use that idx junk in simp_all)
    qed (use st idx junk in simp_all)
    show ?thesis
    proof (cases is_uint)
      case True
      have "t = takeWhile isdigit s"
        using Some [unfolded p] True by (elim take_number_split) (simp add: takeWhile_eq_take [symmetric])
      then have "strtoul s False = (saturate (number_value 10 t), length t)"
        by (simp add: strtoul_def Let_def)
      then show ?thesis
        using num Some p True flags here stored [OF tokens_uint [OF junk(3)], of "saturate (number_value 10 t)"]
        by (simp add: load_number_def runs_bind_iff)
    next
      case False
      have "c_at s 2 \<noteq> 120 \<and> c_at s 2 \<noteq> 88" if "t = [45, 48]"
      proof -
        have "s = [45, 48] @ drop 2 s"
          using t(1) append_take_drop_id [of 2 s] unfolding that by (simp add: numeral_2_eq_2)
        moreover obtain pre where "rest src = pre @ s"
          using left unfolding left_def by blast
        ultimately have "no_hex (pre @ [45, 48] @ drop 2 s)"
          using rd by (simp add: strict_reader_def)
        from no_hex_suffix [OF this] show ?thesis
          by (simp add: hd0_drop)
      qed
      moreover have "take_number s = Some (t, False)"
        using Some p False by simp
      ultimately have "env_strtod env s = (dbl t, length t)"
        using rd unfolding strict_reader_def strtod_ok_def by blast
      then show ?thesis
        using num Some p False here stored [OF tokens_number [OF junk(3)], of "dbl t"]
        by (simp add: load_number_def runs_bind_iff)
    qed
  qed
qed

lemma get_identifier_left:
  assumes "left src source s" and "whole_text src"
  obtains ident source' where "sxe_jitson_source_get_identifier source = ((ident, length (takeWhile is_identifier_char s)), source')"
    "take (length (takeWhile is_identifier_char s)) (drop (s_next source) (json source)) = takeWhile is_identifier_char s"
    "left src source' (dropWhile is_identifier_char s)"
proof
  let ?n = "length (takeWhile is_identifier_char s)"
  show "sxe_jitson_source_get_identifier source =
      ((if ?n \<noteq> 0 then Some (s_next source) else None, ?n), sxe_jitson_source_consume ?n source)"
    by (simp add: sxe_jitson_source_get_identifier_def sxe_jitson_source_peek_identifier_def skip_class_fwd left_rest [OF assms(1)] Let_def)
  show "take ?n (drop (s_next source) (json source)) = takeWhile is_identifier_char s"
    using whole_text_rest [OF left_whole [OF assms]] left_rest [OF assms(1)] by (simp add: takeWhile_eq_take [symmetric])
  show "left src (sxe_jitson_source_consume ?n source) (dropWhile is_identifier_char s)"
    by (rule left_moved [of src source "takeWhile is_identifier_char s"]) (simp_all add: assms(1))
qed

section \<open>The steps of the parser\<close>

definition value_ok :: "jitson_env \<Rightarrow> (bytes \<Rightarrow> u64) \<Rightarrow> sxe_jitson_source \<Rightarrow> bytes \<Rightarrow> bool" where
  "value_ok env dbl src s \<longleftrightarrow>
     (\<forall>fr st cs source. on_stack fr st cs \<longrightarrow> left src source s \<longrightarrow> length cs + 16 * (length s + 1) \<le> 2 ^ 32 \<longrightarrow>
        runs (load env Load_Value st source) (value_loaded fr src cs s (parse_value dbl s)))"

text \<open>An array or an object with \<open>n\<close> elements or members\<close>

definition collection :: "u32 \<Rightarrow> nat \<Rightarrow> bytes \<Rightarrow> bytes \<Rightarrow> bytes" where
  "collection t n field body = le_bytes 4 t @ le_bytes 4 (of_nat n :: u32) @ field @ body"

definition sized_collection :: "u32 \<Rightarrow> nat \<Rightarrow> bytes \<Rightarrow> bytes" where
  "sized_collection t n body = collection t n (le_bytes 8 (of_nat (1 + length body div 16) :: u64)) body"

definition elements_loaded :: "nat \<times> nat \<Rightarrow> sxe_jitson_source \<Rightarrow> bytes \<Rightarrow> nat \<Rightarrow> bytes \<Rightarrow> bytes \<Rightarrow> (jvalue list \<times> bytes) option \<Rightarrow>
    bool \<times> sxe_jitson_stack \<times> sxe_jitson_source \<Rightarrow> bool" where
  "elements_loaded fr src cs n body s parsed res =
     (case res of (ok, st, source) \<Rightarrow>
        (case parsed of
           None \<Rightarrow> \<not> ok \<and> on_stack fr st cs
         | Some (vs, r) \<Rightarrow> ok \<and> left src source r \<and>
             (\<exists>bss. list_all2 value_tokens vs bss \<and> length (concat bss) + 16 * length r \<le> 16 * length s \<and>
                on_stack fr st (cs @ sized_collection SXE_JITSON_TYPE_ARRAY (n + length vs) (body @ concat bss)))))"

definition elements_ok :: "jitson_env \<Rightarrow> (bytes \<Rightarrow> u64) \<Rightarrow> sxe_jitson_source \<Rightarrow> bytes \<Rightarrow> bool" where
  "elements_ok env dbl src s \<longleftrightarrow>
     (\<forall>fr st cs n field body idx source. on_stack fr st (cs @ collection SXE_JITSON_TYPE_ARRAY n field body) \<longrightarrow> length field = 8 \<longrightarrow>
        length cs = 16 * idx \<longrightarrow> left src source s \<longrightarrow> length cs + 16 + length body + 16 * (length s + 1) \<le> 2 ^ 32 \<longrightarrow>
        runs (load env (Load_Element idx) st source) (elements_loaded fr src cs n body s (parse_elements dbl s)))"

text \<open>Closing a collection stores its size.\<close>

lemma collection_size:
  assumes "on_stack fr st (cs @ collection t n field body)" and "length cs = 16 * idx" and "length field = 8"
  shows "count st - idx = 1 + length body div 16"
  using on_stack_length [OF assms(1)] assms(2,3) by (simp add: collection_def)

lemma set_integer_collection:
  assumes "on_stack fr st (cs @ collection t n field body)" and "length cs = 16 * idx" and "length field = 8"
    and "\<And>st'. on_stack fr st' (cs @ sized_collection t n body) \<Longrightarrow> P st'"
  shows "runs (set_integer idx (of_nat (count st - idx)) st) P"
  unfolding collection_size [OF assms(1-3)]
  by (rule set_integer_at [of fr st cs "le_bytes 4 t" "le_bytes 4 (of_nat n :: u32)" field body])
    (use assms in \<open>simp_all add: collection_def sized_collection_def\<close>)

lemma tok_len_collection:
  assumes "on_stack fr st (cs @ collection t n field body)" and "length cs = 16 * idx"
  shows "tok_len st idx = Some (of_nat n)"
  using tok_len_at [of fr st cs "le_bytes 4 t" "of_nat n" "field @ body" idx] assms by (simp add: collection_def)

lemma tok_type_collection:
  assumes "on_stack fr st (cs @ collection t n field body)" and "length cs = 16 * idx"
  shows "tok_type st idx = Some t"
  using tok_type_at [of fr st cs t _ idx] assms by (simp add: collection_def)

lemma set_tok_len_collection:
  assumes "on_stack fr st (cs @ collection t n field body)" and "length cs = 16 * idx"
    and "\<And>st'. on_stack fr st' (cs @ collection t (Suc n) field body) \<Longrightarrow> P st'"
  shows "runs (set_tok_len idx (of_nat n + 1) st) P"
  by (rule set_tok_len_at [of fr st cs "le_bytes 4 t" "le_bytes 4 (of_nat n :: u32)" "field @ body"])
    (use assms in \<open>simp_all add: collection_def add.commute\<close>)

lemma set_type_collection:
  assumes "on_stack fr st (cs @ collection t n field body)" and "length cs = 16 * idx"
    and "\<And>st'. on_stack fr st' (cs @ collection w n field body) \<Longrightarrow> P st'"
  shows "runs (set_type idx w st) P"
  by (rule set_type_at [of fr st cs "le_bytes 4 t" "le_bytes 4 (of_nat n :: u32) @ field @ body"])
    (use assms in \<open>simp_all add: collection_def\<close>)

lemma array_flags:
  "SXE_JITSON_TYPE_ARRAY AND NOT SXE_JITSON_TYPE_IS_ORD = SXE_JITSON_TYPE_ARRAY" "\<not> has SXE_JITSON_TYPE_ARRAY SXE_JITSON_TYPE_IS_UNIF"
  by (simp_all add: type_defs has_def)

lemma close_array_runs:
  assumes "on_stack fr st (cs @ collection SXE_JITSON_TYPE_ARRAY n field body)" and "length cs = 16 * idx" and "length field = 8"
    and P: "\<And>st'. on_stack fr st' (cs @ sized_collection SXE_JITSON_TYPE_ARRAY n body) \<Longrightarrow> P st'"
  shows "runs (close_array idx st) P"
proof -
  have last: "runs (set_integer idx (of_nat (count st' - idx)) st') P \<and> tok_type st' idx = Some SXE_JITSON_TYPE_ARRAY"
    if "on_stack fr st' (cs @ collection SXE_JITSON_TYPE_ARRAY n field body)" for st'
    using set_integer_collection [OF that assms(2,3), of P] P tok_type_collection [OF that assms(2)] by blast
  have "runs (if (of_nat n :: u32) \<le> 1 then set_type idx SXE_JITSON_TYPE_ARRAY st else Some st)
      (\<lambda>st'. runs (set_integer idx (of_nat (count st' - idx)) st') P \<and> tok_type st' idx = Some SXE_JITSON_TYPE_ARRAY)"
    using set_type_collection [OF assms(1,2)] last last [OF assms(1)] by simp
  then show ?thesis
    using tok_len_collection [OF assms(1,2)] tok_type_collection [OF assms(1,2)]
    by (auto simp: close_array_def array_flags runs_def)
qed

lemma strict_reader_facts:
  assumes "strict_reader env dbl src" and "left src source s"
  shows "ample (env_alloc env)" "whole_text src" "s_flags source AND SXE_JITSON_FLAG_OPTIMIZE = 0"
    "s_flags source AND SXE_JITSON_FLAG_ALLOW_CONSTS = 0" "s_flags source AND SXE_JITSON_FLAG_ALLOW_IDENTS = 0"
  using assms(1) left_flags [OF assms(2)] by (simp_all add: strict_reader_def strict_flags_def)

lemma load_fail_runs:
  assumes "on_stack fr st (cs @ b)" and "length cs = 16 * idx" and "\<And>st'. on_stack fr st' cs \<Longrightarrow> P (False, st', source)"
  shows "runs (load_fail idx st source) P"
  using assms(3) [OF on_stack_truncate [OF assms(1,2)]] by (simp add: load_fail_def)

lemma value_okD:
  "value_ok env dbl src s \<Longrightarrow> on_stack fr st cs \<Longrightarrow> left src source s \<Longrightarrow> length cs + 16 * (length s + 1) \<le> 2 ^ 32 \<Longrightarrow>
   runs (load env Load_Value st source) (value_loaded fr src cs s (parse_value dbl s))"
  unfolding value_ok_def by blast

lemma elements_okD:
  "elements_ok env dbl src s \<Longrightarrow> on_stack fr st (cs @ collection SXE_JITSON_TYPE_ARRAY n field body) \<Longrightarrow> length field = 8 \<Longrightarrow>
   length cs = 16 * idx \<Longrightarrow> left src source s \<Longrightarrow> length cs + 16 + length body + 16 * (length s + 1) \<le> 2 ^ 32 \<Longrightarrow>
   runs (load env (Load_Element idx) st source) (elements_loaded fr src cs n body s (parse_elements dbl s))"
  unfolding elements_ok_def by blast

lemma elements_loaded_Cons:
  assumes "parse_value dbl s = Some (v, r)" and "skip_space r = 44 # t" and "value_tokens v bs" and "length bs + 16 * length r \<le> 16 * length s"
    and "elements_loaded fr src cs (Suc n) (body @ bs) t (parse_elements dbl t) res"
  shows "elements_loaded fr src cs n body s (parse_elements dbl s) res"
proof (cases "parse_elements dbl t")
  case None
  then show ?thesis
    using assms by (simp add: elements_loaded_def parse_elements_eq [of dbl s])
next
  case (Some p)
  obtain vs r' where p: "p = (vs, r')"
    by (cases p)
  obtain ok st source where res: "res = (ok, st, source)"
    by (cases res)
  have ok: "ok" "left src source r'"
    using assms(5) by (simp_all add: elements_loaded_def Some p res)
  obtain bss where bss: "list_all2 value_tokens vs bss" "length (concat bss) + 16 * length r' \<le> 16 * length t"
      "on_stack fr st (cs @ sized_collection SXE_JITSON_TYPE_ARRAY (Suc n + length vs) ((body @ bs) @ concat bss))"
    using assms(5) unfolding elements_loaded_def Some p res prod.case option.case by blast
  have pe: "parse_elements dbl s = Some (v # vs, r')"
    by (simp add: parse_elements_eq [of dbl s] assms(1,2) Some p)
  show ?thesis
    unfolding elements_loaded_def pe res prod.case option.case
  proof (intro conjI exI)
    show "list_all2 value_tokens (v # vs) (bs # bss)"
      using bss(1) assms(3) by simp
  qed (use ok bss(2,3) assms(4) skip_space_Cons [OF assms(2)] in simp_all)
qed

lemma elements_step:
  assumes rd: "strict_reader env dbl src" and val: "value_ok env dbl src s"
    and IH: "\<And>s'. length s' < length s \<Longrightarrow> elements_ok env dbl src s'"
  shows "elements_ok env dbl src s"
  unfolding elements_ok_def
proof (intro allI impI)
  fix fr st cs n field body idx source
  assume st: "on_stack fr st (cs @ collection SXE_JITSON_TYPE_ARRAY n field body)" and field: "length field = 8"
    and idx: "length cs = 16 * idx" and left: "left src source s" and room: "length cs + 16 + length body + 16 * (length s + 1) \<le> 2 ^ 32"
  let ?P = "elements_loaded fr src cs n body s (parse_elements dbl s)"
  let ?cs = "cs @ collection SXE_JITSON_TYPE_ARRAY n field body"
  let ?after = "\<lambda>st source. case sxe_jitson_source_get_nonspace source of (c, source) \<Rightarrow>
        if c = 44 then load env (Load_Element idx) st source
        else if c \<noteq> 93 then load_fail idx st source
        else do { st \<leftarrow> close_array idx st; Some (True, st, source) }"
  have after: "runs (?after st2 source1) ?P"
    if v: "parse_value dbl s = Some (v, r)" and left1: "left src source1 r" and bs: "value_tokens v bs"
      "length bs + 16 * length r \<le> 16 * length s" and st2: "on_stack fr st2 (cs @ collection SXE_JITSON_TYPE_ARRAY (Suc n) field (body @ bs))"
    for v r source1 bs st2
  proof -
    from get_nonspace_left [OF left1] strict_reader_facts(2) [OF rd left] obtain source2 where
      get: "sxe_jitson_source_get_nonspace source1 = (hd0 (skip_space r), source2)"
        "hd0 (skip_space r) \<noteq> 0 \<Longrightarrow> left src source2 (tl (skip_space r))"
      by blast
    consider (comma) t where "skip_space r = 44 # t" | (close) t where "skip_space r = 93 # t"
      | (other) "hd0 (skip_space r) \<noteq> 44" "hd0 (skip_space r) \<noteq> 93"
      by (cases "skip_space r") auto
    then show ?thesis
    proof cases
      case comma
      then have t: "length t < length r" "left src source2 t"
        using skip_space_Cons get(2) by simp_all
      moreover have "length r < length s"
        using parse_shorter(1) [OF v] .
      ultimately have "runs (load env (Load_Element idx) st2 source2) (elements_loaded fr src cs (Suc n) (body @ bs) t (parse_elements dbl t))"
        using room bs(2) by (intro elements_okD [OF IH st2 field idx]) simp_all
      then have "runs (load env (Load_Element idx) st2 source2) ?P"
        by (rule runs_mono) (rule elements_loaded_Cons [OF v comma bs])
      then show ?thesis
        using get(1) comma by simp
    next
      case close
      have pe: "parse_elements dbl s = Some ([v], t)"
        by (simp add: parse_elements_eq [of dbl s] v close)
      have "runs (close_array idx st2) (\<lambda>st. ?P (True, st, source2))"
      proof (rule close_array_runs [OF st2 idx field])
        show "?P (True, st', source2)" if "on_stack fr st' (cs @ sized_collection SXE_JITSON_TYPE_ARRAY (Suc n) (body @ bs))" for st'
          unfolding elements_loaded_def pe prod.case option.case
        proof (intro conjI exI)
          show "list_all2 value_tokens [v] [bs]"
            using bs(1) by simp
        qed (use that bs(2) get(2) close skip_space_Cons [OF close] in simp_all)
      qed
      then show ?thesis
        using get(1) close by (simp add: runs_bind_iff)
    next
      case other
      then have "parse_elements dbl s = None"
        by (cases "skip_space r") (auto simp: parse_elements_eq [of dbl s] v)
      then have "runs (load_fail idx st2 source2) ?P"
        by (intro load_fail_runs [OF st2 idx]) (simp add: elements_loaded_def)
      then show ?thesis
        using get(1) other by simp
    qed
  qed
  have step: "runs (do { st \<leftarrow> check_element env idx previous current (s_flags source1) st1;
      ln \<leftarrow> tok_len st idx;
      st \<leftarrow> set_tok_len idx (ln + 1) st;
      ?after st source1 }) ?P"
    if v: "parse_value dbl s = Some (v, r)" and left1: "left src source1 r" and bs: "value_tokens v bs"
      "length bs + 16 * length r \<le> 16 * length s" and st1: "on_stack fr st1 (?cs @ bs)" for v r source1 bs st1 previous current
  proof -
    have st1': "on_stack fr st1 (cs @ collection SXE_JITSON_TYPE_ARRAY n field (body @ bs))"
      using st1 by (simp add: collection_def)
    note ln = tok_len_collection [OF st1' idx]
    have chk: "check_element env idx previous current (s_flags source1) st1 = Some st1"
      using ln strict_reader_facts(3) [OF rd left1] by (simp add: check_element_def)
    show ?thesis
      unfolding chk ln bind.simps runs_bind_iff
      by (rule set_tok_len_collection [OF st1' idx]) (rule after [OF v left1 bs])
  qed
  have "runs (load env Load_Value st source) (value_loaded fr src ?cs s (parse_value dbl s))"
    using room field by (intro value_okD [OF val st left]) (simp add: collection_def)
  then have "runs (load env Load_Value st source) (\<lambda>(ok, st1, source1).
      runs (if \<not> ok then load_fail idx st1 source1
            else do { st \<leftarrow> check_element env idx (s_last st) (count st) (s_flags source1) st1;
                      ln \<leftarrow> tok_len st idx;
                      st \<leftarrow> set_tok_len idx (ln + 1) st;
                      ?after st source1 }) ?P)"
  proof (rule runs_mono)
    fix res
    assume res: "value_loaded fr src ?cs s (parse_value dbl s) res"
    show "case res of (ok, st1, source1) \<Rightarrow> runs (if \<not> ok then load_fail idx st1 source1
            else do { st \<leftarrow> check_element env idx (s_last st) (count st) (s_flags source1) st1;
                      ln \<leftarrow> tok_len st idx;
                      st \<leftarrow> set_tok_len idx (ln + 1) st;
                      ?after st source1 }) ?P"
    proof (cases "parse_value dbl s")
      case None
      then show ?thesis
        using res by (auto simp: value_loaded_def elements_loaded_def parse_elements_eq [of dbl s] intro!: load_fail_runs [OF _ idx])
    next
      case (Some p)
      then show ?thesis
        using res step by (fastforce simp: value_loaded_def)
    qed
  qed
  then show "runs (load env (Load_Element idx) st source) ?P"
    by (subst load.simps) (simp add: runs_bind_iff case_prod_unfold Let_def)
qed

section \<open>Objects\<close>

abbreviation key_type :: u32 where
  "key_type \<equiv> SXE_JITSON_TYPE_STRING OR SXE_JITSON_TYPE_IS_KEY"

definition members_loaded :: "nat \<times> nat \<Rightarrow> sxe_jitson_source \<Rightarrow> bytes \<Rightarrow> nat \<Rightarrow> bytes \<Rightarrow> bytes \<Rightarrow> ((bytes \<times> jvalue) list \<times> bytes) option \<Rightarrow>
    bool \<times> sxe_jitson_stack \<times> sxe_jitson_source \<Rightarrow> bool" where
  "members_loaded fr src cs n body s parsed res =
     (case res of (ok, st, source) \<Rightarrow>
        (case parsed of
           None \<Rightarrow> \<not> ok \<and> on_stack fr st cs
         | Some (ms, r) \<Rightarrow> ok \<and> left src source r \<and>
             (\<exists>kss vss. list_all2 (string_tokens key_type) (map fst ms) kss \<and> list_all2 value_tokens (map snd ms) vss \<and>
                length (concat (map2 (@) kss vss)) + 16 * length r \<le> 16 * length s \<and>
                on_stack fr st (cs @ sized_collection SXE_JITSON_TYPE_OBJECT (n + length ms) (body @ concat (map2 (@) kss vss))))))"

definition members_ok :: "jitson_env \<Rightarrow> (bytes \<Rightarrow> u64) \<Rightarrow> sxe_jitson_source \<Rightarrow> bytes \<Rightarrow> bool" where
  "members_ok env dbl src s \<longleftrightarrow>
     (\<forall>fr st cs n field body idx source. on_stack fr st (cs @ collection SXE_JITSON_TYPE_OBJECT n field body) \<longrightarrow> length field = 8 \<longrightarrow>
        length cs = 16 * idx \<longrightarrow> left src source s \<longrightarrow> skip_space s = s \<longrightarrow> length cs + 16 + length body + 16 * (length s + 1) \<le> 2 ^ 32 \<longrightarrow>
        runs (load env (Load_Member idx (hd0 s)) st source) (members_loaded fr src cs n body s (parse_members dbl s)))"

lemma members_okD:
  "members_ok env dbl src s \<Longrightarrow> on_stack fr st (cs @ collection SXE_JITSON_TYPE_OBJECT n field body) \<Longrightarrow> length field = 8 \<Longrightarrow>
   length cs = 16 * idx \<Longrightarrow> left src source s \<Longrightarrow> skip_space s = s \<Longrightarrow> length cs + 16 + length body + 16 * (length s + 1) \<le> 2 ^ 32 \<Longrightarrow>
   runs (load env (Load_Member idx (hd0 s)) st source) (members_loaded fr src cs n body s (parse_members dbl s))"
  unfolding members_ok_def by blast

lemma skip_space_idem [simp]: "skip_space (skip_space s) = skip_space s"
  by (simp add: skip_space_def dropWhile_idem)

lemma parse_members_skip: "parse_members dbl (skip_space s) = parse_members dbl s"
  by (simp add: parse_members_eq [of dbl s] parse_members_eq [of dbl "skip_space s"])

text \<open>The texts of the first member and what comes after it\<close>

definition first_member :: "(bytes \<Rightarrow> u64) \<Rightarrow> bytes \<Rightarrow> bytes \<Rightarrow> jvalue \<Rightarrow> bytes \<Rightarrow> bool" where
  "first_member dbl s k v r \<longleftrightarrow> (\<exists>r1 r2. quoted_string s = Some (k, r1) \<and> skip_space r1 = 58 # r2 \<and> parse_value dbl r2 = Some (v, r))"

lemma quoted_string_length: "quoted_string s = Some (k, r) \<Longrightarrow> length k + length r + 2 \<le> length s"
  using skip_space_Cons [of s] by (cases "skip_space s") (auto simp: quoted_string_def dest!: string_chars_length split: if_splits)

lemma first_member_shorter: "first_member dbl s k v r \<Longrightarrow> length r < length s"
  unfolding first_member_def using quoted_string_length skip_space_Cons parse_shorter(1) by fastforce

lemma parse_members_first:
  assumes "first_member dbl s k v r"
  shows "parse_members dbl s =
    (case skip_space r of [] \<Rightarrow> None
     | c # t \<Rightarrow> if c = 44 then map_option (\<lambda>(ms, r). ((k, v) # ms, r)) (parse_members dbl t) else if c = 125 then Some ([(k, v)], t) else None)"
proof -
  from assms obtain r1 r2 where r: "quoted_string s = Some (k, r1)" "skip_space r1 = 58 # r2" "parse_value dbl r2 = Some (v, r)"
    unfolding first_member_def by blast
  from r(1) obtain q where "skip_space s = 34 # q" "string_chars q = Some (k, r1)"
    by (auto simp: quoted_string_def split: list.splits if_splits)
  with r(2,3) show ?thesis
    by (simp add: parse_members_eq [of dbl s])
qed

lemma parse_members_None:
  "quoted_string s = None \<Longrightarrow> parse_members dbl s = None"
  "quoted_string s = Some (k, r1) \<Longrightarrow> hd0 (skip_space r1) \<noteq> 58 \<Longrightarrow> parse_members dbl s = None"
  "quoted_string s = Some (k, r1) \<Longrightarrow> skip_space r1 = 58 # r2 \<Longrightarrow> parse_value dbl r2 = None \<Longrightarrow> parse_members dbl s = None"
  by (auto simp: parse_members_eq [of dbl s] quoted_string_def split: list.splits if_splits option.splits)

lemma string_tokens_key:
  assumes "string_tokens t k bs"
  obtains b where "bs = le_bytes 4 t @ b" "\<And>w. string_tokens w k (le_bytes 4 w @ b)"
proof -
  obtain junk where junk: "bs = string_bytes t k (0 # junk)"
    using assms unfolding string_tokens_def by blast
  show thesis
  proof
    show "bs = le_bytes 4 t @ le_bytes 4 (of_nat (length k) :: u32) @ k @ 0 # junk"
      by (simp add: junk string_bytes_def)
    show "string_tokens w k (le_bytes 4 w @ le_bytes 4 (of_nat (length k) :: u32) @ k @ 0 # junk)" for w
      using assms junk by (auto simp: string_tokens_def string_bytes_def)
  qed
qed

lemma members_loaded_Cons:
  assumes "first_member dbl s k v r" and "skip_space r = 44 # t" and kb: "string_tokens key_type k kb" and vb: "value_tokens v vb"
    and len: "length (kb @ vb) + 16 * length r \<le> 16 * length s"
    and loaded: "members_loaded fr src cs (Suc n) (body @ kb @ vb) t (parse_members dbl t) res"
  shows "members_loaded fr src cs n body s (parse_members dbl s) res"
proof (cases "parse_members dbl t")
  case None
  then show ?thesis
    using assms by (simp add: members_loaded_def parse_members_first)
next
  case (Some p)
  obtain ms r' where p: "p = (ms, r')"
    by (cases p)
  obtain ok st source where res: "res = (ok, st, source)"
    by (cases res)
  have ok: "ok" "left src source r'"
    using loaded by (simp_all add: members_loaded_def Some p res)
  obtain kss vss where kv: "list_all2 (string_tokens key_type) (map fst ms) kss" "list_all2 value_tokens (map snd ms) vss"
      "length (concat (map2 (@) kss vss)) + 16 * length r' \<le> 16 * length t"
      "on_stack fr st (cs @ sized_collection SXE_JITSON_TYPE_OBJECT (Suc n + length ms) ((body @ kb @ vb) @ concat (map2 (@) kss vss)))"
    using loaded unfolding members_loaded_def Some p res prod.case option.case by blast
  have pm: "parse_members dbl s = Some ((k, v) # ms, r')"
    by (simp add: parse_members_first [OF assms(1)] assms(2) Some p)
  show ?thesis
    unfolding members_loaded_def pm res prod.case option.case
  proof (intro conjI exI)
    show "list_all2 (string_tokens key_type) (map fst ((k, v) # ms)) (kb # kss)" "list_all2 value_tokens (map snd ((k, v) # ms)) (vb # vss)"
      using kv(1,2) kb vb by simp_all
  qed (use ok kv(3,4) len skip_space_Cons [OF assms(2)] in simp_all)
qed

definition next_member :: "jitson_env \<Rightarrow> nat \<Rightarrow> sxe_jitson_stack \<Rightarrow> sxe_jitson_source \<Rightarrow> (bool \<times> sxe_jitson_stack \<times> sxe_jitson_source) option" where
  "next_member env idx st source =
     (case sxe_jitson_source_get_nonspace source of (c, source) \<Rightarrow>
        if c = 44
        then (case sxe_jitson_source_peek_nonspace source of (c, source) \<Rightarrow>
                if c \<noteq> 0 then load env (Load_Member idx c) st source else load_fail idx st source)
        else if c = 125
        then do { st \<leftarrow> set_integer idx (of_nat (count st - idx)) st; Some (True, st, source) }
        else load_fail idx st source)"

text \<open>The end of a member: a comma and the next one, or the end of the object\<close>

lemma member_after:
  assumes rd: "strict_reader env dbl src" and IH: "\<And>s'. length s' < length s \<Longrightarrow> members_ok env dbl src s'"
    and first: "first_member dbl s k v r" and left: "left src source r"
    and st: "on_stack fr st (cs @ collection SXE_JITSON_TYPE_OBJECT (Suc n) field (body @ kb @ vb))" and field: "length field = 8"
    and idx: "length cs = 16 * idx" and room: "length cs + 16 + length body + 16 * (length s + 1) \<le> 2 ^ 32"
    and kb: "string_tokens key_type k kb" and vb: "value_tokens v vb" and len: "length (kb @ vb) + 16 * length r \<le> 16 * length s"
  shows "runs (next_member env idx st source) (members_loaded fr src cs n body s (parse_members dbl s))"
    (is "runs ?go ?P")
proof -
  note whole = strict_reader_facts(2) [OF rd left]
  note pm = parse_members_first [OF first]
  from get_nonspace_left [OF left whole] obtain source2 where
    get: "sxe_jitson_source_get_nonspace source = (hd0 (skip_space r), source2)"
      "hd0 (skip_space r) \<noteq> 0 \<Longrightarrow> left src source2 (tl (skip_space r))"
    by blast
  have fail: "runs (load_fail idx st source') ?P" if "parse_members dbl s = None" for source'
    using that by (intro load_fail_runs [OF st idx]) (simp add: members_loaded_def)
  consider (comma) t where "skip_space r = 44 # t" | (close) t where "skip_space r = 125 # t"
    | (other) "hd0 (skip_space r) \<noteq> 44" "hd0 (skip_space r) \<noteq> 125"
    by (cases "skip_space r") auto
  then show ?thesis
  proof cases
    case comma
    then have t: "length t < length r" "left src source2 t"
      using skip_space_Cons get(2) by simp_all
    from peek_nonspace_left [OF t(2)] obtain source3 where
      peek: "sxe_jitson_source_peek_nonspace source2 = (hd0 (skip_space t), source3)" "left src source3 (skip_space t)"
      by blast
    have shorter: "length (skip_space t) < length s"
      using t(1) length_skip_space [of t] first_member_shorter [OF first] by simp
    have go: "?go = (if hd0 (skip_space t) \<noteq> 0 then load env (Load_Member idx (hd0 (skip_space t))) st source3 else load_fail idx st source3)"
      using get(1) comma peek(1) by (simp add: next_member_def)
    show ?thesis
    proof (cases "hd0 (skip_space t) = 0")
      case True
      then have "quoted_string t = None"
        by (cases "skip_space t") (auto simp: quoted_string_def)
      then have "parse_members dbl s = None"
        using comma by (simp add: pm parse_members_None(1))
      then show ?thesis
        using fail go True by simp
    next
      case False
      have "runs (load env (Load_Member idx (hd0 (skip_space t))) st source3)
          (members_loaded fr src cs (Suc n) (body @ kb @ vb) (skip_space t) (parse_members dbl (skip_space t)))"
        using room len t(1) length_skip_space [of t] by (intro members_okD [OF IH [OF shorter] st field idx peek(2)]) simp_all
      then have "runs (load env (Load_Member idx (hd0 (skip_space t))) st source3) ?P"
      proof (rule runs_mono)
        fix res
        assume "members_loaded fr src cs (Suc n) (body @ kb @ vb) (skip_space t) (parse_members dbl (skip_space t)) res"
        then have "members_loaded fr src cs (Suc n) (body @ kb @ vb) t (parse_members dbl t) res"
          using length_skip_space [of t] unfolding parse_members_skip members_loaded_def
          by (auto split: option.splits) (meson le_trans mult_le_mono2)
        then show "?P res"
          by (rule members_loaded_Cons [OF first comma kb vb len])
      qed
      then show ?thesis
        using go False by simp
    qed
  next
    case close
    have pmc: "parse_members dbl s = Some ([(k, v)], t)"
      by (simp add: pm close)
    have "runs (set_integer idx (of_nat (count st - idx)) st) (\<lambda>st. ?P (True, st, source2))"
    proof (rule set_integer_collection [OF st idx field])
      show "?P (True, st', source2)" if "on_stack fr st' (cs @ sized_collection SXE_JITSON_TYPE_OBJECT (Suc n) (body @ kb @ vb))" for st'
        unfolding members_loaded_def pmc prod.case option.case
      proof (intro conjI exI)
        show "list_all2 (string_tokens key_type) (map fst [(k, v)]) [kb]" "list_all2 value_tokens (map snd [(k, v)]) [vb]"
          using kb vb by simp_all
      qed (use that len get(2) close skip_space_Cons [OF close] in simp_all)
    qed
    then show ?thesis
      using get(1) close by (simp add: next_member_def runs_bind_iff)
  next
    case other
    then have "parse_members dbl s = None"
      by (cases "skip_space r") (auto simp: pm)
    then show ?thesis
      using fail get(1) other by (simp add: next_member_def)
  qed
qed

text \<open>The value of a member, and the marking of its name as a key\<close>

lemma member_value:
  assumes rd: "strict_reader env dbl src" and val: "\<And>s'. length s' < length s \<Longrightarrow> value_ok env dbl src s'"
    and IH: "\<And>s'. length s' < length s \<Longrightarrow> members_ok env dbl src s'"
    and name: "quoted_string s = Some (k, r1)" and colon: "skip_space r1 = 58 # r2" and left: "left src source r2"
    and old: "on_stack fr st0 (cs @ collection SXE_JITSON_TYPE_OBJECT n field body)"
    and st: "on_stack fr st ((cs @ collection SXE_JITSON_TYPE_OBJECT n field body) @ kb)" and field: "length field = 8"
    and idx: "length cs = 16 * idx" and room: "length cs + 16 + length body + 16 * (length s + 1) \<le> 2 ^ 32"
    and kb: "string_tokens SXE_JITSON_TYPE_STRING k kb"
  shows "runs (do { (ok, st, source) \<leftarrow> load env Load_Value st source;
      if \<not> ok then load_fail idx st source
      else do { ln \<leftarrow> tok_len st idx;
                st \<leftarrow> set_tok_len idx (ln + 1) st;
                t \<leftarrow> tok_type st (count st0);
                st \<leftarrow> set_type (count st0) (t OR SXE_JITSON_TYPE_IS_KEY) st;
                next_member env idx st source } }) (members_loaded fr src cs n body s (parse_members dbl s))"
    (is "runs (do { (ok, st, source) \<leftarrow> _; if \<not> ok then _ idx st source else ?rest st source }) ?P")
proof -
  let ?cs = "cs @ collection SXE_JITSON_TYPE_OBJECT n field body"
  have kb_len: "length kb \<le> 16 * (length k + 2)"
    using kb unfolding string_tokens_def by auto
  have shorter: "length k + length r2 + 3 \<le> length s"
    using quoted_string_length [OF name] skip_space_Cons [OF colon] by simp
  have "runs (load env Load_Value st source) (value_loaded fr src (?cs @ kb) r2 (parse_value dbl r2))"
    by (rule value_okD [OF val st left]) (use shorter kb_len room field in \<open>simp_all add: collection_def\<close>)
  then have "runs (load env Load_Value st source) (\<lambda>(ok, st, source). runs (if \<not> ok then load_fail idx st source else ?rest st source) ?P)"
  proof (rule runs_mono)
    fix res
    assume "value_loaded fr src (?cs @ kb) r2 (parse_value dbl r2) res"
    moreover obtain ok st1 source1 where res: "res = (ok, st1, source1)"
      by (cases res)
    ultimately have loaded: "value_loaded fr src (?cs @ kb) r2 (parse_value dbl r2) (ok, st1, source1)"
      by simp
    have "runs (if \<not> ok then load_fail idx st1 source1 else ?rest st1 source1) ?P"
    proof (cases "parse_value dbl r2")
      case None
      have "runs (load_fail idx st1 source1) ?P"
        by (rule load_fail_runs [of fr st1 cs "collection SXE_JITSON_TYPE_OBJECT n field body @ kb", OF _ idx])
          (use loaded in \<open>simp_all add: None value_loaded_def members_loaded_def parse_members_None(3) [OF name colon None]\<close>)
      then show ?thesis
        using loaded by (simp add: None value_loaded_def)
    next
      case (Some p)
      obtain v r where p: "p = (v, r)"
        by (cases p)
      obtain vb where vb: "ok" "left src source1 r" "value_tokens v vb" "on_stack fr st1 (?cs @ kb @ vb)"
          "length vb + 16 * length r \<le> 16 * length r2"
        using loaded by (auto simp: value_loaded_def Some p)
      have first: "first_member dbl s k v r"
        unfolding first_member_def using name colon Some p by blast
      have st1: "on_stack fr st1 (cs @ collection SXE_JITSON_TYPE_OBJECT n field (body @ kb @ vb))"
        using vb(4) by (simp add: collection_def)
      from kb obtain b where b: "kb = le_bytes 4 SXE_JITSON_TYPE_STRING @ b" "string_tokens key_type k (le_bytes 4 key_type @ b)"
        by (rule string_tokens_key) blast
      have prev: "length (cs @ collection SXE_JITSON_TYPE_OBJECT (Suc n) field body) = 16 * count st0"
        using on_stack_length [OF old] by (simp add: collection_def)
      have key: "tok_type st2 (count st0) = Some SXE_JITSON_TYPE_STRING \<and> runs (set_type (count st0) key_type st2) (\<lambda>st.
          runs (next_member env idx st source1) ?P)" (is "_ \<and> runs _ ?Q")
        if "on_stack fr st2 (cs @ collection SXE_JITSON_TYPE_OBJECT (Suc n) field (body @ kb @ vb))" for st2
      proof -
        have st2: "on_stack fr st2 ((cs @ collection SXE_JITSON_TYPE_OBJECT (Suc n) field body) @ le_bytes 4 SXE_JITSON_TYPE_STRING @ b @ vb)"
          using that by (simp add: b(1) collection_def)
        have "runs (set_type (count st0) key_type st2) ?Q"
        proof (rule set_type_at [OF st2 prev])
          fix st3
          assume "on_stack fr st3 ((cs @ collection SXE_JITSON_TYPE_OBJECT (Suc n) field body) @ le_bytes 4 key_type @ b @ vb)"
          then have st3: "on_stack fr st3 (cs @ collection SXE_JITSON_TYPE_OBJECT (Suc n) field (body @ (le_bytes 4 key_type @ b) @ vb))"
            by (simp add: collection_def)
          show "?Q st3"
            by (rule member_after [OF rd IH first vb(2) st3 field idx room b(2) vb(3)])
              (use vb(5) kb_len b(1) shorter in simp_all)
        qed simp
        then show ?thesis
          using tok_type_at [OF st2 prev] by blast
      qed
      have "runs (set_tok_len idx (of_nat n + 1) st1) (\<lambda>st2. tok_type st2 (count st0) = Some SXE_JITSON_TYPE_STRING \<and> runs (set_type (count st0) key_type st2) (\<lambda>st.
          runs (next_member env idx st source1) ?P))"
        by (rule set_tok_len_collection [OF st1 idx key])
      then have "runs (?rest st1 source1) ?P"
        unfolding tok_len_collection [OF st1 idx] bind.simps runs_bind_iff by (rule runs_mono) (simp add: runs_bind_iff)
      then show ?thesis
        using vb(1) by simp
    qed
    then show "case res of (ok, st, source) \<Rightarrow> runs (if \<not> ok then load_fail idx st source else ?rest st source) ?P"
      unfolding res by simp
  qed
  then show ?thesis
    by (simp add: runs_bind_iff case_prod_unfold)
qed

lemma members_step:
  assumes rd: "strict_reader env dbl src" and val: "\<And>s'. length s' < length s \<Longrightarrow> value_ok env dbl src s'"
    and IH: "\<And>s'. length s' < length s \<Longrightarrow> members_ok env dbl src s'"
  shows "members_ok env dbl src s"
  unfolding members_ok_def
proof (intro allI impI)
  fix fr st cs n field body idx source
  assume st: "on_stack fr st (cs @ collection SXE_JITSON_TYPE_OBJECT n field body)" and field: "length field = 8"
    and idx: "length cs = 16 * idx" and left: "left src source s" and skip: "skip_space s = s" and room: "length cs + 16 + length body + 16 * (length s + 1) \<le> 2 ^ 32"
  let ?P = "members_loaded fr src cs n body s (parse_members dbl s)"
  let ?cs = "cs @ collection SXE_JITSON_TYPE_OBJECT n field body"
  note whole = strict_reader_facts(2) [OF rd left]
  have fail: "runs (load_fail idx st' source') ?P" if "parse_members dbl s = None" "on_stack fr st' (?cs @ b)" for st' b source'
    using that by (intro load_fail_runs [of fr st' cs "collection SXE_JITSON_TYPE_OBJECT n field body @ b", OF _ idx])
      (simp_all add: members_loaded_def)
    let ?load_value = "\<lambda>previous st source. do { (ok, st, source) \<leftarrow> load env Load_Value st source;
      if \<not> ok then load_fail idx st source
      else do { ln \<leftarrow> tok_len st idx;
                st \<leftarrow> set_tok_len idx (ln + 1) st;
                t \<leftarrow> tok_type st previous;
                st \<leftarrow> set_type previous (t OR SXE_JITSON_TYPE_IS_KEY) st;
                next_member env idx st source } }"
  have member: "runs (?load_value (count st) st1 source1) ?P"
    if "quoted_string s = Some (k, r1)" "skip_space r1 = 58 # r2" "left src source1 r2" "string_tokens SXE_JITSON_TYPE_STRING k kb"
      "on_stack fr st1 (?cs @ kb)" for k r1 r2 source1 kb st1
    by (rule member_value [OF rd val IH that(1-3) st that(5) field idx room that(4)])
  have "runs (sxe_jitson_stack_load_string (env_alloc env) st source) (string_loaded fr src ?cs [] (quoted_string s))"
    by (rule load_string_runs [OF st left whole]) (use room rd field in \<open>simp_all add: strict_reader_def collection_def\<close>)
  then have "runs (sxe_jitson_stack_load_string (env_alloc env) st source) (\<lambda>(ok, st', source).
      runs (if \<not> ok then load_fail idx st' source
            else case sxe_jitson_source_get_nonspace source of (c, source) \<Rightarrow>
              if c \<noteq> 58 then load_fail idx st' source else ?load_value (count st) st' source) ?P)"
  proof (rule runs_mono)
    fix res
    assume "string_loaded fr src ?cs [] (quoted_string s) res"
    moreover obtain ok st' source1 where res: "res = (ok, st', source1)"
      by (cases res)
    ultimately have loaded: "string_loaded fr src ?cs [] (quoted_string s) (ok, st', source1)"
      by simp
    have "runs (if \<not> ok then load_fail idx st' source1
            else case sxe_jitson_source_get_nonspace source1 of (c, source) \<Rightarrow>
              if c \<noteq> 58 then load_fail idx st' source else ?load_value (count st) st' source) ?P"
    proof (cases "quoted_string s")
      case None
      then show ?thesis
        using loaded fail [OF parse_members_None(1) [OF None], of st' "[]"] by (simp add: string_loaded_def)
    next
      case (Some p)
      obtain k r1 where p: "p = (k, r1)"
        by (cases p)
      obtain kb where kb: "ok" "left src source1 r1" "string_tokens SXE_JITSON_TYPE_STRING k kb" "on_stack fr st' (?cs @ kb)"
        using loaded by (auto simp: string_loaded_def Some p)
      from get_nonspace_left [OF kb(2) whole] obtain source2 where
        get: "sxe_jitson_source_get_nonspace source1 = (hd0 (skip_space r1), source2)"
          "hd0 (skip_space r1) \<noteq> 0 \<Longrightarrow> left src source2 (tl (skip_space r1))"
        by blast
      show ?thesis
      proof (cases "hd0 (skip_space r1) = 58")
        case True
        then obtain r2 where r2: "skip_space r1 = 58 # r2"
          by (cases "skip_space r1") auto
        have "runs (?load_value (count st) st' source2) ?P"
          by (rule member [OF Some [unfolded p] r2 _ kb(3,4)]) (use get(2) r2 in simp)
        then show ?thesis
          using kb(1) get(1) True by simp
      next
        case False
        then show ?thesis
          using kb(1) get(1) fail [OF parse_members_None(2) [OF Some [unfolded p] False] kb(4)] by simp
      qed
    qed
    then show "case res of (ok, st', source) \<Rightarrow>
      runs (if \<not> ok then load_fail idx st' source
            else case sxe_jitson_source_get_nonspace source of (c, source) \<Rightarrow>
              if c \<noteq> 58 then load_fail idx st' source else ?load_value (count st) st' source) ?P"
      unfolding res by simp
  qed
  moreover have "runs (load_fail idx st source) ?P" if "hd0 s \<noteq> 34"
  proof -
    have "quoted_string s = None"
      using that skip by (cases s) (auto simp: quoted_string_def)
    then show ?thesis
      using fail [OF parse_members_None(1), of st "[]"] st by simp
  qed
  ultimately show "runs (load env (Load_Member idx (hd0 s)) st source) ?P"
    unfolding next_member_def by (subst load.simps) (simp add: runs_bind_iff case_prod_unfold Let_def)
qed


section \<open>Values\<close>

text \<open>A value starts with a new token.\<close>

lemma new_token_runs:
  assumes st: "on_stack fr st cs" and alloc: "ample alloc" and room: "length cs + 16 \<le> 2 ^ 32"
    and P: "\<And>st' junk. on_stack fr st' (cs @ junk) \<Longrightarrow> length junk = 16 \<Longrightarrow> runs (f (length cs div 16) st') P"
  shows "runs (do { (new, st) \<leftarrow> sxe_jitson_stack_expand alloc 1 st;
      case new of None \<Rightarrow> Some (False, st, source) | Some idx \<Rightarrow> f idx st }) P"
  unfolding runs_bind_iff by (rule expand_runs [OF st alloc]) (use room P in auto)

lemma collection_start:
  assumes st: "on_stack fr st (cs @ junk)" and len: "length cs = 16 * idx" "length junk = 16"
    and P: "\<And>st' field. on_stack fr st' (cs @ collection t 0 field []) \<Longrightarrow> length field = 8 \<Longrightarrow> runs (f st') P"
  shows "runs (do { st \<leftarrow> set_type idx t st; st \<leftarrow> set_tok_len idx 0 st; f st }) P"
proof -
  obtain a b c where junk: "junk = a @ b @ c" "length a = 4" "length b = 4" "length c = 8"
    using len(2) by (rule split_token)
  show ?thesis
    unfolding runs_bind_iff
  proof (rule set_type_at [of fr st cs a "b @ c", OF _ len(1) junk(2)])
    fix st1
    assume "on_stack fr st1 (cs @ le_bytes 4 t @ b @ c)"
    then show "runs (set_tok_len idx 0 st1) (\<lambda>st. runs (f st) P)"
      by (rule set_tok_len_at [OF _ len(1)]) (use junk P in \<open>auto simp: collection_def\<close>)
  qed (use st junk in simp)
qed

lemma empty_collection_runs:
  assumes st: "on_stack fr st (cs @ collection t 0 field [])" and "length field = 8" and "length cs = 16 * idx"
    and "value_tokens v (sized_collection t 0 [])" and "left src source r" and "length r + 1 \<le> length s"
  shows "runs (set_integer idx 1 st) (\<lambda>st. value_loaded fr src cs s (Some (v, r)) (True, st, source))"
proof -
  have "runs (set_integer idx (of_nat (count st - idx)) st) (\<lambda>st. value_loaded fr src cs s (Some (v, r)) (True, st, source))"
    by (rule set_integer_collection [OF st assms(3,2)])
      (use assms in \<open>auto simp: value_loaded_def sized_collection_def collection_def intro!: exI [of _ "sized_collection t 0 []"]\<close>)
  then show ?thesis
    using collection_size [OF st assms(3,2)] by simp
qed

lemma tokens_array_sized:
  "list_all2 value_tokens vs bss \<Longrightarrow> value_tokens (JArray vs) (sized_collection SXE_JITSON_TYPE_ARRAY (length vs) (concat bss))"
  unfolding sized_collection_def collection_def by (rule tokens_array)

lemma tokens_object_sized:
  "list_all2 (string_tokens key_type) (map fst ms) kss \<Longrightarrow> list_all2 value_tokens (map snd ms) vss \<Longrightarrow>
   value_tokens (JObject ms) (sized_collection SXE_JITSON_TYPE_OBJECT (length ms) (concat (map2 (@) kss vss)))"
  unfolding sized_collection_def collection_def by (rule tokens_object)

lemma literal_symbol:
  "json_literal name = Some v \<Longrightarrow> \<exists>t bs. builtin_symbols name = Some (Const_Value bs) \<and> value_tokens v bs \<and> plain_token t bs"
  "json_literal name = None \<Longrightarrow> builtin_symbols name = None"
  using plain_token_bool plain_token_null tokens_bool tokens_null
  by (auto simp: json_literal_def builtin_symbols_def split: if_splits)

lemma literal_class:
  assumes "json_literal (takeWhile P (c # t)) = Some v"
  shows "jitson_class ! unat c = ALP"
proof (rule class_of(5))
  show "c = 116 \<or> c = 102 \<or> c = 110"
    using assms by (cases "P c") (auto simp: json_literal_def ascii_def split: if_splits)
qed

lemma value_loaded_None: "on_stack fr st cs \<Longrightarrow> value_loaded fr src cs s None (False, st, source)"
  by (simp add: value_loaded_def)

lemma value_loaded_mono: "length s' \<le> length s \<Longrightarrow> value_loaded fr src cs s' parsed res \<Longrightarrow> value_loaded fr src cs s parsed res"
  by (auto simp: value_loaded_def split: option.splits) (meson le_trans mult_le_mono2)

lemma parse_elements_skip: "parse_elements dbl (skip_space s) = parse_elements dbl s"
  by (simp add: parse_elements_eq [of dbl s] parse_elements_eq [of dbl "skip_space s"] parse_value.simps [of dbl s]
      parse_value.simps [of dbl "skip_space s"])

lemma value_loaded_elements:
  assumes "elements_loaded fr src cs 0 [] t parsed res" and "length t < length s"
  shows "value_loaded fr src cs s (map_option (\<lambda>(vs, r). (JArray vs, r)) parsed) res"
proof (cases parsed)
  case (Some p)
  obtain vs r where p: "p = (vs, r)"
    by (cases p)
  obtain bss where bss: "list_all2 value_tokens vs bss" "length (concat bss) + 16 * length r \<le> 16 * length t"
      "on_stack fr (fst (snd res)) (cs @ sized_collection SXE_JITSON_TYPE_ARRAY (length vs) (concat bss))" "fst res" "left src (snd (snd res)) r"
    using assms(1) by (cases res) (auto simp: elements_loaded_def Some p)
  moreover have "length (sized_collection SXE_JITSON_TYPE_ARRAY (length vs) (concat bss)) = 16 + length (concat bss)"
    by (simp add: sized_collection_def collection_def)
  ultimately show ?thesis
    using assms(2) tokens_array_sized [OF bss(1)]
    by (cases res) (auto simp: value_loaded_def Some p intro!: exI [of _ "sized_collection SXE_JITSON_TYPE_ARRAY (length vs) (concat bss)"])
qed (use assms in \<open>cases res, simp add: elements_loaded_def value_loaded_def\<close>)

lemma value_loaded_members:
  assumes "members_loaded fr src cs 0 [] t parsed res" and "length t < length s"
  shows "value_loaded fr src cs s (map_option (\<lambda>(ms, r). (JObject ms, r)) parsed) res"
proof (cases parsed)
  case (Some p)
  obtain ms r where p: "p = (ms, r)"
    by (cases p)
  obtain kss vss where kv: "list_all2 (string_tokens key_type) (map fst ms) kss" "list_all2 value_tokens (map snd ms) vss"
      "length (concat (map2 (@) kss vss)) + 16 * length r \<le> 16 * length t"
      "on_stack fr (fst (snd res)) (cs @ sized_collection SXE_JITSON_TYPE_OBJECT (length ms) (concat (map2 (@) kss vss)))"
      "fst res" "left src (snd (snd res)) r"
    using assms(1) by (cases res) (auto simp: members_loaded_def Some p)
  moreover have "length (sized_collection SXE_JITSON_TYPE_OBJECT (length ms) (concat (map2 (@) kss vss))) = 16 + length (concat (map2 (@) kss vss))"
    by (simp add: sized_collection_def collection_def)
  ultimately show ?thesis
    using assms(2) tokens_object_sized [OF kv(1,2)]
    by (cases res) (auto simp: value_loaded_def Some p intro!: exI [of _ "sized_collection SXE_JITSON_TYPE_OBJECT (length ms) (concat (map2 (@) kss vss))"])
qed (use assms in \<open>cases res, simp add: members_loaded_def value_loaded_def\<close>)

lemma value_loaded_string:
  assumes "string_loaded fr src cs [] (string_chars t) res" and "length t < length s"
  shows "value_loaded fr src cs s (map_option (\<lambda>(u, r). (JString u, r)) (string_chars t)) res"
proof (cases "string_chars t")
  case (Some p)
  obtain u r where p: "p = (u, r)"
    by (cases p)
  obtain bs where bs: "string_tokens SXE_JITSON_TYPE_STRING u bs" "on_stack fr (fst (snd res)) (cs @ bs)" "fst res" "left src (snd (snd res)) r"
    using assms(1) by (cases res) (auto simp: string_loaded_def Some p)
  have "length bs + 16 * length r \<le> 16 * length s"
    using bs(1) string_chars_length [OF Some [unfolded p]] assms(2) by (simp add: string_tokens_def)
  then show ?thesis
    using bs tokens_string [OF bs(1)] by (cases res) (auto simp: value_loaded_def Some p)
qed (use assms in \<open>cases res, simp add: string_loaded_def value_loaded_def\<close>)

lemma value_step:
  assumes rd: "strict_reader env dbl src" and elems: "\<And>s'. length s' < length s \<Longrightarrow> elements_ok env dbl src s'"
    and mems: "\<And>s'. length s' < length s \<Longrightarrow> members_ok env dbl src s'"
  shows "value_ok env dbl src s"
  unfolding value_ok_def
proof (intro allI impI)
  fix fr st cs source
  assume st: "on_stack fr st cs" and left: "left src source s" and room: "length cs + 16 * (length s + 1) \<le> 2 ^ 32"
  let ?P = "value_loaded fr src cs s (parse_value dbl s)"
  let ?idx = "length cs div 16"
  have idx: "length cs = 16 * ?idx"
    using on_stack_length [OF st] by simp
  from peek_nonspace_left [OF left] obtain source1 where
    peek: "sxe_jitson_source_peek_nonspace source = (hd0 (skip_space s), source1)" "left src source1 (skip_space s)"
    by blast
  note facts = strict_reader_facts [OF rd peek(2)]
  show "runs (load env Load_Value st source) ?P"
  proof (cases "hd0 (skip_space s) = 0")
    case True
    then have "parse_value dbl s = None"
      by (cases "skip_space s") (auto simp: parse_value.simps [of dbl s])
    then show ?thesis
      using True peek(1) st by (subst load.simps) (simp add: value_loaded_None)
  next
    case False
    then obtain c t where ct: "skip_space s = c # t" "c \<noteq> 0"
      by (cases "skip_space s") auto
    note pv = parse_value_Cons [OF ct(1), of dbl]
    have left1: "left src source1 (c # t)" and shorter: "length t < length s"
      using peek(2) ct(1) skip_space_Cons by simp_all
    have start: "runs (load env Load_Value st source) ?P"
      if eq: "load env Load_Value st source = do { (new, st) \<leftarrow> sxe_jitson_stack_expand (env_alloc env) 1 st;
          case new of None \<Rightarrow> Some (False, st, source1) | Some idx \<Rightarrow> f idx (st\<lparr>s_last := idx\<rparr>) }"
        and go: "\<And>st' junk. on_stack fr st' (cs @ junk) \<Longrightarrow> length junk = 16 \<Longrightarrow> runs (f ?idx st') ?P" for f
      unfolding eq by (rule new_token_runs [OF st facts(1)]) (use room in simp, rule go, simp_all)
    let ?members = "\<lambda>idx st. case sxe_jitson_source_peek_nonspace (sxe_jitson_source_consume 1 source1) of (c, source) \<Rightarrow>
        if c = 125 then do { st \<leftarrow> set_integer idx 1 st; Some (True, st, sxe_jitson_source_consume 1 source) }
        else load env (Load_Member idx c) st source"
    have consumed: "left src (sxe_jitson_source_consume 1 source1) t"
      using left_moved [of src source1 "[c]" t] left1 by simp
    from peek_nonspace_left [OF consumed] obtain source2 where
      peek2: "sxe_jitson_source_peek_nonspace (sxe_jitson_source_consume 1 source1) = (hd0 (skip_space t), source2)" "left src source2 (skip_space t)"
      by blast
    have consumed2: "left src (sxe_jitson_source_consume 1 source2) (tl (skip_space t))" if "hd0 (skip_space t) \<noteq> 0"
      using left_moved [of src source2 "[hd0 (skip_space t)]" "tl (skip_space t)"] peek2(2) that by (cases "skip_space t") auto
    have object_body: "runs (?members ?idx st') ?P"
      if "c = 123" and st': "on_stack fr st' (cs @ collection SXE_JITSON_TYPE_OBJECT 0 field [])" "length field = 8" for st' field
    proof (cases "hd0 (skip_space t) = 125")
      case True
      have "value_tokens (JObject []) (sized_collection SXE_JITSON_TYPE_OBJECT 0 [])"
        using tokens_object_sized [of "[]" "[]" "[]"] by simp
      from empty_collection_runs [OF st' idx this consumed2, of s] show ?thesis
        using True peek2(1) that(1) tl_skip_space [OF True] shorter by (simp add: pv runs_bind_iff)
    next
      case False
      have "runs (load env (Load_Member ?idx (hd0 (skip_space t))) st' source2) (members_loaded fr src cs 0 [] (skip_space t) (parse_members dbl (skip_space t)))"
        using room shorter length_skip_space [of t] by (intro members_okD [OF mems st' idx peek2(2)]) simp_all
      then have "runs (load env (Load_Member ?idx (hd0 (skip_space t))) st' source2) ?P"
        using False that(1) shorter length_skip_space [of t]
        by (elim runs_mono) (simp add: pv parse_members_skip value_loaded_members)
      then show ?thesis
        using False peek2(1) by simp
    qed
    let ?elements = "\<lambda>idx st. case sxe_jitson_source_peek_nonspace (sxe_jitson_source_consume 1 source1) of (c, source) \<Rightarrow>
        if c = 93 then do { st \<leftarrow> set_type idx SXE_JITSON_TYPE_ARRAY st; st \<leftarrow> set_integer idx 1 st; Some (True, st, sxe_jitson_source_consume 1 source) }
        else load env (Load_Element idx) st source"
    have array_body: "runs (?elements ?idx st') ?P"
      if "c = 91" and st': "on_stack fr st' (cs @ collection SXE_JITSON_TYPE_ARRAY 0 field [])" "length field = 8" for st' field
    proof (cases "hd0 (skip_space t) = 93")
      case True
      have "value_tokens (JArray []) (sized_collection SXE_JITSON_TYPE_ARRAY 0 [])"
        using tokens_array_sized [of "[]" "[]"] by simp
      note fin = empty_collection_runs [OF _ st'(2) idx this consumed2, of fr _ s]
      have "runs (set_type ?idx SXE_JITSON_TYPE_ARRAY st') (\<lambda>st. runs (set_integer ?idx 1 st)
          (\<lambda>st. value_loaded fr src cs s (Some (JArray [], tl (skip_space t))) (True, st, sxe_jitson_source_consume 1 source2)))"
        by (rule set_type_collection [OF st'(1) idx], rule fin) (use True tl_skip_space [OF True] shorter in simp_all)
      then show ?thesis
        using True peek2(1) that(1) by (simp add: pv runs_bind_iff)
    next
      case False
      have "runs (load env (Load_Element ?idx) st' source2) (elements_loaded fr src cs 0 [] (skip_space t) (parse_elements dbl (skip_space t)))"
        using room shorter length_skip_space [of t] by (intro elements_okD [OF elems st' idx peek2(2)]) simp_all
      then have "runs (load env (Load_Element ?idx) st' source2) ?P"
        using False that(1) shorter length_skip_space [of t]
        by (elim runs_mono) (simp add: pv parse_elements_skip value_loaded_elements)
      then show ?thesis
        using False peek2(1) by simp
    qed
    consider (string) "c = 34" | (object) "c = 123" | (array) "c = 91" | (number) "c = 45 \<or> isdigit c"
      | (literal) "c \<noteq> 34" "c \<noteq> 123" "c \<noteq> 91" "c \<noteq> 45" "\<not> isdigit c"
      by blast
    then show ?thesis
    proof cases
      case string
      then have cls: "jitson_class ! unat c = 34"
        by (rule class_of(1) [THEN iffD2])
      have q: "quoted_string (skip_space s) = string_chars t"
        unfolding quoted_string_def skip_space_idem using ct(1) string by simp
      have load: "runs (sxe_jitson_stack_load_string (env_alloc env) (st'\<lparr>count := count st' - 1\<rparr>) source1) ?P"
        if st': "on_stack fr st' (cs @ junk)" "length junk = 16" for st' junk
      proof -
        have "count st' - 1 = ?idx"
          using on_stack_length [OF st'(1)] st'(2) by simp
        then have "on_stack fr (st'\<lparr>count := count st' - 1\<rparr>) cs"
          using on_stack_truncate [OF st'(1) idx] by simp
        then have "runs (sxe_jitson_stack_load_string (env_alloc env) (st'\<lparr>count := count st' - 1\<rparr>) source1)
            (string_loaded fr src cs [] (quoted_string (skip_space s)))"
          by (rule load_string_runs [OF _ peek(2) facts(2,1)]) (use room length_skip_space [of s] in simp)
        then show ?thesis
          using string shorter unfolding q by (elim runs_mono) (simp add: pv value_loaded_string)
      qed
      show ?thesis
        by (rule start [of "\<lambda>idx st. sxe_jitson_stack_load_string (env_alloc env) (st\<lparr>count := count st - 1\<rparr>) source1", OF _ load])
          (use peek(1) ct cls in \<open>subst load.simps, simp add: Let_def cong: option.case_cong\<close>)
    next
      case object
      then have cls: "jitson_class ! unat c = 123"
        by (rule class_of(2) [THEN iffD2])
      have load: "runs (do { st \<leftarrow> set_type ?idx SXE_JITSON_TYPE_OBJECT st'; st \<leftarrow> set_tok_len ?idx 0 st; ?members ?idx st }) ?P"
        if st': "on_stack fr st' (cs @ junk)" "length junk = 16" for st' junk
        by (rule collection_start [OF st'(1) idx st'(2)]) (rule object_body [OF object])
      show ?thesis
        by (rule start [of "\<lambda>idx st. do { st \<leftarrow> set_type idx SXE_JITSON_TYPE_OBJECT st; st \<leftarrow> set_tok_len idx 0 st; ?members idx st }", OF _ load])
          (use peek(1) ct cls in \<open>subst load.simps, simp add: Let_def cong: option.case_cong\<close>)
    next
      case array
      then have cls: "jitson_class ! unat c = 91"
        by (rule class_of(3) [THEN iffD2])
      have load: "runs (do { st \<leftarrow> set_type ?idx SXE_JITSON_TYPE_ARRAY st'; st \<leftarrow> set_tok_len ?idx 0 st; ?elements ?idx st }) ?P"
        if st': "on_stack fr st' (cs @ junk)" "length junk = 16" for st' junk
        by (rule collection_start [OF st'(1) idx st'(2)]) (rule array_body [OF array])
      show ?thesis
        by (rule start [of "\<lambda>idx st. do { st \<leftarrow> set_type idx SXE_JITSON_TYPE_ARRAY st; st \<leftarrow> set_tok_len idx 0 st; ?elements idx st }", OF _ load])
          (use peek(1) ct cls facts(3) in \<open>subst load.simps, simp add: Let_def array_flags cong: option.case_cong if_cong\<close>)
    next
      case number
      then have cls: "jitson_class ! unat c = 45 \<or> jitson_class ! unat c = DIG" "jitson_class ! unat c \<noteq> 34"
          "jitson_class ! unat c \<noteq> 123" "jitson_class ! unat c \<noteq> 91"
        using class_of(1-4) [of c] by auto
      have load: "runs (load_number env ?idx st' source1) ?P" if st': "on_stack fr st' (cs @ junk)" "length junk = 16" for st' junk
      proof -
        have "parse_value dbl s = map_option (\<lambda>(n, is_uint). (if is_uint then JUint (saturate (number_value 10 n)) else JNumber (dbl n), drop (length n) (c # t)))
            (take_number (c # t))"
          using number by (auto simp: pv)
        then show ?thesis
          using load_number_runs [OF rd st'(1) idx st'(2) left1] shorter by (elim runs_mono) (simp add: value_loaded_mono [of "c # t" s])
      qed
      show ?thesis
        by (rule start [of "\<lambda>idx st. load_number env idx st source1", OF _ load])
          (use peek(1) ct cls in \<open>subst load.simps, auto simp: Let_def cong: option.case_cong\<close>)
    next
      case literal
      then have cls: "jitson_class ! unat c \<noteq> 34" "jitson_class ! unat c \<noteq> 123" "jitson_class ! unat c \<noteq> 91"
          "jitson_class ! unat c \<noteq> 45" "jitson_class ! unat c \<noteq> DIG"
        using class_of(1-4) [of c] by auto
      from get_identifier_left [OF left1 facts(2)] obtain ident source3 where
        ident: "sxe_jitson_source_get_identifier source1 = ((ident, length (takeWhile is_identifier_char (c # t))), source3)"
          "take (length (takeWhile is_identifier_char (c # t))) (drop (s_next source1) (json source1)) = takeWhile is_identifier_char (c # t)"
          "left src source3 (dropWhile is_identifier_char (c # t))"
        by blast
      note facts3 = strict_reader_facts [OF rd ident(3)]
      show ?thesis
      proof (cases "json_literal (takeWhile is_identifier_char (c # t))")
        case None
        have load: "runs (load_fail ?idx st' source') ?P" if st': "on_stack fr st' (cs @ junk)" "length junk = 16" for st' junk source'
          by (rule load_fail_runs [OF st'(1) idx]) (use literal None in \<open>simp add: pv value_loaded_None\<close>)
        show ?thesis
          by (rule start [of "\<lambda>idx st. load_fail idx st (if jitson_class ! unat c = ALP then source3 else source1)", OF _ load])
            (use peek(1) ct cls ident(1,2) facts3(4,5) literal_symbol(2) [OF None] in
              \<open>subst load.simps, cases "env_push_ident env", auto simp: Let_def sxe_jitson_const_get_def cong: option.case_cong\<close>)
      next
        case (Some v)
        have alp: "jitson_class ! unat c = ALP"
          using literal_class [OF Some] .
        obtain w bs where bs: "builtin_symbols (takeWhile is_identifier_char (c # t)) = Some (Const_Value bs)" "value_tokens v bs" "plain_token w bs"
          using literal_symbol(1) [OF Some] by blast
        have load: "runs (do { (ok, st) \<leftarrow> sxe_jitson_stack_dup_at_index env ?idx bs 0 st'; Some (ok, st, source3) }) ?P"
          if st': "on_stack fr st' (cs @ junk)" "length junk = 16" for st' junk
        proof -
          have "is_identifier_char c"
            using Some by (cases "is_identifier_char c") simp_all
          then have "length (dropWhile is_identifier_char (c # t)) \<le> length t"
            by (simp add: length_dropWhile_le)
          moreover have "length bs = 16"
            using bs(3) by (simp add: plain_token_def)
          ultimately show ?thesis
            using ident(3) literal Some bs(2) shorter unfolding runs_bind_iff
            by (intro dup_literal_runs [OF bs(3) st'(1) idx st'(2)]) (auto simp: pv value_loaded_def simp del: dropWhile.simps takeWhile.simps)
        qed
        show ?thesis
          by (rule start [of "\<lambda>idx st. do { (ok, st) \<leftarrow> sxe_jitson_stack_dup_at_index env idx bs 0 st; Some (ok, st, source3) }", OF _ load])
            (use peek(1) ct cls alp ident(1,2) facts3(4) bs(1) in
              \<open>subst load.simps, auto simp: Let_def sxe_jitson_const_get_def cong: option.case_cong\<close>)
      qed
    qed
  qed
qed


section \<open>The parser and the reference parser\<close>

lemma parser_ok:
  assumes rd: "strict_reader env dbl src"
  shows "value_ok env dbl src s \<and> elements_ok env dbl src s \<and> members_ok env dbl src s"
proof (induction "length s" arbitrary: s rule: less_induct)
  case less
  have val: "value_ok env dbl src s"
    by (rule value_step [OF rd]) (use less in blast)+
  moreover have "elements_ok env dbl src s"
    by (rule elements_step [OF rd val]) (use less in blast)
  moreover have "members_ok env dbl src s"
    by (rule members_step [OF rd]) (use less in blast)+
  ultimately show ?case
    by blast
qed

lemma load_value_runs:
  assumes "strict_reader env dbl source" and "on_stack fr st cs" and "length cs + 16 * (length (rest source) + 1) \<le> 2 ^ 32"
  shows "runs (load env Load_Value st source) (value_loaded fr source cs (rest source) (parse_value dbl (rest source)))"
  using parser_ok [OF assms(1), of "rest source"] assms(2,3) by (intro value_okD) simp_all

text \<open>C2: On every text of up to 256 million characters, with standard JSON and memory for it, loading a value returns, and it succeeds
  exactly when the reference parser does. Then the source has moved over the text the reference parser takes, and the tokens of
  its value are pushed on the stack; otherwise the stack has the contents it had before.\<close>

theorem load_json_correct:
  assumes "strict_reader env dbl source" and "on_stack fr st cs" and "length cs + 16 * (length (rest source) + 1) \<le> 2 ^ 32"
  shows "\<exists>ok st' source'. sxe_jitson_stack_load_json env st source = Some (ok, st', source') \<and>
    (case parse_value dbl (rest source) of
       None \<Rightarrow> \<not> ok \<and> on_stack fr st' cs
     | Some (v, r) \<Rightarrow> ok \<and> (\<exists>t. rest source = t @ r \<and> moved (length t) source source') \<and>
         (\<exists>bs. value_tokens v bs \<and> on_stack fr st' (cs @ bs)))"
proof -
  obtain ok st' source' where res: "load env Load_Value st source = Some (ok, st', source')"
    "value_loaded fr source cs (rest source) (parse_value dbl (rest source)) (ok, st', source')"
    using load_value_runs [OF assms] by (auto simp: runs_def)
  then have "case parse_value dbl (rest source) of
       None \<Rightarrow> \<not> ok \<and> on_stack fr st' cs
     | Some (v, r) \<Rightarrow> ok \<and> (\<exists>t. rest source = t @ r \<and> moved (length t) source source') \<and>
         (\<exists>bs. value_tokens v bs \<and> on_stack fr st' (cs @ bs))"
    by (auto simp: value_loaded_def left_def split: option.splits)
  then show ?thesis
    using res(1) unfolding sxe_jitson_stack_load_json_def by blast
qed

text \<open>The tokens of a value that was allocated\<close>

definition alloced :: "bytes \<Rightarrow> bytes" where
  "alloced bs = le_bytes 4 (le_word (take 4 bs) OR SXE_JITSON_TYPE_ALLOCED :: u32) @ drop 4 bs"

lemma mark_alloced_eq: "16 \<le> length bs \<Longrightarrow> mark_alloced bs = Some (alloced bs)"
  by (simp add: mark_alloced_def read_at_def memcpy_at_def alloced_def)

lemma value_tokens_length: "value_tokens v bs \<Longrightarrow> 16 \<le> length bs"
  by (induction rule: value_tokens.induct) (auto simp: string_tokens_def sxe_jitson_make_bool_def sxe_jitson_make_null_def)

lemma get_jitson_runs:
  assumes st: "on_stack (0, 0) st bs" and bs: "16 \<le> length bs" and alloc: "ample alloc"
  shows "\<exists>st'. sxe_jitson_stack_get_jitson alloc st = Some (Some (alloced bs), st') \<and> on_stack (0, 0) st' []"
proof -
  obtain junk where m: "jitsons st = Some (bs @ junk)"
    using st by (rule on_stack_memory) (use bs in auto)
  have len: "length bs = 16 * count st" "16 * maximum st = length bs + length junk" "maximum st \<le> 2 ^ 30" "0 < maximum st"
    using st m by (auto simp: on_stack_def)
  have "16 * count st \<le> 2 ^ 34"
    using len by simp
  then obtain fresh where fresh: "alloc (16 * count st) = Some fresh" "length fresh = 16 * count st"
    using alloc unfolding ample_def by blast
  have ret: "(if count st < maximum st then case kit_realloc alloc (Some (bs @ junk)) (16 * count st) of Some v \<Rightarrow> v | None \<Rightarrow> bs @ junk
      else bs @ junk) = bs"
    using fresh len by (auto simp: kit_realloc_def simp flip: length_0_conv)
  have sel: "s_open st = 0" "borrow st = 0"
    using st by (simp_all add: on_stack_def)
  have "sxe_jitson_stack_get_jitson alloc st = Some (Some (alloced bs), st\<lparr>jitsons := None, count := 0\<rparr>)"
    using m sel ret mark_alloced_eq [OF bs] by (simp add: sxe_jitson_stack_get_jitson_def Let_def)
  moreover have "on_stack (0, 0) (st\<lparr>jitsons := None, count := 0\<rparr>) []"
    using sel len by (simp add: on_stack_def)
  ultimately show ?thesis
    by blast
qed

lemma jitson_new_result:
  assumes "ample (env_alloc env)" and "strict_flags flags" and "strtod_ok (env_strtod env) dbl" and "no_hex str"
    and "on_stack (0, 0) st []" and "16 * (length str + 1) \<le> 2 ^ 32"
  shows "\<exists>res st'. sxe_jitson_new env flags st str = Some (res, st') \<and> on_stack (0, 0) st' [] \<and>
    (case parse_value dbl str of
       None \<Rightarrow> res = None
     | Some (v, r) \<Rightarrow> \<exists>bs. res = Some (alloced bs) \<and> value_tokens v bs \<and> length bs \<le> 16 * length str)"
proof -
  let ?src = "sxe_jitson_source_from_string str flags"
  have rest: "rest ?src = str"
    by (simp add: rest_def sxe_jitson_source_from_string_def)
  have rd: "strict_reader env dbl ?src"
    using assms(1-4) rest by (simp add: strict_reader_def whole_text_def sxe_jitson_source_from_string_def)
  obtain ok st1 source1 where load: "load env Load_Value st ?src = Some (ok, st1, source1)"
    "value_loaded (0, 0) ?src [] str (parse_value dbl str) (ok, st1, source1)"
    using load_value_runs [OF rd assms(5)] assms(6) by (auto simp: runs_def rest)
  show ?thesis
  proof (cases "parse_value dbl str")
    case None
    then have st1: "\<not> ok" "on_stack (0, 0) st1 []"
      using load(2) by (simp_all add: value_loaded_def)
    have "on_stack (0, 0) (sxe_jitson_stack_clear st1) []"
      using st1(2) by (cases "jitsons st1") (simp_all add: sxe_jitson_stack_clear_def on_stack_def)
    then show ?thesis
      using load(1) st1(1) by (simp add: sxe_jitson_new_def sxe_jitson_stack_parse_json_def sxe_jitson_stack_load_json_def None)
  next
    case (Some p)
    obtain v r where p: "p = (v, r)"
      by (cases p)
    obtain bs where bs: "ok" "value_tokens v bs" "on_stack (0, 0) st1 bs" "length bs \<le> 16 * length str"
      using load(2) by (auto simp: value_loaded_def Some p)
    obtain st2 where "sxe_jitson_stack_get_jitson (env_alloc env) st1 = Some (Some (alloced bs), st2)" "on_stack (0, 0) st2 []"
      using get_jitson_runs [OF bs(3) value_tokens_length [OF bs(2)] assms(1)] by blast
    then show ?thesis
      using load(1) bs(1,2,4) by (auto simp: sxe_jitson_new_def sxe_jitson_stack_parse_json_def sxe_jitson_stack_load_json_def Some p)
  qed
qed

text \<open>C3: A text is turned into an allocated value exactly when the reference parser accepts a prefix of it, the tokens of
  that value being those of the result, and the stack of the thread is empty again in both cases.\<close>

theorem jitson_new_correct:
  assumes "ample (env_alloc env)" and "strict_flags flags" and "strtod_ok (env_strtod env) dbl" and "no_hex str"
    and "on_stack (0, 0) st []" and "16 * (length str + 1) \<le> 2 ^ 32"
  shows "\<exists>res st'. sxe_jitson_new env flags st str = Some (res, st') \<and> on_stack (0, 0) st' [] \<and>
    (case parse_value dbl str of
       None \<Rightarrow> res = None
     | Some (v, r) \<Rightarrow> \<exists>bs. res = Some (alloced bs) \<and> value_tokens v bs)"
  using jitson_new_result [OF assms] by (fastforce split: option.splits)


section \<open>An environment\<close>

definition example_strtod :: "bytes \<Rightarrow> u64 \<times> nat" where
  "example_strtod s = (0, case take_number s of None \<Rightarrow> 0 | Some (t, _) \<Rightarrow> length t)"

definition example_env :: jitson_env where
  "example_env = \<lparr>env_alloc = (\<lambda>n. Some (replicate n 0)), all_symbols = builtin_symbols, env_strtod = example_strtod,
     env_cmp = (\<lambda>_ _. 0), env_clone = Some, env_push_ident = None\<rparr>"

definition example_stack :: sxe_jitson_stack where
  "example_stack = \<lparr>maximum = 1, count = 0, jitsons = None, s_open = 0, s_last = 0, borrow = 0\<rparr>"

lemma example_env_ok:
  "ample (env_alloc example_env)" "strict_flags 0" "strtod_ok (env_strtod example_env) (\<lambda>_. 0)" "on_stack (0, 0) example_stack []"
  by (simp_all add: example_env_def example_stack_def ample_def strict_flags_def strtod_ok_def example_strtod_def on_stack_def)

text \<open>The text \<^verbatim>\<open>{ "ab": [1, true], "c":"\u00e9" }\<close> and a space\<close>

definition example_text :: bytes where
  "example_text = [123, 32, 34, 97, 98, 34, 58, 32, 91, 49, 44, 32, 116, 114, 117, 101, 93, 44, 32, 34, 99, 34, 58, 34, 92, 117, 48, 48, 101, 57, 34, 32, 125, 32]"

lemma example_text_parsed:
  "parse_value (\<lambda>_. 0) example_text = Some (JObject [(ascii ''ab'', JArray [JUint 1, JBool True]), (ascii ''c'', JString [0xc3, 0xa9])], [32])"
  "no_hex example_text" "length example_text = 34"
  by code_simp+

theorem jitson_new_correct_witness:
  "\<exists>bs st'. sxe_jitson_new example_env 0 example_stack example_text = Some (Some (alloced bs), st') \<and>
     value_tokens (JObject [(ascii ''ab'', JArray [JUint 1, JBool True]), (ascii ''c'', JString [0xc3, 0xa9])]) bs"
  using jitson_new_correct [OF example_env_ok(1-3) example_text_parsed(2) example_env_ok(4)] by (auto simp: example_text_parsed)

theorem load_json_correct_witness:
  "\<exists>st' source' bs. sxe_jitson_stack_load_json example_env example_stack (sxe_jitson_source_from_string example_text 0) = Some (True, st', source') \<and>
     value_tokens (JObject [(ascii ''ab'', JArray [JUint 1, JBool True]), (ascii ''c'', JString [0xc3, 0xa9])]) bs \<and> on_stack (0, 0) st' bs"
proof -
  let ?src = "sxe_jitson_source_from_string example_text 0"
  have rest: "rest ?src = example_text"
    by (simp add: rest_def sxe_jitson_source_from_string_def)
  have "strict_reader example_env (\<lambda>_. 0) ?src"
    using example_env_ok(1-3) example_text_parsed(2) rest by (simp add: strict_reader_def whole_text_def sxe_jitson_source_from_string_def)
  from load_json_correct [OF this example_env_ok(4)] show ?thesis
    by (auto simp: rest example_text_parsed)
qed


end
