(* ===== verification/Sxe_Jitson_Build_Steps.thy ===== *)
theory Sxe_Jitson_Build_Steps
  imports Sxe_Jitson_Build Sxe_Jitson_Spec
begin

text \<open>
  Values constructed call by call: any value can be built with the functions that open and close collections and add
  values, and its tokens are those that parsing its text would leave.
\<close>

section \<open>Collections under construction\<close>

text \<open>The innermost open collection, at the end of the stack: its type, the number of its values, the enclosing collection, whether a
  member name waits for its value, and the tokens of its contents\<close>

definition partial_field :: "u32 \<Rightarrow> u32 \<Rightarrow> bool \<Rightarrow> bytes \<Rightarrow> bool" where
  "partial_field t outer pending field \<longleftrightarrow>
     (\<exists>f x. field = f # x @ le_bytes 4 outer \<and> length x = 3 \<and> (t = SXE_JITSON_TYPE_OBJECT \<longrightarrow> (f \<noteq> 0) = pending))"

lemma partial_field_length: "partial_field t outer pending field \<Longrightarrow> length field = 8"
  by (auto simp: partial_field_def)

definition building :: "nat \<Rightarrow> sxe_jitson_stack \<Rightarrow> bytes \<Rightarrow> u32 \<Rightarrow> nat \<Rightarrow> u32 \<Rightarrow> bool \<Rightarrow> bytes \<Rightarrow> bool" where
  "building b st below t n outer pending body \<longleftrightarrow> t \<in> {SXE_JITSON_TYPE_ARRAY, SXE_JITSON_TYPE_OBJECT} \<and>
     length below = 16 * (length below div 16) \<and>
     (\<exists>field. partial_field t outer pending field \<and> on_stack (length below div 16 + 1, b) st (below @ collection t n field body))"

lemma plain_collection_type:
  assumes "t \<in> {SXE_JITSON_TYPE_ARRAY, SXE_JITSON_TYPE_OBJECT}"
  shows "t AND SXE_JITSON_TYPE_MASK = t" "\<not> has t SXE_JITSON_TYPE_IS_UNIF" "\<not> has t SXE_JITSON_TYPE_IS_HOMO"
    "\<not> has t SXE_JITSON_TYPE_IS_ORD" "\<not> has t SXE_JITSON_TYPE_MK_SORT" "t AND NOT SXE_JITSON_TYPE_IS_LOCAL = t"
    "t AND (SXE_JITSON_TYPE_MASK OR SXE_JITSON_TYPE_IS_UNIF) \<noteq> SXE_JITSON_TYPE_ARRAY OR SXE_JITSON_TYPE_IS_UNIF"
  using assms by (auto simp: type_defs has_def)

lemma runs_SXEA1 [simp]: "runs (SXEA1 b) P \<longleftrightarrow> b \<and> P ()"
  by (simp add: runs_def SXEA1_def)

lemma runs_SXEA6_iff [simp]: "runs (SXEA6 b) P \<longleftrightarrow> b \<and> P ()"
  by (simp add: runs_def SXEA6_def)

lemma tok_no_value_collection:
  assumes st: "on_stack fr st (cs @ collection t n field body)" and idx: "length cs = 16 * idx" and pf: "partial_field t outer pending field"
    and t: "t = SXE_JITSON_TYPE_OBJECT"
  shows "tok_no_value st idx = Some pending"
proof -
  obtain f x where f: "field = f # x @ le_bytes 4 outer" "(f \<noteq> 0) = pending"
    using pf t unfolding partial_field_def by blast
  have "on_stack fr st ((cs @ le_bytes 4 t @ le_bytes 4 (of_nat n :: u32)) @ [f] @ x @ le_bytes 4 outer @ body)"
    using st f(1) by (simp add: collection_def)
  from on_stack_read [OF this] show ?thesis
    using idx f(2) by (cases "jitsons st") (auto simp: tok_no_value_def)
qed

lemma tok_no_value_returns:
  assumes "on_stack fr st (cs @ collection t n field body)" and "length cs = 16 * idx" and "partial_field t outer pending field"
  shows "\<exists>v. tok_no_value st idx = Some v"
proof -
  obtain f x where f: "field = f # x @ le_bytes 4 outer"
    using assms(3) unfolding partial_field_def by blast
  have "on_stack fr st ((cs @ le_bytes 4 t @ le_bytes 4 (of_nat n :: u32)) @ [f] @ x @ le_bytes 4 outer @ body)"
    using assms(1) f by (simp add: collection_def)
  from on_stack_read [OF this] show ?thesis
    using assms(2) by (cases "jitsons st") (auto simp: tok_no_value_def)
qed

lemma tok_collection_collection:
  assumes "on_stack fr st (cs @ collection t n field body)" and "length cs = 16 * idx" and "partial_field t outer pending field"
  shows "tok_collection st idx = Some outer"
proof -
  obtain f x where f: "field = f # x @ le_bytes 4 outer" "length x = 3"
    using assms(3) unfolding partial_field_def by blast
  have "on_stack fr st ((cs @ le_bytes 4 t @ le_bytes 4 (of_nat n :: u32) @ f # x) @ le_bytes 4 outer @ body)"
    using assms(1) f(1) by (simp add: collection_def)
  from on_stack_read [OF this] show ?thesis
    using assms(2) f(2) by (cases "jitsons st") (auto simp: tok_collection_def)
qed

lemma set_no_value_collection:
  assumes st: "on_stack fr st (cs @ collection t n field body)" and idx: "length cs = 16 * idx" and pf: "partial_field t outer pending field"
    and P: "\<And>st' field'. on_stack fr st' (cs @ collection t n field' body) \<Longrightarrow> partial_field t outer v field' \<Longrightarrow> P st'"
  shows "runs (set_no_value idx v st) P"
proof -
  obtain f x where f: "field = f # x @ le_bytes 4 outer" "length x = 3"
    using pf unfolding partial_field_def by blast
  let ?v = "if v then 1 else 0 :: u8"
  show ?thesis
    unfolding set_no_value_def
  proof (rule set_bytes_at [of fr st "cs @ le_bytes 4 t @ le_bytes 4 (of_nat n :: u32)" "[f]" "x @ le_bytes 4 outer @ body"])
    show "P st'" if "on_stack fr st' ((cs @ le_bytes 4 t @ le_bytes 4 (of_nat n :: u32)) @ [?v] @ x @ le_bytes 4 outer @ body)" for st'
    proof (rule P)
      show "on_stack fr st' (cs @ collection t n (?v # x @ le_bytes 4 outer) body)"
        using that by (simp add: collection_def)
      show "partial_field t outer v (?v # x @ le_bytes 4 outer)"
        unfolding partial_field_def using f(2) by (intro exI conjI) (auto split: if_splits)
    qed
  qed (use st f idx in \<open>simp_all add: collection_def\<close>)
qed

lemma set_last_collection:
  assumes st: "on_stack fr st (cs @ collection t n field body)" and idx: "length cs = 16 * idx" and pf: "partial_field t outer pending field"
    and t: "t \<noteq> SXE_JITSON_TYPE_OBJECT"
    and P: "\<And>st' field'. on_stack fr st' (cs @ collection t n field' body) \<Longrightarrow> partial_field t outer pending' field' \<Longrightarrow> P st'"
  shows "runs (set_last idx w st) P"
proof -
  obtain f x where f: "field = f # x @ le_bytes 4 outer" "length x = 3"
    using pf unfolding partial_field_def by blast
  obtain g y where g: "le_bytes 4 w = g # y" "length y = 3"
    using length_le_bytes [of 4 w] by (cases "le_bytes 4 w") auto
  show ?thesis
    unfolding set_last_def
  proof (rule set_bytes_at [of fr st "cs @ le_bytes 4 t @ le_bytes 4 (of_nat n :: u32)" "f # x" "le_bytes 4 outer @ body"])
    show "P st'" if "on_stack fr st' ((cs @ le_bytes 4 t @ le_bytes 4 (of_nat n :: u32)) @ le_bytes 4 w @ le_bytes 4 outer @ body)" for st'
    proof (rule P)
      show "on_stack fr st' (cs @ collection t n (g # y @ le_bytes 4 outer) body)"
        using that g(1) by (simp add: collection_def)
      show "partial_field t outer pending' (g # y @ le_bytes 4 outer)"
        unfolding partial_field_def using g(2) t by (intro exI conjI) auto
    qed
  qed (use st f idx in \<open>simp_all add: collection_def\<close>)
qed

section \<open>Adding to the open collection\<close>

lemma check_uniform_plain:
  assumes "tok_type st i = Some t" and "t \<in> {SXE_JITSON_TYPE_ARRAY, SXE_JITSON_TYPE_OBJECT}" and "tok_len st i = Some n"
  shows "check_uniform sz elem_type has_element i st = Some st"
  using assms plain_collection_type [OF assms(2)] by (simp add: check_uniform_def)

lemma expand_case_runs:
  assumes st: "on_stack fr st cs" and alloc: "ample alloc" and room: "length cs + 16 * k \<le> 2 ^ 32"
    and P: "\<And>st' junk. on_stack fr st' (cs @ junk) \<Longrightarrow> length junk = 16 * k \<Longrightarrow> runs (f (length cs div 16) st') P"
  shows "runs (do { (new, st) \<leftarrow> sxe_jitson_stack_expand alloc k st; case new of None \<Rightarrow> g st | Some idx \<Rightarrow> f idx st }) P"
  unfolding runs_bind_iff by (rule expand_runs [OF st alloc room]) (use P in simp)

text \<open>Counting a value that is already or will be on the stack\<close>

lemma count_value_runs:
  assumes st: "on_stack fr st (below @ collection t n field body)" and i: "length below = 16 * i" and pf: "partial_field t outer pending field"
    and t: "t \<in> {SXE_JITSON_TYPE_ARRAY, SXE_JITSON_TYPE_OBJECT}"
    and P: "\<And>st' field'. on_stack fr st' (below @ collection t (Suc n) field' body) \<Longrightarrow> partial_field t outer False field' \<Longrightarrow> runs (f st') P"
  shows "runs (do { st \<leftarrow> (if t AND SXE_JITSON_TYPE_MASK = SXE_JITSON_TYPE_ARRAY
                         then if sz \<noteq> 0 then set_last i w st else Some st
                         else set_no_value i False st);
                   ln \<leftarrow> tok_len st i;
                   st \<leftarrow> set_tok_len i (ln + 1) st;
                   f st }) P"
proof -
  have inc: "runs (do { ln \<leftarrow> tok_len st1 i; st \<leftarrow> set_tok_len i (ln + 1) st1; f st }) P"
    if "on_stack fr st1 (below @ collection t n field1 body)" "partial_field t outer False field1" for st1 field1
    unfolding tok_len_collection [OF that(1) i] bind.simps runs_bind_iff
    by (rule set_tok_len_collection [OF that(1) i]) (rule P, assumption, rule that(2))
  show ?thesis
  proof (cases "t = SXE_JITSON_TYPE_ARRAY")
    case True
    then have no: "t \<noteq> SXE_JITSON_TYPE_OBJECT"
      by (simp add: type_defs)
    have pf': "partial_field t outer False field"
      using pf no unfolding partial_field_def by blast
    have "runs (if sz \<noteq> 0 then set_last i w st else Some st) (\<lambda>st. runs (do { ln \<leftarrow> tok_len st i; st \<leftarrow> set_tok_len i (ln + 1) st; f st }) P)"
      using set_last_collection [OF st i pf no, of False] inc inc [OF st pf'] by simp
    then show ?thesis
      using plain_collection_type(1) [OF t] True by (simp only: runs_bind_iff if_True simp_thms)
  next
    case False
    then have "runs (set_no_value i False st) (\<lambda>st. runs (do { ln \<leftarrow> tok_len st i; st \<leftarrow> set_tok_len i (ln + 1) st; f st }) P)"
      using inc by (intro set_no_value_collection [OF st i pf])
    then show ?thesis
      using plain_collection_type(1) [OF t] False by (simp only: runs_bind_iff if_False simp_thms)
  qed
qed

lemma add_element_runs:
  assumes b: "building b st below t n outer pending body" and pending: "t = SXE_JITSON_TYPE_OBJECT \<longrightarrow> pending" and alloc: "ample (env_alloc env)"
    and len: "length element = 16" and room: "length below + 16 + length body + 16 \<le> 2 ^ 32"
    and P: "\<And>idx st'. building b st' below t (Suc n) outer False (body @ element) \<Longrightarrow> P (Some idx, st')"
  shows "runs (sxe_jitson_stack_add_value env 1 et (Some element) st) P"
proof -
  let ?i = "length below div 16"
  obtain field where t: "t \<in> {SXE_JITSON_TYPE_ARRAY, SXE_JITSON_TYPE_OBJECT}" and i: "length below = 16 * ?i"
      and pf: "partial_field t outer pending field" and st: "on_stack (?i + 1, b) st (below @ collection t n field body)"
    using b unfolding building_def by blast
  have op: "s_open st = ?i + 1"
    using st by (simp add: on_stack_def)
  note tt = tok_type_collection [OF st i] and ln = tok_len_collection [OF st i]
  obtain nv where nv: "tok_no_value st ?i = Some nv" "t = SXE_JITSON_TYPE_ARRAY \<or> nv"
    using tok_no_value_returns [OF st i pf] tok_no_value_collection [OF st i pf] t pending by auto
  have len_cs: "length (below @ collection t n field body) = length below + 16 + length body"
    using partial_field_length [OF pf] by (simp add: collection_def)
  let ?store = "\<lambda>idx st. do { st \<leftarrow> set_bytes (16 * idx) element st;
      st \<leftarrow> (if t AND SXE_JITSON_TYPE_MASK = SXE_JITSON_TYPE_ARRAY
            then if (1 :: nat) \<noteq> 0 then set_last ?i (of_nat (s_last st)) st else Some st
            else set_no_value ?i False st);
      ln \<leftarrow> tok_len st ?i;
      st \<leftarrow> set_tok_len ?i (ln + 1) st;
      Some (Some idx, st) }"
  have store: "runs (?store idx st1) P"
    if "on_stack (?i + 1, b) st1 ((below @ collection t n field body) @ junk)" "length junk = 16"
      "idx = length (below @ collection t n field body) div 16" for idx st1 junk
    unfolding runs_bind_iff [of "set_bytes _ _ _"]
  proof (rule set_bytes_at [of "(?i + 1, b)" st1 "below @ collection t n field body" junk "[]"])
    fix st2
    assume "on_stack (?i + 1, b) st2 ((below @ collection t n field body) @ element @ [])"
    then have st2: "on_stack (?i + 1, b) st2 (below @ collection t n field (body @ element))"
      by (simp add: collection_def)
    show "runs (do {
        st \<leftarrow> (if t AND SXE_JITSON_TYPE_MASK = SXE_JITSON_TYPE_ARRAY
              then if (1 :: nat) \<noteq> 0 then set_last ?i (of_nat (s_last st2)) st2 else Some st2
              else set_no_value ?i False st2);
        ln \<leftarrow> tok_len st ?i;
        st \<leftarrow> set_tok_len ?i (ln + 1) st;
        Some (Some idx, st) }) P"
      by (rule count_value_runs [OF st2 i pf t]) (use P t i in \<open>auto simp: building_def\<close>)
  qed (use that len len_cs on_stack_length [OF st] in auto)
  have "sxe_jitson_stack_add_value env 1 et (Some element) st = do { (new, st) \<leftarrow> sxe_jitson_stack_expand (env_alloc env) 1 st;
      case new of None \<Rightarrow> Some (None, st\<lparr>s_last := SXE_JITSON_STACK_ERROR\<rparr>) | Some idx \<Rightarrow> ?store idx (st\<lparr>s_last := idx\<rparr>) }"
    using op tt nv ln check_uniform_plain [OF tt t ln] plain_collection_type [OF t] t len
    by (auto simp: sxe_jitson_stack_add_value_def Let_def cong: option.case_cong if_cong)
  moreover have "runs (do { (new, st) \<leftarrow> sxe_jitson_stack_expand (env_alloc env) 1 st;
      case new of None \<Rightarrow> Some (None, st\<lparr>s_last := SXE_JITSON_STACK_ERROR\<rparr>) | Some idx \<Rightarrow> ?store idx (st\<lparr>s_last := idx\<rparr>) }) P"
    by (rule expand_case_runs [OF st alloc], use room len_cs in simp, rule store) simp_all
  ultimately show ?thesis
    by (simp only:)
qed

text \<open>Preparing for a value that is pushed after it\<close>

lemma add_nothing_runs:
  assumes b: "building b st below t n outer pending body" and pending: "t = SXE_JITSON_TYPE_OBJECT \<longrightarrow> pending"
    and P: "\<And>idx st'. building b st' below t (Suc n) outer False body \<Longrightarrow> P (Some idx, st')"
  shows "runs (sxe_jitson_stack_add_value env 0 et None st) P"
proof -
  let ?i = "length below div 16"
  obtain field where t: "t \<in> {SXE_JITSON_TYPE_ARRAY, SXE_JITSON_TYPE_OBJECT}" and i: "length below = 16 * ?i"
      and pf: "partial_field t outer pending field" and st: "on_stack (?i + 1, b) st (below @ collection t n field body)"
    using b unfolding building_def by blast
  have op: "s_open st = ?i + 1"
    using st by (simp add: on_stack_def)
  note tt = tok_type_collection [OF st i] and ln = tok_len_collection [OF st i]
  obtain nv where nv: "tok_no_value st ?i = Some nv" "t = SXE_JITSON_TYPE_ARRAY \<or> nv"
    using tok_no_value_returns [OF st i pf] tok_no_value_collection [OF st i pf] t pending by auto
  have "on_stack (?i + 1, b) (st\<lparr>s_last := count st\<rparr>) (below @ collection t n field body)"
    using st by simp
  then have "runs (do {
      st1 \<leftarrow> (if t AND SXE_JITSON_TYPE_MASK = SXE_JITSON_TYPE_ARRAY
             then if (0 :: nat) \<noteq> 0 then set_last ?i (of_nat (count st)) (st\<lparr>s_last := count st\<rparr>) else Some (st\<lparr>s_last := count st\<rparr>)
             else set_no_value ?i False (st\<lparr>s_last := count st\<rparr>));
      ln \<leftarrow> tok_len st1 ?i;
      st1 \<leftarrow> set_tok_len ?i (ln + 1) st1;
      Some (Some (count st), st1) }) P"
    by (rule count_value_runs [OF _ i pf t]) (use P t i in \<open>auto simp: building_def\<close>)
  then show ?thesis
    using op tt nv ln check_uniform_plain [OF tt t ln] plain_collection_type [OF t]
    t by (auto simp: sxe_jitson_stack_add_value_def Let_def cong: if_cong)
qed

lemma value_added_plain:
  assumes "flags AND SXE_JITSON_FLAG_OPTIMIZE = 0" and "building b st below t n outer pending body"
  shows "sxe_jitson_stack_value_added env flags st = Some st"
proof -
  let ?i = "length below div 16"
  obtain field where i: "length below = 16 * ?i" and st: "on_stack (?i + 1, b) st (below @ collection t n field body)"
    using assms(2) unfolding building_def by blast
  have "s_open st = ?i + 1"
    using st by (simp add: on_stack_def)
  then show ?thesis
    using assms(1) tok_type_collection [OF st i] by (simp add: sxe_jitson_stack_value_added_def)
qed

lemma building_append:
  assumes "building b st below t n outer pending body"
  obtains cs where "on_stack (length below div 16 + 1, b) st cs" "length cs = length below + 16 + length body"
    "\<And>st' bs. on_stack (length below div 16 + 1, b) st' (cs @ bs) \<Longrightarrow> building b st' below t n outer pending (body @ bs)"
proof -
  obtain field where f: "t \<in> {SXE_JITSON_TYPE_ARRAY, SXE_JITSON_TYPE_OBJECT}" "length below = 16 * (length below div 16)"
      "partial_field t outer pending field" "on_stack (length below div 16 + 1, b) st (below @ collection t n field body)"
    using assms unfolding building_def by blast
  show thesis
  proof (rule that [OF f(4)])
    show "length (below @ collection t n field body) = length below + 16 + length body"
      using partial_field_length [OF f(3)] by (simp add: collection_def)
    show "building b st' below t n outer pending (body @ bs)"
      if "on_stack (length below div 16 + 1, b) st' ((below @ collection t n field body) @ bs)" for st' bs
      unfolding building_def using that f(1-3) by (auto simp: collection_def)
  qed
qed

section \<open>Strings\<close>

lemma push_string_rest_runs:
  assumes "on_stack fr st cs" and "ample alloc" and "length cs + 16 * (length str div 16 + 1) \<le> 2 ^ 32"
    and "\<And>st' junk. on_stack fr st' (cs @ str @ 0 # junk) \<Longrightarrow> Suc (length str + length junk) = 16 * (length str div 16 + 1) \<Longrightarrow> P (True, st')"
  shows "runs (push_string_rest alloc unwind str st) P"
  using assms(1,3,4)
proof (induction "length str" arbitrary: str st cs rule: less_induct)
  case less
  let ?i = "length cs div 16"
  have i: "length cs = 16 * ?i"
    using on_stack_length [OF less.prems(1)] by simp
  let ?body = "\<lambda>idx st. if length str < SXE_JITSON_TOKEN_SIZE
              then do { st \<leftarrow> set_bytes (16 * idx) (str @ [0]) st; Some (True, st) }
              else do { st \<leftarrow> set_bytes (16 * idx) (take SXE_JITSON_TOKEN_SIZE str) st;
                        push_string_rest alloc unwind (drop SXE_JITSON_TOKEN_SIZE str) st }"
  have "runs (?body ?i st1) P" if st1: "on_stack fr st1 (cs @ junk)" "length junk = 16 * 1" for st1 junk
  proof (cases "length str < 16")
    case True
    have "runs (set_bytes (16 * ?i) (str @ [0]) st1) (\<lambda>st. P (True, st))"
    proof (rule set_bytes_at [of fr st1 cs "take (Suc (length str)) junk" "drop (Suc (length str)) junk"])
      show "P (True, st2)" if "on_stack fr st2 (cs @ (str @ [0]) @ drop (Suc (length str)) junk)" for st2
        by (rule less.prems(3) [of _ "drop (Suc (length str)) junk"]) (use that True st1(2) in simp_all)
    qed (use st1 True i in auto)
    then show ?thesis
      using True by (simp add: SXE_JITSON_TOKEN_SIZE_def runs_bind_iff)
  next
    case False
    have "runs (set_bytes (16 * ?i) (take 16 str) st1) (\<lambda>st. runs (push_string_rest alloc unwind (drop 16 str) st) P)"
    proof (rule set_bytes_at [of fr st1 cs junk "[]"])
      fix st2
      assume "on_stack fr st2 (cs @ take 16 str @ [])"
      then have st2: "on_stack fr st2 (cs @ take 16 str)"
        by simp
      have len: "length (drop 16 str) div 16 + 1 = length str div 16"
        using False le_div_geq [of 16 "length str"] by simp
      show "runs (push_string_rest alloc unwind (drop 16 str) st2) P"
      proof (rule less.hyps [OF _ st2])
        show "length (cs @ take 16 str) + 16 * (length (drop 16 str) div 16 + 1) \<le> 2 ^ 32"
          unfolding len using False less.prems(2) by simp
        show "P (True, st3)" if "on_stack fr st3 ((cs @ take 16 str) @ drop 16 str @ 0 # junk)"
            "Suc (length (drop 16 str) + length junk) = 16 * (length (drop 16 str) div 16 + 1)" for st3 junk
        proof (rule less.prems(3))
          show "on_stack fr st3 (cs @ str @ 0 # junk)"
            using that(1) append_take_drop_id [of 16 str] by (metis append.assoc)
          show "Suc (length str + length junk) = 16 * (length str div 16 + 1)"
            using that(2) False unfolding len by simp
        qed
      qed (use False in simp)
    qed (use st1 False i in auto)
    then show ?thesis
      using False by (simp add: SXE_JITSON_TOKEN_SIZE_def runs_bind_iff)
  qed
  then show ?case
    by (subst push_string_rest.simps) (rule expand_case_runs [OF less.prems(1) assms(2)], use less.prems(2) in simp)
qed

lemma push_string_runs:
  assumes st: "on_stack fr st cs" and alloc: "ample alloc" and cstr: "c_string chars_at = str" and str: "length str < 2 ^ 32"
    and room: "length cs + 16 * (1 + (length str + 8) div 16) \<le> 2 ^ 32" and t: "\<not> has t SXE_JITSON_TYPE_IS_OWN" "\<not> has t SXE_JITSON_TYPE_IS_REF"
    and P: "\<And>st' bs. on_stack fr st' (cs @ bs) \<Longrightarrow> string_tokens (SXE_JITSON_TYPE_STRING OR t) str bs \<Longrightarrow> P (True, st')"
  shows "runs (sxe_jitson_stack_push_string alloc chars_at address t st) P"
proof -
  let ?i = "length cs div 16" and ?t = "SXE_JITSON_TYPE_STRING OR t" and ?n = "of_nat (length str) :: u32"
  have i: "length cs = 16 * ?i"
    using on_stack_length [OF st] by simp
  let ?chars = "\<lambda>idx st. if length str < SXE_JITSON_STRING_SIZE
      then do { st \<leftarrow> set_string idx 0 (str @ [0]) st; Some (True, st) }
      else do { st \<leftarrow> set_string idx 0 (take SXE_JITSON_STRING_SIZE str) st;
                push_string_rest alloc idx (drop SXE_JITSON_STRING_SIZE str) st }"
  have chars: "runs (?chars ?i st1) P" if st1: "on_stack fr st1 ((cs @ le_bytes 4 ?t @ le_bytes 4 ?n) @ c)" "length c = 8" for st1 c
  proof (cases "length str < 8")
    case True
    have "runs (set_string ?i 0 (str @ [0]) st1) (\<lambda>st. P (True, st))"
      unfolding set_string_def
    proof (rule set_bytes_at [of fr st1 "cs @ le_bytes 4 ?t @ le_bytes 4 ?n" "take (Suc (length str)) c" "drop (Suc (length str)) c"])
      show "P (True, st2)" if "on_stack fr st2 ((cs @ le_bytes 4 ?t @ le_bytes 4 ?n) @ (str @ [0]) @ drop (Suc (length str)) c)" for st2
        by (rule P [of _ "string_bytes ?t str (0 # drop (Suc (length str)) c)"])
          (use that True st1(2) in \<open>auto simp: string_tokens_def string_bytes_def\<close>)
    qed (use st1 True i in auto)
    then show ?thesis
      using True by (simp add: SXE_JITSON_STRING_SIZE_def runs_bind_iff)
  next
    case False
    have len: "length (drop 8 str) div 16 + 1 = (length str + 8) div 16"
      using False le_div_geq [of 16 "length str + 8"] by simp
    have "runs (set_string ?i 0 (take 8 str) st1) (\<lambda>st. runs (push_string_rest alloc ?i (drop 8 str) st) P)"
      unfolding set_string_def
    proof (rule set_bytes_at [of fr st1 "cs @ le_bytes 4 ?t @ le_bytes 4 ?n" c "[]"])
      fix st2
      assume st2: "on_stack fr st2 ((cs @ le_bytes 4 ?t @ le_bytes 4 ?n) @ take 8 str @ [])"
      show "runs (push_string_rest alloc ?i (drop 8 str) st2) P"
      proof (rule push_string_rest_runs [OF st2 alloc])
        show "length ((cs @ le_bytes 4 ?t @ le_bytes 4 ?n) @ take 8 str @ []) + 16 * (length (drop 8 str) div 16 + 1) \<le> 2 ^ 32"
          unfolding len using False room by simp
        show "P (True, st3)" if "on_stack fr st3 (((cs @ le_bytes 4 ?t @ le_bytes 4 ?n) @ take 8 str @ []) @ drop 8 str @ 0 # junk)"
            "Suc (length (drop 8 str) + length junk) = 16 * (length (drop 8 str) div 16 + 1)" for st3 junk
        proof (rule P)
          show "on_stack fr st3 (cs @ string_bytes ?t str (0 # junk))"
            using that(1) append_take_drop_id [of 8 str] unfolding string_bytes_def by (metis append.assoc append_Nil)
          show "string_tokens ?t str (string_bytes ?t str (0 # junk))"
            using that(2) False unfolding string_tokens_def len by auto
        qed
      qed
    qed (use st1 False i in auto)
    then show ?thesis
      using False by (simp add: SXE_JITSON_STRING_SIZE_def runs_bind_iff)
  qed
  have "runs (do { st \<leftarrow> set_type ?i ?t st1; st \<leftarrow> set_tok_len ?i ?n st; ?chars ?i st }) P"
    if st1: "on_stack fr st1 (cs @ junk)" "length junk = 16 * 1" for st1 junk
  proof -
    obtain a b c where junk: "junk = a @ b @ c" "length a = 4" "length b = 4" "length c = 8"
      using st1(2) by (auto elim: split_token)
    have "runs (set_tok_len ?i ?n st2) (\<lambda>st. runs (?chars ?i st) P)" if "on_stack fr st2 (cs @ le_bytes 4 ?t @ b @ c)" for st2
      by (rule set_tok_len_at [OF that i]) (use junk chars in auto)
    then show ?thesis
      unfolding runs_bind_iff by (intro set_type_at [of fr st1 cs a "b @ c", OF _ i junk(2)]) (use st1 junk in auto)
  qed
  then have "runs (do { (new, st) \<leftarrow> sxe_jitson_stack_expand alloc 1 st; case new of None \<Rightarrow> Some (False, st)
      | Some idx \<Rightarrow> do { st \<leftarrow> set_type idx ?t st; st \<leftarrow> set_tok_len idx ?n st; ?chars idx st } }) P"
    by (intro expand_case_runs [OF st alloc]) (use room in auto)
  then show ?thesis
    using str t by (simp add: sxe_jitson_stack_push_string_def cstr Let_def linorder_not_less [symmetric] cong: option.case_cong)
qed

lemma copied_string_type:
  "\<not> has SXE_JITSON_TYPE_IS_COPY SXE_JITSON_TYPE_IS_OWN" "\<not> has SXE_JITSON_TYPE_IS_COPY SXE_JITSON_TYPE_IS_REF"
  "\<not> has SXE_JITSON_TYPE_IS_KEY SXE_JITSON_TYPE_IS_OWN" "\<not> has SXE_JITSON_TYPE_IS_KEY SXE_JITSON_TYPE_IS_REF"
  "SXE_JITSON_TYPE_STRING OR SXE_JITSON_TYPE_IS_COPY = SXE_JITSON_TYPE_STRING" "SXE_JITSON_TYPE_IS_COPY OR SXE_JITSON_TYPE_IS_KEY = SXE_JITSON_TYPE_IS_KEY"
  "SXE_JITSON_TYPE_IS_COPY \<noteq> SXE_JITSON_TYPE_IS_OWN" "SXE_JITSON_TYPE_IS_COPY AND x = 0"
  by (simp_all add: type_defs has_def)

lemma add_string_runs:
  assumes b: "building b st below t n outer pending body" and pending: "t = SXE_JITSON_TYPE_OBJECT \<longrightarrow> pending" and alloc: "ample (env_alloc env)"
    and flags: "flags AND SXE_JITSON_FLAG_OPTIMIZE = 0" and cstr: "c_string chars_at = str" and str: "length str < 2 ^ 32"
    and room: "length below + 16 + length body + 16 * (1 + (length str + 8) div 16) \<le> 2 ^ 32"
    and P: "\<And>st' bs. building b st' below t (Suc n) outer False (body @ bs) \<Longrightarrow> string_tokens SXE_JITSON_TYPE_STRING str bs \<Longrightarrow> P (True, st')"
  shows "runs (sxe_jitson_stack_add_string env flags chars_at address SXE_JITSON_TYPE_IS_COPY st) P"
proof -
  let ?push = "\<lambda>st. do { (ok, st) \<leftarrow> sxe_jitson_stack_push_string (env_alloc env) chars_at address SXE_JITSON_TYPE_IS_COPY st;
      if \<not> ok
      then do { ln \<leftarrow> tok_len st (s_open st - 1); st \<leftarrow> set_tok_len (s_open st - 1) (ln - 1) st; Some (False, st) }
      else do { st \<leftarrow> sxe_jitson_stack_value_added env flags st; Some (True, st) } }"
  have push: "runs (?push (st'\<lparr>s_last := count st'\<rparr>)) P" if b': "building b st' below t (Suc n) outer False body" for st'
  proof -
    obtain cs where cs: "on_stack (length below div 16 + 1, b) st' cs" "length cs = length below + 16 + length body"
      "\<And>st'' bs. on_stack (length below div 16 + 1, b) st'' (cs @ bs) \<Longrightarrow> building b st'' below t (Suc n) outer False (body @ bs)"
      using building_append [OF b'] by blast
    then have cs1: "on_stack (length below div 16 + 1, b) (st'\<lparr>s_last := count st'\<rparr>) cs"
      by simp
    show ?thesis
      unfolding runs_bind_iff
    proof (rule push_string_runs [OF cs1 alloc cstr str])
      fix st'' bs
      assume st'': "on_stack (length below div 16 + 1, b) st'' (cs @ bs)"
        and bs: "string_tokens (SXE_JITSON_TYPE_STRING OR SXE_JITSON_TYPE_IS_COPY) str bs"
      show "runs (case (True, st'') of (ok, st) \<Rightarrow> if \<not> ok
          then do { ln \<leftarrow> tok_len st (s_open st - 1); st \<leftarrow> set_tok_len (s_open st - 1) (ln - 1) st; Some (False, st) }
          else do { st \<leftarrow> sxe_jitson_stack_value_added env flags st; Some (True, st) }) P"
        using P [OF cs(3) [OF st'']] bs value_added_plain [OF flags cs(3) [OF st'']] by (simp add: copied_string_type)
    qed (use cs(2) room copied_string_type in auto)
  qed
  have "s_open st \<noteq> 0"
    using b by (auto simp: building_def on_stack_def)
  then have "sxe_jitson_stack_add_string env flags chars_at address SXE_JITSON_TYPE_IS_COPY st =
      do { (new, st) \<leftarrow> sxe_jitson_stack_add_value env 0 SXE_JITSON_TYPE_STRING None st;
           if new = None then Some (False, st) else ?push (st\<lparr>s_last := count st\<rparr>) }"
    by (simp add: sxe_jitson_stack_add_string_def copied_string_type Let_def cong: if_cong)
  moreover have "runs (do { (new, st) \<leftarrow> sxe_jitson_stack_add_value env 0 SXE_JITSON_TYPE_STRING None st;
           if new = None then Some (False, st) else ?push (st\<lparr>s_last := count st\<rparr>) }) P"
    unfolding runs_bind_iff [of "sxe_jitson_stack_add_value _ _ _ _ _"]
    by (rule add_nothing_runs [OF b pending]) (use push in simp)
  ultimately show ?thesis
    by (simp only:)
qed

lemma add_member_name_runs:
  assumes b: "building b st below SXE_JITSON_TYPE_OBJECT n outer False body" and alloc: "ample (env_alloc env)" and cname: "c_string chars_at = name" and name: "length name < 2 ^ 32"
    and room: "length below + 16 + length body + 16 * (1 + (length name + 8) div 16) \<le> 2 ^ 32"
    and P: "\<And>st' bs. building b st' below SXE_JITSON_TYPE_OBJECT n outer True (body @ bs) \<Longrightarrow> string_tokens key_type name bs \<Longrightarrow> P (True, st')"
  shows "runs (sxe_jitson_stack_add_member_name env chars_at address SXE_JITSON_TYPE_IS_COPY st) P"
proof -
  let ?i = "length below div 16" and ?t = SXE_JITSON_TYPE_OBJECT
  obtain field where t: "?t \<in> {SXE_JITSON_TYPE_ARRAY, ?t}" and i: "length below = 16 * ?i"
      and pf: "partial_field ?t outer False field" and st: "on_stack (?i + 1, b) st (below @ collection ?t n field body)"
    using b unfolding building_def by blast
  have op: "s_open st = ?i + 1"
    using st by (simp add: on_stack_def)
  have push: "runs (sxe_jitson_stack_push_string (env_alloc env) chars_at address SXE_JITSON_TYPE_IS_KEY st') P"
    if b': "building b st' below ?t n outer True body" for st'
  proof -
    obtain cs where cs: "on_stack (length below div 16 + 1, b) st' cs" "length cs = length below + 16 + length body"
      "\<And>st'' bs. on_stack (length below div 16 + 1, b) st'' (cs @ bs) \<Longrightarrow> building b st'' below ?t n outer True (body @ bs)"
      using building_append [OF b'] by blast
    show ?thesis
    proof (rule push_string_runs [OF cs(1) alloc cname name])
      show "P (True, st'')" if "on_stack (length below div 16 + 1, b) st'' (cs @ bs)" "string_tokens key_type name bs" for st'' bs
        using P [OF cs(3) [OF that(1)] that(2)] .
    qed (use cs(2) room copied_string_type in auto)
  qed
  have "runs (set_no_value ?i True st) (\<lambda>st. runs (sxe_jitson_stack_push_string (env_alloc env) chars_at address SXE_JITSON_TYPE_IS_KEY st) P)"
    by (rule set_no_value_collection [OF st i pf]) (rule push, use t i in \<open>auto simp: building_def\<close>)
  moreover have "tok_no_value st ?i = Some False" "tok_type st ?i = Some ?t"
    using tok_no_value_collection [OF st i pf] tok_type_collection [OF st i] by simp_all
  ultimately show ?thesis
    using op plain_collection_type(6) [OF t] by (simp add: sxe_jitson_stack_add_member_name_def copied_string_type runs_bind_iff)
qed

section \<open>Opening and closing collections\<close>

lemma on_stack_open: "on_stack (i, b) st cs \<Longrightarrow> on_stack (j, b) (st\<lparr>s_open := j\<rparr>) cs"
  by (cases "jitsons st") (auto simp: on_stack_def)

lemma start_collection_runs:
  assumes st: "on_stack (s_open st, b) st cs" and alloc: "ample alloc" and room: "length cs + 16 \<le> 2 ^ 32" and t: "t \<in> {SXE_JITSON_TYPE_ARRAY, SXE_JITSON_TYPE_OBJECT}"
    and P: "\<And>st'. building b st' cs t 0 (of_nat (s_open st)) False [] \<Longrightarrow> P (True, st')"
  shows "runs (do { (new, st) \<leftarrow> sxe_jitson_stack_expand alloc 1 st;
    case new of None \<Rightarrow> Some (False, st)
    | Some idx \<Rightarrow> do { st \<leftarrow> set_type idx t st; st \<leftarrow> set_tok_len idx 0 st; st \<leftarrow> set_no_value idx False st;
                       st \<leftarrow> set_collection idx (of_nat (s_open st)) st; Some (True, st\<lparr>s_open := idx + 1\<rparr>) } }) P"
proof -
  let ?i = "length cs div 16" and ?o = "of_nat (s_open st) :: u32"
  have i: "length cs = 16 * ?i"
    using on_stack_length [OF st] by simp
  have fin: "runs (do { st \<leftarrow> set_no_value ?i False st1; st \<leftarrow> set_collection ?i (of_nat (s_open st)) st; Some (True, st\<lparr>s_open := ?i + 1\<rparr>) }) P"
    if st1: "on_stack (s_open st, b) st1 (cs @ collection t 0 field [])" and field: "length field = 8" for st1 field
  proof -
    obtain f x y where xy: "field = f # x @ y" "length x = 3" "length y = 4"
    proof
      show "field = hd field # take 3 (tl field) @ drop 3 (tl field)"
        using field by (cases field) auto
    qed (use field in simp_all)
    have set: "runs (set_collection ?i (of_nat (s_open st2)) st2) (\<lambda>st. P (True, st\<lparr>s_open := ?i + 1\<rparr>))"
      if st2: "on_stack (s_open st, b) st2 ((cs @ le_bytes 4 t @ le_bytes 4 (0 :: u32)) @ [0] @ x @ y)" for st2
      unfolding set_collection_def
    proof (rule set_bytes_at [of "(s_open st, b)" st2 "cs @ le_bytes 4 t @ le_bytes 4 (0 :: u32) @ [0] @ x" y "[]"])
      fix st3
      assume st3: "on_stack (s_open st, b) st3 ((cs @ le_bytes 4 t @ le_bytes 4 (0 :: u32) @ [0] @ x) @ le_bytes 4 (of_nat (s_open st2) :: u32) @ [])"
      have "s_open st2 = s_open st"
        using st2 by (simp add: on_stack_def)
      then have "on_stack (?i + 1, b) (st3\<lparr>s_open := ?i + 1\<rparr>) (cs @ collection t 0 (0 # x @ le_bytes 4 ?o) [])"
        using on_stack_open [OF st3] by (simp add: collection_def)
      moreover have "partial_field t ?o False (0 # x @ le_bytes 4 ?o)"
        using xy(2) by (auto simp: partial_field_def)
      ultimately have "building b (st3\<lparr>s_open := ?i + 1\<rparr>) cs t 0 ?o False []"
        unfolding building_def using t i by blast
      then show "P (True, st3\<lparr>s_open := ?i + 1\<rparr>)"
        by (rule P)
    qed (use st2 i xy in auto)
    show ?thesis
      unfolding set_no_value_def runs_bind_iff
      by (rule set_bytes_at [of "(s_open st, b)" st1 "cs @ le_bytes 4 t @ le_bytes 4 (0 :: u32)" "[f]" "x @ y"])
        (use st1 i xy set in \<open>auto simp: collection_def runs_bind_iff\<close>)
  qed
  show ?thesis
    by (rule expand_case_runs [OF st alloc], use room in simp) (rule collection_start [OF _ i], assumption, simp, rule fin)
qed

lemma open_first_runs:
  assumes st: "on_stack (0, b) st cs" and alloc: "ample (env_alloc env)" and room: "length cs + 16 \<le> 2 ^ 32"
    and t: "t \<in> {SXE_JITSON_TYPE_ARRAY, SXE_JITSON_TYPE_OBJECT}" and flags: "flags AND SXE_JITSON_FLAG_OPTIMIZE = 0"
    and P: "\<And>st'. building b st' cs t 0 0 False [] \<Longrightarrow> P (True, st')"
  shows "runs (sxe_jitson_stack_open_collection env flags t st) P"
proof -
  have op: "s_open st = 0"
    using st by (simp add: on_stack_def)
  show ?thesis
    using start_collection_runs [of st b cs "env_alloc env" t P] st alloc room t P op flags plain_collection_type [OF t]
    by (auto simp: sxe_jitson_stack_open_collection_def SXEA6_def cong: option.case_cong)
qed

lemma open_nested_runs:
  assumes b: "building b st below u n outer pending body" and pending: "u = SXE_JITSON_TYPE_OBJECT \<longrightarrow> pending" and alloc: "ample (env_alloc env)"
    and room: "length below + 16 + length body + 16 \<le> 2 ^ 32"
    and t: "t \<in> {SXE_JITSON_TYPE_ARRAY, SXE_JITSON_TYPE_OBJECT}" and flags: "flags AND SXE_JITSON_FLAG_OPTIMIZE = 0"
    and P: "\<And>st' field. partial_field u outer False field \<Longrightarrow>
      building b st' (below @ collection u (Suc n) field body) t 0 (of_nat (length below div 16 + 1)) False [] \<Longrightarrow> P (True, st')"
  shows "runs (sxe_jitson_stack_open_collection env flags t st) P"
proof -
  let ?new = "\<lambda>st. do { (new, st) \<leftarrow> sxe_jitson_stack_expand (env_alloc env) 1 st;
    case new of None \<Rightarrow> Some (False, st)
    | Some idx \<Rightarrow> do { st \<leftarrow> set_type idx t st; st \<leftarrow> set_tok_len idx 0 st; st \<leftarrow> set_no_value idx False st;
                       st \<leftarrow> set_collection idx (of_nat (s_open st)) st; Some (True, st\<lparr>s_open := idx + 1\<rparr>) } }"
  have new: "runs (?new st1) P" if b1: "building b st1 below u (Suc n) outer False body" for st1
  proof -
    obtain field where f: "partial_field u outer False field" "on_stack (length below div 16 + 1, b) st1 (below @ collection u (Suc n) field body)"
      using b1 unfolding building_def by blast
    have op: "s_open st1 = length below div 16 + 1"
      using f(2) by (simp add: on_stack_def)
    have len: "length (below @ collection u (Suc n) field body) + 16 \<le> 2 ^ 32"
      using room partial_field_length [OF f(1)] by (simp add: collection_def)
    show ?thesis
      by (rule start_collection_runs [OF f(2) [folded op] alloc len t]) (rule P [OF f(1)], use op in simp)
  qed
  have "s_open st \<noteq> 0"
    using b by (auto simp: building_def on_stack_def)
  then have "sxe_jitson_stack_open_collection env flags t st = do { (_, st) \<leftarrow> sxe_jitson_stack_add_value env 0 t None st; ?new st }"
    using t flags plain_collection_type [OF t]
    by (cases "sxe_jitson_stack_add_value env 0 t None st")
      (auto simp: sxe_jitson_stack_open_collection_def SXEA6_def cong: option.case_cong)
  moreover have "runs (do { (_, st) \<leftarrow> sxe_jitson_stack_add_value env 0 t None st; ?new st }) P"
    unfolding runs_bind_iff [of "sxe_jitson_stack_add_value _ _ _ _ _"]
    by (rule add_nothing_runs [OF b pending]) (use new in simp)
  ultimately show ?thesis
    by (simp only:)
qed

lemma tok_type_returns:
  assumes "on_stack fr st cs" and "i < length cs div 16"
  shows "\<exists>t. tok_type st i = Some t"
proof -
  have "cs = take (16 * i) cs @ take 4 (drop (16 * i) cs) @ drop (16 * i + 4) cs"
    by (metis append_take_drop_id drop_drop add.commute)
  then have "on_stack fr st (take (16 * i) cs @ take 4 (drop (16 * i) cs) @ drop (16 * i + 4) cs)"
    using assms(1) by simp
  moreover have "16 * i < length cs"
    using assms(2) by linarith
  ultimately show ?thesis
    using on_stack_read [of fr st "take (16 * i) cs" "take 4 (drop (16 * i) cs)"] assms(2) by (cases "jitsons st") (auto simp: tok_type_def)
qed

lemma close_collection_runs:
  assumes b: "building b st below t n outer False body" and flags: "flags AND SXE_JITSON_FLAG_OPTIMIZE = 0" and outer: "unat outer \<le> length below div 16"
    and P: "\<And>st'. on_stack (unat outer, b) st' (below @ sized_collection t n body) \<Longrightarrow> P st'"
  shows "runs (sxe_jitson_stack_close_collection env flags st) P"
proof -
  let ?i = "length below div 16"
  obtain field where t: "t \<in> {SXE_JITSON_TYPE_ARRAY, SXE_JITSON_TYPE_OBJECT}" and i: "length below = 16 * ?i"
      and pf: "partial_field t outer False field" and st: "on_stack (?i + 1, b) st (below @ collection t n field body)"
    using b unfolding building_def by blast
  have op: "s_open st = ?i + 1"
    using st by (simp add: on_stack_def)
  note tt = tok_type_collection [OF st i]
  obtain nv where nv: "tok_no_value st ?i = Some nv" "t = SXE_JITSON_TYPE_OBJECT \<longrightarrow> \<not> nv"
    using tok_no_value_returns [OF st i pf] tok_no_value_collection [OF st i pf] by auto
  have st1: "on_stack (unat outer, b) (st\<lparr>s_open := unat outer\<rparr>) (below @ collection t n field body)"
    using st by (rule on_stack_open)
  have added: "runs (if s_open st2 \<noteq> 0 then sxe_jitson_stack_value_added env flags st2 else Some st2) P"
    if st2: "on_stack (unat outer, b) st2 (below @ sized_collection t n body)" for st2
  proof -
    have "length (below @ sized_collection t n body) = 16 * (?i + 1) + length body"
      using i by (simp add: sized_collection_def collection_def)
    then have "length (below @ sized_collection t n body) div 16 = ?i + 1 + length body div 16"
      by simp
    then have "s_open st2 - 1 < length (below @ sized_collection t n body) div 16" if "s_open st2 \<noteq> 0"
      using that st2 outer by (simp add: on_stack_def)
    then have "\<exists>t. tok_type st2 (s_open st2 - 1) = Some t" if "s_open st2 \<noteq> 0"
      using that tok_type_returns [OF st2] by blast
    then show ?thesis
      using P [OF st2] flags by (cases "tok_type st2 (s_open st2 - 1)") (auto simp: sxe_jitson_stack_value_added_def)
  qed
  have "runs (set_integer ?i (of_nat (count (st\<lparr>s_open := unat outer\<rparr>) - ?i)) (st\<lparr>s_open := unat outer\<rparr>))
      (\<lambda>st2. runs (if s_open st2 \<noteq> 0 then sxe_jitson_stack_value_added env flags st2 else Some st2) P)"
    by (rule set_integer_collection [OF st1 i partial_field_length [OF pf]]) (rule added)
  then show ?thesis
    using op tt nv tok_collection_collection [OF st i pf] tok_len_collection [OF st1 i] outer plain_collection_type [OF t]
    by (simp add: sxe_jitson_stack_close_collection_def runs_bind_iff Let_def)
qed

section \<open>Refused calls\<close>

lemma not_open_refused:
  assumes "s_open st = 0"
  shows "sxe_jitson_stack_add_value env sz et element st = None" "sxe_jitson_stack_add_string env flags chars_at address u st = None"
    "sxe_jitson_stack_add_member_name env str address u st = None" "sxe_jitson_stack_close_collection env flags st = None"
  using assms by (simp_all add: sxe_jitson_stack_add_value_def sxe_jitson_stack_add_string_def sxe_jitson_stack_add_member_name_def
      sxe_jitson_stack_close_collection_def SXEA1_def)

lemma no_name_refused:
  assumes b: "building b st below SXE_JITSON_TYPE_OBJECT n outer False body"
  shows "sxe_jitson_stack_add_value env sz et element st = None"
proof -
  let ?i = "length below div 16" and ?t = SXE_JITSON_TYPE_OBJECT
  obtain field where t: "?t \<in> {SXE_JITSON_TYPE_ARRAY, ?t}" and i: "length below = 16 * ?i"
      and pf: "partial_field ?t outer False field" and st: "on_stack (?i + 1, b) st (below @ collection ?t n field body)"
    using b unfolding building_def by blast
  have op: "s_open st = ?i + 1"
    using st by (simp add: on_stack_def)
  show ?thesis
    using op tok_type_collection [OF st i] tok_no_value_collection [OF st i pf] plain_collection_type(1) [OF t]
    by (simp add: sxe_jitson_stack_add_value_def SXEA1_def Let_def bind_eq_None_conv type_defs)
qed

lemma name_refused:
  assumes b: "building b st below t n outer pending body" and t: "t = SXE_JITSON_TYPE_OBJECT \<longrightarrow> pending"
  shows "sxe_jitson_stack_add_member_name env chars_at address u st = None"
    "t = SXE_JITSON_TYPE_OBJECT \<Longrightarrow> sxe_jitson_stack_close_collection env flags st = None"
proof -
  let ?i = "length below div 16"
  obtain field where t': "t \<in> {SXE_JITSON_TYPE_ARRAY, SXE_JITSON_TYPE_OBJECT}" and i: "length below = 16 * ?i"
      and pf: "partial_field t outer pending field" and st: "on_stack (?i + 1, b) st (below @ collection t n field body)"
    using b unfolding building_def by blast
  have op: "s_open st = ?i + 1"
    using st by (simp add: on_stack_def)
  note facts = op tok_type_collection [OF st i] tok_no_value_collection [OF st i pf] plain_collection_type(6) [OF t'] t
  show "sxe_jitson_stack_add_member_name env chars_at address u st = None"
    using facts by (auto simp: sxe_jitson_stack_add_member_name_def SXEA1_def Let_def bind_eq_None_conv)
  show "sxe_jitson_stack_close_collection env flags st = None" if "t = SXE_JITSON_TYPE_OBJECT"
    using facts that by (simp add: sxe_jitson_stack_close_collection_def SXEA1_def)
qed

end
