(* ===== verification/Sxe_Jitson_Build_Spec.thy ===== *)
theory Sxe_Jitson_Build_Spec
  imports Sxe_Jitson_Build_Steps
begin

text \<open>
  The functions that construct values refine a machine whose state is the values that are complete and the collections that are
  open: they return for the calls that the machine allows, leaving the tokens of its values, and abort for the calls that it refuses.
\<close>

section \<open>Sequences of calls\<close>

fun spec_run :: "('c \<Rightarrow> 'a \<Rightarrow> 'a option) \<Rightarrow> 'c list \<Rightarrow> 'a \<Rightarrow> 'a option" where
  "spec_run f [] a = Some a"
| "spec_run f (c # cs) a = Option.bind (f c a) (spec_run f cs)"

text \<open>The calls up to the first one that returns \<^verbatim>\<open>false\<close>\<close>

fun call_run :: "('c \<Rightarrow> 's \<Rightarrow> (bool \<times> 's) option) \<Rightarrow> 'c list \<Rightarrow> 's \<Rightarrow> (bool \<times> 's) option" where
  "call_run f [] st = Some (True, st)"
| "call_run f (c # cs) st = do { (ok, st) \<leftarrow> f c st; if ok then call_run f cs st else Some (False, st) }"

text \<open>Calls that abort when a machine refuses them, and otherwise succeed as long as there is room for what they need\<close>

locale call_refinement =
  fixes spec :: "'c \<Rightarrow> 'a \<Rightarrow> 'a option" and call :: "'c \<Rightarrow> 's \<Rightarrow> (bool \<times> 's) option" and rep :: "'a \<Rightarrow> 's \<Rightarrow> bool"
    and used :: "'s \<Rightarrow> nat" and need :: "'c \<Rightarrow> nat" and limit :: nat
  assumes step: "rep a s \<Longrightarrow> used s + need c \<le> limit \<Longrightarrow>
    (case spec c a of None \<Rightarrow> call c s = None
     | Some a' \<Rightarrow> runs (call c s) (\<lambda>(ok, s'). ok \<and> rep a' s' \<and> used s' \<le> used s + need c))"
begin

lemma run:
  "rep a s \<Longrightarrow> used s + sum_list (map need cs) \<le> limit \<Longrightarrow>
    (case spec_run spec cs a of None \<Rightarrow> call_run call cs s = None | Some a' \<Rightarrow> runs (call_run call cs s) (\<lambda>(ok, s'). ok \<and> rep a' s'))"
proof (induction cs arbitrary: a s)
  case (Cons c cs)
  note here = step [OF Cons.prems(1), of c]
  show ?case
  proof (cases "spec c a")
    case None
    then show ?thesis
      using here Cons.prems(2) by simp
  next
    case (Some a1)
    then obtain s1 where s1: "call c s = Some (True, s1)" "rep a1 s1" "used s1 \<le> used s + need c"
      using here Cons.prems(2) by (auto simp: runs_def)
    then show ?thesis
      using Cons.IH [OF s1(2)] Cons.prems(2) Some by (cases "spec_run spec cs a1") simp_all
  qed
qed simp

end

section \<open>The machine\<close>

text \<open>An open collection: the elements of an array, or the members of an object and the name that waits for its value\<close>

datatype frame = Arr "jvalue list" | Obj "(bytes \<times> jvalue) list" "bytes option"

datatype build_call = Open_Array | Open_Object | Close_Collection | Add_Member_Name bytes | Add_Null | Add_Bool bool
  | Add_Number u64 | Add_Uint u64 | Add_String bytes

fun put_value :: "jvalue \<Rightarrow> frame list \<Rightarrow> frame list option" where
  "put_value v (Arr vs # fs) = Some (Arr (vs @ [v]) # fs)"
| "put_value v (Obj ms (Some k) # fs) = Some (Obj (ms @ [(k, v)]) None # fs)"
| "put_value v _ = None"

fun frame_value :: "frame \<Rightarrow> jvalue option" where
  "frame_value (Arr vs) = Some (JArray vs)"
| "frame_value (Obj ms None) = Some (JObject ms)"
| "frame_value (Obj ms (Some _)) = None"

fun open_frame :: "frame \<Rightarrow> frame list \<Rightarrow> frame list option" where
  "open_frame f [] = Some [f]"
| "open_frame f (Obj ms None # fs) = None"
| "open_frame f fs = Some (f # fs)"

fun spec_call :: "build_call \<Rightarrow> jvalue list \<times> frame list \<Rightarrow> (jvalue list \<times> frame list) option" where
  "spec_call Open_Array (vs, fs) = map_option (Pair vs) (open_frame (Arr []) fs)"
| "spec_call Open_Object (vs, fs) = map_option (Pair vs) (open_frame (Obj [] None) fs)"
| "spec_call Close_Collection (vs, []) = None"
| "spec_call Close_Collection (vs, f # fs) =
     do { v \<leftarrow> frame_value f; if fs = [] then Some (vs @ [v], []) else map_option (Pair vs) (put_value v fs) }"
| "spec_call (Add_Member_Name k) (vs, Obj ms None # fs) = Some (vs, Obj ms (Some (c_string k)) # fs)"
| "spec_call (Add_Member_Name k) _ = None"
| "spec_call Add_Null (vs, fs) = map_option (Pair vs) (put_value JNull fs)"
| "spec_call (Add_Bool b) (vs, fs) = map_option (Pair vs) (put_value (JBool b) fs)"
| "spec_call (Add_Number n) (vs, fs) = map_option (Pair vs) (put_value (JNumber n) fs)"
| "spec_call (Add_Uint n) (vs, fs) = map_option (Pair vs) (put_value (JUint n) fs)"
| "spec_call (Add_String s) (vs, fs) = map_option (Pair vs) (put_value (JString (c_string s)) fs)"

abbreviation spec_calls :: "build_call list \<Rightarrow> jvalue list \<times> frame list \<Rightarrow> (jvalue list \<times> frame list) option" where
  "spec_calls \<equiv> spec_run spec_call"

text \<open>The functions the calls stand for. Strings are copied. The uninitialised bytes of the tokens of numbers are \<open>junk\<close>.\<close>

fun make_call :: "jitson_env \<Rightarrow> u32 \<Rightarrow> bytes \<Rightarrow> build_call \<Rightarrow> sxe_jitson_stack \<Rightarrow> (bool \<times> sxe_jitson_stack) option" where
  "make_call env flags junk Open_Array st = sxe_jitson_stack_open_collection env flags SXE_JITSON_TYPE_ARRAY st"
| "make_call env flags junk Open_Object st = sxe_jitson_stack_open_collection env flags SXE_JITSON_TYPE_OBJECT st"
| "make_call env flags junk Close_Collection st = map_option (Pair True) (sxe_jitson_stack_close_collection env flags st)"
| "make_call env flags junk (Add_Member_Name k) st = sxe_jitson_stack_add_member_name env k 0 SXE_JITSON_TYPE_IS_COPY st"
| "make_call env flags junk Add_Null st = sxe_jitson_stack_add_null env st"
| "make_call env flags junk (Add_Bool b) st = sxe_jitson_stack_add_bool env b st"
| "make_call env flags junk (Add_Number n) st = sxe_jitson_stack_add_number env junk n st"
| "make_call env flags junk (Add_Uint n) st = sxe_jitson_stack_add_uint env junk n st"
| "make_call env flags junk (Add_String s) st = sxe_jitson_stack_add_string env flags s 0 SXE_JITSON_TYPE_IS_COPY st"

abbreviation make_calls :: "jitson_env \<Rightarrow> u32 \<Rightarrow> bytes \<Rightarrow> build_call list \<Rightarrow> sxe_jitson_stack \<Rightarrow> (bool \<times> sxe_jitson_stack) option" where
  "make_calls env flags junk \<equiv> call_run (make_call env flags junk)"

text \<open>The tokens a call needs\<close>

fun call_tokens :: "build_call \<Rightarrow> nat" where
  "call_tokens Close_Collection = 0"
| "call_tokens (Add_Member_Name k) = 1 + (length (c_string k) + 8) div 16"
| "call_tokens (Add_String s) = 1 + (length (c_string s) + 8) div 16"
| "call_tokens _ = 1"

section \<open>The stack and the machine\<close>

text \<open>The tokens of an open collection, whose element or member may itself be under construction\<close>

inductive frame_tokens :: "bool \<Rightarrow> frame \<Rightarrow> u32 \<Rightarrow> nat \<Rightarrow> bool \<Rightarrow> bytes \<Rightarrow> bool" where
  array_frame: "list_all2 value_tokens vs bss \<Longrightarrow>
    frame_tokens child (Arr vs) SXE_JITSON_TYPE_ARRAY (length vs + of_bool child) False (concat bss)"
| object_frame: "list_all2 (string_tokens key_type) (map fst ms) kss \<Longrightarrow> list_all2 value_tokens (map snd ms) vss \<Longrightarrow>
    frame_tokens False (Obj ms None) SXE_JITSON_TYPE_OBJECT (length ms) False (concat (map2 (@) kss vss))"
| named_frame: "list_all2 (string_tokens key_type) (map fst ms) kss \<Longrightarrow> list_all2 value_tokens (map snd ms) vss \<Longrightarrow>
    string_tokens key_type k kb \<Longrightarrow>
    frame_tokens child (Obj ms (Some k)) SXE_JITSON_TYPE_OBJECT (length ms + of_bool child) (\<not> child) (concat (map2 (@) kss vss) @ kb)"

inductive_cases frame_tokens_ArrE: "frame_tokens child (Arr vs) t n pending body"
inductive_cases frame_tokens_ObjE: "frame_tokens child (Obj ms k) t n pending body"

inductive open_frames :: "bytes \<Rightarrow> frame list \<Rightarrow> nat \<Rightarrow> bytes \<Rightarrow> bool" where
  no_frames: "open_frames base [] 0 base"
| inner_frame: "open_frames base fs outer below \<Longrightarrow> length below = 16 * (length below div 16) \<Longrightarrow> frame_tokens True f t n False body \<Longrightarrow>
    partial_field t (of_nat outer) False field \<Longrightarrow>
    open_frames base (f # fs) (length below div 16 + 1) (below @ collection t n field body)"

inductive_cases open_frames_NilE: "open_frames base [] outer below"
inductive_cases open_frames_ConsE: "open_frames base (f # fs) outer below"

definition represents :: "nat \<Rightarrow> bytes \<Rightarrow> jvalue list \<times> frame list \<Rightarrow> sxe_jitson_stack \<Rightarrow> bool" where
  "represents b cs a st \<longleftrightarrow>
     (case a of (vs, fs) \<Rightarrow> \<exists>bss. list_all2 value_tokens vs bss \<and>
        (case fs of
           [] \<Rightarrow> on_stack (0, b) st (cs @ concat bss)
         | f # fs \<Rightarrow> \<exists>below outer t n pending body. open_frames (cs @ concat bss) fs outer below \<and> frame_tokens False f t n pending body \<and>
             building b st below t n (of_nat outer) pending body))"

lemma open_frames_outer: "open_frames base fs outer below \<Longrightarrow> outer \<le> length below div 16"
proof (induction rule: open_frames.induct)
  case (inner_frame base fs outer below f t n body field)
  have "length (below @ collection t n field body) = 16 * (length below div 16 + 1) + length body"
    using inner_frame.hyps(2) partial_field_length [OF inner_frame.hyps(4)] by (simp add: collection_def)
  then show ?case
    by simp
qed simp

lemma building_count:
  assumes "building b st below t n outer pending body"
  shows "16 * count st = length below + 16 + length body"
  using assms partial_field_length unfolding building_def by (fastforce simp: collection_def dest: on_stack_length)

text \<open>A complete value becomes an element of an array or the value of a member.\<close>

lemma map2_append1: "length xs = length ys \<Longrightarrow> map2 f (xs @ [x]) (ys @ [y]) = map2 f xs ys @ [f x y]"
  by simp

lemma put_value_tokens:
  assumes f: "frame_tokens child f t n pending body" and v: "value_tokens v bs" and put: "put_value v (f # fs) = Some fs'"
  shows "\<exists>f'. fs' = f' # fs \<and> frame_tokens False f' t (if child then n else Suc n) False (body @ bs)"
  using f
proof cases
  case (array_frame vs bss)
  have "frame_tokens False (Arr (vs @ [v])) SXE_JITSON_TYPE_ARRAY (length (vs @ [v]) + of_bool False) False (concat (bss @ [bs]))"
    using array_frame v by (intro frame_tokens.array_frame list_all2_appendI) simp_all
  then show ?thesis
    using array_frame put by (auto split: if_splits)
next
  case (object_frame ms kss vss)
  then show ?thesis
    using put by simp
next
  case (named_frame ms kss vss k kb)
  have "frame_tokens False (Obj (ms @ [(k, v)]) None) SXE_JITSON_TYPE_OBJECT (length (ms @ [(k, v)])) False (concat (map2 (@) (kss @ [kb]) (vss @ [bs])))"
    using named_frame v by (intro frame_tokens.object_frame) (simp_all add: list_all2_appendI)
  moreover have "length kss = length vss"
    using list_all2_lengthD [OF named_frame(6)] list_all2_lengthD [OF named_frame(7)] by simp
  ultimately show ?thesis
    using named_frame put by auto
qed

lemma frame_value_tokens:
  assumes "frame_tokens False f t n pending body" and "frame_value f = Some v"
  shows "\<not> pending \<and> value_tokens v (sized_collection t n body)"
  using assms(1)
proof cases
  case (array_frame vs bss)
  then show ?thesis
    using assms(2) tokens_array [of vs bss] by (auto simp: sized_collection_def collection_def)
next
  case (object_frame ms kss vss)
  then show ?thesis
    using assms(2) tokens_object [of ms kss vss] by (auto simp: sized_collection_def collection_def)
qed (use assms(2) in simp)

lemma under_frame:
  assumes "frame_tokens False f t n pending body" and "open_frame g (f # fs) = Some fs'"
  shows "t = SXE_JITSON_TYPE_OBJECT \<longrightarrow> pending" "frame_tokens True f t (Suc n) False body" "fs' = g # f # fs"
  using assms frame_tokens.array_frame [of _ _ True] frame_tokens.named_frame [of _ _ _ _ _ True]
  by (cases; auto simp: type_defs)+

lemma refused_frame:
  assumes "frame_tokens False f t n pending body" and "put_value v (f # fs) = None"
  shows "t = SXE_JITSON_TYPE_OBJECT" "\<not> pending"
  using assms by (cases; simp)+

lemma put_pending:
  assumes "frame_tokens False f t n pending body" and "put_value v (f # fs) = Some fs'"
  shows "t = SXE_JITSON_TYPE_OBJECT \<longrightarrow> pending"
  using assms by (cases; simp add: type_defs)

section \<open>The calls refine the machine\<close>

definition simulated :: "nat \<Rightarrow> bytes \<Rightarrow> sxe_jitson_stack \<Rightarrow> nat \<Rightarrow> (bool \<times> sxe_jitson_stack) option \<Rightarrow> (jvalue list \<times> frame list) option \<Rightarrow> bool" where
  "simulated b cs st k c r \<longleftrightarrow> (case r of None \<Rightarrow> c = None | Some a \<Rightarrow> runs c (\<lambda>(ok, st'). ok \<and> represents b cs a st' \<and> count st' \<le> count st + k))"

lemma simulated_simps [simp]:
  "simulated b cs st k c None \<longleftrightarrow> c = None"
  "simulated b cs st k c (Some a) \<longleftrightarrow> runs c (\<lambda>(ok, st'). ok \<and> represents b cs a st' \<and> count st' \<le> count st + k)"
  by (simp_all add: simulated_def)

lemma represents_open:
  assumes "represents b cs (vs, f # fs) st"
  obtains bss below outer t n pending body where "list_all2 value_tokens vs bss" "open_frames (cs @ concat bss) fs outer below"
    "frame_tokens False f t n pending body" "building b st below t n (of_nat outer) pending body" "16 * count st = length below + 16 + length body"
    "\<And>f' st' n' pending' body'. frame_tokens False f' t n' pending' body' \<Longrightarrow> building b st' below t n' (of_nat outer) pending' body' \<Longrightarrow>
      represents b cs (vs, f' # fs) st'"
  using assms building_count unfolding represents_def by (auto split: list.splits) blast

lemma represents_openI:
  assumes "list_all2 value_tokens vs bss" and "open_frames (cs @ concat bss) fs outer below" and "frame_tokens False f t n pending body"
    and "building b st below t n (of_nat outer) pending body"
  shows "represents b cs (vs, f # fs) st"
  unfolding represents_def prod.case list.case using assms by blast

lemma represents_nothing_open: "represents b cs (vs, []) st \<Longrightarrow> s_open st = 0"
  by (auto simp: represents_def on_stack_def)

lemma add_element_simulated:
  assumes rep: "represents b cs (vs, fs) st" and alloc: "ample (env_alloc env)" and v: "value_tokens v element" "length element = 16"
    and room: "16 * (count st + 1) \<le> 2 ^ 32"
  shows "simulated b cs st 1 (do { (new, st) \<leftarrow> sxe_jitson_stack_add_value env 1 et (Some element) st; Some (new \<noteq> None, st) })
    (map_option (Pair vs) (put_value v fs))"
proof (cases fs)
  case Nil
  then show ?thesis
    using not_open_refused(1) [OF represents_nothing_open] rep by simp
next
  case (Cons f fs0)
  obtain bss below outer t n pending body where r: "open_frames (cs @ concat bss) fs0 outer below"
    "frame_tokens False f t n pending body" "building b st below t n (of_nat outer) pending body" "16 * count st = length below + 16 + length body"
    "\<And>f' st' n' pending' body'. frame_tokens False f' t n' pending' body' \<Longrightarrow> building b st' below t n' (of_nat outer) pending' body' \<Longrightarrow>
      represents b cs (vs, f' # fs0) st'"
    using rep unfolding Cons by (rule represents_open) blast
  show ?thesis
  proof (cases "put_value v (f # fs0)")
    case None
    then show ?thesis
      using refused_frame [OF r(2) None] r(3) no_name_refused [of b st below n] Cons by simp
  next
    case (Some fs')
    obtain f' where f': "fs' = f' # fs0" "frame_tokens False f' t (Suc n) False (body @ element)"
      using put_value_tokens [OF r(2) v(1) Some] by auto
    have "runs (sxe_jitson_stack_add_value env 1 et (Some element) st)
        (\<lambda>(new, st'). new \<noteq> None \<and> represents b cs (vs, fs') st' \<and> count st' \<le> count st + 1)"
    proof (rule add_element_runs [OF r(3) put_pending [OF r(2) Some] alloc v(2)])
      fix idx st'
      assume b': "building b st' below t (Suc n) (of_nat outer) False (body @ element)"
      show "case (Some idx, st') of (new, st') \<Rightarrow> new \<noteq> None \<and> represents b cs (vs, fs') st' \<and> count st' \<le> count st + 1"
        using r(5) [OF f'(2) b'] f'(1) building_count [OF b'] r(4) v(2) by simp
    qed (use room r(4) in simp)
    then show ?thesis
      using Some Cons by (auto simp: runs_def)
  qed
qed

lemma string_tokens_length: "string_tokens t s bs \<Longrightarrow> length bs = 16 * (1 + (length s + 8) div 16)"
  by (simp add: string_tokens_def)

lemma string_room: "16 * (c + (1 + (n + 8) div 16)) \<le> 2 ^ 32 \<Longrightarrow> n < 2 ^ 32" for n :: nat
  by simp

lemma add_string_simulated:
  assumes rep: "represents b cs (vs, fs) st" and alloc: "ample (env_alloc env)" and flags: "flags AND SXE_JITSON_FLAG_OPTIMIZE = 0"
    and cstr: "c_string chars_at = s" and room: "16 * (count st + (1 + (length s + 8) div 16)) \<le> 2 ^ 32"
  shows "simulated b cs st (1 + (length s + 8) div 16) (sxe_jitson_stack_add_string env flags chars_at address SXE_JITSON_TYPE_IS_COPY st)
    (map_option (Pair vs) (put_value (JString s) fs))"
proof (cases fs)
  case Nil
  then show ?thesis
    using not_open_refused(2) [OF represents_nothing_open] rep by simp
next
  case (Cons f fs0)
  obtain bss below outer t n pending body where r: "open_frames (cs @ concat bss) fs0 outer below"
    "frame_tokens False f t n pending body" "building b st below t n (of_nat outer) pending body" "16 * count st = length below + 16 + length body"
    "\<And>f' st' n' pending' body'. frame_tokens False f' t n' pending' body' \<Longrightarrow> building b st' below t n' (of_nat outer) pending' body' \<Longrightarrow>
      represents b cs (vs, f' # fs0) st'"
    using rep unfolding Cons by (rule represents_open) blast
  show ?thesis
  proof (cases "put_value (JString s) (f # fs0)")
    case None
    then show ?thesis
      using refused_frame [OF r(2) None] r(3) no_name_refused [of b st below n] Cons
      by (simp add: sxe_jitson_stack_add_string_def copied_string_type SXEA1_def)
  next
    case (Some fs')
    have "runs (sxe_jitson_stack_add_string env flags chars_at address SXE_JITSON_TYPE_IS_COPY st)
        (\<lambda>(ok, st'). ok \<and> represents b cs (vs, fs') st' \<and> count st' \<le> count st + (1 + (length s + 8) div 16))"
    proof (rule add_string_runs [OF r(3) put_pending [OF r(2) Some] alloc flags cstr string_room [OF room]])
      fix st' bs
      assume b': "building b st' below t (Suc n) (of_nat outer) False (body @ bs)" and bs: "string_tokens SXE_JITSON_TYPE_STRING s bs"
      obtain f' where f': "fs' = f' # fs0" "frame_tokens False f' t (Suc n) False (body @ bs)"
        using put_value_tokens [OF r(2) tokens_string [OF bs] Some] by auto
      show "case (True, st') of (ok, st') \<Rightarrow> ok \<and> represents b cs (vs, fs') st' \<and> count st' \<le> count st + (1 + (length s + 8) div 16)"
        using r(5) [OF f'(2) b'] f'(1) building_count [OF b'] r(4) string_tokens_length [OF bs] by simp
    qed (use room r(4) in simp)
    then show ?thesis
      using Some Cons by simp
  qed
qed

lemma add_member_name_simulated:
  assumes rep: "represents b cs a st" and alloc: "ample (env_alloc env)" and cname: "c_string chars_at = k" and room: "16 * (count st + (1 + (length k + 8) div 16)) \<le> 2 ^ 32"
  shows "simulated b cs st (1 + (length k + 8) div 16) (sxe_jitson_stack_add_member_name env chars_at address SXE_JITSON_TYPE_IS_COPY st)
    (spec_call (Add_Member_Name chars_at) a)"
proof (cases a)
  case (Pair vs fs)
  show ?thesis
  proof (cases fs)
    case Nil
    then show ?thesis
      using not_open_refused(3) [OF represents_nothing_open] rep Pair by simp
  next
    case (Cons f fs0)
    obtain bss below outer t n pending body where r: "open_frames (cs @ concat bss) fs0 outer below"
      "frame_tokens False f t n pending body" "building b st below t n (of_nat outer) pending body" "16 * count st = length below + 16 + length body"
      "\<And>f' st' n' pending' body'. frame_tokens False f' t n' pending' body' \<Longrightarrow> building b st' below t n' (of_nat outer) pending' body' \<Longrightarrow>
        represents b cs (vs, f' # fs0) st'"
      using rep unfolding Cons Pair by (rule represents_open) blast
    from r(2) show ?thesis
    proof cases
      case (array_frame ws wss)
      then show ?thesis
        using name_refused(1) [OF r(3)] Pair Cons by (simp add: type_defs)
    next
      case (named_frame ms kss vss k' kb)
      then show ?thesis
        using name_refused(1) [OF r(3)] Pair Cons by simp
    next
      case (object_frame ms kss vss)
      have "runs (sxe_jitson_stack_add_member_name env chars_at address SXE_JITSON_TYPE_IS_COPY st)
          (\<lambda>(ok, st'). ok \<and> represents b cs (vs, Obj ms (Some k) # fs0) st' \<and> count st' \<le> count st + (1 + (length k + 8) div 16))"
      proof (rule add_member_name_runs [OF _ alloc cname string_room [OF room]])
        show "building b st below SXE_JITSON_TYPE_OBJECT n (of_nat outer) False body"
          using r(3) object_frame by simp
        fix st' bs
        assume b': "building b st' below SXE_JITSON_TYPE_OBJECT n (of_nat outer) True (body @ bs)" and bs: "string_tokens key_type k bs"
        have "frame_tokens False (Obj ms (Some k)) t n True (body @ bs)"
          using frame_tokens.named_frame [OF object_frame(6,7) bs, of False] object_frame by simp
        from r(5) [OF this] b'
        show "case (True, st') of (ok, st') \<Rightarrow> ok \<and> represents b cs (vs, Obj ms (Some k) # fs0) st' \<and> count st' \<le> count st + (1 + (length k + 8) div 16)"
          using object_frame building_count [OF b'] r(4) string_tokens_length [OF bs] by simp
      qed (use room r(4) in simp)
      then show ?thesis
        using object_frame Cons Pair cname by simp
    qed
  qed
qed

lemma open_simulated:
  assumes rep: "represents b cs (vs, fs) st" and alloc: "ample (env_alloc env)" and flags: "flags AND SXE_JITSON_FLAG_OPTIMIZE = 0"
    and room: "16 * (count st + 1) \<le> 2 ^ 32" and f: "frame_tokens False f t 0 False []"
  shows "simulated b cs st 1 (sxe_jitson_stack_open_collection env flags t st) (map_option (Pair vs) (open_frame f fs))"
proof -
  have t: "t \<in> {SXE_JITSON_TYPE_ARRAY, SXE_JITSON_TYPE_OBJECT}"
    using f by cases simp_all
  show ?thesis
  proof (cases fs)
    case Nil
    then obtain bss where bss: "list_all2 value_tokens vs bss" "on_stack (0, b) st (cs @ concat bss)"
      using rep by (auto simp: represents_def)
    have "runs (sxe_jitson_stack_open_collection env flags t st) (\<lambda>(ok, st'). ok \<and> represents b cs (vs, [f]) st' \<and> count st' \<le> count st + 1)"
    proof (rule open_first_runs [OF bss(2) alloc _ t flags])
      fix st'
      assume b': "building b st' (cs @ concat bss) t 0 0 False []"
      have "represents b cs (vs, [f]) st'"
        using bss(1) no_frames f by (rule represents_openI) (use b' in simp)
      then show "case (True, st') of (ok, st') \<Rightarrow> ok \<and> represents b cs (vs, [f]) st' \<and> count st' \<le> count st + 1"
        using building_count [OF b'] on_stack_length [OF bss(2)] by simp
    qed (use on_stack_length [OF bss(2)] room in simp)
    then show ?thesis
      using Nil by simp
  next
    case (Cons g fs0)
    obtain bss below outer u n pending body where r: "list_all2 value_tokens vs bss" "open_frames (cs @ concat bss) fs0 outer below"
      "frame_tokens False g u n pending body" "building b st below u n (of_nat outer) pending body" "16 * count st = length below + 16 + length body"
      using rep unfolding Cons by (rule represents_open) blast
    have low: "length below = 16 * (length below div 16)"
      using r(4) by (simp add: building_def)
    show ?thesis
    proof (cases "open_frame f (g # fs0)")
      case None
      have "u = SXE_JITSON_TYPE_OBJECT" "\<not> pending"
        using r(3) None by (cases; simp)+
      then have "sxe_jitson_stack_add_value env 0 t None st = None"
        using no_name_refused [of b st below n] r(4) by simp
      moreover have "s_open st \<noteq> 0"
        using r(4) by (auto simp: building_def on_stack_def)
      ultimately show ?thesis
        using None Cons by (simp add: sxe_jitson_stack_open_collection_def Let_def)
    next
      case (Some fs')
      note u = under_frame [OF r(3) Some]
      have "runs (sxe_jitson_stack_open_collection env flags t st) (\<lambda>(ok, st'). ok \<and> represents b cs (vs, f # g # fs0) st' \<and> count st' \<le> count st + 1)"
      proof (rule open_nested_runs [OF r(4) u(1) alloc _ t flags])
        fix st' field
        assume pf: "partial_field u (of_nat outer) False field"
          and b': "building b st' (below @ collection u (Suc n) field body) t 0 (of_nat (length below div 16 + 1)) False []"
        have "represents b cs (vs, f # g # fs0) st'"
          using r(1) inner_frame [OF r(2) low u(2) pf] f b' by (rule represents_openI)
        then show "case (True, st') of (ok, st') \<Rightarrow> ok \<and> represents b cs (vs, f # g # fs0) st' \<and> count st' \<le> count st + 1"
          using building_count [OF b'] r(5) partial_field_length [OF pf] by (simp add: collection_def)
      qed (use room r(5) in simp)
      then show ?thesis
        using Some Cons u(3) by simp
    qed
  qed
qed

lemma close_simulated:
  assumes rep: "represents b cs a st" and flags: "flags AND SXE_JITSON_FLAG_OPTIMIZE = 0" and room: "16 * count st \<le> 2 ^ 32"
  shows "simulated b cs st 0 (map_option (Pair True) (sxe_jitson_stack_close_collection env flags st)) (spec_call Close_Collection a)"
proof (cases a)
  case (Pair vs fs)
  show ?thesis
  proof (cases fs)
    case Nil
    then show ?thesis
      using not_open_refused(4) [OF represents_nothing_open] rep Pair by simp
  next
    case (Cons f fs0)
    obtain bss below outer t n pending body where r: "list_all2 value_tokens vs bss" "open_frames (cs @ concat bss) fs0 outer below"
      "frame_tokens False f t n pending body" "building b st below t n (of_nat outer) pending body" "16 * count st = length below + 16 + length body"
      using rep unfolding Cons Pair by (rule represents_open) blast
    show ?thesis
    proof (cases "frame_value f")
      case None
      have "t = SXE_JITSON_TYPE_OBJECT" "pending"
        using r(3) None by (cases; simp)+
      then show ?thesis
        using name_refused(2) [OF r(4)] None Pair Cons by simp
    next
      case (Some v)
      let ?bs = "sized_collection t n body"
      have v: "\<not> pending" "value_tokens v ?bs"
        using frame_value_tokens [OF r(3) Some] by simp_all
      have outer: "outer \<le> length below div 16"
        using r(2) by (rule open_frames_outer)
      then have "outer < 2 ^ 32"
        using r(5) room by linarith
      then have unat: "unat (of_nat outer :: u32) = outer"
        by (simp add: unat_of_nat)
      have len: "length ?bs = 16 + length body"
        by (simp add: sized_collection_def collection_def)
      let ?a = "if fs0 = [] then Some (vs @ [v], []) else map_option (Pair vs) (put_value v fs0)"
      have closed: "\<exists>a'. ?a = Some a' \<and> represents b cs a' st'" if st': "on_stack (outer, b) st' (below @ ?bs)" for st'
        using r(2)
      proof cases
        case no_frames
        have "list_all2 value_tokens (vs @ [v]) (bss @ [?bs])"
          using r(1) v(2) by (simp add: list_all2_appendI)
        moreover have "on_stack (0, b) st' (cs @ concat (bss @ [?bs]))"
          using st' no_frames by simp
        ultimately have "represents b cs (vs @ [v], []) st'"
          unfolding represents_def prod.case list.case by blast
        then show ?thesis
          using no_frames by simp
      next
        case (inner_frame fs1 outer1 below1 g u m gbody field)
        obtain g' where g': "put_value v (g # fs1) = Some (g' # fs1)" "frame_tokens False g' u m False (gbody @ ?bs)"
          using inner_frame(6) put_value_tokens [OF inner_frame(6) v(2)] by (cases; fastforce)
        have "on_stack (length below1 div 16 + 1, b) st' (below1 @ collection u m field (gbody @ ?bs))"
          using st' inner_frame(2,3) by (simp add: collection_def)
        moreover have "u \<in> {SXE_JITSON_TYPE_ARRAY, SXE_JITSON_TYPE_OBJECT}"
          using g'(2) by cases simp_all
        ultimately have "building b st' below1 u m (of_nat outer1) False (gbody @ ?bs)"
          unfolding building_def using inner_frame(5,7) by blast
        with r(1) inner_frame(4) g'(2) have "represents b cs (vs, g' # fs1) st'"
          by (rule represents_openI)
        then show ?thesis
          using g'(1) inner_frame(1) by simp
      qed
      have "runs (sxe_jitson_stack_close_collection env flags st) (\<lambda>st'. \<exists>a'. ?a = Some a' \<and> represents b cs a' st' \<and> count st' \<le> count st)"
      proof (rule close_collection_runs [OF _ flags])
        show "building b st below t n (of_nat outer) False body"
          using r(4) v(1) by simp
        fix st'
        assume "on_stack (unat (of_nat outer :: u32), b) st' (below @ ?bs)"
        then have st': "on_stack (outer, b) st' (below @ ?bs)"
          unfolding unat .
        show "\<exists>a'. ?a = Some a' \<and> represents b cs a' st' \<and> count st' \<le> count st"
          using closed [OF st'] on_stack_length [OF st'] len r(5) by auto
      qed (use outer unat in simp)
      then show ?thesis
        using Some Pair Cons by (auto simp: runs_def)
    qed
  qed
qed

lemma make_call_simulated:
  assumes "ample (env_alloc env)" and "flags AND SXE_JITSON_FLAG_OPTIMIZE = 0" and "length junk = 4" and rep: "represents b cs a st"
    and room: "count st + call_tokens c \<le> 2 ^ 28"
  shows "simulated b cs st (call_tokens c) (make_call env flags junk c st) (spec_call c a)"
proof -
  obtain vs fs where a: "a = (vs, fs)"
    by (cases a)
  note add = add_element_simulated [OF rep [unfolded a] assms(1)]
  have frames: "frame_tokens False (Arr []) SXE_JITSON_TYPE_ARRAY 0 False []" "frame_tokens False (Obj [] None) SXE_JITSON_TYPE_OBJECT 0 False []"
    using array_frame [of "[]" "[]" False] object_frame [of "[]" "[]" "[]"] by simp_all
  note opened = open_simulated [OF rep [unfolded a] assms(1,2)]
  show ?thesis
  proof (cases c)
    case Add_Null
    then show ?thesis
      using add [OF tokens_null] room a by (simp add: sxe_jitson_stack_add_null_def sxe_jitson_make_null_def)
  next
    case (Add_Bool x)
    then show ?thesis
      using add [OF tokens_bool, of x] room a by (simp add: sxe_jitson_stack_add_bool_def sxe_jitson_make_bool_def)
  next
    case (Add_Number x)
    then show ?thesis
      using add [OF tokens_number [OF assms(3)], of x] room a assms(3) by (simp add: sxe_jitson_stack_add_number_def sxe_jitson_make_number_def)
  next
    case (Add_Uint x)
    then show ?thesis
      using add [OF tokens_uint [OF assms(3)], of x] room a assms(3) by (simp add: sxe_jitson_stack_add_uint_def sxe_jitson_make_uint_def)
  next
    case (Add_String s)
    then show ?thesis
      using add_string_simulated [OF rep [unfolded a] assms(1,2) refl, of s] room a by simp
  next
    case (Add_Member_Name k)
    then show ?thesis
      using add_member_name_simulated [OF rep assms(1) refl, of k] room by simp
  next
    case Close_Collection
    then show ?thesis
      using close_simulated [OF rep assms(2)] room by simp
  next
    case Open_Array
    then show ?thesis
      using opened [OF _ frames(1)] room a by simp
  next
    case Open_Object
    then show ?thesis
      using opened [OF _ frames(2)] room a by simp
  qed
qed

text \<open>A process without optimisation whose memory is not short\<close>

definition plain_builder :: "jitson_env \<Rightarrow> u32 \<Rightarrow> bytes \<Rightarrow> bool" where
  "plain_builder env flags junk \<longleftrightarrow> ample (env_alloc env) \<and> flags AND SXE_JITSON_FLAG_OPTIMIZE = 0 \<and> length junk = 4"

interpretation builder: call_refinement spec_call "make_call env flags junk" "\<lambda>a st. plain_builder env flags junk \<and> represents b cs a st"
  count call_tokens "2 ^ 28" for env flags junk b cs
proof unfold_locales
  fix a st c
  assume "plain_builder env flags junk \<and> represents b cs a st" and "count st + call_tokens c \<le> 2 ^ 28"
  then have "simulated b cs st (call_tokens c) (make_call env flags junk c st) (spec_call c a)" and p: "plain_builder env flags junk"
    using make_call_simulated [of env flags junk b cs a st c] by (simp_all add: plain_builder_def)
  then show "case spec_call c a of None \<Rightarrow> make_call env flags junk c st = None
      | Some a' \<Rightarrow> runs (make_call env flags junk c st) (\<lambda>(ok, st').
          ok \<and> (plain_builder env flags junk \<and> represents b cs a' st') \<and> count st' \<le> count st + call_tokens c)"
    by (cases "spec_call c a") simp_all
qed

text \<open>C4: Any sequence of calls that open and close collections and add names and values to them, on a stack with room for
  their tokens, aborts on an assertion exactly when the machine of open collections refuses one of them. Otherwise every call
  succeeds, and when all collections are closed again the stack holds the tokens of the values of the machine on top of what it
  held before.\<close>

theorem make_calls_refine:
  assumes "plain_builder env flags junk" and "on_stack (0, b) st cs" and "length cs div 16 + sum_list (map call_tokens calls) \<le> 2 ^ 28"
  shows "case spec_calls calls ([], []) of
      None \<Rightarrow> make_calls env flags junk calls st = None
    | Some (vs, fs) \<Rightarrow> \<exists>st'. make_calls env flags junk calls st = Some (True, st') \<and> (s_open st' = 0 \<longleftrightarrow> fs = []) \<and>
        (fs = [] \<longrightarrow> (\<exists>bss. list_all2 value_tokens vs bss \<and> on_stack (0, b) st' (cs @ concat bss)))"
proof -
  have "represents b cs ([], []) st"
    using assms(2) by (simp add: represents_def)
  then have run: "case spec_calls calls ([], []) of
      None \<Rightarrow> make_calls env flags junk calls st = None
    | Some a \<Rightarrow> runs (make_calls env flags junk calls st) (\<lambda>(ok, st'). ok \<and> plain_builder env flags junk \<and> represents b cs a st')"
    using assms(1,3) on_stack_length [OF assms(2)] by (intro builder.run) auto
  show ?thesis
  proof (cases "spec_calls calls ([], [])")
    case None
    then show ?thesis
      using run by simp
  next
    case (Some a)
    obtain vs fs where a: "a = (vs, fs)"
      by (cases a)
    obtain st' where st': "make_calls env flags junk calls st = Some (True, st')" "represents b cs (vs, fs) st'"
      using run Some a by (auto simp: runs_def)
    have "s_open st' = 0 \<longleftrightarrow> fs = []"
      using st'(2) by (cases fs) (auto simp: represents_def building_def on_stack_def)
    moreover have "\<exists>bss. list_all2 value_tokens vs bss \<and> on_stack (0, b) st' (cs @ concat bss)" if "fs = []"
      using st'(2) that by (simp add: represents_def)
    ultimately show ?thesis
      using st'(1) Some a by simp
  qed
qed

section \<open>Constructing any value\<close>

text \<open>The calls for a value inside a collection\<close>

fun value_calls :: "jvalue \<Rightarrow> build_call list" where
  "value_calls JNull = [Add_Null]"
| "value_calls (JBool b) = [Add_Bool b]"
| "value_calls (JUint n) = [Add_Uint n]"
| "value_calls (JNumber n) = [Add_Number n]"
| "value_calls (JString s) = [Add_String s]"
| "value_calls (JArray vs) = Open_Array # concat (map value_calls vs) @ [Close_Collection]"
| "value_calls (JObject ms) = Open_Object # concat (map (\<lambda>(k, v). Add_Member_Name k # value_calls v) ms) @ [Close_Collection]"

lemma spec_run_append: "spec_run f (xs @ ys) a = Option.bind (spec_run f xs a) (spec_run f ys)"
proof (induction xs arbitrary: a)
  case (Cons x xs)
  then show ?case
    by (cases "f x a") simp_all
qed simp

text \<open>What the calls construct: \<^verbatim>\<open>strlen\<close> cuts strings and names off at a zero.\<close>

fun c_value :: "jvalue \<Rightarrow> jvalue" where
  "c_value (JString s) = JString (c_string s)"
| "c_value (JArray vs) = JArray (map c_value vs)"
| "c_value (JObject ms) = JObject (map (\<lambda>(k, v). (c_string k, c_value v)) ms)"
| "c_value v = v"

lemma elements_run:
  assumes "\<And>v fs fs'. v \<in> set ws \<Longrightarrow> put_value (c_value v) fs = Some fs' \<Longrightarrow> spec_calls (value_calls v) (vs, fs) = Some (vs, fs')"
  shows "spec_calls (concat (map value_calls ws)) (vs, Arr us # fs) = Some (vs, Arr (us @ map c_value ws) # fs)"
  using assms by (induction ws arbitrary: us) (simp_all add: spec_run_append)

lemma members_run:
  assumes "\<And>k v fs fs'. (k, v) \<in> set ms \<Longrightarrow> put_value (c_value v) fs = Some fs' \<Longrightarrow> spec_calls (value_calls v) (vs, fs) = Some (vs, fs')"
  shows "spec_calls (concat (map (\<lambda>(k, v). Add_Member_Name k # value_calls v) ms)) (vs, Obj us None # fs) =
    Some (vs, Obj (us @ map (\<lambda>(k, v). (c_string k, c_value v)) ms) None # fs)"
  using assms
proof (induction ms arbitrary: us)
  case (Cons m ms)
  obtain k v where m: "m = (k, v)"
    by (cases m)
  have "spec_calls (value_calls v) (vs, Obj us (Some (c_string k)) # fs) = Some (vs, Obj (us @ [(c_string k, c_value v)]) None # fs)"
    by (rule Cons.prems [of k]) (simp_all add: m)
  moreover have "spec_calls (concat (map (\<lambda>(k, v). Add_Member_Name k # value_calls v) ms)) (vs, Obj (us @ [(c_string k, c_value v)]) None # fs) =
      Some (vs, Obj ((us @ [(c_string k, c_value v)]) @ map (\<lambda>(k, v). (c_string k, c_value v)) ms) None # fs)"
    by (rule Cons.IH) (use Cons.prems in auto)
  ultimately show ?case
    by (simp add: m spec_run_append)
qed simp

lemma put_open: "put_value v fs = Some fs' \<Longrightarrow> fs \<noteq> [] \<and> open_frame f fs = Some (f # fs)"
  by (cases "(v, fs)" rule: put_value.cases) auto

lemma value_calls_run: "put_value (c_value v) fs = Some fs' \<Longrightarrow> spec_calls (value_calls v) (vs, fs) = Some (vs, fs')"
proof (induction v arbitrary: fs fs' rule: value_calls.induct)
  case (6 ws)
  have "spec_calls (concat (map value_calls ws)) (vs, Arr [] # fs) = Some (vs, Arr ([] @ map c_value ws) # fs)"
    by (rule elements_run) (rule "6.IH")
  then show ?case
    using put_open [OF "6.prems"] "6.prems" by (simp add: spec_run_append)
next
  case (7 ms)
  have "spec_calls (concat (map (\<lambda>(k, v). Add_Member_Name k # value_calls v) ms)) (vs, Obj [] None # fs) =
      Some (vs, Obj ([] @ map (\<lambda>(k, v). (c_string k, c_value v)) ms) None # fs)"
    by (rule members_run) (rule "7.IH", auto)
  then show ?case
    using put_open [OF "7.prems"] "7.prems" by (simp add: spec_run_append)
qed simp_all

lemma collection_calls_run:
  "spec_calls (value_calls (JArray ws)) ([], []) = Some ([c_value (JArray ws)], [])"
  "spec_calls (value_calls (JObject ms)) ([], []) = Some ([c_value (JObject ms)], [])"
  using elements_run [of ws "[]" "[]" "[]"] members_run [of ms "[]" "[]" "[]"] value_calls_run by (simp_all add: spec_run_append)

text \<open>The calls for an array or an object succeed and push its tokens.\<close>

lemma value_calls_tokens:
  assumes "plain_builder env flags junk" and "on_stack (0, b) st cs" and "length cs div 16 + sum_list (map call_tokens (value_calls v)) \<le> 2 ^ 28"
    and "(\<exists>vs. v = JArray vs) \<or> (\<exists>ms. v = JObject ms)"
  shows "\<exists>st' bs. make_calls env flags junk (value_calls v) st = Some (True, st') \<and> value_tokens (c_value v) bs \<and> on_stack (0, b) st' (cs @ bs)"
proof -
  have v: "spec_calls (value_calls v) ([], []) = Some ([c_value v], [])"
    using assms(4) collection_calls_run by auto
  have rep: "represents b cs ([], []) st"
    using assms(2) by (simp add: represents_def)
  have "count st + sum_list (map call_tokens (value_calls v)) \<le> 2 ^ 28"
    using assms(3) on_stack_length [OF assms(2)] by simp
  then have "case spec_calls (value_calls v) ([], []) of
      None \<Rightarrow> make_calls env flags junk (value_calls v) st = None
    | Some a \<Rightarrow> runs (make_calls env flags junk (value_calls v) st) (\<lambda>(ok, st'). ok \<and> plain_builder env flags junk \<and> represents b cs a st')"
    using assms(1) rep by (intro builder.run) auto
  then obtain st' where st': "make_calls env flags junk (value_calls v) st = Some (True, st')" "represents b cs ([c_value v], []) st'"
    unfolding v by (auto simp: runs_def)
  then obtain bss where "list_all2 value_tokens [c_value v] bss" "on_stack (0, b) st' (cs @ concat bss)"
    unfolding represents_def by auto
  then show ?thesis
    using st'(1) by (cases bss) auto
qed

theorem make_calls_refine_witness:
  "(\<exists>st' bs. make_calls example_env 0 [0, 0, 0, 0] [Open_Object, Add_Member_Name (ascii ''ab''), Open_Array, Add_Uint 1, Add_String (ascii ''longer than that''),
      Close_Collection, Close_Collection] example_stack = Some (True, st') \<and>
      value_tokens (JObject [(ascii ''ab'', JArray [JUint 1, JString (ascii ''longer than that'')])]) bs \<and> on_stack (0, 0) st' bs) \<and>
   make_calls example_env 0 [0, 0, 0, 0] [Open_Object, Add_Null] example_stack = None"
proof
  have p: "plain_builder example_env 0 [0, 0, 0, 0]"
    using example_env_ok(1) by (simp add: plain_builder_def)
  let ?calls = "[Open_Object, Add_Member_Name (ascii ''ab''), Open_Array, Add_Uint 1, Add_String (ascii ''longer than that''),
      Close_Collection, Close_Collection]"
  have room: "length ([] :: bytes) div 16 + sum_list (map call_tokens ?calls) \<le> 2 ^ 28" "length ([] :: bytes) div 16 + sum_list (map call_tokens [Open_Object, Add_Null]) \<le> 2 ^ 28"
    by (simp_all add: ascii_def c_string_def)
  show "\<exists>st' bs. make_calls example_env 0 [0, 0, 0, 0] ?calls example_stack = Some (True, st') \<and>
      value_tokens (JObject [(ascii ''ab'', JArray [JUint 1, JString (ascii ''longer than that'')])]) bs \<and> on_stack (0, 0) st' bs"
    using make_calls_refine [OF p example_env_ok(4) room(1)] by (auto simp: list_all2_Cons1 c_string_def ascii_def)
  show "make_calls example_env 0 [0, 0, 0, 0] [Open_Object, Add_Null] example_stack = None"
    using make_calls_refine [OF p example_env_ok(4) room(2)] by simp
qed

end
