(* ===== verification/Sxe_Jitson_Access.thy ===== *)
theory Sxe_Jitson_Access
  imports Sxe_Jitson
begin

text \<open>
  Model of the functions that read values: \<^verbatim>\<open>lib-sxe-jitson/sxe-jitson.c\<close> and the accessors of \<^verbatim>\<open>sxe-jitson-type.c\<close>. Arrays and
  objects are indexed when they are first accessed. A pointer to a value is the index of its first token in a memory of
  tokens, also where it is stored in a reference. The indices and the strings that values refer to are separate blocks. The lock around
  the construction of an index makes it one step, and what the other threads would see of it is not represented.
\<close>

section \<open>Memory\<close>

record jit_memory =
  token_bytes :: bytes
  indices :: "u64 \<Rightarrow> u32 list option"
  cstrings :: "u64 \<Rightarrow> bytes option"

text \<open>The hash function that is selected, the address that is allocated for an index of a given length (\<open>None\<close> when there is no memory
  for it), the format \<^verbatim>\<open>%.16G\<close>, and the conversions and comparisons of doubles, which are given by their bits\<close>

record jit_env =
  je_hash :: "bytes \<Rightarrow> u32"
  je_index :: "jit_memory \<Rightarrow> nat \<Rightarrow> u64 option"
  je_format :: "u64 \<Rightarrow> bytes"
  je_to_uint :: "u64 \<Rightarrow> u64"
  je_of_uint :: "u64 \<Rightarrow> u64"
  je_eq :: "u64 \<Rightarrow> u64 \<Rightarrow> bool"
  je_less :: "u64 \<Rightarrow> u64 \<Rightarrow> bool"

definition jit_type :: "jit_memory \<Rightarrow> nat \<Rightarrow> u32 option" where
  "jit_type m p = do { bs \<leftarrow> read_at (token_bytes m) (16 * p) 4; Some (le_word bs) }"

text \<open>The field that is called \<^verbatim>\<open>len\<close> or, for the name of a member, \<^verbatim>\<open>link\<close>\<close>

definition jit_len :: "jit_memory \<Rightarrow> nat \<Rightarrow> u32 option" where
  "jit_len m p = do { bs \<leftarrow> read_at (token_bytes m) (16 * p + 4) 4; Some (le_word bs) }"

text \<open>The field that is called \<^verbatim>\<open>integer\<close>, \<^verbatim>\<open>number\<close>, \<^verbatim>\<open>index\<close>, \<^verbatim>\<open>reference\<close> or \<^verbatim>\<open>jitref\<close>, and the one after the first reference\<close>

definition jit_integer :: "jit_memory \<Rightarrow> nat \<Rightarrow> u64 option" where
  "jit_integer m p = do { bs \<leftarrow> read_at (token_bytes m) (16 * p + 8) 8; Some (le_word bs) }"

definition jit_second :: "jit_memory \<Rightarrow> nat \<Rightarrow> u64 option" where
  "jit_second m p = do { bs \<leftarrow> read_at (token_bytes m) (16 * p + 16) 8; Some (le_word bs) }"

definition jit_uniform_size :: "jit_memory \<Rightarrow> nat \<Rightarrow> u32 option" where
  "jit_uniform_size m p = do { bs \<leftarrow> read_at (token_bytes m) (16 * p + 12) 4; Some (le_word bs) }"

definition jit_boolean :: "jit_memory \<Rightarrow> nat \<Rightarrow> bool option" where
  "jit_boolean m p = do { bs \<leftarrow> read_at (token_bytes m) (16 * p + 8) 1; Some (bs \<noteq> [0]) }"

definition jit_write :: "nat \<Rightarrow> bytes \<Rightarrow> jit_memory \<Rightarrow> jit_memory option" where
  "jit_write off bs m = do { tb \<leftarrow> memcpy_at (token_bytes m) off bs; Some (m\<lparr>token_bytes := tb\<rparr>) }"

definition set_jit_type :: "nat \<Rightarrow> u32 \<Rightarrow> jit_memory \<Rightarrow> jit_memory option" where
  "set_jit_type p w m = jit_write (16 * p) (le_bytes 4 w) m"

definition set_jit_len :: "nat \<Rightarrow> u32 \<Rightarrow> jit_memory \<Rightarrow> jit_memory option" where
  "set_jit_len p w m = jit_write (16 * p + 4) (le_bytes 4 w) m"

definition set_jit_integer :: "nat \<Rightarrow> u64 \<Rightarrow> jit_memory \<Rightarrow> jit_memory option" where
  "set_jit_integer p w m = jit_write (16 * p + 8) (le_bytes 8 w) m"

section \<open>References and types\<close>

definition sxe_jitson_is_reference :: "jit_memory \<Rightarrow> nat \<Rightarrow> bool option" where
  "sxe_jitson_is_reference m p = do { t \<leftarrow> jit_type m p; Some (t AND SXE_JITSON_TYPE_MASK = SXE_JITSON_TYPE_REFERENCE) }"

definition sxe_jitson_dereference :: "jit_memory \<Rightarrow> nat \<Rightarrow> nat option" where
  "sxe_jitson_dereference m p =
     do { r \<leftarrow> sxe_jitson_is_reference m p;
          if r then do { q \<leftarrow> jit_integer m p; Some (unat q) } else Some p }"

partial_function (option) sxe_jitson_get_type :: "jit_memory \<Rightarrow> nat \<Rightarrow> u32 option" where
  "sxe_jitson_get_type m p =
     do { r \<leftarrow> sxe_jitson_is_reference m p;
          if r then do { q \<leftarrow> jit_integer m p; sxe_jitson_get_type m (unat q) }
          else do { t \<leftarrow> jit_type m p; Some (t AND SXE_JITSON_TYPE_MASK) } }"

declare sxe_jitson_get_type.simps [code]

section \<open>Strings\<close>

text \<open>Where the characters of a string are: at an offset of the tokens, or at an address\<close>

datatype strptr = Inside nat | Outside u64

definition c_string_at :: "bytes \<Rightarrow> nat \<Rightarrow> bytes option" where
  "c_string_at bs off = (let s = takeWhile (\<lambda>c. c \<noteq> 0) (drop off bs) in if off + length s < length bs then Some s else None)"

text \<open>\<^verbatim>\<open>strlen\<close> and a number of characters\<close>

definition str_at :: "jit_memory \<Rightarrow> strptr \<Rightarrow> bytes option" where
  "str_at m ptr = (case ptr of Inside off \<Rightarrow> c_string_at (token_bytes m) off | Outside a \<Rightarrow> cstrings m a)"

definition chars_at :: "jit_memory \<Rightarrow> strptr \<Rightarrow> nat \<Rightarrow> bytes option" where
  "chars_at m ptr n =
     (case ptr of Inside off \<Rightarrow> read_at (token_bytes m) off n | Outside a \<Rightarrow> do { s \<leftarrow> cstrings m a; read_at (s @ [0]) 0 n })"

definition str_ptr :: "jit_memory \<Rightarrow> nat \<Rightarrow> strptr option" where
  "str_ptr m p =
     do { t \<leftarrow> jit_type m p;
          if has t SXE_JITSON_TYPE_IS_REF then do { a \<leftarrow> jit_integer m p; Some (Outside a) } else Some (Inside (16 * p + 8)) }"

text \<open>The length of a string that is referred to is stored when it is first computed.\<close>

definition jit_string_len :: "nat \<Rightarrow> jit_memory \<Rightarrow> (nat \<times> jit_memory) option" where
  "jit_string_len p m =
     do { t \<leftarrow> jit_type m p;
          ptr \<leftarrow> str_ptr m p;
          if has t SXE_JITSON_TYPE_IS_KEY then do { s \<leftarrow> str_at m ptr; Some (length s, m) }
          else do { n \<leftarrow> jit_len m p;
                    if n = 0 \<and> has t SXE_JITSON_TYPE_IS_REF
                    then do { s \<leftarrow> str_at m ptr;
                              m \<leftarrow> (if length s < 2 ^ 32 then set_jit_len p (of_nat (length s)) m else Some m);
                              Some (length s, m) }
                    else Some (unat n, m) } }"

definition jit_string_size :: "jit_memory \<Rightarrow> nat \<Rightarrow> nat option" where
  "jit_string_size m p =
     do { t \<leftarrow> jit_type m p;
          if has t SXE_JITSON_TYPE_IS_REF then Some 1
          else do { (n, _) \<leftarrow> jit_string_len p m;
                    Some (wrap32 (1 + (n + SXE_JITSON_TOKEN_SIZE - SXE_JITSON_STRING_SIZE) div SXE_JITSON_TOKEN_SIZE)) } }"

section \<open>Sizes and lengths\<close>

definition jit_size_indexed :: "jit_memory \<Rightarrow> nat \<Rightarrow> nat option" where
  "jit_size_indexed m p =
     do { t \<leftarrow> jit_type m p;
          w \<leftarrow> jit_integer m p;
          if has t SXE_JITSON_TYPE_INDEXED
          then do { n \<leftarrow> jit_len m p; ix \<leftarrow> indices m w; if unat n < length ix then Some (unat (ix ! unat n)) else None }
          else Some (unat (ucast w :: u32)) }"

definition jit_array_size :: "jit_memory \<Rightarrow> nat \<Rightarrow> nat option" where
  "jit_array_size m p =
     do { t \<leftarrow> jit_type m p;
          if has t SXE_JITSON_TYPE_IS_REF then Some 2
          else if has t SXE_JITSON_TYPE_IS_UNIF
          then do { n \<leftarrow> jit_len m p; s \<leftarrow> jit_uniform_size m p; Some (wrap32 (1 + unat n * ((unat s + 15) div 16))) }
          else jit_size_indexed m p }"

text \<open>The functions of the registered types\<close>

definition jit_size :: "jit_memory \<Rightarrow> nat \<Rightarrow> nat option" where
  "jit_size m p =
     do { t \<leftarrow> jit_type m p;
          let t = t AND SXE_JITSON_TYPE_MASK;
          if t = SXE_JITSON_TYPE_STRING then jit_string_size m p
          else if t = SXE_JITSON_TYPE_ARRAY then jit_array_size m p
          else if t = SXE_JITSON_TYPE_OBJECT then jit_size_indexed m p
          else if t \<in> {SXE_JITSON_TYPE_NULL, SXE_JITSON_TYPE_BOOL, SXE_JITSON_TYPE_NUMBER, SXE_JITSON_TYPE_REFERENCE} then Some 1
          else None }"

definition jit_type_len :: "u32 \<Rightarrow> nat \<Rightarrow> jit_memory \<Rightarrow> (nat \<times> jit_memory) option" where
  "jit_type_len t p m =
     (if t = SXE_JITSON_TYPE_STRING then jit_string_len p m
      else if t = SXE_JITSON_TYPE_ARRAY \<or> t = SXE_JITSON_TYPE_OBJECT then do { n \<leftarrow> jit_len m p; Some (unat n, m) }
      else None)"

definition sxe_jitson_len :: "nat \<Rightarrow> jit_memory \<Rightarrow> (nat \<times> jit_memory) option" where
  "sxe_jitson_len p m =
     do { t \<leftarrow> jit_type m p;
          if t AND SXE_JITSON_TYPE_MASK = SXE_JITSON_TYPE_REFERENCE
          then do { q \<leftarrow> jit_integer m p; t \<leftarrow> sxe_jitson_get_type m (unat q); jit_type_len t (unat q) m }
          else jit_type_len (t AND SXE_JITSON_TYPE_MASK) p m }"

section \<open>Simple values\<close>

definition sxe_jitson_get_string :: "jit_memory \<Rightarrow> nat \<Rightarrow> strptr option" where
  "sxe_jitson_get_string m p =
     do { p \<leftarrow> sxe_jitson_dereference m p;
          t \<leftarrow> sxe_jitson_get_type m p;
          SXEA6 (t = SXE_JITSON_TYPE_STRING);
          str_ptr m p }"

text \<open>With its length\<close>

definition get_string_len :: "nat \<Rightarrow> jit_memory \<Rightarrow> (strptr \<times> nat \<times> jit_memory) option" where
  "get_string_len p m =
     do { p \<leftarrow> sxe_jitson_dereference m p;
          t \<leftarrow> sxe_jitson_get_type m p;
          SXEA6 (t = SXE_JITSON_TYPE_STRING);
          (n, m) \<leftarrow> sxe_jitson_len p m;
          ptr \<leftarrow> str_ptr m p;
          Some (ptr, n, m) }"

definition sxe_jitson_get_bool :: "jit_memory \<Rightarrow> nat \<Rightarrow> bool option" where
  "sxe_jitson_get_bool m p =
     do { p \<leftarrow> sxe_jitson_dereference m p;
          t \<leftarrow> sxe_jitson_get_type m p;
          SXEA6 (t = SXE_JITSON_TYPE_BOOL);
          jit_boolean m p }"

text \<open>\<open>Some None\<close> is a number that the type does not have, when the functions return \<^verbatim>\<open>~0\<close> or \<^verbatim>\<open>NAN\<close> and set \<^verbatim>\<open>errno\<close>.\<close>

definition sxe_jitson_get_uint :: "jit_env \<Rightarrow> jit_memory \<Rightarrow> nat \<Rightarrow> u64 option option" where
  "sxe_jitson_get_uint env m p =
     do { p \<leftarrow> sxe_jitson_dereference m p;
          t \<leftarrow> sxe_jitson_get_type m p;
          SXEA6 (t = SXE_JITSON_TYPE_NUMBER);
          t \<leftarrow> jit_type m p;
          w \<leftarrow> jit_integer m p;
          if \<not> has t SXE_JITSON_TYPE_IS_UINT
          then let u = je_to_uint env w in Some (if \<not> je_eq env (je_of_uint env u) w then None else Some u)
          else Some (Some w) }"

definition sxe_jitson_get_number :: "jit_env \<Rightarrow> jit_memory \<Rightarrow> nat \<Rightarrow> u64 option option" where
  "sxe_jitson_get_number env m p =
     do { p \<leftarrow> sxe_jitson_dereference m p;
          t \<leftarrow> sxe_jitson_get_type m p;
          SXEA6 (t = SXE_JITSON_TYPE_NUMBER);
          t \<leftarrow> jit_type m p;
          w \<leftarrow> jit_integer m p;
          if has t SXE_JITSON_TYPE_IS_UINT
          then let number = je_of_uint env w in Some (if je_to_uint env number \<noteq> w then None else Some number)
          else Some (Some w) }"

section \<open>Arrays\<close>

text \<open>The offsets of the elements from the one at \<open>q\<close> on\<close>

fun array_offsets :: "jit_memory \<Rightarrow> nat \<Rightarrow> nat \<Rightarrow> nat \<Rightarrow> u32 list option" where
  "array_offsets m p q 0 = Some []"
| "array_offsets m p q (Suc k) =
     do { s \<leftarrow> jit_size m q; offsets \<leftarrow> array_offsets m p (q + s) k; Some (of_nat (q - p) # offsets) }"

text \<open>The index replaces the size, which is stored at its end. \<open>False\<close> when there is no memory for it\<close>

definition set_index :: "nat \<Rightarrow> u64 \<Rightarrow> u32 list \<Rightarrow> jit_memory \<Rightarrow> jit_memory option" where
  "set_index p a ix m =
     do { w \<leftarrow> jit_integer m p;
          m \<leftarrow> set_jit_integer p a (m\<lparr>indices := (indices m)(a := Some (ix @ [ucast w]))\<rparr>);
          t \<leftarrow> jit_type m p;
          set_jit_type p (t OR SXE_JITSON_TYPE_INDEXED) m }"

definition array_index :: "jit_env \<Rightarrow> nat \<Rightarrow> jit_memory \<Rightarrow> (bool \<times> jit_memory) option" where
  "array_index env p m =
     do { n \<leftarrow> jit_len m p;
          case je_index env m (unat n + 1) of
            None \<Rightarrow> Some (False, m)
          | Some a \<Rightarrow> do { ix \<leftarrow> array_offsets m p (p + 1) (unat n);
                           m \<leftarrow> set_index p a ix m;
                           w \<leftarrow> jit_integer m p;
                           SXEA1 (w \<noteq> 0);
                           Some (True, m) } }"

definition indexed_element :: "nat \<Rightarrow> nat \<Rightarrow> jit_memory \<Rightarrow> nat option" where
  "indexed_element p idx m =
     do { a \<leftarrow> jit_integer m p; ix \<leftarrow> indices m a; if idx < length ix then Some (p + unat (ix ! idx)) else None }"

text \<open>The element, or \<open>None\<close> for a null pointer: an index out of range, or no memory\<close>

partial_function (option) sxe_jitson_array_get_element :: "jit_env \<Rightarrow> nat \<Rightarrow> nat \<Rightarrow> jit_memory \<Rightarrow> (nat option \<times> jit_memory) option" where
  "sxe_jitson_array_get_element env jitson idx m =
     do { p \<leftarrow> sxe_jitson_dereference m jitson;
          n \<leftarrow> jit_len m p;
          if unat n \<le> idx then Some (None, m)
          else do { t \<leftarrow> jit_type m p;
                    if has t SXE_JITSON_TYPE_IS_REF
                    then do { array1 \<leftarrow> jit_integer m p;
                              array2 \<leftarrow> jit_second m p;
                              n1 \<leftarrow> jit_len m (unat array1);
                              if idx < unat n1 then sxe_jitson_array_get_element env (unat array1) idx m
                              else sxe_jitson_array_get_element env (unat array2) (idx - unat n1) m }
                    else if has t SXE_JITSON_TYPE_IS_UNIF
                    then do { s \<leftarrow> jit_uniform_size m p;
                              SXEA6 (unat s mod 16 = 0);
                              Some (Some (p + 1 + unat s div 16 * idx), m) }
                    else do { (ok, m) \<leftarrow> (if has t SXE_JITSON_TYPE_INDEXED then Some (True, m) else array_index env p m);
                              if \<not> ok then Some (None, m)
                              else do { q \<leftarrow> indexed_element p idx m; Some (Some q, m) } } } }"

declare sxe_jitson_array_get_element.simps [code]

section \<open>Objects\<close>

text \<open>The members from the one at \<open>q\<close> on are put at the front of the chains of their buckets.\<close>

fun object_links :: "jit_env \<Rightarrow> nat \<Rightarrow> nat \<Rightarrow> nat \<Rightarrow> u32 list \<Rightarrow> jit_memory \<Rightarrow> (u32 list \<times> jit_memory) option" where
  "object_links env p q 0 ix m = Some (ix, m)"
| "object_links env p q (Suc k) ix m =
     do { t \<leftarrow> jit_type m q;
          memlen \<leftarrow> (if has t SXE_JITSON_TYPE_IS_REF then do { ptr \<leftarrow> str_ptr m q; s \<leftarrow> str_at m ptr; Some (length s) }
                    else do { n \<leftarrow> jit_len m q; Some (unat n) });
          ptr \<leftarrow> sxe_jitson_get_string m q;
          name \<leftarrow> chars_at m ptr memlen;
          n \<leftarrow> jit_len m p;
          let bucket = unat (je_hash env name mod n);
          if length ix \<le> bucket then None
          else do { m \<leftarrow> set_jit_len q (ix ! bucket) m;
                    s \<leftarrow> jit_size m q;
                    s' \<leftarrow> jit_size m (q + s);
                    object_links env p (q + s + s') k (ix[bucket := of_nat (q - p)]) m } }"

definition object_index :: "jit_env \<Rightarrow> nat \<Rightarrow> jit_memory \<Rightarrow> (bool \<times> jit_memory) option" where
  "object_index env p m =
     do { n \<leftarrow> jit_len m p;
          case je_index env m (unat n + 1) of
            None \<Rightarrow> Some (False, m)
          | Some a \<Rightarrow> do { (ix, m) \<leftarrow> object_links env p (p + 1) (unat n) (replicate (unat n) 0) m;
                           m \<leftarrow> set_index p a ix m;
                           Some (True, m) } }"

text \<open>The value of the member with a name in a chain\<close>

partial_function (option) find_member :: "nat \<Rightarrow> u32 \<Rightarrow> bytes \<Rightarrow> jit_memory \<Rightarrow> (nat option \<times> jit_memory) option" where
  "find_member p i name m =
     (if i = 0 then Some (None, m)
      else do { let q = p + unat i;
                t \<leftarrow> sxe_jitson_get_type m q;
                SXEA6 (t = SXE_JITSON_TYPE_STRING);
                (ptr, memlen, m) \<leftarrow> get_string_len q m;
                memname \<leftarrow> (if memlen = length name then chars_at m ptr memlen else Some []);
                if memlen = length name \<and> memname = name
                then do { s \<leftarrow> jit_size m q; Some (Some (q + s), m) }
                else do { link \<leftarrow> jit_len m q; find_member p link name m } })"

declare find_member.simps [code]

text \<open>A length of 0 stands for the length of the name.\<close>

definition sxe_jitson_object_get_member :: "jit_env \<Rightarrow> nat \<Rightarrow> bytes \<Rightarrow> nat \<Rightarrow> jit_memory \<Rightarrow> (nat option \<times> jit_memory) option" where
  "sxe_jitson_object_get_member env jitson name ln m =
     do { p \<leftarrow> sxe_jitson_dereference m jitson;
          t \<leftarrow> sxe_jitson_get_type m p;
          SXEA1 (t = SXE_JITSON_TYPE_OBJECT);
          let ln = (if ln \<noteq> 0 then ln else length name);
          n \<leftarrow> jit_len m p;
          if n = 0 then Some (None, m)
          else do { t \<leftarrow> jit_type m p;
                    (ok, m) \<leftarrow> (if has t SXE_JITSON_TYPE_INDEXED then Some (True, m) else object_index env p m);
                    if \<not> ok then Some (None, m)
                    else do { name \<leftarrow> read_at (name @ [0]) 0 ln;
                              a \<leftarrow> jit_integer m p;
                              ix \<leftarrow> indices m a;
                              let bucket = unat (je_hash env name mod n);
                              if bucket < length ix then find_member p (ix ! bucket) name m else None } } }"

end
