(* ===== verification/Sxe_Jitson_Layout.thy ===== *)
theory Sxe_Jitson_Layout
  imports Sxe_Jitson_Access Sxe_Jitson_Spec
begin

text \<open>
  The layout of values in a memory of tokens: the positions of their parts, what a memory has to hold for them, and which
  changes of a memory keep a value.
\<close>

section \<open>The layout of values\<close>

text \<open>The tokens of a string, of a value, and of the parts of collections\<close>

definition ksize :: "bytes \<Rightarrow> nat" where
  "ksize s = 1 + (length s + 8) div 16"

fun vsize :: "jvalue \<Rightarrow> nat" where
  "vsize (JString s) = ksize s"
| "vsize (JArray vs) = 1 + sum_list (map vsize vs)"
| "vsize (JObject ms) = 1 + sum_list (map (\<lambda>(k, v). ksize k + vsize v) ms)"
| "vsize _ = 1"

fun elem_positions :: "nat \<Rightarrow> jvalue list \<Rightarrow> nat list" where
  "elem_positions q [] = []"
| "elem_positions q (v # vs) = q # elem_positions (q + vsize v) vs"

fun key_positions :: "nat \<Rightarrow> (bytes \<times> jvalue) list \<Rightarrow> (nat \<times> bytes) list" where
  "key_positions q [] = []"
| "key_positions q ((k, v) # ms) = (q, k) # key_positions (q + ksize k + vsize v) ms"

text \<open>All parts of a value with their positions\<close>

fun parts :: "nat \<Rightarrow> jvalue \<Rightarrow> (nat \<times> jvalue) list"
and parts_of_elements :: "nat \<Rightarrow> jvalue list \<Rightarrow> (nat \<times> jvalue) list"
and parts_of_members :: "nat \<Rightarrow> (bytes \<times> jvalue) list \<Rightarrow> (nat \<times> jvalue) list" where
  "parts p (JArray vs) = (p, JArray vs) # parts_of_elements (p + 1) vs"
| "parts p (JObject ms) = (p, JObject ms) # parts_of_members (p + 1) ms"
| "parts p v = [(p, v)]"
| "parts_of_elements q [] = []"
| "parts_of_elements q (v # vs) = parts q v @ parts_of_elements (q + vsize v) vs"
| "parts_of_members q [] = []"
| "parts_of_members q ((k, v) # ms) = parts (q + ksize k) v @ parts_of_members (q + ksize k + vsize v) ms"

text \<open>The tokens that hold a part without its own parts\<close>

fun own :: "nat \<Rightarrow> jvalue \<Rightarrow> nat set" where
  "own p (JString s) = {p..<p + ksize s}"
| "own p (JObject ms) = {p} \<union> (\<Union>(q, k) \<in> set (key_positions (p + 1) ms). {q..<q + ksize k})"
| "own p v = {p}"

lemma ksize_pos [simp]: "0 < ksize s"
  by (simp add: ksize_def)

lemma vsize_pos [simp]: "0 < vsize v"
  by (cases v) simp_all

lemma key_positions_bounds:
  "(q, k) \<in> set (key_positions p ms) \<Longrightarrow> p \<le> q \<and> q + ksize k \<le> p + sum_list (map (\<lambda>(k, v). ksize k + vsize v) ms)"
  by (induction p ms rule: key_positions.induct) fastforce+

lemma own_bounds: "own p v \<subseteq> {p..<p + vsize v}"
  by (cases v) (auto dest!: key_positions_bounds)

lemma parts_bounds:
  "(q, w) \<in> set (parts p v) \<Longrightarrow> p \<le> q \<and> q + vsize w \<le> p + vsize v"
  "(q, w) \<in> set (parts_of_elements p vs) \<Longrightarrow> p \<le> q \<and> q + vsize w \<le> p + sum_list (map vsize vs)"
  "(q, w) \<in> set (parts_of_members p ms) \<Longrightarrow> p \<le> q \<and> q + vsize w \<le> p + sum_list (map (\<lambda>(k, v). ksize k + vsize v) ms)"
  by (induction p v and p vs and p ms rule: parts_parts_of_elements_parts_of_members.induct) fastforce+

lemma own_of_members:
  "(q, w) \<in> set (parts_of_members p ms) \<Longrightarrow> (r, k) \<in> set (key_positions p ms) \<Longrightarrow> own q w \<inter> {r..<r + ksize k} = {}"
proof (induction p ms arbitrary: q w r k rule: key_positions.induct)
  case (2 p k1 v1 ms)
  have o: "own q w \<subseteq> {q..<q + vsize w}"
    by (rule own_bounds)
  consider "(q, w) \<in> set (parts (p + ksize k1) v1)" | "(q, w) \<in> set (parts_of_members (p + ksize k1 + vsize v1) ms)"
    using "2.prems"(1) by auto
  then show ?case
  proof cases
    case 1
    then have "p + ksize k1 \<le> q" "q + vsize w \<le> p + ksize k1 + vsize v1"
      by (auto dest: parts_bounds)
    then show ?thesis
      using "2.prems"(2) o by (auto dest!: key_positions_bounds)
  next
    case 2
    then have q: "p + ksize k1 + vsize v1 \<le> q"
      by (auto dest: parts_bounds)
    show ?thesis
      using "2.prems"(2) "2.IH" [OF 2] o q by auto
  qed
qed simp

lemma parts_disjoint:
  "(q1, w1) \<in> set (parts p v) \<Longrightarrow> (q2, w2) \<in> set (parts p v) \<Longrightarrow> own q1 w1 \<inter> own q2 w2 \<noteq> {} \<Longrightarrow> q1 = q2 \<and> w1 = w2"
  "(q1, w1) \<in> set (parts_of_elements p vs) \<Longrightarrow> (q2, w2) \<in> set (parts_of_elements p vs) \<Longrightarrow> own q1 w1 \<inter> own q2 w2 \<noteq> {} \<Longrightarrow> q1 = q2 \<and> w1 = w2"
  "(q1, w1) \<in> set (parts_of_members p ms) \<Longrightarrow> (q2, w2) \<in> set (parts_of_members p ms) \<Longrightarrow> own q1 w1 \<inter> own q2 w2 \<noteq> {} \<Longrightarrow> q1 = q2 \<and> w1 = w2"
proof (induction p v and p vs and p ms rule: parts_parts_of_elements_parts_of_members.induct)
  case (1 p vs)
  have "own p (JArray vs) \<inter> own q w = {}" if "(q, w) \<in> set (parts_of_elements (p + 1) vs)" for q w
    using own_bounds [of q w] parts_bounds(2) [OF that] by auto
  then show ?case
    using 1 by (auto simp: Int_commute)
next
  case (2 p ms)
  have "own p (JObject ms) \<inter> own q w = {}" if "(q, w) \<in> set (parts_of_members (p + 1) ms)" for q w
    using own_bounds [of q w] parts_bounds(3) [OF that] own_of_members [OF that] by auto
  then show ?case
    using 2 by (auto simp: Int_commute simp del: own.simps)
next
  case (5 q v vs)
  have disj: "own q1 w1 \<inter> own q2 w2 = {}" if "(q1, w1) \<in> set (parts q v)" "(q2, w2) \<in> set (parts_of_elements (q + vsize v) vs)" for q1 w1 q2 w2
    using own_bounds [of q1 w1] own_bounds [of q2 w2] parts_bounds(1) [OF that(1)] parts_bounds(2) [OF that(2)] by fastforce
  show ?case
    using "5.prems"(1,2) unfolding parts.simps parts_of_elements.simps parts_of_members.simps set_append Un_iff
    using "5.IH" "5.prems"(3) disj [of q1 w1 q2 w2] disj [of q2 w2 q1 w1] by (elim disjE) (blast+)
next
  case (7 q k v ms)
  have disj: "own q1 w1 \<inter> own q2 w2 = {}" if "(q1, w1) \<in> set (parts (q + ksize k) v)" "(q2, w2) \<in> set (parts_of_members (q + ksize k + vsize v) ms)" for q1 w1 q2 w2
    using own_bounds [of q1 w1] own_bounds [of q2 w2] parts_bounds(1) [OF that(1)] parts_bounds(3) [OF that(2)] by fastforce
  show ?case
    using "7.prems"(1,2) unfolding parts.simps parts_of_elements.simps parts_of_members.simps set_append Un_iff
    using "7.IH" "7.prems"(3) disj [of q1 w1 q2 w2] disj [of q2 w2 q1 w1] by (elim disjE) (blast+)
qed auto

text \<open>Elements and values of members are parts.\<close>

lemma elem_positions_parts:
  "i < length vs \<Longrightarrow> (elem_positions q vs ! i, vs ! i) \<in> set (parts_of_elements q vs)"
proof (induction q vs arbitrary: i rule: elem_positions.induct)
  case (2 q v vs)
  have "(q, v) \<in> set (parts q v)"
    by (cases v) simp_all
  then show ?case
    using 2 by (cases i) auto
qed simp

lemma parts_of_parts:
  "(q, w) \<in> set (parts p v) \<Longrightarrow> set (parts q w) \<subseteq> set (parts p v)"
  "(q, w) \<in> set (parts_of_elements p vs) \<Longrightarrow> set (parts q w) \<subseteq> set (parts_of_elements p vs)"
  "(q, w) \<in> set (parts_of_members p ms) \<Longrightarrow> set (parts q w) \<subseteq> set (parts_of_members p ms)"
  by (induction p v and p vs and p ms rule: parts_parts_of_elements_parts_of_members.induct) fastforce+

section \<open>Values in memory\<close>

text \<open>The type of a token, except for the flag of values that were allocated\<close>

definition typed :: "jit_memory \<Rightarrow> nat \<Rightarrow> u32 \<Rightarrow> bool" where
  "typed m p t \<longleftrightarrow> (\<exists>w. jit_type m p = Some w \<and> w AND NOT SXE_JITSON_TYPE_ALLOCED = t)"

definition string_ok :: "jit_memory \<Rightarrow> nat \<Rightarrow> bytes \<Rightarrow> bool" where
  "string_ok m p s \<longleftrightarrow> length s < 2 ^ 32 \<and> read_at (token_bytes m) (16 * p + 8) (length s + 1) = Some (s @ [0])"

definition key_ok :: "jit_memory \<Rightarrow> nat \<times> bytes \<Rightarrow> bool" where
  "key_ok m = (\<lambda>(q, k). typed m q key_type \<and> 0 \<notin> set k \<and> string_ok m q k)"

primrec chain :: "jit_memory \<Rightarrow> nat \<Rightarrow> u32 \<Rightarrow> nat list \<Rightarrow> bool" where
  "chain m p i [] \<longleftrightarrow> i = 0"
| "chain m p i (q # qs) \<longleftrightarrow> i \<noteq> 0 \<and> q = p + unat i \<and> (\<exists>l. jit_len m q = Some l \<and> chain m p l qs)"

definition bucket :: "(bytes \<Rightarrow> u32) \<Rightarrow> nat \<Rightarrow> bytes \<Rightarrow> nat" where
  "bucket h n k = unat (h k mod of_nat n)"

definition chains_ok :: "(bytes \<Rightarrow> u32) \<Rightarrow> jit_memory \<Rightarrow> nat \<Rightarrow> nat \<Rightarrow> (nat \<times> bytes) list \<Rightarrow> u32 list \<Rightarrow> bool" where
  "chains_ok h m p n ks buckets \<longleftrightarrow> length buckets = n \<and>
     (\<forall>b < n. chain m p (buckets ! b) (rev (map fst (filter (\<lambda>(q, k). bucket h n k = b) ks))))"

text \<open>A collection either has its size or an index with the size at its end.\<close>

definition collection_ok :: "jit_memory \<Rightarrow> nat \<Rightarrow> u32 \<Rightarrow> nat \<Rightarrow> nat \<Rightarrow> bool \<Rightarrow> (u32 list \<Rightarrow> bool) \<Rightarrow> bool" where
  "collection_ok m p t n sz fresh indexed \<longleftrightarrow> n < 2 ^ 32 \<and> sz < 2 ^ 32 \<and> jit_len m p = Some (of_nat n) \<and>
     (typed m p t \<and> jit_integer m p = Some (of_nat sz) \<and> fresh \<or>
      typed m p (t OR SXE_JITSON_TYPE_INDEXED) \<and>
        (\<exists>a ix. jit_integer m p = Some a \<and> indices m a = Some (ix @ [of_nat sz]) \<and> length ix = n \<and> indexed ix))"

fun token_ok :: "(bytes \<Rightarrow> u32) \<Rightarrow> jit_memory \<Rightarrow> nat \<Rightarrow> jvalue \<Rightarrow> bool" where
  "token_ok h m p JNull \<longleftrightarrow> typed m p SXE_JITSON_TYPE_NULL"
| "token_ok h m p (JBool b) \<longleftrightarrow> typed m p SXE_JITSON_TYPE_BOOL \<and> jit_boolean m p = Some b"
| "token_ok h m p (JUint n) \<longleftrightarrow> typed m p (SXE_JITSON_TYPE_NUMBER OR SXE_JITSON_TYPE_IS_UINT) \<and> jit_integer m p = Some n"
| "token_ok h m p (JNumber n) \<longleftrightarrow> typed m p SXE_JITSON_TYPE_NUMBER \<and> jit_integer m p = Some n"
| "token_ok h m p (JString s) \<longleftrightarrow> typed m p SXE_JITSON_TYPE_STRING \<and> jit_len m p = Some (of_nat (length s)) \<and> string_ok m p s"
| "token_ok h m p (JArray vs) \<longleftrightarrow>
     collection_ok m p SXE_JITSON_TYPE_ARRAY (length vs) (vsize (JArray vs)) True
       (\<lambda>ix. ix = map (\<lambda>q. of_nat (q - p)) (elem_positions (p + 1) vs))"
| "token_ok h m p (JObject ms) \<longleftrightarrow> list_all (key_ok m) (key_positions (p + 1) ms) \<and>
     collection_ok m p SXE_JITSON_TYPE_OBJECT (length ms) (vsize (JObject ms))
       (list_all (\<lambda>(q, k). jit_len m q = Some (of_nat (length k))) (key_positions (p + 1) ms))
       (chains_ok h m p (length ms) (key_positions (p + 1) ms))"

text \<open>A value is in memory when all its parts are.\<close>

definition value_at :: "(bytes \<Rightarrow> u32) \<Rightarrow> jit_memory \<Rightarrow> nat \<Rightarrow> jvalue \<Rightarrow> bool" where
  "value_at h m p v \<longleftrightarrow> list_all (\<lambda>(q, w). token_ok h m q w) (parts p v)"

lemma value_at_part: "value_at h m p v \<Longrightarrow> (q, w) \<in> set (parts p v) \<Longrightarrow> token_ok h m q w"
  by (auto simp: value_at_def list_all_iff)

lemma value_at_parts: "value_at h m p v \<Longrightarrow> (q, w) \<in> set (parts p v) \<Longrightarrow> value_at h m q w"
  using parts_of_parts(1) by (fastforce simp: value_at_def list_all_iff)

section \<open>Types and sizes\<close>

lemma typed_and:
  assumes "typed m p t" and "f AND SXE_JITSON_TYPE_ALLOCED = 0"
  obtains w where "jit_type m p = Some w" "w AND f = t AND f"
proof -
  obtain w where w: "jit_type m p = Some w" "w AND NOT SXE_JITSON_TYPE_ALLOCED = t"
    using assms(1) by (auto simp: typed_def)
  have "\<not> (bit f n \<and> bit SXE_JITSON_TYPE_ALLOCED n)" for n
    using arg_cong [OF assms(2), of "\<lambda>x. bit x n"] by (simp add: bit_simps)
  then have "f = NOT SXE_JITSON_TYPE_ALLOCED AND f"
    by (intro bit_eqI) (auto simp: bit_simps)
  then have "w AND f = t AND f"
    unfolding w(2) [symmetric] by (metis and.assoc)
  then show thesis
    using w(1) that by blast
qed

lemmas plain_masks = SXE_JITSON_TYPE_MASK_def SXE_JITSON_TYPE_ALLOCED_def

lemma typed_mask:
  assumes "typed m p t"
  obtains w where "jit_type m p = Some w" "w AND SXE_JITSON_TYPE_MASK = t AND SXE_JITSON_TYPE_MASK"
    "has w SXE_JITSON_TYPE_IS_REF = has t SXE_JITSON_TYPE_IS_REF" "has w SXE_JITSON_TYPE_IS_KEY = has t SXE_JITSON_TYPE_IS_KEY"
    "has w SXE_JITSON_TYPE_INDEXED = has t SXE_JITSON_TYPE_INDEXED" "has w SXE_JITSON_TYPE_IS_UNIF = has t SXE_JITSON_TYPE_IS_UNIF"
    "has w SXE_JITSON_TYPE_IS_UINT = has t SXE_JITSON_TYPE_IS_UINT" "(w OR SXE_JITSON_TYPE_INDEXED) AND NOT SXE_JITSON_TYPE_ALLOCED = t OR SXE_JITSON_TYPE_INDEXED"
proof -
  obtain w where w: "jit_type m p = Some w" "w AND NOT SXE_JITSON_TYPE_ALLOCED = t"
    using assms by (auto simp: typed_def)
  have f: "w AND f = t AND f" if "f AND SXE_JITSON_TYPE_ALLOCED = 0" for f
    using typed_and [OF assms that] w(1) by auto
  have "(w OR SXE_JITSON_TYPE_INDEXED) AND NOT SXE_JITSON_TYPE_ALLOCED = t OR SXE_JITSON_TYPE_INDEXED"
    unfolding w(2) [symmetric] bit.conj_disj_distrib2 by (simp add: SXE_JITSON_TYPE_INDEXED_def SXE_JITSON_TYPE_ALLOCED_def)
  then show thesis
    using w(1) f by (intro that) (simp_all add: has_def type_defs)
qed

lemma get_type_ok:
  assumes "typed m p t" and "t AND SXE_JITSON_TYPE_MASK \<noteq> SXE_JITSON_TYPE_REFERENCE"
  shows "sxe_jitson_get_type m p = Some (t AND SXE_JITSON_TYPE_MASK)" "sxe_jitson_dereference m p = Some p"
proof -
  obtain w where "jit_type m p = Some w" "w AND SXE_JITSON_TYPE_MASK = t AND SXE_JITSON_TYPE_MASK"
    using assms(1) by (rule typed_mask)
  then show "sxe_jitson_get_type m p = Some (t AND SXE_JITSON_TYPE_MASK)" "sxe_jitson_dereference m p = Some p"
    using assms(2) by (simp_all add: sxe_jitson_get_type.simps [of m p] sxe_jitson_dereference_def sxe_jitson_is_reference_def)
qed

lemma c_string_at_read:
  assumes "read_at bs off (length s + 1) = Some (s @ [0])" and "0 \<notin> set s"
  shows "c_string_at bs off = Some s"
proof -
  have "off + length s < length bs" "take (length s + 1) (drop off bs) = s @ [0]"
    using assms(1) by (auto simp: read_at_def split: if_splits)
  then have "drop off bs = s @ 0 # drop (length s + 1) (drop off bs)"
    using append_take_drop_id [of "length s + 1" "drop off bs"] by simp
  moreover have "takeWhile (\<lambda>c. c \<noteq> 0) (s @ 0 # xs) = s" for xs
    using assms(2) by (induction s) auto
  ultimately have "takeWhile (\<lambda>c. c \<noteq> 0) (drop off bs) = s"
    by metis
  then show ?thesis
    using \<open>off + length s < length bs\<close> by (simp add: c_string_at_def Let_def)
qed

lemma string_size_wrap: "n < 2 ^ 32 \<Longrightarrow> wrap32 (1 + (n + SXE_JITSON_TOKEN_SIZE - SXE_JITSON_STRING_SIZE) div SXE_JITSON_TOKEN_SIZE) = 1 + (n + 8) div 16"
  unfolding SXE_JITSON_TOKEN_SIZE_def SXE_JITSON_STRING_SIZE_def by (subst wrap32_small) simp_all

lemma key_size:
  assumes "key_ok m (q, k)"
  shows "jit_size m q = Some (ksize k)" "jit_string_len q m = Some (length k, m)" "str_ptr m q = Some (Inside (16 * q + 8))"
    "sxe_jitson_get_string m q = Some (Inside (16 * q + 8))" "sxe_jitson_get_type m q = Some SXE_JITSON_TYPE_STRING"
    "get_string_len q m = Some (Inside (16 * q + 8), length k, m)"
proof -
  have k: "typed m q key_type" "0 \<notin> set k" "string_ok m q k"
    using assms by (auto simp: key_ok_def)
  obtain w where w: "jit_type m q = Some w" "w AND SXE_JITSON_TYPE_MASK = key_type AND SXE_JITSON_TYPE_MASK"
    "has w SXE_JITSON_TYPE_IS_REF = has key_type SXE_JITSON_TYPE_IS_REF" "has w SXE_JITSON_TYPE_IS_KEY = has key_type SXE_JITSON_TYPE_IS_KEY"
    using k(1) by (rule typed_mask)
  have key: "key_type AND SXE_JITSON_TYPE_MASK = SXE_JITSON_TYPE_STRING" "\<not> has key_type SXE_JITSON_TYPE_IS_REF" "has key_type SXE_JITSON_TYPE_IS_KEY"
    "SXE_JITSON_TYPE_STRING \<noteq> SXE_JITSON_TYPE_REFERENCE"
    by (simp_all add: type_defs has_def)
  show ptr: "str_ptr m q = Some (Inside (16 * q + 8))"
    using w key by (simp add: str_ptr_def)
  have "str_at m (Inside (16 * q + 8)) = Some k"
    using c_string_at_read k(2,3) by (simp add: str_at_def string_ok_def)
  then show len: "jit_string_len q m = Some (length k, m)"
    using w key ptr by (simp add: jit_string_len_def)
  have small: "length k < 2 ^ 32"
    using k(3) by (simp add: string_ok_def)
  show "jit_size m q = Some (ksize k)"
    using w key len string_size_wrap [OF small] by (simp add: jit_size_def jit_string_size_def ksize_def Let_def)
  note gt = get_type_ok [OF k(1)]
  show "sxe_jitson_get_string m q = Some (Inside (16 * q + 8))"
    using gt key ptr by (simp add: sxe_jitson_get_string_def)
  show "sxe_jitson_get_type m q = Some SXE_JITSON_TYPE_STRING"
    using gt key by simp
  show "get_string_len q m = Some (Inside (16 * q + 8), length k, m)"
    using gt key w len ptr by (simp add: get_string_len_def sxe_jitson_len_def jit_type_len_def)
qed

lemma ucast_of_nat_size: "n < 2 ^ 32 \<Longrightarrow> (ucast (of_nat n :: u64) :: u32) = of_nat n"
  by (simp add: word_unat_eq_iff unsigned_ucast_eq unat_of_nat take_bit_eq_mod)

lemma collection_size_ok:
  assumes "collection_ok m p t n sz fresh indexed" and "\<not> has t SXE_JITSON_TYPE_INDEXED"
  shows "jit_size_indexed m p = Some sz"
proof -
  have c: "n < 2 ^ 32" "sz < 2 ^ 32" "jit_len m p = Some (of_nat n)"
    using assms(1) by (simp_all add: collection_ok_def)
  have idx: "has (t OR SXE_JITSON_TYPE_INDEXED) SXE_JITSON_TYPE_INDEXED"
  proof -
    have "(t OR SXE_JITSON_TYPE_INDEXED) AND SXE_JITSON_TYPE_INDEXED = SXE_JITSON_TYPE_INDEXED"
      by (rule bit_eqI) (auto simp: bit_simps)
    then show ?thesis
      by (simp add: has_def) (simp add: SXE_JITSON_TYPE_INDEXED_def)
  qed
  consider "typed m p t" "jit_integer m p = Some (of_nat sz)"
    | a ix where "typed m p (t OR SXE_JITSON_TYPE_INDEXED)" "jit_integer m p = Some a" "indices m a = Some (ix @ [of_nat sz])" "length ix = n"
    using assms(1) by (auto simp: collection_ok_def)
  then show ?thesis
  proof cases
    case 1
    have "unat (of_nat sz :: u32) = sz"
      using c(2) by (simp add: unat_of_nat)
    then have "unat (ucast (of_nat sz :: u64) :: u32) = sz"
      unfolding ucast_of_nat_size [OF c(2)] .
    then show ?thesis
      using 1 assms(2) by (elim typed_mask) (simp add: jit_size_indexed_def)
  next
    case 2
    have "unat (of_nat n :: u32) = n" "unat (of_nat sz :: u32) = sz"
      using c(1,2) by (simp_all add: unat_of_nat)
    then show ?thesis
      using 2 idx c(3) by (elim typed_mask) (simp add: jit_size_indexed_def nth_append)
  qed
qed

lemma token_size:
  assumes "token_ok h m p v"
  shows "jit_size m p = Some (vsize v)"
proof (cases v)
  case JNull
  then show ?thesis
    using assms by (auto elim!: typed_mask simp: jit_size_def type_defs)
next
  case (JBool b)
  then show ?thesis
    using assms by (auto elim!: typed_mask simp: jit_size_def type_defs)
next
  case (JUint n)
  then show ?thesis
    using assms by (auto elim!: typed_mask simp: jit_size_def type_defs)
next
  case (JNumber n)
  then show ?thesis
    using assms by (auto elim!: typed_mask simp: jit_size_def type_defs)
next
  case (JString s)
  then have s: "typed m p SXE_JITSON_TYPE_STRING" "jit_len m p = Some (of_nat (length s))" "length s < 2 ^ 32"
    using assms by (auto simp: string_ok_def)
  then have "unat (of_nat (length s) :: u32) = length s"
    by (simp add: unat_of_nat)
  then show ?thesis
    using s(1,2) string_size_wrap [OF s(3)] JString
    by (elim typed_mask) (simp add: jit_size_def jit_string_size_def jit_string_len_def str_ptr_def ksize_def has_def type_defs Let_def)
next
  case (JArray vs)
  then have c: "collection_ok m p SXE_JITSON_TYPE_ARRAY (length vs) (vsize v) True (\<lambda>ix. ix = map (\<lambda>q. of_nat (q - p)) (elem_positions (p + 1) vs))"
    using assms by simp
  then have "jit_size_indexed m p = Some (vsize v)"
    by (rule collection_size_ok) (simp add: has_def type_defs)
  moreover have "typed m p SXE_JITSON_TYPE_ARRAY \<or> typed m p (SXE_JITSON_TYPE_ARRAY OR SXE_JITSON_TYPE_INDEXED)"
    using c by (auto simp: collection_ok_def)
  ultimately show ?thesis
    by (auto elim!: typed_mask simp: jit_size_def jit_array_size_def has_def type_defs)
next
  case (JObject ms)
  then have c: "collection_ok m p SXE_JITSON_TYPE_OBJECT (length ms) (vsize v)
       (list_all (\<lambda>(q, k). jit_len m q = Some (of_nat (length k))) (key_positions (p + 1) ms))
       (chains_ok h m p (length ms) (key_positions (p + 1) ms))"
    using assms by simp
  then have "jit_size_indexed m p = Some (vsize v)"
    by (rule collection_size_ok) (simp add: has_def type_defs)
  moreover have "typed m p SXE_JITSON_TYPE_OBJECT \<or> typed m p (SXE_JITSON_TYPE_OBJECT OR SXE_JITSON_TYPE_INDEXED)"
    using c by (auto simp: collection_ok_def)
  ultimately show ?thesis
    by (auto elim!: typed_mask simp: jit_size_def type_defs)
qed

section \<open>Changes of memory\<close>

text \<open>Two memories agree on a set of tokens, and the second one has all indices of the first one.\<close>

definition same_on :: "nat set \<Rightarrow> jit_memory \<Rightarrow> jit_memory \<Rightarrow> bool" where
  "same_on T m m' \<longleftrightarrow> length (token_bytes m') = length (token_bytes m) \<and>
     (\<forall>i < length (token_bytes m). i div 16 \<in> T \<longrightarrow> token_bytes m' ! i = token_bytes m ! i)"

definition extends :: "jit_memory \<Rightarrow> jit_memory \<Rightarrow> bool" where
  "extends m m' \<longleftrightarrow> (\<forall>a ix. indices m a = Some ix \<longrightarrow> indices m' a = Some ix)"

lemma same_on_refl [simp]: "same_on T m m"
  by (simp add: same_on_def)

lemma extends_refl [simp]: "extends m m"
  by (simp add: extends_def)

lemma same_on_trans: "same_on T m1 m2 \<Longrightarrow> same_on T m2 m3 \<Longrightarrow> same_on T m1 m3"
  by (simp add: same_on_def)

lemma same_on_mono: "same_on T m m' \<Longrightarrow> U \<subseteq> T \<Longrightarrow> same_on U m m'"
  by (auto simp: same_on_def)

lemma read_same:
  assumes "same_on T m m'" and "\<And>i. off \<le> i \<Longrightarrow> i < off + n \<Longrightarrow> i div 16 \<in> T"
  shows "read_at (token_bytes m') off n = read_at (token_bytes m) off n"
proof (cases "off + n \<le> length (token_bytes m)")
  case True
  have "take n (drop off (token_bytes m')) = take n (drop off (token_bytes m))"
    using assms True by (intro nth_equalityI) (auto simp: same_on_def)
  then show ?thesis
    using assms(1) by (simp add: read_at_def same_on_def)
qed (use assms(1) in \<open>simp add: read_at_def same_on_def\<close>)

lemma fields_same:
  assumes "same_on T m m'" and "p \<in> T"
  shows "jit_type m' p = jit_type m p" "jit_len m' p = jit_len m p" "jit_integer m' p = jit_integer m p" "jit_boolean m' p = jit_boolean m p"
proof -
  have "read_at (token_bytes m') (16 * p + k) n = read_at (token_bytes m) (16 * p + k) n" if "k + n \<le> 16" for k n
    using assms(1)
  proof (rule read_same)
    fix i
    assume "16 * p + k \<le> i" "i < 16 * p + k + n"
    then have "i div 16 = p"
      using that by simp
    then show "i div 16 \<in> T"
      using assms(2) by simp
  qed
  from this [of 0 4] this [of 4 4] this [of 8 8] this [of 8 1]
  show "jit_type m' p = jit_type m p" "jit_len m' p = jit_len m p" "jit_integer m' p = jit_integer m p" "jit_boolean m' p = jit_boolean m p"
    by (simp_all add: jit_type_def jit_len_def jit_integer_def jit_boolean_def)
qed

lemma typed_same: "same_on T m m' \<Longrightarrow> p \<in> T \<Longrightarrow> typed m' p t = typed m p t"
  by (simp add: typed_def fields_same)

lemma string_ok_same:
  assumes "same_on T m m'" and "{p..<p + ksize s} \<subseteq> T"
  shows "string_ok m' p s = string_ok m p s"
proof -
  have "read_at (token_bytes m') (16 * p + 8) (length s + 1) = read_at (token_bytes m) (16 * p + 8) (length s + 1)"
    using assms(1)
  proof (rule read_same)
    fix i
    assume i: "16 * p + 8 \<le> i" "i < 16 * p + 8 + (length s + 1)"
    then have "p \<le> i div 16"
      by simp
    moreover have "i div 16 \<le> (16 * p + (length s + 8)) div 16"
      using i(2) by (intro div_le_mono) simp
    ultimately have "i div 16 \<in> {p..<p + ksize s}"
      by (simp add: ksize_def)
    then show "i div 16 \<in> T"
      using assms(2) by blast
  qed
  then show ?thesis
    by (simp add: string_ok_def)
qed

lemma key_ok_same: "same_on T m m' \<Longrightarrow> {q..<q + ksize k} \<subseteq> T \<Longrightarrow> key_ok m' (q, k) = key_ok m (q, k)"
  by (auto simp: key_ok_def typed_same string_ok_same subset_iff)

lemma chain_same: "(\<And>q. q \<in> set qs \<Longrightarrow> jit_len m' q = jit_len m q) \<Longrightarrow> chain m' p i qs = chain m p i qs"
  by (induction qs arbitrary: i) simp_all

lemma collection_ok_same:
  assumes "collection_ok m p t n sz fresh indexed" and "same_on {p} m m'" and "extends m m'" and "fresh \<Longrightarrow> fresh'" and "\<And>ix. indexed ix \<Longrightarrow> indexed' ix"
  shows "collection_ok m' p t n sz fresh' indexed'"
  using assms fields_same [OF assms(2), of p] typed_same [OF assms(2), of p] unfolding collection_ok_def extends_def by fastforce

lemma token_ok_same:
  assumes ok: "token_ok h m p v" and same: "same_on (own p v) m m'" and ext: "extends m m'"
  shows "token_ok h m' p v"
proof (cases v)
  case (JString s)
  then have "p \<in> own p v" "{p..<p + ksize s} \<subseteq> own p v"
    by simp_all
  then show ?thesis
    using ok fields_same [OF same] typed_same [OF same] string_ok_same [OF same] JString by simp
next
  case (JArray vs)
  then show ?thesis
    using ok collection_ok_same [OF _ _ ext, of p SXE_JITSON_TYPE_ARRAY] same by auto
next
  case (JObject ms)
  let ?ks = "key_positions (p + 1) ms"
  have p: "same_on {p} m m'"
    using same by (rule same_on_mono) (simp add: JObject)
  have keys: "{q..<q + ksize k} \<subseteq> own p v" if "(q, k) \<in> set ?ks" for q k
    using that JObject by auto
  have lens: "jit_len m' q = jit_len m q" if "(q, k) \<in> set ?ks" for q k
  proof -
    have "q \<in> own p v"
      using keys [OF that] ksize_pos [of k] by (auto simp: subset_iff)
    then show ?thesis
      by (rule fields_same [OF same])
  qed
  have "list_all (key_ok m') ?ks"
    using ok keys key_ok_same [OF same] by (auto simp: JObject list_all_iff)
  moreover have "chains_ok h m' p (length ms) ?ks ix" if "chains_ok h m p (length ms) ?ks ix" for ix
  proof -
    have "chain m' p i (rev (map fst (filter P ?ks))) = chain m p i (rev (map fst (filter P ?ks)))" for i P
      by (rule chain_same) (use lens in auto)
    then show ?thesis
      using that by (simp add: chains_ok_def)
  qed
  moreover have "list_all (\<lambda>(q, k). jit_len m' q = Some (of_nat (length k))) ?ks"
    if "list_all (\<lambda>(q, k). jit_len m q = Some (of_nat (length k))) ?ks"
    using that lens by (auto simp: list_all_iff)
  ultimately show ?thesis
    using ok collection_ok_same [OF _ p ext] by (auto simp: JObject)
qed (use ok fields_same [OF same] typed_same [OF same] in simp_all)

text \<open>A change inside a part that still holds its value keeps the whole value.\<close>

lemma own_self: "p \<in> own p v"
  by (cases v) simp_all

lemma update_part:
  assumes V: "value_at h m P V" and part: "(p, v) \<in> set (parts P V)" and same: "same_on (- own p v) m m'" and ext: "extends m m'"
    and ok: "token_ok h m' p v"
  shows "value_at h m' P V"
  unfolding value_at_def list_all_iff
proof clarify
  fix q w
  assume q: "(q, w) \<in> set (parts P V)"
  show "token_ok h m' q w"
  proof (cases "q = p \<and> w = v")
    case False
    then have "own q w \<inter> own p v = {}"
      using parts_disjoint(1) [OF q part] by blast
    then have "same_on (own q w) m m'"
      using same by (auto intro: same_on_mono)
    then show ?thesis
      using token_ok_same value_at_part [OF V q] ext by blast
  qed (use ok in simp)
qed

section \<open>Writing\<close>

lemma jit_write_ok:
  assumes "off + length bs \<le> length (token_bytes m)"
  obtains m' where "jit_write off bs m = Some m'" "length (token_bytes m') = length (token_bytes m)" "indices m' = indices m"
    "read_at (token_bytes m') off (length bs) = Some bs"
    "\<And>i. i < length (token_bytes m) \<Longrightarrow> i < off \<or> off + length bs \<le> i \<Longrightarrow> token_bytes m' ! i = token_bytes m ! i"
    "\<And>off' n. off' + n \<le> off \<or> off + length bs \<le> off' \<Longrightarrow> read_at (token_bytes m') off' n = read_at (token_bytes m) off' n"
proof -
  let ?tb = "take off (token_bytes m) @ bs @ drop (off + length bs) (token_bytes m)"
  let ?m = "m\<lparr>token_bytes := ?tb\<rparr>"
  have nth: "?tb ! i = token_bytes m ! i" if "i < length (token_bytes m)" "i < off \<or> off + length bs \<le> i" for i
    using that assms by (auto simp: nth_append)
  have len: "length ?tb = length (token_bytes m)"
    using assms by simp
  show thesis
  proof (rule that [of ?m])
    show "jit_write off bs m = Some ?m"
      using assms by (simp add: jit_write_def memcpy_at_def)
    show "read_at (token_bytes ?m) off' n = read_at (token_bytes m) off' n" if "off' + n \<le> off \<or> off + length bs \<le> off'" for off' n
    proof (cases "off' + n \<le> length (token_bytes m)")
      case True
      have "take n (drop off' ?tb) = take n (drop off' (token_bytes m))"
        by (rule nth_equalityI) (use True len nth that in auto)
      then show ?thesis
        using len by (simp add: read_at_def)
    qed (use len in \<open>simp add: read_at_def\<close>)
    show "read_at (token_bytes ?m) off (length bs) = Some bs"
      using assms by (simp add: read_at_def)
  qed (use nth len in auto)
qed

lemma write_same_on:
  assumes "length (token_bytes m') = length (token_bytes m)" and "16 * p \<le> off" and "off + n \<le> 16 * p + 16"
    and "\<And>i. i < length (token_bytes m) \<Longrightarrow> i < off \<or> off + n \<le> i \<Longrightarrow> token_bytes m' ! i = token_bytes m ! i"
  shows "same_on (- {p}) m m'"
  unfolding same_on_def
proof (intro conjI allI impI)
  fix i
  assume i: "i < length (token_bytes m)" "i div 16 \<in> - {p}"
  then have "i < off \<or> off + n \<le> i"
    using assms(2,3) by (cases "i < off") auto
  then show "token_bytes m' ! i = token_bytes m ! i"
    using assms(4) i(1) by blast
qed (use assms(1) in simp)

lemma set_index_ok:
  assumes int: "jit_integer m p = Some (of_nat sz)" and sz: "sz < 2 ^ 32" and t: "typed m p t"
  obtains m' where "set_index p a ix m = Some m'" "jit_integer m' p = Some a" "typed m' p (t OR SXE_JITSON_TYPE_INDEXED)"
    "jit_len m' p = jit_len m p" "indices m' = (indices m)(a := Some (ix @ [of_nat sz]))" "same_on (- {p}) m m'"
proof -
  let ?m = "m\<lparr>indices := (indices m)(a := Some (ix @ [of_nat sz]))\<rparr>"
  have len: "16 * p + 16 \<le> length (token_bytes m)"
    using int by (auto simp: jit_integer_def read_at_def bind_eq_Some_conv split: if_splits)
  obtain w where w: "jit_type m p = Some w" "(w OR SXE_JITSON_TYPE_INDEXED) AND NOT SXE_JITSON_TYPE_ALLOCED = t OR SXE_JITSON_TYPE_INDEXED"
    using t by (rule typed_mask)
  obtain m1 where m1: "jit_write (16 * p + 8) (le_bytes 8 a) ?m = Some m1" "length (token_bytes m1) = length (token_bytes m)"
    "indices m1 = (indices m)(a := Some (ix @ [of_nat sz]))" "read_at (token_bytes m1) (16 * p + 8) 8 = Some (le_bytes 8 a)"
    "\<And>i. i < length (token_bytes m) \<Longrightarrow> i < 16 * p + 8 \<or> 16 * p + 8 + 8 \<le> i \<Longrightarrow> token_bytes m1 ! i = token_bytes m ! i"
    "\<And>off n. off + n \<le> 16 * p + 8 \<or> 16 * p + 8 + 8 \<le> off \<Longrightarrow> read_at (token_bytes m1) off n = read_at (token_bytes m) off n"
    using jit_write_ok [of "16 * p + 8" "le_bytes 8 a" ?m] len by auto
  obtain m2 where m2: "jit_write (16 * p) (le_bytes 4 (w OR SXE_JITSON_TYPE_INDEXED)) m1 = Some m2" "length (token_bytes m2) = length (token_bytes m1)"
    "indices m2 = indices m1" "read_at (token_bytes m2) (16 * p) 4 = Some (le_bytes 4 (w OR SXE_JITSON_TYPE_INDEXED))"
    "\<And>i. i < length (token_bytes m1) \<Longrightarrow> i < 16 * p \<or> 16 * p + 4 \<le> i \<Longrightarrow> token_bytes m2 ! i = token_bytes m1 ! i"
    "\<And>off n. off + n \<le> 16 * p \<or> 16 * p + 4 \<le> off \<Longrightarrow> read_at (token_bytes m2) off n = read_at (token_bytes m1) off n"
    using jit_write_ok [of "16 * p" "le_bytes 4 (w OR SXE_JITSON_TYPE_INDEXED)" m1] len m1(2) by auto
  have t1: "jit_type m1 p = Some w"
    using w(1) m1(6) [of "16 * p" 4] by (simp add: jit_type_def)
  show thesis
  proof (rule that [of m2])
    show "set_index p a ix m = Some m2"
      using int m1(1) m2(1) t1 ucast_of_nat_size [OF sz] by (simp add: set_index_def set_jit_integer_def set_jit_type_def)
    show "jit_integer m2 p = Some a"
      using m1(4) m2(6) [of "16 * p + 8" 8] by (simp add: jit_integer_def)
    show "typed m2 p (t OR SXE_JITSON_TYPE_INDEXED)"
      using m2(4) w(2) by (simp add: typed_def jit_type_def)
    show "jit_len m2 p = jit_len m p"
      using m1(6) [of "16 * p + 4" 4] m2(6) [of "16 * p + 4" 4] by (simp add: jit_len_def)
    show "indices m2 = (indices m)(a := Some (ix @ [of_nat sz]))"
      using m1(3) m2(3) by simp
    have "same_on (- {p}) m m1"
      by (rule write_same_on [of m1 m p "16 * p + 8" 8]) (use m1(2,5) in simp_all)
    moreover have "same_on (- {p}) m1 m2"
      by (rule write_same_on [of m2 m1 p "16 * p" 4]) (use m2(2,5) in simp_all)
    ultimately show "same_on (- {p}) m m2"
      by (rule same_on_trans)
  qed
qed

end
