(* ===== verification/Sxe_Jitson_Access_Spec.thy ===== *)
theory Sxe_Jitson_Access_Spec
  imports Sxe_Jitson_Layout
begin

text \<open>
  The accessors return the parts of a value, and the indices that they construct do not change the value that a memory
  represents.
\<close>

section \<open>Elements of arrays\<close>

text \<open>New indices are at addresses of their own.\<close>

definition fresh_indices :: "jit_env \<Rightarrow> bool" where
  "fresh_indices env \<longleftrightarrow> (\<forall>m n a. je_index env m n = Some a \<longrightarrow> a \<noteq> 0 \<and> indices m a = None)"

text \<open>The index of a part has been built.\<close>

definition is_indexed :: "jit_memory \<Rightarrow> nat \<Rightarrow> bool" where
  "is_indexed m p \<longleftrightarrow> (\<exists>w. jit_type m p = Some w \<and> has w SXE_JITSON_TYPE_INDEXED)"

definition index_step :: "nat \<Rightarrow> jvalue \<Rightarrow> jit_memory \<Rightarrow> jit_memory \<Rightarrow> bool" where
  "index_step p v m m' \<longleftrightarrow> \<not> is_indexed m p \<and> is_indexed m' p \<and> (\<exists>a. dom (indices m') = insert a (dom (indices m))) \<and> same_on (- own p v) m m'"

lemma typed_indexed:
  "typed m p (t OR SXE_JITSON_TYPE_INDEXED) \<Longrightarrow> t \<in> {SXE_JITSON_TYPE_ARRAY, SXE_JITSON_TYPE_OBJECT} \<Longrightarrow> is_indexed m p"
  "typed m p t \<Longrightarrow> t \<in> {SXE_JITSON_TYPE_ARRAY, SXE_JITSON_TYPE_OBJECT} \<Longrightarrow> \<not> is_indexed m p"
  by (elim typed_mask; force simp: is_indexed_def has_def type_defs)+

lemma length_elem_positions [simp]: "length (elem_positions q vs) = length vs"
  by (induction q vs rule: elem_positions.induct) simp_all

lemma array_offsets_ok:
  assumes "\<And>i. i < length vs \<Longrightarrow> jit_size m (elem_positions q vs ! i) = Some (vsize (vs ! i))"
  shows "array_offsets m p q (length vs) = Some (map (\<lambda>r. of_nat (r - p)) (elem_positions q vs))"
  using assms
proof (induction q vs rule: elem_positions.induct)
  case (2 q v vs)
  have "jit_size m (elem_positions (q + vsize v) vs ! i) = Some (vsize (vs ! i))" if "i < length vs" for i
    using "2.prems" [of "Suc i"] that by simp
  with "2.IH" show ?case
    using "2.prems" [of 0] by simp
qed simp

lemma elem_position_bounds: "i < length vs \<Longrightarrow> q \<le> elem_positions q vs ! i \<and> elem_positions q vs ! i + vsize (vs ! i) \<le> q + sum_list (map vsize vs)"
  using elem_positions_parts [of i vs q] parts_bounds(2) by blast

lemma array_index_ok:
  assumes V: "value_at h m P V" and part: "(p, JArray vs) \<in> set (parts P V)" and env: "fresh_indices env"
    and t: "typed m p SXE_JITSON_TYPE_ARRAY" and a: "je_index env m (length vs + 1) = Some a"
  obtains m' where "array_index env p m = Some (True, m')" "value_at h m' P V" "typed m' p (SXE_JITSON_TYPE_ARRAY OR SXE_JITSON_TYPE_INDEXED)"
    "index_step p (JArray vs) m m'"
proof -
  have c: "length vs < 2 ^ 32" "vsize (JArray vs) < 2 ^ 32" "jit_len m p = Some (of_nat (length vs))" "jit_integer m p = Some (of_nat (vsize (JArray vs)))"
  proof -
    have "\<not> typed m p (SXE_JITSON_TYPE_ARRAY OR SXE_JITSON_TYPE_INDEXED)"
      using t by (auto simp: typed_def) (simp add: type_defs)
    then show "length vs < 2 ^ 32" "vsize (JArray vs) < 2 ^ 32" "jit_len m p = Some (of_nat (length vs))" "jit_integer m p = Some (of_nat (vsize (JArray vs)))"
      using value_at_part [OF V part] by (auto simp: collection_ok_def)
  qed
  let ?ix = "map (\<lambda>q. of_nat (q - p)) (elem_positions (p + 1) vs) :: u32 list"
  have "jit_size m (elem_positions (p + 1) vs ! i) = Some (vsize (vs ! i))" if "i < length vs" for i
  proof (rule token_size)
    have "(elem_positions (p + 1) vs ! i, vs ! i) \<in> set (parts p (JArray vs))"
      using elem_positions_parts [OF that] by simp
    then show "token_ok h m (elem_positions (p + 1) vs ! i) (vs ! i)"
      using parts_of_parts(1) [OF part] value_at_part [OF V] by blast
  qed
  then have offs: "array_offsets m p (p + 1) (length vs) = Some ?ix"
    by (rule array_offsets_ok)
  have fresh: "a \<noteq> 0" "indices m a = None"
    using env a by (auto simp: fresh_indices_def)
  have n: "unat (of_nat (length vs) :: u32) = length vs"
    using c(1) by (simp add: unat_of_nat)
  obtain m' where m': "set_index p a ?ix m = Some m'" "jit_integer m' p = Some a" "typed m' p (SXE_JITSON_TYPE_ARRAY OR SXE_JITSON_TYPE_INDEXED)"
    "jit_len m' p = jit_len m p" "indices m' = (indices m)(a := Some (?ix @ [of_nat (vsize (JArray vs))]))" "same_on (- {p}) m m'"
    using set_index_ok [OF c(4,2) t] by blast
  have "value_at h m' P V"
    using V part
  proof (rule update_part)
    show "extends m m'"
      using m'(5) fresh(2) by (auto simp: extends_def)
    show "token_ok h m' p (JArray vs)"
      using c m'(2-5) by (simp add: collection_ok_def)
  qed (use m'(6) in simp)
  moreover have "array_index env p m = Some (True, m')"
    using c(3) n a offs m'(1,2) fresh(1) by (simp add: array_index_def)
  moreover have "index_step p (JArray vs) m m'"
    using typed_indexed t m'(3,5,6) by (auto simp: index_step_def)
  ultimately show thesis
    using m'(3) that by blast
qed

lemma offset_back:
  assumes "p \<le> q" and "q - p < 2 ^ 32"
  shows "p + unat (of_nat (q - p) :: u32) = q"
proof -
  obtain d where "q = p + d"
    using assms(1) by (auto simp: le_iff_add)
  then show ?thesis
    using assms(2) by (simp add: unat_of_nat)
qed

lemma indexed_element_ok:
  assumes "token_ok h m p (JArray vs)" and "typed m p (SXE_JITSON_TYPE_ARRAY OR SXE_JITSON_TYPE_INDEXED)" and "i < length vs"
  shows "indexed_element p i m = Some (elem_positions (p + 1) vs ! i)"
proof -
  have "\<not> typed m p SXE_JITSON_TYPE_ARRAY"
    using assms(2) by (auto simp: typed_def) (simp add: type_defs)
  then obtain a where a: "jit_integer m p = Some a" "vsize (JArray vs) < 2 ^ 32"
    "indices m a = Some (map (\<lambda>q. of_nat (q - p)) (elem_positions (p + 1) vs) @ [of_nat (vsize (JArray vs))])"
    using assms(1) by (auto simp: collection_ok_def)
  let ?q = "elem_positions (p + 1) vs ! i"
  have "p + 1 \<le> ?q" "?q + vsize (vs ! i) \<le> p + 1 + sum_list (map vsize vs)"
    using elem_position_bounds [OF assms(3), of "p + 1"] by simp_all
  then have "p \<le> ?q" "?q - p < 2 ^ 32"
    using a(2) vsize_pos [of "vs ! i"] by simp_all
  then have "p + unat (of_nat (?q - p) :: u32) = ?q"
    by (rule offset_back)
  then show ?thesis
    using a(1,3) assms(3) by (simp add: indexed_element_def nth_append del: of_nat_diff)
qed

lemma array_get_element_result:
  assumes "value_at h m P V" and "(p, JArray vs) \<in> set (parts P V)" and "fresh_indices env"
  shows "\<exists>res m'. sxe_jitson_array_get_element env p i m = Some (res, m') \<and> value_at h m' P V \<and> (m' = m \<or> index_step p (JArray vs) m m') \<and>
    (case res of
       Some q \<Rightarrow> i < length vs \<and> (q, vs ! i) \<in> set (parts P V)
     | None \<Rightarrow> m' = m \<and> (i \<ge> length vs \<or> typed m p SXE_JITSON_TYPE_ARRAY \<and> je_index env m (length vs + 1) = None))"
proof -
  have c: "length vs < 2 ^ 32" "jit_len m p = Some (of_nat (length vs))"
    "typed m p SXE_JITSON_TYPE_ARRAY \<or> typed m p (SXE_JITSON_TYPE_ARRAY OR SXE_JITSON_TYPE_INDEXED)"
    using value_at_part [OF assms(1,2)] by (auto simp: collection_ok_def)
  have n: "unat (of_nat (length vs) :: u32) = length vs"
    using c(1) by (simp add: unat_of_nat)
  have deref: "sxe_jitson_dereference m p = Some p"
    using c(3) by (elim disjE) (rule get_type_ok(2), assumption, simp add: type_defs)+
  note get = sxe_jitson_array_get_element.simps [of env p i m]
  show ?thesis
  proof (cases "i < length vs")
    case False
    then show ?thesis
      using get deref c(2) n assms(1) by simp
  next
    case True
    have elem: "(elem_positions (p + 1) vs ! i, vs ! i) \<in> set (parts P V)"
      using parts_of_parts(1) [OF assms(2)] elem_positions_parts [OF True] by auto
    have found: "indexed_element p i m' = Some (elem_positions (p + 1) vs ! i)"
      if "value_at h m' P V" "typed m' p (SXE_JITSON_TYPE_ARRAY OR SXE_JITSON_TYPE_INDEXED)" for m'
      using indexed_element_ok value_at_part [OF that(1) assms(2)] that(2) True by blast
    from c(3) show ?thesis
    proof
      assume t: "typed m p (SXE_JITSON_TYPE_ARRAY OR SXE_JITSON_TYPE_INDEXED)"
      then show ?thesis
        using found [OF assms(1) t] True elem assms(1) deref c(2) n
        by (elim typed_mask) (simp add: get has_def type_defs)
    next
      assume t: "typed m p SXE_JITSON_TYPE_ARRAY"
      show ?thesis
      proof (cases "je_index env m (length vs + 1)")
        case None
        then have "array_index env p m = Some (False, m)"
          using c(2) n by (simp add: array_index_def)
        moreover obtain w where "jit_type m p = Some w" "\<not> has w SXE_JITSON_TYPE_IS_REF" "\<not> has w SXE_JITSON_TYPE_IS_UNIF"
            "\<not> has w SXE_JITSON_TYPE_INDEXED"
          using t by (elim typed_mask) (simp add: has_def type_defs)
        ultimately show ?thesis
          using t True assms(1) deref c(2) n None by (simp add: get)
      next
        case (Some a)
        obtain m' where m': "array_index env p m = Some (True, m')" "value_at h m' P V" "typed m' p (SXE_JITSON_TYPE_ARRAY OR SXE_JITSON_TYPE_INDEXED)"
          "index_step p (JArray vs) m m'"
          using array_index_ok [OF assms t Some] by blast
        then show ?thesis
          using found [OF m'(2,3)] t True elem deref c(2) n by (elim typed_mask) (simp add: get has_def type_defs)
      qed
    qed
  qed
qed

text \<open>C9: Wherever an array is a part of a value in memory, also when other parts of the value have been accessed before, its
  elements are returned by their index, an index that is out of range and a failure to allocate the index that is built
  on first access give a null pointer, and the memory still represents the whole value.\<close>

theorem array_get_element_correct:
  assumes "value_at h m P V" and "(p, JArray vs) \<in> set (parts P V)" and "fresh_indices env"
  shows "\<exists>res m'. sxe_jitson_array_get_element env p i m = Some (res, m') \<and> value_at h m' P V \<and>
    (case res of
       Some q \<Rightarrow> i < length vs \<and> (q, vs ! i) \<in> set (parts P V)
     | None \<Rightarrow> m' = m \<and> (i \<ge> length vs \<or> typed m p SXE_JITSON_TYPE_ARRAY \<and> je_index env m (length vs + 1) = None))"
  using array_get_element_result [OF assms, of i] by blast

section \<open>Members of objects\<close>

lemma key_positions_disjoint:
  "(q1, k1) \<in> set (key_positions p ms) \<Longrightarrow> (q2, k2) \<in> set (key_positions p ms) \<Longrightarrow> q2 \<in> {q1..<q1 + ksize k1} \<Longrightarrow> q1 = q2 \<and> k1 = k2"
proof (induction p ms rule: key_positions.induct)
  case (2 p k v ms)
  have after: "p + ksize k + vsize v \<le> q" if "(q, j) \<in> set (key_positions (p + ksize k + vsize v) ms)" for q j
    using key_positions_bounds [OF that] by simp
  consider "(q1, k1) = (p, k)" | "(q2, k2) = (p, k)" | "(q1, k1) \<in> set (key_positions (p + ksize k + vsize v) ms)"
      "(q2, k2) \<in> set (key_positions (p + ksize k + vsize v) ms)"
    using "2.prems"(1,2) by auto
  then show ?case
  proof cases
    case 3
    then show ?thesis
      using "2.IH" "2.prems"(3) by blast
  qed (use "2.prems" after [of q1 k1] after [of q2 k2] ksize_pos [of k] in auto)
qed simp

text \<open>Linking the name of a member\<close>

lemma link_ok:
  assumes q: "(q, k) \<in> set ks" and keys: "list_all (key_ok m) ks"
    and disj: "\<And>r j. (r, j) \<in> set ks \<Longrightarrow> q \<in> {r..<r + ksize j} \<Longrightarrow> r = q \<and> j = k"
  obtains m' where "set_jit_len q w m = Some m'" "jit_len m' q = Some w" "indices m' = indices m" "same_on (- {q}) m m'" "list_all (key_ok m') ks"
proof -
  have k: "key_ok m (q, k)"
    using q keys by (auto simp: list_all_iff)
  then have len: "16 * q + 8 \<le> length (token_bytes m)"
    by (auto simp: key_ok_def string_ok_def read_at_def split: if_splits)
  obtain m' where m': "jit_write (16 * q + 4) (le_bytes 4 w) m = Some m'" "length (token_bytes m') = length (token_bytes m)" "indices m' = indices m"
    "read_at (token_bytes m') (16 * q + 4) 4 = Some (le_bytes 4 w)"
    "\<And>i. i < length (token_bytes m) \<Longrightarrow> i < 16 * q + 4 \<or> 16 * q + 4 + 4 \<le> i \<Longrightarrow> token_bytes m' ! i = token_bytes m ! i"
    "\<And>off n. off + n \<le> 16 * q + 4 \<or> 16 * q + 4 + 4 \<le> off \<Longrightarrow> read_at (token_bytes m') off n = read_at (token_bytes m) off n"
    using jit_write_ok [of "16 * q + 4" "le_bytes 4 w" m] len by auto
  have same: "same_on (- {q}) m m'"
    by (rule write_same_on [of m' m q "16 * q + 4" 4]) (use m'(2,5) in simp_all)
  have "key_ok m' (r, j)" if r: "(r, j) \<in> set ks" for r j
  proof (cases "r = q \<and> j = k")
    case True
    then show ?thesis
      using k m'(6) [of "16 * q" 4] m'(6) [of "16 * q + 8" "length k + 1"] by (simp add: key_ok_def typed_def jit_type_def string_ok_def)
  next
    case False
    then have "{r..<r + ksize j} \<subseteq> - {q}"
      using disj [OF r] by blast
    then show ?thesis
      using key_ok_same [OF same, of r j] r keys by (auto simp: list_all_iff)
  qed
  then have "list_all (key_ok m') ks"
    by (auto simp: list_all_iff)
  moreover have "set_jit_len q w m = Some m'" "jit_len m' q = Some w"
    using m'(1,4) by (simp_all add: set_jit_len_def jit_len_def)
  ultimately show thesis
    using m'(3) same that by blast
qed

lemma length_key_positions [simp]: "length (key_positions q ms) = length ms"
  by (induction q ms rule: key_positions.induct) simp_all

lemma chains_ok_insert:
  assumes "chains_ok h m p n ks ix" and "\<And>r. r \<in> fst ` set ks \<Longrightarrow> jit_len m' r = jit_len m r"
    and "b = bucket h n k" and "b < n" and "jit_len m' q = Some (ix ! b)" and "p < q" and "q - p < 2 ^ 32"
  shows "chains_ok h m' p n (ks @ [(q, k)]) (ix[b := of_nat (q - p)])"
  unfolding chains_ok_def
proof (intro conjI allI impI)
  show "length (ix[b := of_nat (q - p)]) = n"
    using assms(1) by (simp add: chains_ok_def)
  fix c
  assume c: "c < n"
  have old: "chain m' p (ix ! c) (rev (map fst (filter (\<lambda>(q, k). bucket h n k = c) ks)))"
  proof -
    have "chain m' p (ix ! c) (rev (map fst (filter (\<lambda>(q, k). bucket h n k = c) ks))) =
        chain m p (ix ! c) (rev (map fst (filter (\<lambda>(q, k). bucket h n k = c) ks)))"
      by (rule chain_same) (rule assms(2), force)
    then show ?thesis
      using assms(1) c by (simp add: chains_ok_def)
  qed
  have len: "length ix = n"
    using assms(1) by (simp add: chains_ok_def)
  show "chain m' p (ix[b := of_nat (q - p)] ! c) (rev (map fst (filter (\<lambda>(q, k). bucket h n k = c) (ks @ [(q, k)]))))"
  proof (cases "c = b")
    case True
    have "unat (of_nat (q - p) :: u32) = q - p"
      using assms(7) by (simp add: unat_of_nat)
    then have "(of_nat (q - p) :: u32) \<noteq> 0" "q = p + unat (of_nat (q - p) :: u32)"
      using assms(6) by auto
    then show ?thesis
      using True old assms(3,5) c len by (simp del: of_nat_diff)
  next
    case False
    then show ?thesis
      using old assms(3) by simp
  qed
qed

lemma string_read:
  assumes "string_ok m q k"
  shows "chars_at m (Inside (16 * q + 8)) (length k) = Some k"
proof -
  have "read_at (token_bytes m) (16 * q + 8) (length k + 1) = Some (k @ [0])"
    using assms by (simp add: string_ok_def)
  then have "16 * q + 8 + length k \<le> length (token_bytes m)" "take (length k + 1) (drop (16 * q + 8) (token_bytes m)) = k @ [0]"
    by (auto simp: read_at_def split: if_splits)
  note bounds = this
  from arg_cong [OF bounds(2), of "take (length k)"]
  have "take (length k) (drop (16 * q + 8) (token_bytes m)) = k"
    by (simp add: min_absorb1)
  then show ?thesis
    using bounds(1) by (simp add: chars_at_def read_at_def)
qed

lemma member_name_read: "key_ok m (q, k) \<Longrightarrow> chars_at m (Inside (16 * q + 8)) (length k) = Some k"
  by (simp add: key_ok_def string_read)

lemma bucket_less: "0 < n \<Longrightarrow> n < 2 ^ 32 \<Longrightarrow> bucket h n k < n"
  by (simp add: bucket_def unat_mod unat_of_nat)

lemma object_links_ok:
  fixes ms :: "(bytes \<times> jvalue) list" and before :: "(nat \<times> bytes) list"
  assumes "list_all (key_ok m) (before @ key_positions q ms)"
    and "list_all (\<lambda>(r, k). jit_len m r = Some (of_nat (length k))) (key_positions q ms)"
    and "\<And>r w. (r, w) \<in> set (parts_of_members q ms) \<Longrightarrow> token_ok h m r w"
    and "chains_ok h m p n before ix" and "jit_len m p = Some (of_nat n)"
    and "\<And>r k. (r, k) \<in> set before \<Longrightarrow> r + ksize k \<le> q" and "p < q"
    and "q + sum_list (map (\<lambda>(k, v). ksize k + vsize v) ms) - p < 2 ^ 32" and n: "0 < n" "n < 2 ^ 32" and h: "h = je_hash env"
  shows "\<exists>ix' m'. object_links env p q (length ms) ix m = Some (ix', m') \<and> chains_ok h m' p n (before @ key_positions q ms) ix' \<and>
    list_all (key_ok m') (before @ key_positions q ms) \<and> same_on (- fst ` set (key_positions q ms)) m m' \<and> indices m' = indices m"
  using assms(1-8)
proof (induction q ms arbitrary: m ix before rule: key_positions.induct)
  case (1 q)
  then show ?case
    by simp
next
  case (2 q k v ms)
  let ?q = "q + ksize k + vsize v"
  let ?ks = "before @ key_positions q ((k, v) # ms)"
  have key: "key_ok m (q, k)" "jit_len m q = Some (of_nat (length k))"
    using "2.prems"(1,2) by simp_all
  have small: "length k < 2 ^ 32"
    using key(1) by (simp add: key_ok_def string_ok_def)
  then have n_k: "unat (of_nat (length k) :: u32) = length k"
    by (simp add: unat_of_nat)
  obtain w where w: "jit_type m q = Some w" "\<not> has w SXE_JITSON_TYPE_IS_REF"
    using key(1) by (auto simp: key_ok_def has_def type_defs elim!: typed_mask)
  define b where "b = bucket h n k"
  have b: "b < n" "unat (je_hash env k mod of_nat n) = b"
    using bucket_less [OF n] h by (simp_all add: b_def bucket_def)
  have ix: "length ix = n"
    using "2.prems"(4) by (simp add: chains_ok_def)
  have disj: "r = q \<and> j = k" if "(r, j) \<in> set ?ks" "q \<in> {r..<r + ksize j}" for r j
    using that "2.prems"(6) [of r j] key_positions_bounds [of r j ?q ms] ksize_pos [of k] by auto
  have in_ks: "(q, k) \<in> set ?ks"
    by simp
  obtain m1 where m1: "set_jit_len q (ix ! b) m = Some m1" "jit_len m1 q = Some (ix ! b)" "indices m1 = indices m" "same_on (- {q}) m m1"
      "list_all (key_ok m1) ?ks"
    by (rule link_ok [OF in_ks "2.prems"(1) disj, where w = "ix ! b"])
  have ext: "extends m m1"
    using m1(3) by (simp add: extends_def)
  have parts: "token_ok h m1 r u" if "(r, u) \<in> set (parts_of_members q ((k, v) # ms))" for r u
  proof (rule token_ok_same [OF "2.prems"(3) [OF that] _ ext])
    have "own r u \<inter> {q..<q + ksize k} = {}"
      using own_of_members [OF that, of q k] by simp
    then show "same_on (own r u) m m1"
      using m1(4) by (auto intro: same_on_mono)
  qed
  have len_same: "jit_len m1 r = jit_len m r" if "r \<noteq> q" for r
    using fields_same(2) [OF m1(4)] that by simp
  have sizes: "jit_size m1 q = Some (ksize k)" "jit_size m1 (q + ksize k) = Some (vsize v)"
  proof -
    show "jit_size m1 q = Some (ksize k)"
      using key_size(1) m1(5) by simp
    have "(q + ksize k, v) \<in> set (parts (q + ksize k) v)"
      by (cases v) simp_all
    then show "jit_size m1 (q + ksize k) = Some (vsize v)"
      using parts by (intro token_size [of h]) simp
  qed
  have "\<exists>ix' m'. object_links env p ?q (length ms) (ix[b := of_nat (q - p)]) m1 = Some (ix', m') \<and>
      chains_ok h m' p n ((before @ [(q, k)]) @ key_positions ?q ms) ix' \<and> list_all (key_ok m') ((before @ [(q, k)]) @ key_positions ?q ms) \<and>
      same_on (- fst ` set (key_positions ?q ms)) m1 m' \<and> indices m' = indices m1"
  proof (rule "2.IH")
    show "list_all (key_ok m1) ((before @ [(q, k)]) @ key_positions ?q ms)"
      using m1(5) by simp
    have "r \<noteq> q" if "(r, j) \<in> set (key_positions ?q ms)" for r j
      using key_positions_bounds [OF that] ksize_pos [of k] by linarith
    then show "list_all (\<lambda>(r, k). jit_len m1 r = Some (of_nat (length k))) (key_positions ?q ms)"
      using "2.prems"(2) len_same by (fastforce simp: list_all_iff)
    show "token_ok h m1 r u" if "(r, u) \<in> set (parts_of_members ?q ms)" for r u
      using parts that by simp
    show "chains_ok h m1 p n (before @ [(q, k)]) (ix[b := of_nat (q - p)])"
    proof (rule chains_ok_insert [OF "2.prems"(4) _ b_def b(1) m1(2) "2.prems"(7)])
      show "jit_len m1 r = jit_len m r" if "r \<in> fst ` set before" for r
      proof (rule len_same)
        obtain j where "(r, j) \<in> set before"
          using \<open>r \<in> fst ` set before\<close> by auto
        then have "r + ksize j \<le> q"
          by (rule "2.prems"(6))
        then show "r \<noteq> q"
          using ksize_pos [of j] by linarith
      qed
      show "q - p < 2 ^ 32"
        using "2.prems"(8) by simp
    qed
    show "jit_len m1 p = Some (of_nat n)"
      using "2.prems"(5,7) len_same [of p] by simp
    show "r + ksize j \<le> ?q" if "(r, j) \<in> set (before @ [(q, k)])" for r j
      using that "2.prems"(6) [of r j] by auto
    show "p < ?q" "?q + sum_list (map (\<lambda>(k, v). ksize k + vsize v) ms) - p < 2 ^ 32"
      using "2.prems"(7,8) by (simp_all add: add.assoc)
  qed
  then obtain ix' m' where r: "object_links env p ?q (length ms) (ix[b := of_nat (q - p)]) m1 = Some (ix', m')"
      "chains_ok h m' p n ?ks ix'" "list_all (key_ok m') ?ks" "same_on (- fst ` set (key_positions ?q ms)) m1 m'" "indices m' = indices m"
    using m1(3) by auto
  have "same_on (- fst ` set (key_positions q ((k, v) # ms))) m m'"
    using m1(4) r(4) by (intro same_on_trans [of _ m m1 m'] same_on_mono [OF m1(4)] same_on_mono [OF r(4)]) auto
  moreover have "object_links env p q (length ((k, v) # ms)) ix m = Some (ix', m')"
    using w key(2) n_k key_size(4) [OF key(1)] member_name_read [OF key(1)] "2.prems"(5) b ix m1(1) sizes r(1)
    by (simp add: Let_def del: of_nat_diff)
  ultimately show ?case
    using r(2,3,5) by blast
qed

lemma object_index_ok:
  assumes V: "value_at h m P V" and part: "(p, JObject ms) \<in> set (parts P V)" and env: "fresh_indices env" and h: "h = je_hash env"
    and t: "typed m p SXE_JITSON_TYPE_OBJECT" and a: "je_index env m (length ms + 1) = Some a" and ms: "ms \<noteq> []"
  obtains m' where "object_index env p m = Some (True, m')" "value_at h m' P V" "typed m' p (SXE_JITSON_TYPE_OBJECT OR SXE_JITSON_TYPE_INDEXED)"
    "index_step p (JObject ms) m m'"
proof -
  let ?ks = "key_positions (p + 1) ms" and ?v = "JObject ms"
  have ok: "token_ok h m p ?v"
    using V part by (rule value_at_part)
  have "\<not> typed m p (SXE_JITSON_TYPE_OBJECT OR SXE_JITSON_TYPE_INDEXED)"
    using t by (auto simp: typed_def) (simp add: type_defs)
  then have c: "length ms < 2 ^ 32" "vsize ?v < 2 ^ 32" "jit_len m p = Some (of_nat (length ms))" "jit_integer m p = Some (of_nat (vsize ?v))"
    "list_all (\<lambda>(q, k). jit_len m q = Some (of_nat (length k))) ?ks" "list_all (key_ok m) ?ks"
    using ok by (auto simp: collection_ok_def)
  have n: "unat (of_nat (length ms) :: u32) = length ms"
    using c(1) by (simp add: unat_of_nat)
  have "\<exists>ix m1. object_links env p (p + 1) (length ms) (replicate (length ms) 0) m = Some (ix, m1) \<and> chains_ok h m1 p (length ms) ([] @ ?ks) ix \<and>
      list_all (key_ok m1) ([] @ ?ks) \<and> same_on (- fst ` set ?ks) m m1 \<and> indices m1 = indices m"
  proof (rule object_links_ok [OF _ c(5) _ _ c(3) _ _ _ _ c(1) h])
    show "token_ok h m r w" if "(r, w) \<in> set (parts_of_members (p + 1) ms)" for r w
      using value_at_part [OF value_at_parts [OF V part]] that by simp
  qed (use c(2,6) ms in \<open>auto simp: chains_ok_def\<close>)
  then obtain ix m1 where m1: "object_links env p (p + 1) (length ms) (replicate (length ms) 0) m = Some (ix, m1)" "chains_ok h m1 p (length ms) ?ks ix"
      "list_all (key_ok m1) ?ks" "same_on (- fst ` set ?ks) m m1" "indices m1 = indices m"
    by auto
  have key: "q \<noteq> p" if "(q, k) \<in> set ?ks" for q k
    using key_positions_bounds [OF that] by simp
  then have "p \<in> - fst ` set ?ks"
    by force
  then have p: "jit_integer m1 p = Some (of_nat (vsize ?v))" "typed m1 p SXE_JITSON_TYPE_OBJECT" "jit_len m1 p = Some (of_nat (length ms))"
    using fields_same [OF m1(4)] typed_same [OF m1(4)] c(3,4) t by simp_all
  obtain m' where m': "set_index p a ix m1 = Some m'" "jit_integer m' p = Some a" "typed m' p (SXE_JITSON_TYPE_OBJECT OR SXE_JITSON_TYPE_INDEXED)"
    "jit_len m' p = jit_len m1 p" "indices m' = (indices m1)(a := Some (ix @ [of_nat (vsize ?v)]))" "same_on (- {p}) m1 m'"
    using set_index_ok [OF p(1) c(2) p(2)] by blast
  have len: "jit_len m' q = jit_len m1 q" if "(q, k) \<in> set ?ks" for q k
    using fields_same(2) [OF m'(6), of q] key [OF that] by simp
  have "list_all (key_ok m') ?ks"
  proof -
    have "key_ok m' (q, k)" if "(q, k) \<in> set ?ks" for q k
    proof -
      have "{q..<q + ksize k} \<subseteq> - {p}"
        using key_positions_bounds [OF that] by auto
      then show ?thesis
        using key_ok_same [OF m'(6), of q k] m1(3) that by (auto simp: list_all_iff)
    qed
    then show ?thesis
      by (auto simp: list_all_iff)
  qed
  moreover have "chains_ok h m' p (length ms) ?ks ix"
  proof -
    have "chain m' p i (rev (map fst (filter Q ?ks))) = chain m1 p i (rev (map fst (filter Q ?ks)))" for i Q
      by (rule chain_same) (use len in auto)
    then show ?thesis
      using m1(2) by (simp add: chains_ok_def)
  qed
  moreover have "length ix = length ms"
    using m1(2) by (simp add: chains_ok_def)
  ultimately have "token_ok h m' p ?v"
    using c(1,2) m'(2-5) p(3) by (simp add: collection_ok_def)
  moreover have same: "same_on (- own p ?v) m m'"
  proof (rule same_on_trans [OF same_on_mono [OF m1(4)] same_on_mono [OF m'(6)]])
    have "q \<in> own p ?v" if "(q, k) \<in> set ?ks" for q k
      using that ksize_pos [of k] by force
    then show "- own p ?v \<subseteq> - fst ` set ?ks"
      by auto
  qed auto
  moreover have "extends m m'"
    using m'(5) m1(5) env a by (auto simp: extends_def fresh_indices_def)
  ultimately have "value_at h m' P V"
    using update_part [OF V part] by blast
  moreover have "object_index env p m = Some (True, m')"
    using c(3) n a m1(1) m'(1) by (simp add: object_index_def)
  moreover have "index_step p ?v m m'"
    using typed_indexed t m'(3,5) m1(5) same by (auto simp: index_step_def)
  ultimately show thesis
    using m'(3) that by blast
qed

text \<open>The last member of a name is the first one in the chain of its bucket.\<close>

lemma find_member_ok:
  assumes "chain m p i (map fst cs)" and "list_all (key_ok m) cs"
  shows "find_member p i name m = Some (map_option (\<lambda>q. q + ksize name) (map_of (map (\<lambda>(q, k). (k, q)) cs) name), m)"
  using assms
proof (induction cs arbitrary: i)
  case Nil
  then show ?case
    by (simp add: find_member.simps [of p 0])
next
  case (Cons c cs)
  obtain q k where c: "c = (q, k)"
    by (cases c)
  obtain l where l: "i \<noteq> 0" "q = p + unat i" "jit_len m q = Some l" "chain m p l (map fst cs)"
    using Cons.prems(1) c by auto
  have key: "key_ok m (q, k)" "list_all (key_ok m) cs"
    using Cons.prems(2) c by simp_all
  note k = key_size [OF key(1)] member_name_read [OF key(1)]
  show ?case
    using l k Cons.IH [OF l(4) key(2)] c by (cases "length k = length name") (auto simp: find_member.simps [of p i] Let_def)
qed

lemma map_of_filter_key: "P k \<Longrightarrow> map_of (filter (\<lambda>(j, _). P j) xs) k = map_of xs k"
  by (induction xs) auto

lemma last_member:
  "case map_of (rev (map (\<lambda>(q, k). (k, q)) (key_positions r ms))) name of
     None \<Rightarrow> map_of (rev ms) name = None
   | Some q \<Rightarrow> \<exists>v. map_of (rev ms) name = Some v \<and> (q + ksize name, v) \<in> set (parts_of_members r ms)"
proof (induction r ms rule: key_positions.induct)
  case (2 r k v ms)
  have "(r + ksize k, v) \<in> set (parts (r + ksize k) v)"
    by (cases v) simp_all
  then show ?case
    using "2.IH" by (auto simp: map_add_def split: option.splits)
qed simp

text \<open>The lookup in the chain of the bucket of a name\<close>

definition look_up :: "jit_env \<Rightarrow> nat \<Rightarrow> u32 \<Rightarrow> bytes \<Rightarrow> jit_memory \<Rightarrow> (nat option \<times> jit_memory) option" where
  "look_up env p n name m =
     do { a \<leftarrow> jit_integer m p;
          ix \<leftarrow> indices m a;
          if unat (je_hash env name mod n) < length ix then find_member p (ix ! unat (je_hash env name mod n)) name m else None }"

lemma look_up_ok:
  assumes ok: "token_ok (je_hash env) m p (JObject ms)" and t: "typed m p (SXE_JITSON_TYPE_OBJECT OR SXE_JITSON_TYPE_INDEXED)" and ms: "ms \<noteq> []"
  shows "look_up env p (of_nat (length ms)) name m =
    Some (map_option (\<lambda>q. q + ksize name) (map_of (rev (map (\<lambda>(q, k). (k, q)) (key_positions (p + 1) ms))) name), m)"
proof -
  let ?h = "je_hash env" and ?ks = "key_positions (p + 1) ms"
  have "\<not> typed m p SXE_JITSON_TYPE_OBJECT"
    using t by (auto simp: typed_def) (simp add: type_defs)
  then obtain a ix where ix: "jit_integer m p = Some a" "length ms < 2 ^ 32" "indices m a = Some (ix @ [of_nat (vsize (JObject ms))])" "length ix = length ms"
      "chains_ok ?h m p (length ms) ?ks ix" "list_all (key_ok m) ?ks"
    using ok by (auto simp: collection_ok_def)
  define b where "b = bucket ?h (length ms) name"
  have b: "b < length ms"
    unfolding b_def using ms ix(2) by (intro bucket_less) auto
  let ?cs = "rev (filter (\<lambda>(q, k). bucket ?h (length ms) k = b) ?ks)"
  have "chain m p (ix ! b) (map fst ?cs)"
    using ix(5) b by (simp add: chains_ok_def rev_map)
  moreover have "list_all (key_ok m) ?cs"
    using ix(6) by (auto simp: list_all_iff)
  ultimately have "find_member p (ix ! b) name m = Some (map_option (\<lambda>q. q + ksize name) (map_of (map (\<lambda>(q, k). (k, q)) ?cs) name), m)"
    by (rule find_member_ok)
  moreover have "map (\<lambda>(q, k). (k, q)) ?cs = filter (\<lambda>(k, _). bucket ?h (length ms) k = b) (rev (map (\<lambda>(q, k). (k, q)) ?ks))"
    by (simp add: rev_map rev_filter filter_map o_def case_prod_unfold)
  ultimately show ?thesis
    using ix(1,3,4) b map_of_filter_key [of "\<lambda>k. bucket ?h (length ms) k = b" name "rev (map (\<lambda>(q, k). (k, q)) ?ks)"]
    by (simp add: look_up_def b_def [symmetric] bucket_def [symmetric] nth_append)
qed

lemma object_get_member_result:
  assumes "value_at (je_hash env) m P V" and "(p, JObject ms) \<in> set (parts P V)" and "fresh_indices env"
  shows "\<exists>res m'. sxe_jitson_object_get_member env p name 0 m = Some (res, m') \<and> value_at (je_hash env) m' P V \<and>
    (m' = m \<or> index_step p (JObject ms) m m') \<and> (is_indexed m' p \<or> ms = [] \<or> je_index env m (length ms + 1) = None) \<and>
    (case res of
       Some q \<Rightarrow> \<exists>v. map_of (rev ms) name = Some v \<and> (q, v) \<in> set (parts P V)
     | None \<Rightarrow> map_of (rev ms) name = None \<or> m' = m \<and> typed m p SXE_JITSON_TYPE_OBJECT \<and> je_index env m (length ms + 1) = None)"
proof -
  let ?h = "je_hash env" and ?ks = "key_positions (p + 1) ms"
  have c: "length ms < 2 ^ 32" "jit_len m p = Some (of_nat (length ms))"
    "typed m p SXE_JITSON_TYPE_OBJECT \<or> typed m p (SXE_JITSON_TYPE_OBJECT OR SXE_JITSON_TYPE_INDEXED)"
    using value_at_part [OF assms(1,2)] by (auto simp: collection_ok_def)
  have n: "unat (of_nat (length ms) :: u32) = length ms"
    using c(1) by (simp add: unat_of_nat)
  have gt: "sxe_jitson_dereference m p = Some p" "sxe_jitson_get_type m p = Some SXE_JITSON_TYPE_OBJECT"
    using c(3) get_type_ok [of m p SXE_JITSON_TYPE_OBJECT] get_type_ok [of m p "SXE_JITSON_TYPE_OBJECT OR SXE_JITSON_TYPE_INDEXED"]
    by (auto simp: type_defs)
  have name: "read_at (name @ [0]) 0 (length name) = Some name"
    by (simp add: read_at_def)
  have get: "sxe_jitson_object_get_member env p name 0 m =
      (if ms = [] then Some (None, m)
       else do { t \<leftarrow> jit_type m p;
                 (ok, m) \<leftarrow> (if has t SXE_JITSON_TYPE_INDEXED then Some (True, m) else object_index env p m);
                 if \<not> ok then Some (None, m) else look_up env p (of_nat (length ms)) name m })"
  proof -
    have "(of_nat (length ms) :: u32) = 0 \<longleftrightarrow> unat (of_nat (length ms) :: u32) = 0"
      by (rule unsigned_eq_0_iff [symmetric])
    then have "(of_nat (length ms) :: u32) = 0 \<longleftrightarrow> ms = []"
      unfolding n by simp
    then show ?thesis
      using gt name c(2) by (simp add: sxe_jitson_object_get_member_def look_up_def Let_def cong: if_cong)
  qed
  show ?thesis
  proof (cases "ms = []")
    case True
    then show ?thesis
      using get assms(1) by simp
  next
    case False
    have found: "\<exists>res. look_up env p (of_nat (length ms)) name m' = Some (res, m') \<and>
        (case res of Some q \<Rightarrow> \<exists>v. map_of (rev ms) name = Some v \<and> (q, v) \<in> set (parts P V) | None \<Rightarrow> map_of (rev ms) name = None)"
      if "value_at ?h m' P V" "typed m' p (SXE_JITSON_TYPE_OBJECT OR SXE_JITSON_TYPE_INDEXED)" for m'
    proof -
      have "set (parts_of_members (p + 1) ms) \<subseteq> set (parts P V)"
        using parts_of_parts(1) [OF assms(2)] by simp
      then show ?thesis
        using look_up_ok [OF value_at_part [OF that(1) assms(2)] that(2) False, of name] last_member [where r = "p + 1" and ms = ms and name = name]
        by (auto split: option.splits)
    qed
    from c(3) show ?thesis
    proof
      assume t: "typed m p (SXE_JITSON_TYPE_OBJECT OR SXE_JITSON_TYPE_INDEXED)"
      obtain w where "jit_type m p = Some w" "has w SXE_JITSON_TYPE_INDEXED"
        using t by (elim typed_mask) (simp add: has_def type_defs)
      then have eq: "sxe_jitson_object_get_member env p name 0 m = look_up env p (of_nat (length ms)) name m"
        using False by (simp add: get)
      show ?thesis
        using found [OF assms(1) t] assms(1) typed_indexed(1) [OF t] unfolding eq by (fastforce split: option.splits)
    next
      assume t: "typed m p SXE_JITSON_TYPE_OBJECT"
      obtain w where w: "jit_type m p = Some w" "\<not> has w SXE_JITSON_TYPE_INDEXED"
        using t by (elim typed_mask) (simp add: has_def type_defs)
      show ?thesis
      proof (cases "je_index env m (length ms + 1)")
        case None
        then have "object_index env p m = Some (False, m)"
          using c(2) n by (simp add: object_index_def)
        then show ?thesis
          using t w False None assms(1) by (simp add: get)
      next
        case (Some a)
        obtain m' where m': "object_index env p m = Some (True, m')" "value_at ?h m' P V" "typed m' p (SXE_JITSON_TYPE_OBJECT OR SXE_JITSON_TYPE_INDEXED)"
          "index_step p (JObject ms) m m'"
          using object_index_ok [OF assms(1-3) refl t Some False] by blast
        then have eq: "sxe_jitson_object_get_member env p name 0 m = look_up env p (of_nat (length ms)) name m'"
          using w False by (simp add: get)
        show ?thesis
          using found [OF m'(2,3)] m'(2,4) typed_indexed(1) [OF m'(3)] unfolding eq by (fastforce split: option.splits)
      qed
    qed
  qed
qed

text \<open>C6: Wherever an object is a part of a value in memory, the value of its last member with a name is returned by that
  name, an unknown name and a failure to allocate the index that is built on first access give a null pointer, and the
  memory still represents the whole value.\<close>

theorem object_get_member_correct:
  assumes "value_at (je_hash env) m P V" and "(p, JObject ms) \<in> set (parts P V)" and "fresh_indices env"
  shows "\<exists>res m'. sxe_jitson_object_get_member env p name 0 m = Some (res, m') \<and> value_at (je_hash env) m' P V \<and>
    (case res of
       Some q \<Rightarrow> \<exists>v. map_of (rev ms) name = Some v \<and> (q, v) \<in> set (parts P V)
     | None \<Rightarrow> map_of (rev ms) name = None \<or> m' = m \<and> typed m p SXE_JITSON_TYPE_OBJECT \<and> je_index env m (length ms + 1) = None)"
  using object_get_member_result [OF assms, of name] by blast

section \<open>Parsed and constructed values\<close>

text \<open>Names without the character 0, which would end them\<close>

fun names_ok :: "jvalue \<Rightarrow> bool" where
  "names_ok (JArray vs) \<longleftrightarrow> list_all names_ok vs"
| "names_ok (JObject ms) \<longleftrightarrow> list_all (\<lambda>(k, v). 0 \<notin> set k \<and> names_ok v) ms"
| "names_ok _ \<longleftrightarrow> True"

abbreviation memory_of :: "bytes \<Rightarrow> jit_memory" where
  "memory_of bs \<equiv> \<lparr>token_bytes = bs, indices = (\<lambda>_. None), cstrings = (\<lambda>_. None)\<rparr>"

lemma field_at:
  assumes "length pre = 16 * p"
  shows "jit_type (memory_of (pre @ le_bytes 4 t @ post)) p = Some t"
    "length a = 4 \<Longrightarrow> jit_len (memory_of (pre @ a @ le_bytes 4 n @ post)) p = Some n"
    "length a = 4 \<Longrightarrow> length b = 4 \<Longrightarrow> jit_integer (memory_of (pre @ a @ b @ le_bytes 8 w @ post)) p = Some w"
    "length a = 4 \<Longrightarrow> length b = 4 \<Longrightarrow> jit_boolean (memory_of (pre @ a @ b @ c # post)) p = Some (c \<noteq> 0)"
  using assms read_at_middle [of pre "16 * p" "le_bytes 4 t" 4 post] read_at_middle [of "pre @ a" "16 * p + 4" "le_bytes 4 n" 4 post]
    read_at_middle [of "pre @ a @ b" "16 * p + 8" "le_bytes 8 w" 8 post] read_at_middle [of "pre @ a @ b" "16 * p + 8" "[c]" 1 post]
  by (simp_all add: jit_type_def jit_len_def jit_integer_def jit_boolean_def)

lemma typed_at:
  assumes "length pre = 16 * p" and "t AND NOT SXE_JITSON_TYPE_ALLOCED = t"
  shows "typed (memory_of (pre @ le_bytes 4 t @ post)) p t"
  using field_at(1) [OF assms(1)] assms(2) by (simp add: typed_def)

lemma plain_type:
  "t \<in> {SXE_JITSON_TYPE_NULL, SXE_JITSON_TYPE_BOOL, SXE_JITSON_TYPE_NUMBER, SXE_JITSON_TYPE_NUMBER OR SXE_JITSON_TYPE_IS_UINT,
     SXE_JITSON_TYPE_STRING, key_type, SXE_JITSON_TYPE_ARRAY, SXE_JITSON_TYPE_OBJECT} \<Longrightarrow> t AND NOT SXE_JITSON_TYPE_ALLOCED = t"
  by (auto simp: type_defs)

lemma string_tokens_at:
  assumes s: "string_tokens t s bs" and pre: "length pre = 16 * p" and t: "t \<in> {SXE_JITSON_TYPE_STRING, key_type}" and len: "length bs < 2 ^ 32"
  shows "length bs = 16 * ksize s" "typed (memory_of (pre @ bs @ post)) p t" "jit_len (memory_of (pre @ bs @ post)) p = Some (of_nat (length s))"
    "string_ok (memory_of (pre @ bs @ post)) p s"
proof -
  obtain junk where bs: "bs = le_bytes 4 t @ le_bytes 4 (of_nat (length s) :: u32) @ s @ 0 # junk" and l: "length bs = 16 * ksize s"
    using s by (auto simp: string_tokens_def string_bytes_def ksize_def)
  show "length bs = 16 * ksize s"
    by (rule l)
  show "typed (memory_of (pre @ bs @ post)) p t"
    using typed_at [OF pre plain_type] t bs by auto
  show "jit_len (memory_of (pre @ bs @ post)) p = Some (of_nat (length s))"
    using field_at(2) [OF pre, of "le_bytes 4 t"] bs by simp
  have "read_at (pre @ bs @ post) (16 * p + 8) (length s + 1) = Some (s @ [0])"
    using read_at_middle [of "pre @ le_bytes 4 t @ le_bytes 4 (of_nat (length s) :: u32)" "16 * p + 8" "s @ [0]" "length s + 1" "junk @ post"] pre bs
    by simp
  moreover have "length s < 2 ^ 32"
    using len bs by simp
  ultimately show "string_ok (memory_of (pre @ bs @ post)) p s"
    by (simp add: string_ok_def)
qed

text \<open>The tokens of a value hold the value wherever they are.\<close>

definition held :: "(bytes \<Rightarrow> u32) \<Rightarrow> jvalue \<Rightarrow> bytes \<Rightarrow> bool" where
  "held h v bs \<longleftrightarrow> length bs = 16 * vsize v \<and>
     (length bs < 2 ^ 32 \<longrightarrow> names_ok v \<longrightarrow> (\<forall>pre post p. length pre = 16 * p \<longrightarrow> value_at h (memory_of (pre @ bs @ post)) p v))"

lemma held_elements:
  assumes "list_all2 (held h) vs bss"
  shows "length (concat bss) = 16 * sum_list (map vsize vs)"
    "length (concat bss) < 2 ^ 32 \<Longrightarrow> list_all names_ok vs \<Longrightarrow> length pre = 16 * q \<Longrightarrow>
      list_all (\<lambda>(r, w). token_ok h (memory_of (pre @ concat bss @ post)) r w) (parts_of_elements q vs)"
  using assms
proof (induction arbitrary: pre q rule: list_all2_induct)
  case Nil
  { case 1 show ?case by simp }
  { case 2 show ?case by simp }
next
  case (Cons v vs bs bss)
  have v: "length bs = 16 * vsize v"
    using Cons.hyps(1) by (simp add: held_def)
  { case 1 show ?case using Cons.IH(1) v by simp }
  { case 2
    have "value_at h (memory_of (pre @ bs @ concat bss @ post)) q v"
      using Cons.hyps(1) 2 by (simp add: held_def)
    moreover have "list_all (\<lambda>(r, w). token_ok h (memory_of ((pre @ bs) @ concat bss @ post)) r w) (parts_of_elements (q + vsize v) vs)"
      using 2 v by (intro Cons.IH(2)) simp_all
    ultimately show ?case
      by (simp add: value_at_def) }
qed

lemma length_concat_map2:
  assumes "list_all2 (string_tokens key_type) (map fst ms) kss" and "list_all2 (held h) (map snd ms) vss"
  shows "length (concat (map2 (@) kss vss)) = 16 * sum_list (map (\<lambda>(k, v). ksize k + vsize v) ms)"
  using assms
  by (induction ms arbitrary: kss vss) (auto simp: list_all2_Cons1 held_def string_tokens_def ksize_def)

lemma held_members:
  assumes "list_all2 (string_tokens key_type) (map fst ms) kss" and "list_all2 (held h) (map snd ms) vss"
    and "length (concat (map2 (@) kss vss)) < 2 ^ 32" and "list_all (\<lambda>(k, v). 0 \<notin> set k \<and> names_ok v) ms" and "length pre = 16 * q"
  shows "list_all (\<lambda>(r, w). token_ok h (memory_of (pre @ concat (map2 (@) kss vss) @ post)) r w) (parts_of_members q ms) \<and>
    list_all (key_ok (memory_of (pre @ concat (map2 (@) kss vss) @ post))) (key_positions q ms) \<and>
    list_all (\<lambda>(r, k). jit_len (memory_of (pre @ concat (map2 (@) kss vss) @ post)) r = Some (of_nat (length k))) (key_positions q ms)"
  using assms
proof (induction ms arbitrary: kss vss pre q)
  case (Cons mem ms)
  obtain k v where mem: "mem = (k, v)"
    by (cases mem)
  obtain kb kss' vb vss' where ks: "kss = kb # kss'" "vss = vb # vss'" "string_tokens key_type k kb" "held h v vb"
      "list_all2 (string_tokens key_type) (map fst ms) kss'" "list_all2 (held h) (map snd ms) vss'"
    using Cons.prems(1,2) mem by (auto simp: list_all2_Cons1)
  let ?rest = "concat (map2 (@) kss' vss')"
  have small: "length kb < 2 ^ 32" "length vb < 2 ^ 32" "length ?rest < 2 ^ 32"
    using Cons.prems(3) ks(1,2) by simp_all
  note key = string_tokens_at(2-4) [OF ks(3) Cons.prems(5) _ small(1), where post = "vb @ ?rest @ post"]
  have len: "length kb = 16 * ksize k" "length vb = 16 * vsize v"
    using string_tokens_at(1) [OF ks(3) Cons.prems(5) _ small(1)] ks(4) by (simp_all add: held_def)
  have "value_at h (memory_of ((pre @ kb) @ vb @ ?rest @ post)) (q + ksize k) v"
    using ks(4) small(2) Cons.prems(4,5) mem len unfolding held_def by (auto simp del: append_assoc)
  then have v: "list_all (\<lambda>(r, w). token_ok h (memory_of (pre @ kb @ vb @ ?rest @ post)) r w) (parts (q + ksize k) v)"
    by (simp add: value_at_def)
  have k: "key_ok (memory_of (pre @ kb @ vb @ ?rest @ post)) (q, k)"
    using key Cons.prems(4) mem by (simp add: key_ok_def)
  have "length (pre @ kb @ vb) = 16 * (q + ksize k + vsize v)"
    using Cons.prems(5) len by simp
  from Cons.IH [OF ks(5,6) small(3) _ this] show ?case
    using Cons.prems(4) v k key(2) mem ks(1,2) by simp
qed simp

lemma collection_tokens_at:
  assumes t: "t \<in> {SXE_JITSON_TYPE_ARRAY, SXE_JITSON_TYPE_OBJECT}" and pre: "length pre = 16 * p" and size: "length body = 16 * b" and len: "16 + length body < 2 ^ 32"
    and n: "n \<le> b" and fresh: "fresh"
  shows "collection_ok (memory_of (pre @ sized_collection t n body @ post)) p t n (1 + b) fresh indexed"
proof -
  let ?m = "memory_of (pre @ sized_collection t n body @ post)"
  have "typed ?m p t"
    using typed_at [OF pre plain_type, of t] t by (auto simp: sized_collection_def collection_def)
  moreover have "jit_len ?m p = Some (of_nat n)"
    using field_at(2) [OF pre, of "le_bytes 4 t" "of_nat n"] by (simp add: sized_collection_def collection_def)
  moreover have "jit_integer ?m p = Some (of_nat (1 + b))"
    using field_at(3) [OF pre, of "le_bytes 4 t" "le_bytes 4 (of_nat n :: u32)" "of_nat (1 + b)"] size
    by (simp add: sized_collection_def collection_def)
  ultimately show ?thesis
    using len size n fresh by (simp add: collection_ok_def)
qed

lemma sum_list_ge_length: "(\<And>x. x \<in> set xs \<Longrightarrow> 1 \<le> f x) \<Longrightarrow> length xs \<le> sum_list (map f xs)" for f :: "'a \<Rightarrow> nat"
  by (induction xs) fastforce+

lemma value_tokens_held: "value_tokens v bs \<Longrightarrow> held h v bs"
proof (induction rule: value_tokens.induct)
  case tokens_null
  show ?case
    using typed_at [OF _ plain_type] by (simp add: held_def value_at_def sxe_jitson_make_null_def)
next
  case (tokens_bool b)
  show ?case
    using typed_at [OF _ plain_type] field_at(4) [of _ _ _ "replicate 4 0"] by (simp add: held_def value_at_def sxe_jitson_make_bool_def)
next
  case (tokens_uint junk n)
  then show ?case
    using typed_at [OF _ plain_type] field_at(3) by (simp add: held_def value_at_def)
next
  case (tokens_number junk n)
  then show ?case
    using typed_at [OF _ plain_type] field_at(3) by (simp add: held_def value_at_def)
next
  case (tokens_string s bs)
  then show ?case
    using string_tokens_at [OF tokens_string] by (simp add: held_def value_at_def) (auto simp: string_tokens_def ksize_def)
next
  case (tokens_array vs bss)
  let ?body = "concat bss"
  have vs: "list_all2 (held h) vs bss"
    using tokens_array by (auto elim: list_all2_mono)
  have len: "length ?body = 16 * sum_list (map vsize vs)"
    using held_elements(1) [OF vs] .
  have n: "length vs \<le> sum_list (map vsize vs)"
    by (rule sum_list_ge_length) (simp add: Suc_leI)
  have "value_at h (memory_of (pre @ sized_collection SXE_JITSON_TYPE_ARRAY (length vs) ?body @ post)) p (JArray vs)"
    if "16 + length ?body < 2 ^ 32" "list_all names_ok vs" "length pre = 16 * p" for pre post p
  proof -
    have "list_all (\<lambda>(r, w). token_ok h (memory_of (pre @ sized_collection SXE_JITSON_TYPE_ARRAY (length vs) ?body @ post)) r w) (parts_of_elements (p + 1) vs)"
      using held_elements(2) [OF vs _ that(2), of "pre @ collection SXE_JITSON_TYPE_ARRAY (length vs) (le_bytes 8 (of_nat (1 + length ?body div 16) :: u64)) []" "p + 1" post] that(1,3)
      by (simp add: sized_collection_def collection_def)
    then show ?thesis
      using collection_tokens_at [OF _ that(3) len that(1) n] by (simp add: value_at_def)
  qed
  then show ?case
    using len unfolding held_def by (simp add: sized_collection_def collection_def)
next
  case (tokens_object ms kss vss)
  let ?body = "concat (map2 (@) kss vss)"
  have vs: "list_all2 (held h) (map snd ms) vss"
    using tokens_object(2) by (auto elim: list_all2_mono)
  have len: "length ?body = 16 * sum_list (map (\<lambda>(k, v). ksize k + vsize v) ms)"
    using length_concat_map2 [OF tokens_object(1) vs] .
  have n: "length ms \<le> sum_list (map (\<lambda>(k, v). ksize k + vsize v) ms)"
    by (rule sum_list_ge_length) (auto simp: Suc_leI)
  have "value_at h (memory_of (pre @ sized_collection SXE_JITSON_TYPE_OBJECT (length ms) ?body @ post)) p (JObject ms)"
    if "16 + length ?body < 2 ^ 32" "list_all (\<lambda>(k, v). 0 \<notin> set k \<and> names_ok v) ms" "length pre = 16 * p" for pre post p
    using held_members [OF tokens_object(1) vs _ that(2), of "pre @ collection SXE_JITSON_TYPE_OBJECT (length ms) (le_bytes 8 (of_nat (1 + length ?body div 16) :: u64)) []" "p + 1" post]
      that(1,3) collection_tokens_at [OF _ that(3) len that(1) n]
    by (simp add: value_at_def sized_collection_def collection_def)
  then show ?case
    using len unfolding held_def by (simp add: sized_collection_def collection_def)
qed

text \<open>Marking a value as allocated does not change it.\<close>

lemma token_ok_cong:
  assumes "\<And>r t. typed m' r t = typed m r t" and "\<And>r. jit_len m' r = jit_len m r" and "\<And>r. jit_integer m' r = jit_integer m r"
    and "\<And>r. jit_boolean m' r = jit_boolean m r" and "\<And>r s. string_ok m' r s = string_ok m r s" and "indices m' = indices m"
  shows "token_ok h m' p v = token_ok h m p v"
proof -
  have "key_ok m' = key_ok m" "chain m' = chain m"
    using assms(1,5) chain_same [of _ m' m] assms(2) by (auto simp: key_ok_def fun_eq_iff)
  then show ?thesis
    using assms by (cases v) (simp_all add: collection_ok_def chains_ok_def)
qed

lemma alloced_at:
  assumes "value_at h (memory_of bs) 0 v" and "16 \<le> length bs"
  shows "value_at h (memory_of (alloced bs)) 0 v"
proof -
  let ?m = "memory_of bs" and ?m' = "memory_of (alloced bs)"
  have len: "length (alloced bs) = length bs"
    using assms(2) by (simp add: alloced_def)
  have read: "read_at (alloced bs) off n = read_at bs off n" if "4 \<le> off" for off n
  proof -
    have "drop off (alloced bs) = drop off bs"
      using that by (simp add: alloced_def)
    then show ?thesis
      by (simp add: read_at_def len)
  qed
  have zero: "jit_type ?m' 0 = Some (w OR SXE_JITSON_TYPE_ALLOCED)" if "jit_type ?m 0 = Some w" for w
  proof -
    have "take 4 (alloced bs) = le_bytes 4 (le_word (take 4 bs) OR SXE_JITSON_TYPE_ALLOCED :: u32)"
      by (simp add: alloced_def)
    then show ?thesis
      using that len assms(2) by (auto simp: jit_type_def read_at_def)
  qed
  have flag: "(w OR SXE_JITSON_TYPE_ALLOCED) AND NOT SXE_JITSON_TYPE_ALLOCED = w AND NOT SXE_JITSON_TYPE_ALLOCED" for w
    by (rule bit_eqI) (auto simp: bit_simps)
  have "typed ?m' r t = typed ?m r t" for r t
  proof (cases "r = 0")
    case True
    obtain w where "jit_type ?m 0 = Some w"
      using assms(2) by (auto simp: jit_type_def read_at_def)
    then show ?thesis
      using zero flag True by (simp add: typed_def)
  next
    case False
    then show ?thesis
      using read [of "16 * r" 4] by (simp add: typed_def jit_type_def)
  qed
  then have "token_ok h ?m' p w = token_ok h ?m p w" for p w
    using read by (intro token_ok_cong) (simp_all add: jit_len_def jit_integer_def jit_boolean_def string_ok_def)
  then show ?thesis
    using assms(1) by (simp add: value_at_def)
qed

lemma tokens_value_at:
  assumes "value_tokens v bs" and "length bs < 2 ^ 32" and "names_ok v"
  shows "value_at h (memory_of (alloced bs)) 0 v"
proof -
  have "held h v bs"
    using assms(1) by (rule value_tokens_held)
  then have "value_at h (memory_of ([] @ bs @ [])) 0 v"
    using assms(2,3) unfolding held_def by (metis length_0_conv mult_0_right)
  then show ?thesis
    using alloced_at value_tokens_length [OF assms(1)] by simp
qed

lemma parsed_value_memory:
  assumes "ample (env_alloc env)" and "strict_flags flags" and "strtod_ok (env_strtod env) dbl" and "no_hex str"
    and "on_stack (0, 0) st []" and "16 * (length str + 1) \<le> 2 ^ 32" and "parse_value dbl str = Some (v, r)" and "names_ok v"
  shows "\<exists>bs st'. sxe_jitson_new env flags st str = Some (Some bs, st') \<and> value_at h (memory_of bs) 0 v"
proof -
  obtain bs st' where bs: "sxe_jitson_new env flags st str = Some (Some (alloced bs), st')" "value_tokens v bs" "length bs \<le> 16 * length str"
    using jitson_new_result [OF assms(1-6)] assms(7) by auto
  have "length bs < 2 ^ 32"
    using bs(3) assms(6) by simp
  then have "value_at h (memory_of (alloced bs)) 0 v"
    by (rule tokens_value_at [OF bs(2) _ assms(8)])
  then show ?thesis
    using bs(1) by blast
qed

text \<open>C10: A value that was parsed from a text, whose names do not contain the character 0, is in the memory of its tokens with all
  its parts, so that the accessors return what was parsed.\<close>

theorem parsed_value_at:
  assumes "ample (env_alloc env)" and "strict_flags flags" and "strtod_ok (env_strtod env) dbl" and "no_hex str"
    and "on_stack (0, 0) st []" and "16 * (length str + 1) \<le> 2 ^ 32" and "parse_value dbl str = Some (v, r)" and "names_ok v"
  shows "\<exists>bs st'. sxe_jitson_new env flags st str = Some (Some bs, st') \<and> value_at h (memory_of bs) 0 v"
  using assms by (rule parsed_value_memory)

section \<open>An example\<close>

definition example_jit_env :: jit_env where
  "example_jit_env = \<lparr>je_hash = (\<lambda>bs. of_nat (length bs)), je_index = (\<lambda>m n. if indices m 1 = None then Some 1 else None), je_format = (\<lambda>_. [48]),
     je_to_uint = (\<lambda>w. w), je_of_uint = (\<lambda>u. u), je_eq = (=), je_less = (<)\<rparr>"

lemma example_jit_env_ok: "fresh_indices example_jit_env"
  by (simp add: fresh_indices_def example_jit_env_def)

text \<open>The members \<^verbatim>\<open>ab\<close>, \<^verbatim>\<open>c\<close> and \<^verbatim>\<open>c\<close> again, with an array, null and true\<close>

definition example_value :: jvalue where
  "example_value = JObject [(ascii ''ab'', JArray [JUint 1, JBool False]), (ascii ''c'', JNull), (ascii ''c'', JBool True)]"

definition example_json :: bytes where
  "example_json = [123, 34, 97, 98, 34, 58, 91, 49, 44, 102, 97, 108, 115, 101, 93, 44, 34, 99, 34, 58, 110, 117, 108, 108, 44, 34, 99, 34, 58, 116, 114, 117, 101, 125]"

lemma example_json_parsed:
  "parse_value (\<lambda>_. 0) example_json = Some (example_value, [])" "no_hex example_json" "length example_json = 34" "names_ok example_value"
  by code_simp+

theorem parsed_value_at_witness:
  "\<exists>bs st'. sxe_jitson_new example_env 0 example_stack example_json = Some (Some bs, st') \<and> value_at (\<lambda>_. 0) (memory_of bs) 0 example_value"
  by (rule parsed_value_at [OF example_env_ok(1-3) example_json_parsed(2) example_env_ok(4) _ example_json_parsed(1,4)])
    (simp add: example_json_parsed)

definition example_memory :: jit_memory where
  "example_memory = memory_of (the (do { (res, _) \<leftarrow> sxe_jitson_new example_env 0 example_stack example_json; res }))"

lemma example_memory_ok: "value_at h example_memory 0 example_value" "indices example_memory = (\<lambda>_. None)"
proof -
  obtain bs st' where bs: "sxe_jitson_new example_env 0 example_stack example_json = Some (Some bs, st')" "value_at h (memory_of bs) 0 example_value"
    using parsed_value_memory [OF example_env_ok(1-3) example_json_parsed(2) example_env_ok(4) _ example_json_parsed(1,4), where h = h]
    by (auto simp: example_json_parsed)
  then show "value_at h example_memory 0 example_value" "indices example_memory = (\<lambda>_. None)"
    by (simp_all add: example_memory_def)
qed

lemma example_parts:
  "(0, JObject [(ascii ''ab'', JArray [JUint 1, JBool False]), (ascii ''c'', JNull), (ascii ''c'', JBool True)]) \<in> set (parts 0 example_value)"
  "(2, JArray [JUint 1, JBool False]) \<in> set (parts 0 example_value)"
  by (simp_all add: example_value_def ksize_def ascii_def)

theorem array_get_element_correct_witness:
  "(\<exists>q m'. sxe_jitson_array_get_element example_jit_env 2 1 example_memory = Some (Some q, m') \<and> (q, JBool False) \<in> set (parts 0 example_value) \<and>
      value_at (\<lambda>_. 0) m' 0 example_value) \<and>
   sxe_jitson_array_get_element example_jit_env 2 2 example_memory = Some (None, example_memory)"
  using array_get_element_correct [OF example_memory_ok(1) [of "\<lambda>_. 0"] example_parts(2) example_jit_env_ok, of 1]
    array_get_element_correct [OF example_memory_ok(1) [of "\<lambda>_. 0"] example_parts(2) example_jit_env_ok, of 2]
  by (auto simp: example_jit_env_def example_memory_ok(2) split: option.splits)

theorem object_get_member_correct_witness:
  "\<exists>q m'. sxe_jitson_object_get_member example_jit_env 0 (ascii ''c'') 0 example_memory = Some (Some q, m') \<and> (q, JBool True) \<in> set (parts 0 example_value) \<and>
     value_at (je_hash example_jit_env) m' 0 example_value"
  using object_get_member_correct [OF example_memory_ok(1) example_parts(1) example_jit_env_ok, of "ascii ''c''"]
  by (auto simp: example_jit_env_def example_memory_ok(2) example_value_def ascii_def split: option.splits)

end
