(* ===== verification/Sxe_Jitson_Construct.thy ===== *)
theory Sxe_Jitson_Construct
  imports Sxe_Jitson_Build_Spec Sxe_Jitson_Access_Spec
begin

text \<open>
  Constructing a value, handing it out and reading it: the calls that construct a value on a stack compose with the layout of values
  in memory, on which the accessors and the conversion to JSON rest.
\<close>

lemma c_string_clean: "0 \<notin> set (c_string s)" "0 \<notin> set s \<Longrightarrow> c_string s = s"
  by (auto simp: c_string_def takeWhile_eq_all_conv dest: set_takeWhileD)

lemma c_value_names: "names_ok (c_value v)"
  by (induction v rule: c_value.induct) (auto simp: list_all_iff c_string_clean)

text \<open>The calls for a value need as many tokens as the value has.\<close>

lemma call_tokens_size: "sum_list (map call_tokens (value_calls v)) = vsize (c_value v)"
proof (induction v rule: value_calls.induct)
  case (6 vs)
  then show ?case
    by (induction vs) (simp_all add: comp_def)
next
  case (7 ms)
  then have "sum_list (map call_tokens (concat (map (\<lambda>(k, v). Add_Member_Name k # value_calls v) ms))) =
      sum_list (map (\<lambda>(k, v). ksize k + vsize v) (map (\<lambda>(k, v). (c_string k, c_value v)) ms))"
  proof (induction ms)
    case (Cons m ms)
    obtain k v where "m = (k, v)"
      by (cases m)
    then show ?case
      using Cons by (force simp: ksize_def)
  qed simp
  then show ?case
    by simp
qed (simp_all add: ksize_def)

text \<open>C5: Every array and every object can be constructed by the calls for its elements or members in order, and handed out: all
  calls succeed, the block that is returned represents the value with all its parts, so that the accessors return what was added, and the
  stack is empty. Strings and names are C strings, so they are cut off at a zero; a value without zeros in them is constructed as it is.\<close>

theorem value_calls_correct:
  assumes "plain_builder env flags junk" and "on_stack (0, 0) st []" and "vsize (c_value v) < 2 ^ 28"
    and "(\<exists>vs. v = JArray vs) \<or> (\<exists>ms. v = JObject ms)"
  shows "\<exists>st1 ret st2. make_calls env flags junk (value_calls v) st = Some (True, st1) \<and>
    sxe_jitson_stack_get_jitson (env_alloc env) st1 = Some (Some ret, st2) \<and> value_at h (memory_of ret) 0 (c_value v) \<and> on_stack (0, 0) st2 []"
proof -
  have alloc: "ample (env_alloc env)"
    using assms(1) by (simp add: plain_builder_def)
  obtain st1 bs where st1: "make_calls env flags junk (value_calls v) st = Some (True, st1)" "value_tokens (c_value v) bs" "on_stack (0, 0) st1 bs"
    using value_calls_tokens [OF assms(1,2), of v] assms(3,4) by (auto simp: call_tokens_size)
  obtain st2 where st2: "sxe_jitson_stack_get_jitson (env_alloc env) st1 = Some (Some (alloced bs), st2)" "on_stack (0, 0) st2 []"
    using get_jitson_runs [OF st1(3) value_tokens_length [OF st1(2)] alloc] by blast
  have "length bs < 2 ^ 32"
    using value_tokens_held [OF st1(2)] assms(3) by (simp add: held_def)
  then have "value_at h (memory_of (alloced bs)) 0 (c_value v)"
    by (rule tokens_value_at [OF st1(2) _ c_value_names])
  then show ?thesis
    using st1(1) st2 by blast
qed

theorem value_calls_correct_witness:
  "\<exists>st1 ret st2. make_calls example_env 0 [0, 0, 0, 0] (value_calls (JObject [([97, 98], JArray [JBool True, JString [99, 0, 100]])])) example_stack = Some (True, st1) \<and>
     sxe_jitson_stack_get_jitson (env_alloc example_env) st1 = Some (Some ret, st2) \<and>
     value_at (\<lambda>_. 0) (memory_of ret) 0 (JObject [([97, 98], JArray [JBool True, JString [99]])])"
proof -
  have p: "plain_builder example_env 0 [0, 0, 0, 0]"
    using example_env_ok(1) by (simp add: plain_builder_def)
  show ?thesis
    using value_calls_correct [OF p example_env_ok(4), of "JObject [([97, 98], JArray [JBool True, JString [99, 0, 100]])]" "\<lambda>_. 0"]
    by (auto simp: c_string_def ksize_def)
qed

end
