(* ===== verification/Sxe_Jitson_Print.thy ===== *)
theory Sxe_Jitson_Print
  imports Sxe_Jitson_Access Sxe_Factory
begin

text \<open>
  Model of the functions that convert values to JSON: \<^verbatim>\<open>sxe_jitson_to_json\<close> of \<^verbatim>\<open>lib-sxe-jitson/sxe-jitson.c\<close> and the
  \<^verbatim>\<open>build_json\<close> functions of the types in \<^verbatim>\<open>sxe-jitson-type.c\<close>. They write to a factory, and a result of \<open>False\<close> stands for the null
  pointer.
\<close>

section \<open>Simple values\<close>

text \<open>Most callers ignore the result of adding characters.\<close>

definition put :: "allocator \<Rightarrow> bytes \<Rightarrow> sxe_factory \<Rightarrow> sxe_factory option" where
  "put alloc bs factory = map_option snd (sxe_factory_add alloc bs (of_nat (length bs)) factory)"

definition looked :: "sxe_factory \<Rightarrow> bool \<times> sxe_factory" where
  "looked factory = (fst (sxe_factory_look factory) \<noteq> None, factory)"

definition sxe_jitson_null_build_json :: "allocator \<Rightarrow> sxe_factory \<Rightarrow> (bool \<times> sxe_factory) option" where
  "sxe_jitson_null_build_json alloc factory = map_option looked (put alloc (ascii ''null'') factory)"

definition sxe_jitson_bool_build_json :: "allocator \<Rightarrow> jit_memory \<Rightarrow> nat \<Rightarrow> sxe_factory \<Rightarrow> (bool \<times> sxe_factory) option" where
  "sxe_jitson_bool_build_json alloc m p factory =
     do { b \<leftarrow> jit_boolean m p;
          map_option looked (put alloc (if b then ascii ''true'' else ascii ''false'') factory) }"

text \<open>The formats \<^verbatim>\<open>%lu\<close> and \<^verbatim>\<open>%02x\<close>, and \<^verbatim>\<open>snprintf\<close>, which writes at most \<open>n\<close> characters\<close>

fun decimal :: "nat \<Rightarrow> bytes" where
  "decimal n = (if n < 10 then [48 + of_nat n] else decimal (n div 10) @ [48 + of_nat (n mod 10)])"

declare decimal.simps [simp del]

definition hex_char :: "nat \<Rightarrow> u8" where
  "hex_char n = (if n < 10 then 48 + of_nat n else 87 + of_nat n)"

definition snprintf_at :: "bytes \<Rightarrow> nat \<Rightarrow> nat \<Rightarrow> bytes \<Rightarrow> bytes option" where
  "snprintf_at d i n text = memcpy_at d i (take (n - 1) text @ [0])"

definition NUMBER_MAX_LEN :: nat where
  "NUMBER_MAX_LEN = 24"

text \<open>\<open>nan\<close> is what is printed for a number that is not one\<close>

definition sxe_jitson_number_build_json :: "jit_env \<Rightarrow> allocator \<Rightarrow> jit_memory \<Rightarrow> nat \<Rightarrow> sxe_factory \<Rightarrow> (bool \<times> sxe_factory) option" where
  "sxe_jitson_number_build_json env alloc m p factory =
     do { (reservation, factory) \<leftarrow> sxe_factory_reserve alloc (of_nat NUMBER_MAX_LEN) factory;
          case reservation of
            None \<Rightarrow> Some (False, factory)
          | Some i \<Rightarrow>
              do { t \<leftarrow> jit_type m p;
                   text \<leftarrow> (if has t SXE_JITSON_TYPE_IS_UINT
                            then do { u \<leftarrow> sxe_jitson_get_uint env m p; Some (decimal (unat (case u of None \<Rightarrow> - 1 | Some u \<Rightarrow> u))) }
                            else do { w \<leftarrow> sxe_jitson_get_number env m p;
                                      Some (case w of None \<Rightarrow> ascii ''NAN'' | Some w \<Rightarrow> je_format env w) });
                   d \<leftarrow> f_data factory;
                   d \<leftarrow> snprintf_at d i (NUMBER_MAX_LEN + 1) text;
                   SXEA6 (length text \<le> NUMBER_MAX_LEN);
                   factory \<leftarrow> sxe_factory_commit (of_nat (length text)) (factory\<lparr>f_data := Some d\<rparr>);
                   Some (looked factory) } }"

section \<open>Strings\<close>

definition escaped :: "u8 \<Rightarrow> bytes" where
  "escaped c = ascii [CHR 0x5C, CHR ''u'', CHR ''0'', CHR ''0''] @ [hex_char (unat c div 16), hex_char (unat c mod 16)]"

definition needs_escape :: "u8 \<Rightarrow> bool" where
  "needs_escape c \<longleftrightarrow> c \<le> 0x1F \<or> c = 34 \<or> c = 92"

definition put_escaped :: "allocator \<Rightarrow> u8 \<Rightarrow> sxe_factory \<Rightarrow> (bool \<times> sxe_factory) option" where
  "put_escaped alloc c factory =
     do { (reservation, factory) \<leftarrow> sxe_factory_reserve alloc 7 factory;
          case reservation of
            None \<Rightarrow> Some (False, factory)
          | Some i \<Rightarrow>
              do { d \<leftarrow> f_data factory;
                   d \<leftarrow> snprintf_at d i 7 (escaped c);
                   s \<leftarrow> c_string_at d i;
                   SXEA6 (length s = 6);
                   factory \<leftarrow> sxe_factory_commit 6 (factory\<lparr>f_data := Some d\<rparr>);
                   Some (True, factory) } }"

text \<open>The indices are 32 bit numbers: the loop does not end for a string that is longer than they can count. The result is
  \<^verbatim>\<open>first\<close> after the loop, or \<open>None\<close> when it returns early.\<close>

partial_function (option) string_json_loop :: "allocator \<Rightarrow> bytes \<Rightarrow> u32 \<Rightarrow> u32 \<Rightarrow> sxe_factory \<Rightarrow> (u32 option \<times> sxe_factory) option" where
  "string_json_loop alloc s first i factory =
     (if unat i < length s
      then if needs_escape (s ! unat i)
           then do { factory \<leftarrow> (if first < i
                                 then map_option snd (sxe_factory_add alloc (drop (unat first) s) (ucast (i - first)) factory)
                                 else Some factory);
                     (ok, factory) \<leftarrow> put_escaped alloc (s ! unat i) factory;
                     if ok then string_json_loop alloc s (i + 1) (i + 1) factory else Some (None, factory) }
           else string_json_loop alloc s first (i + 1) factory
      else Some (Some first, factory))"

declare string_json_loop.simps [code]

definition sxe_jitson_string_build_json :: "allocator \<Rightarrow> nat \<Rightarrow> sxe_factory \<Rightarrow> jit_memory \<Rightarrow> (bool \<times> sxe_factory \<times> jit_memory) option" where
  "sxe_jitson_string_build_json alloc p factory m =
     do { (n, m) \<leftarrow> sxe_jitson_len p m;
          ptr \<leftarrow> sxe_jitson_get_string m p;
          s \<leftarrow> chars_at m ptr n;
          factory \<leftarrow> put alloc [34] factory;
          (first, factory) \<leftarrow> string_json_loop alloc s 0 0 factory;
          case first of
            None \<Rightarrow> Some (False, factory, m)
          | Some first \<Rightarrow>
              do { factory \<leftarrow> (if unat first < n
                               then map_option snd (sxe_factory_add alloc (drop (unat first) s) (of_nat (n - unat first)) factory)
                               else Some factory);
                   factory \<leftarrow> put alloc [34] factory;
                   let (ok, factory) = looked factory;
                   Some (ok, factory, m) } }"

section \<open>Collections\<close>

text \<open>The factory and the memory\<close>

record json_state =
  js_factory :: sxe_factory
  js_memory :: jit_memory

definition put_json :: "allocator \<Rightarrow> bytes \<Rightarrow> json_state \<Rightarrow> json_state option" where
  "put_json alloc bs st = do { factory \<leftarrow> put alloc bs (js_factory st); Some (st\<lparr>js_factory := factory\<rparr>) }"

definition looked_json :: "json_state \<Rightarrow> bool \<times> json_state" where
  "looked_json st = (fst (sxe_factory_look (js_factory st)) \<noteq> None, st)"

definition leaf_build_json :: "jit_env \<Rightarrow> allocator \<Rightarrow> u32 \<Rightarrow> nat \<Rightarrow> json_state \<Rightarrow> (bool \<times> json_state) option" where
  "leaf_build_json env alloc t p st =
     (let m = js_memory st; factory = js_factory st
      in if t = SXE_JITSON_TYPE_STRING
         then do { (ok, factory, m) \<leftarrow> sxe_jitson_string_build_json alloc p factory m; Some (ok, \<lparr>js_factory = factory, js_memory = m\<rparr>) }
         else do { (ok, factory) \<leftarrow>
                     (if t = SXE_JITSON_TYPE_NULL then sxe_jitson_null_build_json alloc factory
                      else if t = SXE_JITSON_TYPE_BOOL then sxe_jitson_bool_build_json alloc m p factory
                      else if t = SXE_JITSON_TYPE_NUMBER then sxe_jitson_number_build_json env alloc m p factory
                      else None);
                   Some (ok, st\<lparr>js_factory := factory\<rparr>) })"

text \<open>The element at an index, which must not be a null pointer, and the first member of a bucket\<close>

definition element_at :: "jit_env \<Rightarrow> nat \<Rightarrow> u32 \<Rightarrow> json_state \<Rightarrow> (nat \<times> json_state) option" where
  "element_at env p i st =
     do { (q, m) \<leftarrow> sxe_jitson_array_get_element env p (unat i) (js_memory st); q \<leftarrow> q; Some (q, st\<lparr>js_memory := m\<rparr>) }"

definition bucket_at :: "nat \<Rightarrow> u32 \<Rightarrow> json_state \<Rightarrow> u32 option" where
  "bucket_at p i st =
     do { a \<leftarrow> jit_integer (js_memory st) p; ix \<leftarrow> indices (js_memory st) a; if unat i < length ix then Some (ix ! unat i) else None }"

definition force_index :: "jit_env \<Rightarrow> nat \<Rightarrow> json_state \<Rightarrow> json_state option" where
  "force_index env p st =
     do { t \<leftarrow> jit_type (js_memory st) p;
          if \<not> has t SXE_JITSON_TYPE_INDEXED
          then do { (_, m) \<leftarrow> sxe_jitson_object_get_member env p [] 0 (js_memory st); Some (st\<lparr>js_memory := m\<rparr>) }
          else Some st }"

text \<open>
  The functions of the types call each other for nested values, here through a parameter. A value is converted with the
  function of its type or, for a reference, with the function of the type it refers to. The loop over the elements of an
  array is at an index, and the one over the members of an object at a bucket and a member of its chain, with \<^verbatim>\<open>first\<close>. The
  program reads a null pointer when an array or object cannot be indexed.
\<close>

datatype json_point =
    Json_Value nat
  | Json_Typed u32 nat
  | Json_Elements nat u32 u32
  | Json_Buckets nat u32 u32 bool
  | Json_Members nat u32 u32 u32 bool

type_synonym json_build = "json_point \<Rightarrow> json_state \<Rightarrow> (bool \<times> json_state) option"

definition sxe_jitson_array_build_json :: "allocator \<Rightarrow> json_build \<Rightarrow> nat \<Rightarrow> json_state \<Rightarrow> (bool \<times> json_state) option" where
  "sxe_jitson_array_build_json alloc build p st =
     do { st \<leftarrow> put_json alloc [91] st;
          len \<leftarrow> jit_len (js_memory st) p;
          (_, st) \<leftarrow> (if 0 < len then build (Json_Elements p len 0) st else Some (True, st));
          st \<leftarrow> put_json alloc [93] st;
          Some (looked_json st) }"

definition array_elements :: "jit_env \<Rightarrow> allocator \<Rightarrow> json_build \<Rightarrow> nat \<Rightarrow> u32 \<Rightarrow> u32 \<Rightarrow> json_state \<Rightarrow> (bool \<times> json_state) option" where
  "array_elements env alloc build p len i st =
     (if i < len - 1
      then do { (q, st) \<leftarrow> element_at env p i st;
                (_, st) \<leftarrow> build (Json_Value q) st;
                st \<leftarrow> put_json alloc [44] st;
                build (Json_Elements p len (i + 1)) st }
      else do { (q, st) \<leftarrow> element_at env p (len - 1) st;
                build (Json_Value q) st })"

definition sxe_jitson_object_build_json :: "jit_env \<Rightarrow> allocator \<Rightarrow> json_build \<Rightarrow> nat \<Rightarrow> json_state \<Rightarrow> (bool \<times> json_state) option" where
  "sxe_jitson_object_build_json env alloc build p st =
     do { len \<leftarrow> jit_len (js_memory st) p;
          if len = 0 then do { st \<leftarrow> put_json alloc [123, 125] st; Some (looked_json st) }
          else do { st \<leftarrow> force_index env p st;
                    st \<leftarrow> put_json alloc [123] st;
                    (_, st) \<leftarrow> build (Json_Buckets p len 0 True) st;
                    st \<leftarrow> put_json alloc [125] st;
                    Some (looked_json st) } }"

definition object_buckets :: "json_build \<Rightarrow> nat \<Rightarrow> u32 \<Rightarrow> u32 \<Rightarrow> bool \<Rightarrow> json_state \<Rightarrow> (bool \<times> json_state) option" where
  "object_buckets build p len i first st =
     (if i < len then do { index \<leftarrow> bucket_at p i st; build (Json_Members p len i index first) st } else Some (True, st))"

definition object_members :: "allocator \<Rightarrow> json_build \<Rightarrow> nat \<Rightarrow> u32 \<Rightarrow> u32 \<Rightarrow> u32 \<Rightarrow> bool \<Rightarrow> json_state \<Rightarrow> (bool \<times> json_state) option" where
  "object_members alloc build p len i index first st =
     (if index \<noteq> 0
      then do { let q = p + unat index;
                st \<leftarrow> (if \<not> first then put_json alloc [44] st else Some st);
                (_, st) \<leftarrow> build (Json_Value q) st;
                st \<leftarrow> put_json alloc [58] st;
                s \<leftarrow> jit_size (js_memory st) q;
                (_, st) \<leftarrow> build (Json_Value (q + s)) st;
                link \<leftarrow> jit_len (js_memory st) q;
                build (Json_Members p len i link False) st }
      else build (Json_Buckets p len (i + 1) first) st)"

definition sxe_jitson_reference_build_json :: "json_build \<Rightarrow> nat \<Rightarrow> json_state \<Rightarrow> (bool \<times> json_state) option" where
  "sxe_jitson_reference_build_json build p st =
     do { q \<leftarrow> jit_integer (js_memory st) p;
          t \<leftarrow> sxe_jitson_get_type (js_memory st) (unat q);
          build (Json_Typed t (unat q)) st }"

text \<open>All of them are monotone in the parameter.\<close>

lemma case_prod_mono: "(\<And>a b. mono_option (\<lambda>f. B f a b)) \<Longrightarrow> mono_option (\<lambda>f. case x of (a, b) \<Rightarrow> B f a b)"
  by (cases x) simp

lemmas json_mono = option.const_mono bind_mono if_mono case_prod_mono

lemma json_build_mono [partial_function_mono]:
  assumes "\<And>pt st. mono_option (\<lambda>f. B f pt st)"
  shows "mono_option (\<lambda>f. sxe_jitson_array_build_json alloc (B f) p st)"
    "mono_option (\<lambda>f. array_elements env alloc (B f) p len i st)"
    "mono_option (\<lambda>f. sxe_jitson_object_build_json env alloc (B f) p st)"
    "mono_option (\<lambda>f. object_buckets (B f) p len i first st)"
    "mono_option (\<lambda>f. object_members alloc (B f) p len i index first st)"
    "mono_option (\<lambda>f. sxe_jitson_reference_build_json (B f) p st)"
  unfolding sxe_jitson_array_build_json_def array_elements_def sxe_jitson_object_build_json_def object_buckets_def object_members_def
    sxe_jitson_reference_build_json_def Let_def
  by (intro json_mono assms)+

partial_function (option) json_builder :: "jit_env \<Rightarrow> allocator \<Rightarrow> json_point \<Rightarrow> json_state \<Rightarrow> (bool \<times> json_state) option" where
  "json_builder env alloc pt st =
     (case pt of
        Json_Value p \<Rightarrow> do { t \<leftarrow> jit_type (js_memory st) p; json_builder env alloc (Json_Typed (t AND SXE_JITSON_TYPE_MASK) p) st }
      | Json_Typed t p \<Rightarrow>
          if t = SXE_JITSON_TYPE_ARRAY then sxe_jitson_array_build_json alloc (json_builder env alloc) p st
          else if t = SXE_JITSON_TYPE_OBJECT then sxe_jitson_object_build_json env alloc (json_builder env alloc) p st
          else if t = SXE_JITSON_TYPE_REFERENCE then sxe_jitson_reference_build_json (json_builder env alloc) p st
          else leaf_build_json env alloc t p st
      | Json_Elements p len i \<Rightarrow> array_elements env alloc (json_builder env alloc) p len i st
      | Json_Buckets p len i first \<Rightarrow> object_buckets (json_builder env alloc) p len i first st
      | Json_Members p len i index first \<Rightarrow> object_members alloc (json_builder env alloc) p len i index first st)"

declare json_builder.simps [code]

definition sxe_jitson_build_json :: "jit_env \<Rightarrow> allocator \<Rightarrow> nat \<Rightarrow> json_state \<Rightarrow> (bool \<times> json_state) option" where
  "sxe_jitson_build_json env alloc p = json_builder env alloc (Json_Value p)"

text \<open>The block with the text and the length of the text\<close>

definition sxe_jitson_to_json :: "jit_env \<Rightarrow> allocator \<Rightarrow> nat \<Rightarrow> jit_memory \<Rightarrow> ((bytes \<times> u64) option \<times> jit_memory) option" where
  "sxe_jitson_to_json env alloc p m =
     do { (ok, st) \<leftarrow> sxe_jitson_build_json env alloc p \<lparr>js_factory = sxe_factory_alloc_make 0 0, js_memory = m\<rparr>;
          let ((json, ln), _) = sxe_factory_remove alloc (js_factory st);
          Some (if ok then map_option (\<lambda>json. (json, ln)) json else None, js_memory st) }"

end
