(* ===== verification/Sxe_Jitson_Print_Text.thy ===== *)
theory Sxe_Jitson_Print_Text
  imports Sxe_Jitson_Access_Spec Sxe_Jitson_Print
begin

text \<open>
  The texts of values, and what the conversions of strings and numbers add to a factory.
\<close>

section \<open>Factories that contain a text\<close>

definition plentiful :: "allocator \<Rightarrow> bool" where
  "plentiful alloc \<longleftrightarrow> (\<forall>n. \<exists>fresh. alloc n = Some fresh \<and> length fresh = n)"

definition contains :: "sxe_factory \<Rightarrow> bytes \<Rightarrow> bool" where
  "contains factory text \<longleftrightarrow> factory_ok factory \<and> factory_text factory = text \<and> (\<forall>d. f_data factory = Some d \<longrightarrow> d ! unat (f_len factory) = 0)"

lemma plentiful_allocates: "plentiful alloc \<Longrightarrow> allocates alloc"
  unfolding plentiful_def allocates_def by (metis option.inject)

lemma contains_length: "contains factory text \<Longrightarrow> unat (f_len factory) = length text"
  by (auto simp: contains_def factory_ok_def factory_text_def word_less_nat_alt split: option.splits)

lemma reserve_plentiful: "plentiful alloc \<Longrightarrow> sxe_factory_reserve alloc ln factory = Some (i, factory') \<Longrightarrow> i \<noteq> None"
  by (auto simp: sxe_factory_reserve_def kit_realloc_def plentiful_def Let_def bind_eq_Some_conv split: if_splits option.splits)

text \<open>The factory after a call that extends its text\<close>

definition extended :: "sxe_factory \<Rightarrow> bytes \<Rightarrow> bool" where
  "extended factory text \<longleftrightarrow> contains factory text \<and> f_data factory \<noteq> None"

lemma add_extends:
  assumes "plentiful alloc" and "contains factory t" and "bs \<noteq> []" and "length t + length bs < 2 ^ 63"
  obtains n factory' where "sxe_factory_add alloc bs (of_nat (length bs)) factory = Some (n, factory')" "extended factory' (t @ bs)"
proof -
  have "\<not> sxe_factory_reserve alloc (of_nat (length bs)) factory = Some (None, factory)"
    using reserve_plentiful [OF assms(1)] by blast
  then show thesis
    using add_ok [OF _ plentiful_allocates [OF assms(1)] assms(3), of factory] assms(2,4) contains_length [OF assms(2)] that
    by (auto simp: contains_def extended_def)
qed

lemma put_ok:
  assumes "plentiful alloc" and "contains factory t" and "bs \<noteq> []" and "length t + length bs < 2 ^ 63"
  obtains factory' where "put alloc bs factory = Some factory'" "extended factory' (t @ bs)"
  using add_extends [OF assms] that by (auto simp: put_def)

text \<open>A part of a longer text\<close>

lemma add_prefix:
  assumes "plentiful alloc" and "contains factory t" and "unat ln = n" and "0 < n" and "n \<le> length bs" and "length t + n < 2 ^ 63"
  obtains factory' where "map_option snd (sxe_factory_add alloc bs ln factory) = Some factory'" "extended factory' (t @ take n bs)"
proof -
  have "ln \<noteq> 0"
    using assms(3,4) by auto
  moreover have "ln = of_nat (length (take n bs))"
    using assms(3,5) by auto
  ultimately have "sxe_factory_add alloc bs ln factory = sxe_factory_add alloc (take n bs) (of_nat (length (take n bs))) factory"
    using assms(3,5) by (simp add: sxe_factory_add_def Let_def cong: option.case_cong)
  moreover have "take n bs \<noteq> []" "length t + length (take n bs) < 2 ^ 63"
    using assms(4-6) by auto
  ultimately show thesis
    using add_extends [OF assms(1,2), of "take n bs"] that by auto
qed

text \<open>Reserving space, printing to it and committing what was printed\<close>

lemma memcpy_terminated:
  assumes "i + length text < length d"
  obtains d' where "memcpy_at d i (text @ [0]) = Some d'" "length d' = length d" "take (i + length text) d' = take i d @ text" "d' ! (i + length text) = 0"
    "0 \<notin> set text \<longrightarrow> c_string_at d' i = Some text"
proof
  let ?d = "take i d @ (text @ [0]) @ drop (i + length (text @ [0])) d"
  show "memcpy_at d i (text @ [0]) = Some ?d" "length ?d = length d" "take (i + length text) ?d = take i d @ text" "?d ! (i + length text) = 0"
    using assms by (simp_all add: memcpy_at_def nth_append)
  show "0 \<notin> set text \<longrightarrow> c_string_at ?d i = Some text"
    using assms by (intro impI c_string_at_read) (simp_all add: read_at_def)
qed

lemma print_ok:
  assumes alloc: "plentiful alloc" and f: "contains factory t" and ln: "length text \<le> unat ln" and room: "length t + unat ln < 2 ^ 63"
  obtains f1 d d' f2 where "sxe_factory_reserve alloc ln factory = Some (Some (length t), f1)" "f_data f1 = Some d"
    "memcpy_at d (length t) (text @ [0]) = Some d'" "0 \<notin> set text \<longrightarrow> c_string_at d' (length t) = Some text"
    "sxe_factory_commit (of_nat (length text)) (f1\<lparr>f_data := Some d'\<rparr>) = Some f2" "extended f2 (t @ text)"
proof -
  have len: "unat (f_len factory) = length t"
    using f by (rule contains_length)
  obtain i f1 where i: "sxe_factory_reserve alloc ln factory = Some (i, f1)" "case i of None \<Rightarrow> f1 = factory
     | Some i \<Rightarrow> i = unat (f_len factory) \<and> factory_ok f1 \<and> f_len f1 = f_len factory \<and> f_data f1 \<noteq> None \<and>
         factory_text f1 = factory_text factory \<and> i + unat ln < unat (f_size f1)"
    using reserve_ok [of factory alloc ln] f plentiful_allocates [OF alloc] room len by (auto simp: contains_def)
  then obtain d where f1: "i = Some (length t)" "factory_ok f1" "f_len f1 = f_len factory" "f_data f1 = Some d" "factory_text f1 = t"
      "length t + unat ln < unat (f_size f1)"
    using reserve_plentiful [OF alloc i(1)] f len by (auto simp: contains_def)
  have d: "length d = unat (f_size f1)" "take (length t) d = t"
    using f1 len by (auto simp: factory_ok_def factory_text_def)
  then have len_d: "length t + length text < length d"
    using f1(6) ln by simp
  from memcpy_terminated [OF len_d] obtain d' where d': "memcpy_at d (length t) (text @ [0]) = Some d'" "length d' = length d" "take (length t + length text) d' = take (length t) d @ text"
      "d' ! (length t + length text) = 0" "0 \<notin> set text \<longrightarrow> c_string_at d' (length t) = Some text"
    by blast
  have tx: "unat (of_nat (length text) :: u64) = length text"
    using ln room by (simp add: unat_of_nat)
  have ok: "factory_ok (f1\<lparr>f_data := Some d'\<rparr>)"
    using f1 d d'(2) by (simp add: factory_ok_def)
  obtain f2 where f2: "sxe_factory_commit (of_nat (length text)) (f1\<lparr>f_data := Some d'\<rparr>) = Some f2" "factory_ok f2" "f_len f2 = f_len factory + of_nat (length text)"
      "f_data f2 = Some (d'[length t + length text := 0])"
    using commit_ok [OF ok, of d' "of_nat (length text)"] f1 len tx ln by auto
  have len2: "unat (f_len f2) = length t + length text"
    using f2(3) len tx room ln by (simp add: unat_word_ariths)
  have "extended f2 (t @ text)"
    using f2 len2 d' d f1 len_d by (simp add: extended_def contains_def factory_text_def)
  then show thesis
    using that i(1) f1 d' f2(1) by blast
qed

section \<open>Strings and numbers\<close>

text \<open>The text of a string: control characters, quotes and backslashes are unicode escapes with lower case digits.\<close>

definition json_char :: "u8 \<Rightarrow> bytes" where
  "json_char c =
     (let digits = ascii ''0123456789abcdef''
      in if unat c < 32 \<or> c \<in> set (ascii [CHR 0x22, CHR 0x5C])
         then ascii [CHR 0x5C, CHR ''u'', CHR ''0'', CHR ''0''] @ [digits ! (unat c div 16), digits ! (unat c mod 16)]
         else [c])"

definition string_text :: "bytes \<Rightarrow> bytes" where
  "string_text s = concat (map json_char s)"

lemma json_char_eq: "json_char c = (if needs_escape c then escaped c else [c])"
proof -
  have d: "ascii ''0123456789abcdef'' ! n = hex_char n" if "n < 16" for n
  proof -
    have "list_all (\<lambda>n. ascii ''0123456789abcdef'' ! n = hex_char n) [0..<16]"
      by code_simp
    then show ?thesis
      using that by (simp add: list_all_iff)
  qed
  have "unat c < 32 \<longleftrightarrow> c \<le> 0x1F"
    by (simp add: word_le_nat_alt less_Suc_eq_le [of _ 31, simplified])
  moreover have "c \<in> set (ascii [CHR 0x22, CHR 0x5C]) \<longleftrightarrow> c = 34 \<or> c = 92"
    by (simp add: ascii_def)
  moreover have "unat c div 16 < 16" "unat c mod 16 < 16"
    using unsigned_less [of c, where 'a = nat] by simp_all
  ultimately show ?thesis
    using d by (simp add: json_char_def needs_escape_def escaped_def Let_def)
qed

lemma string_text_eq: "string_text s = concat (map (\<lambda>c. if needs_escape c then escaped c else [c]) s)"
  by (induction s) (simp_all add: string_text_def json_char_eq)

lemma string_text_append: "string_text (s @ t) = string_text s @ string_text t"
  by (simp add: string_text_eq)

lemma string_text_plain: "(\<And>c. c \<in> set s \<Longrightarrow> \<not> needs_escape c) \<Longrightarrow> string_text s = s"
  by (induction s) (simp_all add: string_text_eq)

lemma length_string_text_take: "length (string_text (take i s)) \<le> length (string_text s)"
  using arg_cong [OF string_text_append [of "take i s" "drop i s"], of length] by simp

lemma length_escaped [simp]: "length (escaped c) = 6"
  by (simp add: escaped_def ascii_def)

lemma hex_char_nonzero: "n < 16 \<Longrightarrow> hex_char n \<noteq> 0"
proof -
  have "list_all (\<lambda>n. hex_char n \<noteq> 0) [0..<16]"
    by code_simp
  then show "n < 16 \<Longrightarrow> hex_char n \<noteq> 0"
    by (simp add: list_all_iff)
qed

lemma zero_escaped: "0 \<notin> set (escaped c)"
proof -
  have "unat c < 2 ^ 8"
    using unsigned_less [of c, where 'a = nat] by simp
  then have "unat c div 16 < 16"
    by simp
  then show ?thesis
    using hex_char_nonzero [of "unat c div 16"] hex_char_nonzero [of "unat c mod 16"] by (auto simp: escaped_def ascii_def)
qed

lemma put_escaped_ok:
  assumes "plentiful alloc" and "contains factory t" and "length t + 7 < 2 ^ 63"
  obtains factory' where "put_escaped alloc c factory = Some (True, factory')" "extended factory' (t @ escaped c)"
proof -
  have len: "length (escaped c) \<le> unat (7 :: u64)" "length t + unat (7 :: u64) < 2 ^ 63"
    using assms(3) by simp_all
  obtain f1 d d' f2 where f: "sxe_factory_reserve alloc 7 factory = Some (Some (length t), f1)" "f_data f1 = Some d"
    "memcpy_at d (length t) (escaped c @ [0]) = Some d'" "0 \<notin> set (escaped c) \<longrightarrow> c_string_at d' (length t) = Some (escaped c)"
    "sxe_factory_commit (of_nat (length (escaped c))) (f1\<lparr>f_data := Some d'\<rparr>) = Some f2" "extended f2 (t @ escaped c)"
    by (rule print_ok [OF assms(1,2) len])
  have "put_escaped alloc c factory = Some (True, f2)"
    using f(1-5) zero_escaped by (simp add: put_escaped_def snprintf_at_def SXEA6_def)
  then show thesis
    using that f(6) by blast
qed

lemma string_json_loop_ok:
  assumes "plentiful alloc" and "length s < 2 ^ 32" and "length t + length (string_text s) + 7 < 2 ^ 63"
    and "contains factory (t @ string_text (take (unat first) s))" and "first \<le> i" and "unat i \<le> length s"
    and "\<And>j. unat first \<le> j \<Longrightarrow> j < unat i \<Longrightarrow> \<not> needs_escape (s ! j)"
  shows "\<exists>first' factory'. string_json_loop alloc s first i factory = Some (Some first', factory') \<and> unat first' \<le> length s \<and>
    contains factory' (t @ string_text (take (unat first') s)) \<and> (\<forall>j. unat first' \<le> j \<longrightarrow> j < length s \<longrightarrow> \<not> needs_escape (s ! j))"
  using assms(4-7)
proof (induction "length s - unat i" arbitrary: first i factory)
  case 0
  then have "\<not> unat i < length s"
    by simp
  then show ?case
    using 0 by (subst string_json_loop.simps) (auto simp: word_le_nat_alt)
next
  case (Suc n)
  then have i: "unat i < length s"
    by simp
  then have step: "unat (i + 1) = unat i + 1"
    using assms(2) by (simp add: unat_word_ariths)
  show ?case
  proof (cases "needs_escape (s ! unat i)")
    case False
    have "string_json_loop alloc s first i factory = string_json_loop alloc s first (i + 1) factory"
      by (subst string_json_loop.simps) (simp add: i False)
    moreover have "\<not> needs_escape (s ! j)" if "unat first \<le> j" "j < unat (i + 1)" for j
      using Suc.prems(4) False that step by (cases "j = unat i") auto
    ultimately show ?thesis
      using Suc.hyps(1) [of "i + 1" factory first] Suc.hyps(2) Suc.prems step i by (simp add: word_le_nat_alt)
  next
    case True
    let ?t = "t @ string_text (take (unat first) s)" and ?u = "take (unat i - unat first) (drop (unat first) s)"
    have fi: "unat first \<le> unat i"
      using Suc.prems(2) by (simp add: word_le_nat_alt)
    have split: "take (unat i) s = take (unat first) s @ ?u"
      using fi by (metis le_add_diff_inverse take_add)
    have "string_text ?u = ?u"
      using Suc.prems(4) i fi by (intro string_text_plain) (auto simp: in_set_conv_nth)
    then have tx: "string_text (take (unat i) s) = string_text (take (unat first) s) @ ?u"
      unfolding split by (simp add: string_text_append)
    have room: "length t + length (string_text (take (unat i) s)) + 7 < 2 ^ 63"
      using assms(3) length_string_text_take [of "unat i" s] by simp
    obtain f1 where f1: "(if first < i then map_option snd (sxe_factory_add alloc (drop (unat first) s) (ucast (i - first)) factory) else Some factory) = Some f1"
        "contains f1 (t @ string_text (take (unat i) s))"
    proof (cases "first < i")
      case True
      then have d: "unat (i - first) = unat i - unat first" "0 < unat i - unat first"
        using fi by (auto simp: unat_sub word_less_nat_alt word_le_nat_alt)
      have "unat (ucast (i - first) :: u64) = unat i - unat first"
        using unsigned_less [of "i - first", where 'a = nat] by (simp add: unsigned_ucast_eq take_bit_nat_eq_self d(1))
      moreover have "unat i - unat first \<le> length (drop (unat first) s)" "length ?t + (unat i - unat first) < 2 ^ 63"
        using i fi room tx by simp_all
      ultimately obtain f1
        where "map_option snd (sxe_factory_add alloc (drop (unat first) s) (ucast (i - first)) factory) = Some f1" "extended f1 (?t @ ?u)"
        using add_prefix [OF assms(1) Suc.prems(1) _ d(2)] by blast
      then show thesis
        using that [of f1] True tx by (simp add: extended_def)
    next
      case False
      then have "first = i"
        using Suc.prems(2) by simp
      then show thesis
        using that [of factory] Suc.prems(1) by simp
    qed
    obtain f2 where f2: "put_escaped alloc (s ! unat i) f1 = Some (True, f2)" "extended f2 ((t @ string_text (take (unat i) s)) @ escaped (s ! unat i))"
      using put_escaped_ok [OF assms(1) f1(2)] room by auto
    have "string_text (take (unat (i + 1)) s) = string_text (take (unat i) s) @ escaped (s ! unat i)"
      using i True step by (simp add: take_Suc_conv_app_nth string_text_append) (simp add: string_text_eq)
    then have "contains f2 (t @ string_text (take (unat (i + 1)) s))"
      using f2(2) by (simp add: extended_def)
    moreover have "string_json_loop alloc s first i factory = string_json_loop alloc s (i + 1) (i + 1) f2"
      by (subst string_json_loop.simps) (simp add: i True f1(1) f2(1))
    ultimately show ?thesis
      using Suc.hyps(1) [of "i + 1" f2 "i + 1"] Suc.hyps(2) step i by simp
  qed
qed

text \<open>What the conversion of a string adds to a factory\<close>

lemma string_build_json_ok:
  assumes alloc: "plentiful alloc" and s: "sxe_jitson_len p m = Some (length s, m)" "sxe_jitson_get_string m p = Some ptr" "chars_at m ptr (length s) = Some s"
    and len: "length s < 2 ^ 32" and f: "contains factory t" and room: "length t + length (string_text s) + 9 < 2 ^ 63"
  obtains factory' where "sxe_jitson_string_build_json alloc p factory m = Some (True, factory', m)" "extended factory' (t @ [34] @ string_text s @ [34])"
proof -
  obtain f1 where f1: "put alloc [34] factory = Some f1" "extended f1 (t @ [34])"
    using put_ok [OF alloc f, of "[34]"] room by auto
  obtain first f2 where f2: "string_json_loop alloc s 0 0 f1 = Some (Some first, f2)" "unat first \<le> length s"
      "contains f2 ((t @ [34]) @ string_text (take (unat first) s))" "\<And>j. unat first \<le> j \<Longrightarrow> j < length s \<Longrightarrow> \<not> needs_escape (s ! j)"
    using string_json_loop_ok [OF alloc len, of "t @ [34]" f1 0 0] f1(2) room by (auto simp: extended_def string_text_eq)
  have "string_text (drop (unat first) s) = drop (unat first) s"
    using f2(4) by (intro string_text_plain) (auto simp: in_set_conv_nth)
  then have rest: "string_text (take (unat first) s) @ drop (unat first) s = string_text s"
    using string_text_append [of "take (unat first) s" "drop (unat first) s"] by simp
  then have room2: "length (string_text (take (unat first) s)) + (length s - unat first) = length (string_text s)"
    by (metis length_append length_drop)
  obtain f3 where f3: "(if unat first < length s then map_option snd (sxe_factory_add alloc (drop (unat first) s) (of_nat (length s - unat first)) f2) else Some f2) = Some f3"
      "contains f3 ((t @ [34]) @ string_text s)"
  proof (cases "unat first < length s")
    case True
    have "unat (of_nat (length s - unat first) :: u64) = length s - unat first"
      using len by (simp add: unat_of_nat del: of_nat_diff)
    moreover have "length ((t @ [34]) @ string_text (take (unat first) s)) + (length s - unat first) < 2 ^ 63"
      using room room2 by simp
    ultimately obtain f3 where "map_option snd (sxe_factory_add alloc (drop (unat first) s) (of_nat (length s - unat first)) f2) = Some f3"
        "extended f3 (((t @ [34]) @ string_text (take (unat first) s)) @ take (length s - unat first) (drop (unat first) s))"
      using add_prefix [OF alloc f2(3), of "of_nat (length s - unat first)" "length s - unat first" "drop (unat first) s"] True
      by (metis length_drop order_refl zero_less_diff)
    then show thesis
      using that [of f3] True rest by (simp add: extended_def del: of_nat_diff)
  next
    case False
    then show thesis
      using that [of f2] f2(2,3) rest by simp
  qed
  obtain f4 where f4: "put alloc [34] f3 = Some f4" "extended f4 (((t @ [34]) @ string_text s) @ [34])"
    using put_ok [OF alloc f3(2), of "[34]"] room by auto
  have "sxe_jitson_string_build_json alloc p factory m = Some (True, f4, m)"
    using s f1(1) f2(1) f3(1) f4 by (simp add: sxe_jitson_string_build_json_def looked_def sxe_factory_look_def extended_def del: of_nat_diff)
  then show thesis
    using that f4(2) by simp
qed

text \<open>Decimal numbers\<close>

lemma length_decimal: "n < 10 ^ k \<Longrightarrow> 0 < k \<Longrightarrow> length (decimal n) \<le> k"
proof (induction k arbitrary: n)
  case (Suc k)
  show ?case
  proof (cases "n < 10")
    case False
    then have "0 < k"
      using Suc.prems by (cases k) auto
    moreover have "n div 10 < 10 ^ k"
      using Suc.prems by (simp add: less_mult_imp_div_less mult.commute)
    ultimately show ?thesis
      using Suc.IH [of "n div 10"] False by (subst decimal.simps) simp
  qed (simp add: decimal.simps)
qed simp

lemma length_decimal_u64: "length (decimal (unat (w :: u64))) \<le> 20"
  using length_decimal [of "unat w" 20] unsigned_less [of w, where 'a = nat] by simp

text \<open>The text of a number. A number that has a longer text makes the program abort.\<close>

lemma number_build_json_ok:
  assumes alloc: "plentiful alloc" and f: "contains factory t" and room: "length t + 24 < 2 ^ 63"
    and num: "typed m p (SXE_JITSON_TYPE_NUMBER OR SXE_JITSON_TYPE_IS_UINT) \<and> tx = decimal (unat w) \<or>
      typed m p SXE_JITSON_TYPE_NUMBER \<and> tx = je_format env w \<and> length tx \<le> 24" "jit_integer m p = Some w"
  obtains factory' where "sxe_jitson_number_build_json env alloc m p factory = Some (True, factory')" "extended factory' (t @ tx)"
proof -
  have len: "length tx \<le> unat (of_nat NUMBER_MAX_LEN :: u64)" "length t + unat (of_nat NUMBER_MAX_LEN :: u64) < 2 ^ 63"
    using num(1) room length_decimal_u64 [of w] by (auto simp: NUMBER_MAX_LEN_def)
  obtain f1 d d' f2 where f: "sxe_factory_reserve alloc (of_nat NUMBER_MAX_LEN) factory = Some (Some (length t), f1)" "f_data f1 = Some d"
    "memcpy_at d (length t) (tx @ [0]) = Some d'" "0 \<notin> set tx \<longrightarrow> c_string_at d' (length t) = Some tx"
    "sxe_factory_commit (of_nat (length tx)) (f1\<lparr>f_data := Some d'\<rparr>) = Some f2" "extended f2 (t @ tx)"
    by (rule print_ok [OF alloc f len])
  have tx: "length tx \<le> 24"
    using len(1) by (simp add: NUMBER_MAX_LEN_def)
  have "sxe_jitson_number_build_json env alloc m p factory = Some (True, f2)"
    using num(1)
  proof
    assume u: "typed m p (SXE_JITSON_TYPE_NUMBER OR SXE_JITSON_TYPE_IS_UINT) \<and> tx = decimal (unat w)"
    then have "sxe_jitson_dereference m p = Some p" "sxe_jitson_get_type m p = Some SXE_JITSON_TYPE_NUMBER"
      using get_type_ok [of m p "SXE_JITSON_TYPE_NUMBER OR SXE_JITSON_TYPE_IS_UINT"] by (auto simp: type_defs)
    moreover obtain x where "jit_type m p = Some x" "has x SXE_JITSON_TYPE_IS_UINT"
      using u by (elim conjE typed_mask) (simp add: has_def type_defs)
    ultimately show ?thesis
      using f u num(2) tx
      by (simp add: sxe_jitson_number_build_json_def sxe_jitson_get_uint_def snprintf_at_def looked_def sxe_factory_look_def extended_def NUMBER_MAX_LEN_def SXEA6_def)
  next
    assume u: "typed m p SXE_JITSON_TYPE_NUMBER \<and> tx = je_format env w \<and> length tx \<le> 24"
    then have "sxe_jitson_dereference m p = Some p" "sxe_jitson_get_type m p = Some SXE_JITSON_TYPE_NUMBER"
      using get_type_ok [of m p SXE_JITSON_TYPE_NUMBER] by (auto simp: type_defs)
    moreover obtain x where "jit_type m p = Some x" "\<not> has x SXE_JITSON_TYPE_IS_UINT"
      using u by (elim conjE typed_mask) (simp add: has_def type_defs)
    ultimately show ?thesis
      using f u num(2) tx
      by (simp add: sxe_jitson_number_build_json_def sxe_jitson_get_number_def snprintf_at_def looked_def sxe_factory_look_def extended_def NUMBER_MAX_LEN_def SXEA6_def)
  qed
  then show thesis
    using that f(6) by blast
qed

section \<open>The text of a value\<close>

text \<open>The members of an object in the order in which they are printed: by bucket, and backwards in each\<close>

definition bucket_order :: "(bytes \<Rightarrow> u32) \<Rightarrow> (bytes \<times> 'a) list \<Rightarrow> (bytes \<times> 'a) list" where
  "bucket_order h ms = concat (map (\<lambda>b. rev (filter (\<lambda>(k, _). bucket h (length ms) k = b) ms)) [0..<length ms])"

fun reorder :: "(bytes \<Rightarrow> u32) \<Rightarrow> jvalue \<Rightarrow> jvalue" where
  "reorder h (JArray vs) = JArray (map (reorder h) vs)"
| "reorder h (JObject ms) = JObject (bucket_order h (map (\<lambda>(k, v). (k, reorder h v)) ms))"
| "reorder h v = v"

text \<open>Texts with commas between them, and before the first one if it is not the first one of all\<close>

fun separated :: "bool \<Rightarrow> bytes list \<Rightarrow> bytes" where
  "separated first [] = []"
| "separated first (x # xs) = (if first then [] else [44]) @ x @ separated False xs"

fun json_text :: "(u64 \<Rightarrow> bytes) \<Rightarrow> jvalue \<Rightarrow> bytes" where
  "json_text fmt JNull = ascii ''null''"
| "json_text fmt (JBool b) = (if b then ascii ''true'' else ascii ''false'')"
| "json_text fmt (JUint n) = decimal (unat n)"
| "json_text fmt (JNumber w) = fmt w"
| "json_text fmt (JString s) = [34] @ string_text s @ [34]"
| "json_text fmt (JArray vs) = [91] @ separated True (map (json_text fmt) vs) @ [93]"
| "json_text fmt (JObject ms) = [123] @ separated True (map (\<lambda>(k, v). [34] @ string_text k @ [34, 58] @ json_text fmt v) ms) @ [125]"

text \<open>The numbers of a value have texts that are not too long.\<close>

fun formats_ok :: "(u64 \<Rightarrow> bytes) \<Rightarrow> jvalue \<Rightarrow> bool" where
  "formats_ok fmt (JNumber w) \<longleftrightarrow> length (fmt w) \<le> NUMBER_MAX_LEN"
| "formats_ok fmt (JArray vs) \<longleftrightarrow> list_all (formats_ok fmt) vs"
| "formats_ok fmt (JObject ms) \<longleftrightarrow> list_all (\<lambda>(k, v). formats_ok fmt v) ms"
| "formats_ok fmt _ \<longleftrightarrow> True"

lemma separated_append: "separated first (xs @ ys) = separated first xs @ separated (first \<and> xs = []) ys"
  by (induction first xs rule: separated.induct) simp_all

end
