(* ===== verification/Sxe_Jitson_Print_Spec.thy ===== *)
theory Sxe_Jitson_Print_Spec
  imports Sxe_Jitson_Print_Text
begin

text \<open>
  The conversion of a value in memory to JSON, which indexes its arrays and objects on the way.
\<close>

section \<open>Memory for indices\<close>

text \<open>The allocator provides a number of indices, and there are enough of them for the parts that have none yet.\<close>

definition provides :: "jit_env \<Rightarrow> nat \<Rightarrow> bool" where
  "provides env k \<longleftrightarrow> (\<forall>m n. card (dom (indices m)) < k \<longrightarrow> je_index env m n \<noteq> None)"

fun is_collection :: "jvalue \<Rightarrow> bool" where
  "is_collection (JArray vs) \<longleftrightarrow> True"
| "is_collection (JObject ms) \<longleftrightarrow> True"
| "is_collection _ \<longleftrightarrow> False"

definition unindexed :: "nat \<Rightarrow> jvalue \<Rightarrow> jit_memory \<Rightarrow> nat set" where
  "unindexed P V m = {p. \<exists>v. (p, v) \<in> set (parts P V) \<and> is_collection v \<and> \<not> is_indexed m p}"

definition printable :: "jit_env \<Rightarrow> nat \<Rightarrow> nat \<Rightarrow> jvalue \<Rightarrow> jit_memory \<Rightarrow> bool" where
  "printable env k P V m \<longleftrightarrow> value_at (je_hash env) m P V \<and> card (dom (indices m)) + card (unindexed P V m) \<le> k"

definition keeps :: "nat \<Rightarrow> jvalue \<Rightarrow> jit_memory \<Rightarrow> jit_memory \<Rightarrow> bool" where
  "keeps P V m m' \<longleftrightarrow> (\<forall>q w. (q, w) \<in> set (parts P V) \<longrightarrow> is_indexed m q \<longrightarrow> is_indexed m' q)"

lemma keeps_refl [simp]: "keeps P V m m"
  by (simp add: keeps_def)

lemma keeps_trans: "keeps P V m1 m2 \<Longrightarrow> keeps P V m2 m3 \<Longrightarrow> keeps P V m1 m3"
  by (auto simp: keeps_def)

lemma finite_unindexed [simp]: "finite (unindexed P V m)"
  by (rule finite_subset [of _ "fst ` set (parts P V)"]) (force simp: unindexed_def)+

lemma provided:
  assumes "printable env k P V m" and "provides env k" and "(p, v) \<in> set (parts P V)" and "is_collection v" and "\<not> is_indexed m p"
  shows "je_index env m n \<noteq> None"
proof -
  have "p \<in> unindexed P V m"
    using assms(3-5) by (auto simp: unindexed_def)
  then have "0 < card (unindexed P V m)"
    by (auto simp: card_gt_0_iff)
  then have "card (dom (indices m)) < k"
    using assms(1) by (simp add: printable_def)
  then show ?thesis
    using assms(2) by (simp add: provides_def)
qed

lemma same_part:
  assumes "(p, v) \<in> set (parts P V)" and "(q, w) \<in> set (parts P V)" and "q \<in> own p v"
  shows "q = p" "w = v"
  using parts_disjoint(1) [OF assms(2,1)] own_self [of q w] assms(3) by blast+

lemma printable_step:
  assumes m: "printable env k P V m" and part: "(p, v) \<in> set (parts P V)" "is_collection v" and m': "value_at (je_hash env) m' P V"
    and step: "m' = m \<or> index_step p v m m'"
  shows "printable env k P V m'" "keeps P V m m'"
proof -
  have "printable env k P V m' \<and> keeps P V m m'"
    using step
  proof
    assume i: "index_step p v m m'"
    then obtain a where a: "\<not> is_indexed m p" "is_indexed m' p" "dom (indices m') = insert a (dom (indices m))" "same_on (- own p v) m m'"
      by (auto simp: index_step_def)
    have other: "is_indexed m' q = is_indexed m q" if "(q, w) \<in> set (parts P V)" "q \<noteq> p" for q w
    proof -
      have "q \<notin> own p v"
        using same_part(1) [OF part(1) that(1)] that(2) by blast
      then show ?thesis
        using fields_same(1) [OF a(4), of q] by (simp add: is_indexed_def)
    qed
    have "unindexed P V m' \<subseteq> unindexed P V m - {p}"
      using other a(2) by (force simp: unindexed_def)
    then have "card (unindexed P V m') \<le> card (unindexed P V m - {p})"
      by (simp add: card_mono)
    moreover have "p \<in> unindexed P V m"
      using part a(1) by (auto simp: unindexed_def)
    moreover have "card (dom (indices m')) \<le> card (dom (indices m)) + 1"
      unfolding a(3) by (simp add: card_insert_if)
    moreover have "0 < card (unindexed P V m)"
      using \<open>p \<in> unindexed P V m\<close> by (auto simp: card_gt_0_iff)
    ultimately have "card (dom (indices m')) + card (unindexed P V m') \<le> card (dom (indices m)) + card (unindexed P V m)"
      by simp
    then show ?thesis
      using m m' other a(2) by (auto simp: printable_def keeps_def)
  qed (use m in simp)
  then show "printable env k P V m'" "keeps P V m m'"
    by simp_all
qed

section \<open>States of the conversion\<close>

definition state_ok :: "jit_env \<Rightarrow> nat \<Rightarrow> nat \<Rightarrow> jvalue \<Rightarrow> json_state \<Rightarrow> bytes \<Rightarrow> bool" where
  "state_ok env k P V st t \<longleftrightarrow> contains (js_factory st) t \<and> printable env k P V (js_memory st)"

definition room_for :: "bytes \<Rightarrow> bytes \<Rightarrow> bool" where
  "room_for t text \<longleftrightarrow> length t + length text + 32 < 2 ^ 63"

text \<open>A step of the conversion adds a text.\<close>

definition adds :: "jit_env \<Rightarrow> nat \<Rightarrow> nat \<Rightarrow> jvalue \<Rightarrow> json_state \<Rightarrow> bytes \<Rightarrow> json_state \<Rightarrow> bool" where
  "adds env k P V st t st' \<longleftrightarrow> state_ok env k P V st' t \<and> f_data (js_factory st') \<noteq> None \<and> keeps P V (js_memory st) (js_memory st')"

lemma put_json_ok:
  assumes "plentiful alloc" and "state_ok env k P V st t" and "bs \<noteq> []" and "room_for t bs"
  obtains st' where "put_json alloc bs st = Some st'" "adds env k P V st (t @ bs) st'" "js_memory st' = js_memory st"
proof -
  obtain f where "put alloc bs (js_factory st) = Some f" "extended f (t @ bs)"
    using put_ok [OF assms(1) _ assms(3), of "js_factory st" t] assms(2,4) by (auto simp: state_ok_def room_for_def)
  then show thesis
    using that [of "st\<lparr>js_factory := f\<rparr>"] assms(2) by (auto simp: put_json_def adds_def state_ok_def extended_def)
qed

abbreviation value_text :: "jit_env \<Rightarrow> jvalue \<Rightarrow> bytes" where
  "value_text env v \<equiv> json_text (je_format env) (reorder (je_hash env) v)"

definition converts :: "jit_env \<Rightarrow> allocator \<Rightarrow> nat \<Rightarrow> nat \<Rightarrow> jvalue \<Rightarrow> jvalue \<Rightarrow> bool" where
  "converts env alloc k P V v \<longleftrightarrow>
     (\<forall>p st t. (p, v) \<in> set (parts P V) \<longrightarrow> state_ok env k P V st t \<longrightarrow> room_for t (value_text env v) \<longrightarrow>
        (\<exists>st'. json_builder env alloc (Json_Value p) st = Some (True, st') \<and> adds env k P V st (t @ value_text env v) st'))"

lemma json_value_typed:
  assumes "typed (js_memory st) p t"
  shows "json_builder env alloc (Json_Value p) st = json_builder env alloc (Json_Typed (t AND SXE_JITSON_TYPE_MASK) p) st"
  using assms by (elim typed_mask) (simp add: json_builder.simps [of env alloc "Json_Value p"])

lemma json_leaf:
  assumes "t \<in> {SXE_JITSON_TYPE_NULL, SXE_JITSON_TYPE_BOOL, SXE_JITSON_TYPE_NUMBER, SXE_JITSON_TYPE_STRING}"
  shows "json_builder env alloc (Json_Typed t p) st = leaf_build_json env alloc t p st"
  using assms by (auto simp: json_builder.simps [of env alloc "Json_Typed _ p"] type_defs)

section \<open>Simple values\<close>

lemma json_string_ok:
  assumes alloc: "plentiful alloc" and st: "state_ok env k P V st t" and room: "room_for t ([34] @ string_text s @ [34])"
    and w: "typed (js_memory st) p w" "w AND SXE_JITSON_TYPE_MASK = SXE_JITSON_TYPE_STRING"
    and len: "sxe_jitson_len p (js_memory st) = Some (length s, js_memory st)" "length s < 2 ^ 32"
    and ptr: "sxe_jitson_get_string (js_memory st) p = Some ptr" "chars_at (js_memory st) ptr (length s) = Some s"
  obtains st' where "json_builder env alloc (Json_Value p) st = Some (True, st')" "adds env k P V st (t @ [34] @ string_text s @ [34]) st'"
    "js_memory st' = js_memory st"
proof -
  have room': "length t + length (string_text s) + 9 < 2 ^ 63"
    using room by (simp add: room_for_def)
  have f: "contains (js_factory st) t"
    using st by (simp add: state_ok_def)
  obtain f' where f': "sxe_jitson_string_build_json alloc p (js_factory st) (js_memory st) = Some (True, f', js_memory st)"
      "extended f' (t @ [34] @ string_text s @ [34])"
    by (rule string_build_json_ok [OF alloc len(1) ptr len(2) f room'])
  have "json_builder env alloc (Json_Value p) st = Some (True, \<lparr>js_factory = f', js_memory = js_memory st\<rparr>)"
    using json_value_typed [OF w(1)] w(2) f'(1) by (simp add: json_leaf leaf_build_json_def)
  then show thesis
    using that f'(2) st by (auto simp: adds_def state_ok_def extended_def)
qed

lemma json_key_ok:
  assumes alloc: "plentiful alloc" and st: "state_ok env k P V st t" and room: "room_for t ([34] @ string_text s @ [34])"
    and key: "key_ok (js_memory st) (q, s)"
  obtains st' where "json_builder env alloc (Json_Value q) st = Some (True, st')" "adds env k P V st (t @ [34] @ string_text s @ [34]) st'"
    "js_memory st' = js_memory st"
proof (rule json_string_ok [OF alloc st room])
  note size = key_size [OF key]
  show t: "typed (js_memory st) q key_type"
    using key by (simp add: key_ok_def)
  show "key_type AND SXE_JITSON_TYPE_MASK = SXE_JITSON_TYPE_STRING"
    by (simp add: type_defs)
  then show "sxe_jitson_len q (js_memory st) = Some (length s, js_memory st)"
    using t size(2) by (elim typed_mask) (simp add: sxe_jitson_len_def jit_type_len_def, simp add: type_defs)
  show "length s < 2 ^ 32"
    using key by (simp add: key_ok_def string_ok_def)
  show "sxe_jitson_get_string (js_memory st) q = Some (Inside (16 * q + 8))" "chars_at (js_memory st) (Inside (16 * q + 8)) (length s) = Some s"
    using size(4) member_name_read [OF key] by simp_all
qed (use that in blast)

lemma converts_string:
  assumes alloc: "plentiful alloc"
  shows "converts env alloc k P V (JString s)"
  unfolding converts_def
proof (intro allI impI)
  fix p st t
  assume part: "(p, JString s) \<in> set (parts P V)" and st: "state_ok env k P V st t" and room: "room_for t (value_text env (JString s))"
  let ?m = "js_memory st"
  have s: "typed ?m p SXE_JITSON_TYPE_STRING" "jit_len ?m p = Some (of_nat (length s))" "string_ok ?m p s"
    using value_at_part [OF _ part, of "je_hash env" ?m] st by (simp_all add: state_ok_def printable_def)
  have len: "length s < 2 ^ 32" "unat (of_nat (length s) :: u32) = length s"
    using s(3) by (simp_all add: string_ok_def unat_of_nat)
  have ptr: "sxe_jitson_get_string ?m p = Some (Inside (16 * p + 8))" "sxe_jitson_len p ?m = Some (length s, ?m)"
    using s(1,2) len(2) get_type_ok [OF s(1)]
    by (elim typed_mask; simp add: sxe_jitson_get_string_def str_ptr_def sxe_jitson_len_def jit_type_len_def jit_string_len_def SXEA6_def has_def type_defs)+
  have "chars_at ?m (Inside (16 * p + 8)) (length s) = Some s"
    using s(3) by (rule string_read)
  then obtain st' where "json_builder env alloc (Json_Value p) st = Some (True, st')" "adds env k P V st (t @ [34] @ string_text s @ [34]) st'"
    using json_string_ok [OF alloc st _ s(1) _ ptr(2) len(1) ptr(1)] room by (auto simp: type_defs)
  then show "\<exists>st'. json_builder env alloc (Json_Value p) st = Some (True, st') \<and> adds env k P V st (t @ value_text env (JString s)) st'"
    by auto
qed

lemma converts_number:
  assumes alloc: "plentiful alloc" and v: "v = JUint w \<or> v = JNumber w \<and> length (je_format env w) \<le> 24"
  shows "converts env alloc k P V v"
  unfolding converts_def
proof (intro allI impI)
  fix p st t
  assume part: "(p, v) \<in> set (parts P V)" and st: "state_ok env k P V st t" and room: "room_for t (value_text env v)"
  let ?m = "js_memory st" and ?n = "value_text env v"
  have num: "typed ?m p (SXE_JITSON_TYPE_NUMBER OR SXE_JITSON_TYPE_IS_UINT) \<and> ?n = decimal (unat w) \<or>
      typed ?m p SXE_JITSON_TYPE_NUMBER \<and> ?n = je_format env w \<and> length ?n \<le> 24" "jit_integer ?m p = Some w"
    using value_at_part [OF _ part, of "je_hash env" ?m] st v by (auto simp: state_ok_def printable_def)
  have f: "contains (js_factory st) t" "length t + 24 < 2 ^ 63"
    using st room by (simp_all add: state_ok_def room_for_def)
  obtain f' where f': "sxe_jitson_number_build_json env alloc ?m p (js_factory st) = Some (True, f')" "extended f' (t @ ?n)"
    by (rule number_build_json_ok [OF alloc f num])
  have "json_builder env alloc (Json_Value p) st = json_builder env alloc (Json_Typed SXE_JITSON_TYPE_NUMBER p) st"
    using num(1) json_value_typed [of st p] by (auto simp: type_defs)
  also have "\<dots> = Some (True, st\<lparr>js_factory := f'\<rparr>)"
    using f'(1) by (simp add: json_leaf leaf_build_json_def) (simp add: type_defs)
  finally show "\<exists>st'. json_builder env alloc (Json_Value p) st = Some (True, st') \<and> adds env k P V st (t @ ?n) st'"
    using f'(2) st by (auto simp: adds_def state_ok_def extended_def)
qed

lemma converts_literal:
  assumes alloc: "plentiful alloc" and v: "v = JNull \<or> v = JBool b"
  shows "converts env alloc k P V v"
  unfolding converts_def
proof (intro allI impI)
  fix p st t
  assume part: "(p, v) \<in> set (parts P V)" and st: "state_ok env k P V st t" and room: "room_for t (value_text env v)"
  let ?m = "js_memory st" and ?n = "value_text env v"
  have ok: "token_ok (je_hash env) ?m p v"
    using value_at_part [OF _ part] st by (simp add: state_ok_def printable_def)
  have "?n \<noteq> []"
    using v by (auto simp: ascii_def split: if_splits)
  then obtain f' where f': "put alloc ?n (js_factory st) = Some f'" "extended f' (t @ ?n)"
    using put_ok [OF alloc, of "js_factory st" t ?n] st room by (auto simp: state_ok_def room_for_def)
  have "json_builder env alloc (Json_Value p) st = Some (True, st\<lparr>js_factory := f'\<rparr>)"
    using v
  proof
    assume v: "v = JNull"
    then have "typed ?m p SXE_JITSON_TYPE_NULL"
      using ok by simp
    from json_value_typed [OF this] show ?thesis
      using v f' by (simp add: json_leaf leaf_build_json_def sxe_jitson_null_build_json_def looked_def sxe_factory_look_def extended_def type_defs)
  next
    assume v: "v = JBool b"
    then have t: "typed ?m p SXE_JITSON_TYPE_BOOL" "jit_boolean ?m p = Some b"
      using ok by simp_all
    from json_value_typed [OF t(1)] show ?thesis
      using v f' t(2) by (simp add: json_leaf leaf_build_json_def sxe_jitson_bool_build_json_def looked_def sxe_factory_look_def extended_def type_defs)
  qed
  then show "\<exists>st'. json_builder env alloc (Json_Value p) st = Some (True, st') \<and> adds env k P V st (t @ ?n) st'"
    using f'(2) st by (auto simp: adds_def state_ok_def extended_def)
qed

section \<open>Arrays\<close>

lemma adds_trans: "adds env k P V st t st1 \<Longrightarrow> adds env k P V st1 t' st2 \<Longrightarrow> adds env k P V st t' st2"
  by (auto simp: adds_def elim: keeps_trans)

lemma element_at_ok:
  assumes st: "state_ok env k P V st t" and env: "fresh_indices env" "provides env k" and part: "(p, JArray vs) \<in> set (parts P V)"
    and i: "i < length vs" "length vs < 2 ^ 32"
  obtains q st' where "element_at env p (of_nat i) st = Some (q, st')" "(q, vs ! i) \<in> set (parts P V)" "state_ok env k P V st' t"
    "keeps P V (js_memory st) (js_memory st')"
proof -
  have m: "printable env k P V (js_memory st)" "value_at (je_hash env) (js_memory st) P V"
    using st by (simp_all add: state_ok_def printable_def)
  obtain res m' where res: "sxe_jitson_array_get_element env p i (js_memory st) = Some (res, m')" "value_at (je_hash env) m' P V"
      "m' = js_memory st \<or> index_step p (JArray vs) (js_memory st) m'"
      "case res of Some q \<Rightarrow> i < length vs \<and> (q, vs ! i) \<in> set (parts P V)
       | None \<Rightarrow> m' = js_memory st \<and> (i \<ge> length vs \<or> typed (js_memory st) p SXE_JITSON_TYPE_ARRAY \<and> je_index env (js_memory st) (length vs + 1) = None)"
    using array_get_element_result [OF m(2) part env(1), of i] by blast
  have "res \<noteq> None"
  proof
    assume "res = None"
    then have "typed (js_memory st) p SXE_JITSON_TYPE_ARRAY" "je_index env (js_memory st) (length vs + 1) = None"
      using res(4) i(1) by auto
    then show False
      using provided [OF m(1) env(2) part] typed_indexed(2) by auto
  qed
  then obtain q where "res = Some q" "(q, vs ! i) \<in> set (parts P V)"
    using res(4) by auto
  moreover have "unat (of_nat i :: u32) = i"
    using i by (simp add: unat_of_nat)
  ultimately show thesis
    using that [of q "st\<lparr>js_memory := m'\<rparr>"] res(1) printable_step [OF m(1) part _ res(2,3)] st by (simp add: element_at_def state_ok_def)
qed

lemma json_elements_ok:
  assumes alloc: "plentiful alloc" and env: "fresh_indices env" "provides env k" and part: "(p, JArray vs) \<in> set (parts P V)"
    and IH: "\<And>v. v \<in> set vs \<Longrightarrow> converts env alloc k P V v" and len: "length vs < 2 ^ 32"
    and "i < length vs" and "state_ok env k P V st t" and "room_for t (separated True (map (value_text env) (drop i vs)))"
  shows "\<exists>st'. json_builder env alloc (Json_Elements p (of_nat (length vs)) (of_nat i)) st = Some (True, st') \<and>
    adds env k P V st (t @ separated True (map (value_text env) (drop i vs))) st'"
  using assms(7-9)
proof (induction "length vs - i" arbitrary: i st t)
  case (Suc n)
  let ?x = "value_text env (vs ! i)"
  have last: "(of_nat (length vs) - 1 :: u32) = of_nat (length vs - 1)"
    using Suc.prems(1) by simp
  have more: "(of_nat i :: u32) < of_nat (length vs) - 1 \<longleftrightarrow> Suc i < length vs"
    unfolding last using len Suc.prems(1) by (simp add: word_less_nat_alt unat_of_nat less_diff_conv del: of_nat_diff)
  have drop: "drop i vs = vs ! i # drop (Suc i) vs"
    using Suc.prems(1) by (simp add: Cons_nth_drop_Suc)
  obtain q st1 where q: "element_at env p (of_nat i) st = Some (q, st1)" "(q, vs ! i) \<in> set (parts P V)" "state_ok env k P V st1 t"
      "keeps P V (js_memory st) (js_memory st1)"
    by (rule element_at_ok [OF Suc.prems(2) env part Suc.prems(1) len])
  obtain st2 where st2: "json_builder env alloc (Json_Value q) st1 = Some (True, st2)" "adds env k P V st1 (t @ ?x) st2"
    using IH [of "vs ! i"] Suc.prems(1,3) q(2,3) unfolding converts_def drop by (fastforce simp: room_for_def)
  have adds2: "adds env k P V st (t @ ?x) st2"
    using st2(2) q(4) by (auto simp: adds_def elim: keeps_trans)
  show ?case
  proof (cases "Suc i < length vs")
    case True
    have sep: "separated True (map (value_text env) (drop i vs)) = ?x @ [44] @ separated True (map (value_text env) (drop (Suc i) vs))"
      using True by (simp add: drop Cons_nth_drop_Suc [symmetric])
    have ok2: "state_ok env k P V st2 (t @ ?x)"
      using st2(2) by (simp add: adds_def)
    obtain st3 where st3: "put_json alloc [44] st2 = Some st3" "adds env k P V st2 ((t @ ?x) @ [44]) st3"
      using put_json_ok [OF alloc ok2, of "[44]"] Suc.prems(3) unfolding sep by (auto simp: room_for_def)
    have ok3: "state_ok env k P V st3 (t @ ?x @ [44])"
      using st3(2) by (simp add: adds_def)
    have "room_for (t @ ?x @ [44]) (separated True (map (value_text env) (drop (Suc i) vs)))"
      using Suc.prems(3) unfolding sep by (simp add: room_for_def)
    moreover have n: "n = length vs - Suc i"
      using Suc.hyps(2) by simp
    ultimately obtain st4 where st4: "json_builder env alloc (Json_Elements p (of_nat (length vs)) (of_nat (Suc i))) st3 = Some (True, st4)"
        "adds env k P V st3 ((t @ ?x @ [44]) @ separated True (map (value_text env) (drop (Suc i) vs))) st4"
      using Suc.hyps(1) [OF n True ok3] by blast
    have "json_builder env alloc (Json_Elements p (of_nat (length vs)) (of_nat i)) st = Some (True, st4)"
      using True q(1) st2(1) st3(1) st4(1)
      by (simp add: json_builder.simps [of env alloc "Json_Elements p _ _"] array_elements_def more add.commute)
    then show ?thesis
      using adds_trans [OF adds_trans [OF adds2 st3(2)] st4(2)] sep by simp
  next
    case False
    then have i: "i = length vs - 1" "drop (Suc i) vs = []"
      using Suc.prems(1) by simp_all
    have "json_builder env alloc (Json_Elements p (of_nat (length vs)) (of_nat i)) st = Some (True, st2)"
      using False q(1) st2(1) last i(1)
      by (simp add: json_builder.simps [of env alloc "Json_Elements p _ _"] array_elements_def more del: of_nat_diff)
    then show ?thesis
      using adds2 by (simp add: drop i(2) del: drop_Suc)
  qed
qed simp

lemma converts_array:
  assumes alloc: "plentiful alloc" and env: "fresh_indices env" "provides env k" and IH: "\<And>v. v \<in> set vs \<Longrightarrow> converts env alloc k P V v"
  shows "converts env alloc k P V (JArray vs)"
  unfolding converts_def
proof (intro allI impI)
  fix p st t
  assume part: "(p, JArray vs) \<in> set (parts P V)" and st: "state_ok env k P V st t" and room: "room_for t (value_text env (JArray vs))"
  let ?m = "js_memory st" and ?s = "separated True (map (value_text env) vs)"
  have tx: "value_text env (JArray vs) = [91] @ ?s @ [93]"
    by (simp add: o_def)
  have c: "length vs < 2 ^ 32" "jit_len ?m p = Some (of_nat (length vs))"
    "typed ?m p SXE_JITSON_TYPE_ARRAY \<or> typed ?m p (SXE_JITSON_TYPE_ARRAY OR SXE_JITSON_TYPE_INDEXED)"
    using value_at_part [OF _ part, of "je_hash env" ?m] st by (auto simp: collection_ok_def state_ok_def printable_def)
  have ty: "json_builder env alloc (Json_Value p) st = sxe_jitson_array_build_json alloc (json_builder env alloc) p st"
    using c(3) json_value_typed [of st p] by (auto simp: json_builder.simps [of env alloc "Json_Typed _ p"] type_defs)
  obtain st1 where st1: "put_json alloc [91] st = Some st1" "adds env k P V st (t @ [91]) st1" "js_memory st1 = ?m"
    using put_json_ok [OF alloc st, of "[91]"] room unfolding tx by (auto simp: room_for_def)
  have pos: "0 < (of_nat (length vs) :: u32) \<longleftrightarrow> vs \<noteq> []"
    using c(1) by (simp add: word_less_nat_alt unat_of_nat)
  have ok1: "state_ok env k P V st1 (t @ [91])"
    using st1(2) by (simp add: adds_def)
  obtain st2 where st2: "(if 0 < (of_nat (length vs) :: u32) then json_builder env alloc (Json_Elements p (of_nat (length vs)) 0) st1 else Some (True, st1)) = Some (True, st2)"
      "adds env k P V st ((t @ [91]) @ ?s) st2"
  proof (cases "vs = []")
    case True
    then show thesis
      using that [of st1] st1(2) pos by simp
  next
    case False
    have "room_for (t @ [91]) ?s"
      using room unfolding tx by (simp add: room_for_def)
    then obtain st2 where "json_builder env alloc (Json_Elements p (of_nat (length vs)) 0) st1 = Some (True, st2)" "adds env k P V st1 ((t @ [91]) @ ?s) st2"
      using json_elements_ok [OF alloc env part IH c(1) _ ok1, of 0] False by auto
    then show thesis
      using that [of st2] False pos adds_trans [OF st1(2)] by simp
  qed
  have ok2: "state_ok env k P V st2 (t @ [91] @ ?s)"
    using st2(2) by (simp add: adds_def)
  obtain st3 where st3: "put_json alloc [93] st2 = Some st3" "adds env k P V st2 ((t @ [91] @ ?s) @ [93]) st3"
    using put_json_ok [OF alloc ok2, of "[93]"] room unfolding tx by (auto simp: room_for_def)
  have "json_builder env alloc (Json_Value p) st = Some (True, st3)"
    unfolding ty using st1(1,3) st2(1) st3 c(2) by (simp add: sxe_jitson_array_build_json_def looked_json_def sxe_factory_look_def adds_def)
  then show "\<exists>st'. json_builder env alloc (Json_Value p) st = Some (True, st') \<and> adds env k P V st (t @ value_text env (JArray vs)) st'"
    using adds_trans [OF st2(2) st3(2)] unfolding tx by auto
qed

section \<open>Objects\<close>

text \<open>The members of an object with the positions of their names, and those of a bucket in the order of its chain\<close>

fun spots :: "nat \<Rightarrow> (bytes \<times> jvalue) list \<Rightarrow> (nat \<times> bytes \<times> jvalue) list" where
  "spots q [] = []"
| "spots q ((k, v) # ms) = (q, k, v) # spots (q + ksize k + vsize v) ms"

definition chain_of :: "(bytes \<Rightarrow> u32) \<Rightarrow> nat \<Rightarrow> (bytes \<times> jvalue) list \<Rightarrow> nat \<Rightarrow> (nat \<times> bytes \<times> jvalue) list" where
  "chain_of h p ms b = rev (filter (\<lambda>(q, k, v). bucket h (length ms) k = b) (spots (p + 1) ms))"

lemma spots_proj: "map (\<lambda>(q, k, v). (q, k)) (spots q ms) = key_positions q ms" "map snd (spots q ms) = ms"
  by (induction q ms rule: spots.induct) simp_all

lemma spots_part: "(r, k, v) \<in> set (spots q ms) \<Longrightarrow> (r + ksize k, v) \<in> set (parts_of_members q ms)"
proof (induction q ms rule: spots.induct)
  case (2 q j w ms)
  have "(q + ksize j, w) \<in> set (parts (q + ksize j) w)"
    by (cases w) simp_all
  then show ?case
    using 2 by auto
qed simp

lemma chain_of_keys: "rev (map fst (filter (\<lambda>(q, k). bucket h (length ms) k = b) (key_positions (p + 1) ms))) = map fst (chain_of h p ms b)"
  unfolding chain_of_def spots_proj(1) [symmetric] by (simp add: rev_map filter_map o_def case_prod_unfold)

lemma chain_of_member:
  assumes "(p, JObject ms) \<in> set (parts P V)" and "(q, j, v) \<in> set (chain_of h p ms b)"
  shows "(q + ksize j, v) \<in> set (parts P V)" "(j, v) \<in> set ms" "(q, j) \<in> set (key_positions (p + 1) ms)"
proof -
  have q: "(q, j, v) \<in> set (spots (p + 1) ms)"
    using assms(2) by (auto simp: chain_of_def)
  then show "(q + ksize j, v) \<in> set (parts P V)"
    using spots_part parts_of_parts(1) [OF assms(1)] by fastforce
  show "(j, v) \<in> set ms" "(q, j) \<in> set (key_positions (p + 1) ms)"
    using imageI [OF q, of snd] imageI [OF q, of "\<lambda>(q, k, v). (q, k)"] by (simp_all flip: spots_proj(1) set_map add: spots_proj(2)) 
qed

lemma object_chains:
  assumes "value_at h m P V" and "(p, JObject ms) \<in> set (parts P V)" and "is_indexed m p"
  obtains a ix where "jit_integer m p = Some a" "indices m a = Some (ix @ [of_nat (vsize (JObject ms))])" "length ix = length ms"
    "\<And>b. b < length ms \<Longrightarrow> chain m p (ix ! b) (map fst (chain_of h p ms b))" "\<And>q j. (q, j) \<in> set (key_positions (p + 1) ms) \<Longrightarrow> key_ok m (q, j)"
proof -
  have "\<not> typed m p SXE_JITSON_TYPE_OBJECT"
    using assms(3) typed_indexed(2) by blast
  then obtain a ix where "jit_integer m p = Some a" "indices m a = Some (ix @ [of_nat (vsize (JObject ms))])" "length ix = length ms"
      "chains_ok h m p (length ms) (key_positions (p + 1) ms) ix" "list_all (key_ok m) (key_positions (p + 1) ms)"
    using value_at_part [OF assms(1,2)] by (auto simp: collection_ok_def)
  then show thesis
    using that [of a ix] unfolding chains_ok_def chain_of_keys by (auto simp: list_all_iff)
qed

lemma chain_split: "chain m p i (xs @ q # ys) \<Longrightarrow> \<exists>l. jit_len m q = Some l \<and> chain m p l ys"
  by (induction xs arbitrary: i) auto

definition member_text :: "jit_env \<Rightarrow> nat \<times> bytes \<times> jvalue \<Rightarrow> bytes" where
  "member_text env = (\<lambda>(q, j, v). [34] @ string_text j @ [34, 58] @ value_text env v)"

lemma json_members_ok:
  assumes alloc: "plentiful alloc" and part: "(p, JObject ms) \<in> set (parts P V)" and b: "b < length ms"
    and IH: "\<And>j v. (j, v) \<in> set ms \<Longrightarrow> converts env alloc k P V v"
    and "chain_of (je_hash env) p ms b = before @ xs" and "state_ok env k P V st t" and "is_indexed (js_memory st) p"
    and "chain (js_memory st) p index (map fst xs)" and "room_for t (separated first (map (member_text env) xs))"
  shows "\<exists>st'. json_builder env alloc (Json_Members p n i index first) st = json_builder env alloc (Json_Buckets p n (i + 1) (first \<and> xs = [])) st' \<and>
    state_ok env k P V st' (t @ separated first (map (member_text env) xs)) \<and> keeps P V (js_memory st) (js_memory st')"
  using assms(5-9)
proof (induction xs arbitrary: before st t index first)
  case Nil
  then show ?case
    by (intro exI [of _ st]) (simp add: json_builder.simps [of env alloc "Json_Members p _ _ _ _"] object_members_def)
next
  case (Cons x xs)
  obtain q j v where x: "x = (q, j, v)"
    by (cases x) auto
  let ?m = "js_memory st" and ?c = "if first then [] else [44]"
  let ?t1 = "t @ ?c" and ?q = "[34] @ string_text j @ [34]"
  have sep: "separated first (map (member_text env) (x # xs)) = ?c @ ?q @ [58] @ value_text env v @ separated False (map (member_text env) xs)"
    by (simp add: x member_text_def)
  obtain l where l: "index \<noteq> 0" "q = p + unat index"
    using Cons.prems(4) x by auto
  have mem: "(q, j, v) \<in> set (chain_of (je_hash env) p ms b)"
    using Cons.prems(1) x by simp
  note spot = chain_of_member [OF part mem]
  have V: "value_at (je_hash env) ?m P V"
    using Cons.prems(2) by (simp add: state_ok_def printable_def)
  have key: "key_ok ?m (q, j)"
    using object_chains [OF V part Cons.prems(3)] spot(3) by metis
  obtain st1 where st1: "(if \<not> first then put_json alloc [44] st else Some st) = Some st1" "state_ok env k P V st1 ?t1" "js_memory st1 = ?m"
  proof (cases first)
    case True
    then show thesis
      using that [of st] Cons.prems(2) by simp
  next
    case False
    then show thesis
      using put_json_ok [OF alloc Cons.prems(2), of "[44]"] Cons.prems(5) that unfolding sep by (auto simp: room_for_def adds_def)
  qed
  have room2: "room_for ?t1 ?q" and room3: "room_for (?t1 @ ?q) [58]" and room4: "room_for (?t1 @ ?q @ [58]) (value_text env v)"
    and room5: "room_for (?t1 @ ?q @ [58] @ value_text env v) (separated False (map (member_text env) xs))"
    using Cons.prems(5) unfolding sep by (auto simp: room_for_def)
  obtain st2 where st2: "json_builder env alloc (Json_Value q) st1 = Some (True, st2)" "adds env k P V st1 (?t1 @ ?q) st2" "js_memory st2 = ?m"
    using json_key_ok [OF alloc st1(2) room2, of q] key st1(3) by auto
  have ok2: "state_ok env k P V st2 (?t1 @ ?q)"
    using st2(2) by (simp add: adds_def)
  obtain st3 where st3: "put_json alloc [58] st2 = Some st3" "adds env k P V st2 ((?t1 @ ?q) @ [58]) st3" "js_memory st3 = ?m"
    using put_json_ok [OF alloc ok2 _ room3] st2(3) by auto
  have ok3: "state_ok env k P V st3 (?t1 @ ?q @ [58])"
    using st3(2) by (simp add: adds_def)
  obtain st4 where st4: "json_builder env alloc (Json_Value (q + ksize j)) st3 = Some (True, st4)" "adds env k P V st3 ((?t1 @ ?q @ [58]) @ value_text env v) st4"
    using IH [OF spot(2)] spot(1) ok3 room4 unfolding converts_def by blast
  let ?m4 = "js_memory st4"
  have ok4: "state_ok env k P V st4 (?t1 @ ?q @ [58] @ value_text env v)" "keeps P V ?m ?m4"
    using st4(2) st3(3) by (simp_all add: adds_def)
  have ix4: "value_at (je_hash env) ?m4 P V" "is_indexed ?m4 p"
    using ok4 Cons.prems(3) part by (auto simp: state_ok_def printable_def keeps_def)
  obtain c where "chain ?m4 p c (map fst (chain_of (je_hash env) p ms b))"
    using object_chains [OF ix4(1) part ix4(2)] b by metis
  then obtain link where link: "jit_len ?m4 q = Some link" "chain ?m4 p link (map fst xs)"
    using chain_split [of ?m4 p c "map fst before" q "map fst xs"] Cons.prems(1) x by auto
  have bef: "chain_of (je_hash env) p ms b = (before @ [x]) @ xs"
    using Cons.prems(1) by simp
  obtain st5 where st5: "json_builder env alloc (Json_Members p n i link False) st4 = json_builder env alloc (Json_Buckets p n (i + 1) False) st5"
      "state_ok env k P V st5 ((?t1 @ ?q @ [58] @ value_text env v) @ separated False (map (member_text env) xs))" "keeps P V ?m4 (js_memory st5)"
    using Cons.IH [OF bef ok4(1) ix4(2) link(2) room5] by auto
  have "json_builder env alloc (Json_Members p n i index first) st = json_builder env alloc (Json_Members p n i link False) st4"
    using l st1(1) st2(1) st3(1,3) st4(1) link(1) key_size(1) [OF key]
    by (simp add: json_builder.simps [of env alloc "Json_Members p n i index first"] object_members_def Let_def)
  then show ?case
    using st5 ok4(2) keeps_trans unfolding sep by fastforce
qed

text \<open>The texts of the members from a bucket on\<close>

definition bucket_texts :: "jit_env \<Rightarrow> nat \<Rightarrow> (bytes \<times> jvalue) list \<Rightarrow> nat \<Rightarrow> bytes list" where
  "bucket_texts env p ms b = concat (map (\<lambda>b. map (member_text env) (chain_of (je_hash env) p ms b)) [b..<length ms])"

lemma bucket_texts_step: "b < length ms \<Longrightarrow> bucket_texts env p ms b = map (member_text env) (chain_of (je_hash env) p ms b) @ bucket_texts env p ms (Suc b)"
  by (simp add: bucket_texts_def upt_conv_Cons)

lemma object_text: "value_text env (JObject ms) = [123] @ separated True (bucket_texts env p ms 0) @ [125]"
proof -
  let ?r = "\<lambda>(k, v). (k, reorder (je_hash env) v)" and ?t = "\<lambda>(k, v). [34] @ string_text k @ [34, 58] @ json_text (je_format env) v"
  have "map ?t (rev (filter (\<lambda>(k, _). bucket (je_hash env) n k = b) (map ?r (map snd xs)))) =
      map (member_text env) (rev (filter (\<lambda>(q, k, v). bucket (je_hash env) n k = b) xs))" for n b xs
    by (simp add: rev_map filter_map o_def case_prod_unfold member_text_def)
  from this [of _ _ "spots (p + 1) ms"] show ?thesis
    by (simp add: bucket_order_def bucket_texts_def chain_of_def spots_proj(2) map_concat o_def case_prod_unfold)
qed

lemma json_buckets_ok:
  assumes alloc: "plentiful alloc" and part: "(p, JObject ms) \<in> set (parts P V)" and len: "length ms < 2 ^ 32"
    and IH: "\<And>j v. (j, v) \<in> set ms \<Longrightarrow> converts env alloc k P V v"
    and "b \<le> length ms" and "state_ok env k P V st t" and "is_indexed (js_memory st) p" and "room_for t (separated first (bucket_texts env p ms b))"
  shows "\<exists>st'. json_builder env alloc (Json_Buckets p (of_nat (length ms)) (of_nat b) first) st = Some (True, st') \<and>
    state_ok env k P V st' (t @ separated first (bucket_texts env p ms b)) \<and> keeps P V (js_memory st) (js_memory st')"
  using assms(5-8)
proof (induction "length ms - b" arbitrary: b st t first)
  case 0
  then show ?case
    by (simp add: json_builder.simps [of env alloc "Json_Buckets p _ _ _"] object_buckets_def bucket_texts_def)
next
  case (Suc n)
  let ?c = "chain_of (je_hash env) p ms b"
  have b: "b < length ms" "n = length ms - Suc b" "Suc b \<le> length ms"
    using Suc.hyps(2) by simp_all
  have less: "(of_nat b :: u32) < of_nat (length ms)" "unat (of_nat b :: u32) = b"
    using b(1) len by (simp_all add: word_less_nat_alt unat_of_nat)
  have V: "value_at (je_hash env) (js_memory st) P V"
    using Suc.prems(2) by (simp add: state_ok_def printable_def)
  obtain a ix where ix: "jit_integer (js_memory st) p = Some a" "indices (js_memory st) a = Some (ix @ [of_nat (vsize (JObject ms))])" "length ix = length ms"
      "chain (js_memory st) p (ix ! b) (map fst ?c)"
    using object_chains [OF V part Suc.prems(3)] b(1) by metis
  have sep: "separated first (bucket_texts env p ms b) =
      separated first (map (member_text env) ?c) @ separated (first \<and> ?c = []) (bucket_texts env p ms (Suc b))"
    by (simp add: bucket_texts_step [OF b(1)] separated_append)
  have room: "room_for t (separated first (map (member_text env) ?c))"
    "room_for (t @ separated first (map (member_text env) ?c)) (separated (first \<and> ?c = []) (bucket_texts env p ms (Suc b)))"
    using Suc.prems(4) unfolding sep by (simp_all add: room_for_def)
  obtain st1 where st1: "json_builder env alloc (Json_Members p (of_nat (length ms)) (of_nat b) (ix ! b) first) st =
        json_builder env alloc (Json_Buckets p (of_nat (length ms)) (of_nat b + 1) (first \<and> ?c = [])) st1"
      "state_ok env k P V st1 (t @ separated first (map (member_text env) ?c))" "keeps P V (js_memory st) (js_memory st1)"
    using json_members_ok [OF alloc part b(1) IH _ Suc.prems(2,3) ix(4) room(1), where before = "[]"] by force
  have ix1: "is_indexed (js_memory st1) p"
    using st1(3) Suc.prems(3) part by (auto simp: keeps_def)
  obtain st2 where st2: "json_builder env alloc (Json_Buckets p (of_nat (length ms)) (of_nat (Suc b)) (first \<and> ?c = [])) st1 = Some (True, st2)"
      "state_ok env k P V st2 ((t @ separated first (map (member_text env) ?c)) @ separated (first \<and> ?c = []) (bucket_texts env p ms (Suc b)))"
      "keeps P V (js_memory st1) (js_memory st2)"
    using Suc.hyps(1) [OF b(2,3) st1(2) ix1 room(2)] by blast
  have "json_builder env alloc (Json_Buckets p (of_nat (length ms)) (of_nat b) first) st = Some (True, st2)"
    using less ix b(1) st1(1) st2(1)
    by (simp add: json_builder.simps [of env alloc "Json_Buckets p (of_nat (length ms)) (of_nat b) first"] object_buckets_def bucket_at_def nth_append add.commute)
  then show ?case
    using st2(2) keeps_trans [OF st1(3) st2(3)] unfolding sep by simp
qed

lemma force_index_ok:
  assumes st: "state_ok env k P V st t" and env: "fresh_indices env" "provides env k" and part: "(p, JObject ms) \<in> set (parts P V)" and ms: "ms \<noteq> []"
  obtains st' where "force_index env p st = Some st'" "state_ok env k P V st' t" "keeps P V (js_memory st) (js_memory st')" "is_indexed (js_memory st') p"
proof (cases "is_indexed (js_memory st) p")
  case True
  then show thesis
    using that [of st] st by (auto simp: is_indexed_def force_index_def)
next
  case False
  have m: "printable env k P V (js_memory st)" "value_at (je_hash env) (js_memory st) P V"
    using st by (simp_all add: state_ok_def printable_def)
  obtain res m' where res: "sxe_jitson_object_get_member env p [] 0 (js_memory st) = Some (res, m')" "value_at (je_hash env) m' P V"
      "m' = js_memory st \<or> index_step p (JObject ms) (js_memory st) m'"
      "is_indexed m' p \<or> ms = [] \<or> je_index env (js_memory st) (length ms + 1) = None"
    using object_get_member_result [OF m(2) part env(1), of "[]"] by blast
  obtain w where "jit_type (js_memory st) p = Some w" "\<not> has w SXE_JITSON_TYPE_INDEXED"
    using value_at_part [OF m(2) part] False by (auto simp: collection_ok_def typed_def is_indexed_def)
  moreover have "is_indexed m' p"
    using res(4) ms provided [OF m(1) env(2) part _ False] by auto
  ultimately show thesis
    using that [of "st\<lparr>js_memory := m'\<rparr>"] res(1) printable_step [OF m(1) part _ res(2,3)] st by (simp add: force_index_def state_ok_def)
qed

lemma converts_object:
  assumes alloc: "plentiful alloc" and env: "fresh_indices env" "provides env k" and IH: "\<And>j v. (j, v) \<in> set ms \<Longrightarrow> converts env alloc k P V v"
  shows "converts env alloc k P V (JObject ms)"
  unfolding converts_def
proof (intro allI impI)
  fix p st t
  assume part: "(p, JObject ms) \<in> set (parts P V)" and st: "state_ok env k P V st t" and room: "room_for t (value_text env (JObject ms))"
  let ?m = "js_memory st" and ?s = "separated True (bucket_texts env p ms 0)"
  note tx = object_text [of env ms p]
  have c: "length ms < 2 ^ 32" "jit_len ?m p = Some (of_nat (length ms))"
    "typed ?m p SXE_JITSON_TYPE_OBJECT \<or> typed ?m p (SXE_JITSON_TYPE_OBJECT OR SXE_JITSON_TYPE_INDEXED)"
    using value_at_part [OF _ part, of "je_hash env" ?m] st by (auto simp: collection_ok_def state_ok_def printable_def)
  have ty: "json_builder env alloc (Json_Value p) st = sxe_jitson_object_build_json env alloc (json_builder env alloc) p st"
    using c(3) json_value_typed [of st p] by (auto simp: json_builder.simps [of env alloc "Json_Typed _ p"] type_defs)
  have "unat (of_nat (length ms) :: u32) = length ms"
    using c(1) by (simp add: unat_of_nat)
  then have zero: "(of_nat (length ms) :: u32) = 0 \<longleftrightarrow> ms = []"
    by (metis length_0_conv unsigned_eq_0_iff)
  show "\<exists>st'. json_builder env alloc (Json_Value p) st = Some (True, st') \<and> adds env k P V st (t @ value_text env (JObject ms)) st'"
  proof (cases "ms = []")
    case True
    then have e: "value_text env (JObject ms) = [123, 125]"
      by (simp add: bucket_order_def)
    obtain st1 where "put_json alloc [123, 125] st = Some st1" "adds env k P V st (t @ [123, 125]) st1"
      using put_json_ok [OF alloc st, of "[123, 125]"] room unfolding e by auto
    then show ?thesis
      unfolding ty e using c(2) zero True by (simp add: sxe_jitson_object_build_json_def looked_json_def sxe_factory_look_def adds_def)
  next
    case False
    obtain st1 where st1: "force_index env p st = Some st1" "state_ok env k P V st1 t" "keeps P V ?m (js_memory st1)" "is_indexed (js_memory st1) p"
      by (rule force_index_ok [OF st env part False])
    have rooms: "room_for t [123]" "room_for (t @ [123]) ?s" "room_for (t @ [123] @ ?s) [125]"
      using room unfolding tx by (auto simp: room_for_def)
    obtain st2 where st2: "put_json alloc [123] st1 = Some st2" "adds env k P V st1 (t @ [123]) st2" "js_memory st2 = js_memory st1"
      using put_json_ok [OF alloc st1(2) _ rooms(1)] by auto
    have ok2: "state_ok env k P V st2 (t @ [123])" "is_indexed (js_memory st2) p"
      using st2(2,3) st1(4) by (simp_all add: adds_def)
    have "\<exists>st'. json_builder env alloc (Json_Buckets p (of_nat (length ms)) (of_nat 0) True) st2 = Some (True, st') \<and>
        state_ok env k P V st' ((t @ [123]) @ ?s) \<and> keeps P V (js_memory st2) (js_memory st')"
      by (rule json_buckets_ok [OF alloc part c(1) IH _ ok2 rooms(2)]) simp_all
    then obtain st3 where st3: "json_builder env alloc (Json_Buckets p (of_nat (length ms)) 0 True) st2 = Some (True, st3)"
        "state_ok env k P V st3 ((t @ [123]) @ ?s)" "keeps P V (js_memory st2) (js_memory st3)"
      by auto
    obtain st4 where st4: "put_json alloc [125] st3 = Some st4" "adds env k P V st3 ((t @ [123] @ ?s) @ [125]) st4"
      using put_json_ok [OF alloc, of env k P V st3 "t @ [123] @ ?s" "[125]"] st3(2) rooms(3) by auto
    have "json_builder env alloc (Json_Value p) st = Some (True, st4)"
      unfolding ty using c(2) zero False st1(1) st2(1) st3(1) st4 by (simp add: sxe_jitson_object_build_json_def looked_json_def sxe_factory_look_def adds_def)
    moreover have "keeps P V ?m (js_memory st4)"
      using st1(3) st2(3) st3(3) st4(2) by (auto simp: adds_def elim: keeps_trans)
    ultimately show ?thesis
      using st4(2) unfolding tx by (simp add: adds_def)
  qed
qed

section \<open>Whole values\<close>

lemma converts_value:
  assumes "plentiful alloc" and "fresh_indices env" and "provides env k"
  shows "formats_ok (je_format env) v \<Longrightarrow> converts env alloc k P V v"
proof (induction v)
  case (JArray vs)
  then show ?case
    using converts_array [OF assms, of vs] by (auto simp: list_all_iff)
next
  case (JObject ms)
  then show ?case
    using converts_object [OF assms, of ms] by (fastforce simp: list_all_iff)
qed (use converts_literal [OF assms(1)] converts_number [OF assms(1)] converts_string [OF assms(1)] in \<open>auto simp: NUMBER_MAX_LEN_def\<close>)

lemma to_json_result:
  assumes "printable env k P V m" and "(p, v) \<in> set (parts P V)" and "plentiful alloc" and "fresh_indices env" and "provides env k"
    and "formats_ok (je_format env) v" and "length (value_text env v) + 32 < 2 ^ 63"
  obtains json ln m' where "sxe_jitson_to_json env alloc p m = Some (Some (json, ln), m')" "unat ln = length (value_text env v)"
    "take (unat ln + 1) json = value_text env v @ [0]" "value_at (je_hash env) m' P V"
proof -
  let ?st = "\<lparr>js_factory = sxe_factory_alloc_make 0 0, js_memory = m\<rparr>" and ?t = "value_text env v"
  have "contains (sxe_factory_alloc_make 0 0) []"
    using factory_make_ok [of 0 0] by (simp add: contains_def factory_text_def sxe_factory_alloc_make_def)
  then have "state_ok env k P V ?st []"
    using assms(1) by (simp add: state_ok_def)
  then obtain st where st: "json_builder env alloc (Json_Value p) ?st = Some (True, st)" "adds env k P V ?st ([] @ ?t) st"
    using converts_value [OF assms(3-6)] assms(2,7) unfolding converts_def room_for_def by fastforce
  obtain d where d: "factory_ok (js_factory st)" "f_data (js_factory st) = Some d" "d ! unat (f_len (js_factory st)) = 0" "factory_text (js_factory st) = ?t"
    using st(2) by (auto simp: adds_def state_ok_def contains_def)
  have "unat (f_len (js_factory st)) = length ?t"
    using st(2) contains_length by (auto simp: adds_def state_ok_def)
  then have "unat (f_len (js_factory st)) < 2 ^ 63"
    using assms(7) by simp
  then obtain b where b: "sxe_factory_remove alloc (js_factory st) = ((Some b, f_len (js_factory st)), (js_factory st)\<lparr>f_data := None, f_len := 0\<rparr>)"
      "take (unat (f_len (js_factory st)) + 1) b = ?t @ [0]" "unat (f_len (js_factory st)) = length ?t"
    using remove_ok [OF d(1-3)] d(4) by metis
  have "sxe_jitson_to_json env alloc p m = Some (Some (b, f_len (js_factory st)), js_memory st)"
    using st(1) b(1) by (simp add: sxe_jitson_to_json_def sxe_jitson_build_json_def)
  then show thesis
    using that b(2,3) st(2) by (simp add: adds_def state_ok_def printable_def)
qed

end
