(* ===== verification/Sxe_Jitson_Roundtrip.thy ===== *)
theory Sxe_Jitson_Roundtrip
  imports Sxe_Jitson_Print_Spec "HOL-Library.Multiset"
begin

text \<open>
  The text of a value is read back by the reference parser, and so by the parser.
\<close>

section \<open>Characters that end a number or a literal\<close>

definition stops :: "bytes \<Rightarrow> bool" where
  "stops r \<longleftrightarrow> hd0 r \<in> {0, 44, 93, 125}"

lemma stops_class:
  assumes "stops r"
  shows "\<not> isdigit (hd0 r)" "\<not> is_identifier_char (hd0 r)" "c \<in> {43, 45, 46, 69, 101} \<Longrightarrow> hd0 r \<noteq> c"
  using assms by (auto simp: stops_def isdigit_def is_identifier_char_def identifier_chars_def)

lemma takeWhile_stops: "\<not> P (hd0 r) \<Longrightarrow> takeWhile P (s @ r) = takeWhile P s"
proof (induction s)
  case Nil
  then show ?case
    by (cases r) simp_all
qed simp

lemma hd0_stops: "stops r \<Longrightarrow> c \<in> {43, 45, 46, 69, 101} \<Longrightarrow> hd0 (s @ r) = c \<longleftrightarrow> hd0 s = c"
  using stops_class(3) [of r c] by (cases s) auto

lemma tl_stops: "hd0 s \<noteq> 0 \<Longrightarrow> tl (s @ r) = tl s @ r"
  by (cases s) auto

lemma take_fraction_stops: "stops r \<Longrightarrow> take_fraction (s @ r) = take_fraction s"
  using hd0_stops [of r 46 s] stops_class(1) [of r] by (auto simp: take_fraction_def tl_stops takeWhile_stops)

lemma take_exponent_stops:
  assumes "stops r"
  shows "take_exponent (s @ r) = take_exponent s"
proof (cases "hd0 s = 69 \<or> hd0 s = 101")
  case True
  then obtain c t where s: "s = c # t" "c = 69 \<or> c = 101"
    by (cases s) auto
  define sg :: nat where "sg = (if hd0 t = 45 \<or> hd0 t = 43 then 1 else 0)"
  have sg: "(if hd0 (t @ r) = 45 \<or> hd0 (t @ r) = 43 then 1 else 0) = sg" "sg \<le> length t"
    using hd0_stops [OF assms, of 45 t] hd0_stops [OF assms, of 43 t] by (auto simp: sg_def hd0_def split: list.splits)
  have ds: "takeWhile isdigit (drop sg (t @ r)) = takeWhile isdigit (drop sg t)"
    using sg(2) takeWhile_stops [where P = isdigit, OF stops_class(1) [OF assms]] by simp
  have "sg + length (takeWhile isdigit (drop sg t)) \<le> length t"
    using sg(2) length_takeWhile_le [of isdigit "drop sg t"] by simp
  then show ?thesis
    using s sg(1) ds by (auto simp: take_exponent_def Let_def sg_def [symmetric])
next
  case False
  then show ?thesis
    using hd0_stops [OF assms, of 69 s] hd0_stops [OF assms, of 101 s] by (simp add: take_exponent_def)
qed

lemma take_number_stops:
  assumes "take_number s = Some (t, u)" and "stops r"
  shows "take_number (s @ r) = Some (t, u)"
proof -
  obtain sg ds f e where n: "sg = (if hd0 s = 45 then 1 else 0)" "ds = takeWhile isdigit (drop sg s)" "ds \<noteq> []"
    "take_fraction (drop (sg + length ds) s) = Some f" "take_exponent (drop (sg + length ds + length f) s) = Some e"
    "t = take (sg + length ds + length f + length e) s" "u = (sg = 0 \<and> f = [] \<and> e = [])"
    "sg + length ds + length f + length e \<le> length s"
    by (rule take_number_split [OF assms(1)])
  have "(if hd0 (s @ r) = 45 then 1 else 0) = sg"
    using n(1) hd0_stops [OF assms(2), of 45 s] by simp
  moreover have "takeWhile isdigit (drop sg (s @ r)) = ds"
    using n(2,8) takeWhile_stops [where P = isdigit and s = "drop sg s", OF stops_class(1) [OF assms(2)]] by simp
  ultimately show ?thesis
    using n take_fraction_stops [OF assms(2)] take_exponent_stops [OF assms(2)]
    unfolding take_number_def Let_def by (simp only: if_False) (simp add: add.assoc)
qed

section \<open>Numbers\<close>

lemma decimal_digits: "list_all isdigit (decimal n)"
proof (induction n rule: decimal.induct)
  case (1 n)
  have d: "isdigit (48 + of_nat m)" if "m < 10" for m :: nat
  proof -
    have "list_all (\<lambda>m. isdigit (48 + of_nat m)) [0..<10]"
      by code_simp
    then show ?thesis
      using that by (simp add: list_all_iff)
  qed
  then show ?case
    using 1 by (subst decimal.simps) simp
qed

lemma decimal_nonempty: "decimal n \<noteq> []"
  by (subst decimal.simps) simp

lemma number_value_decimal: "number_value 10 (decimal n) = int n"
proof (induction n rule: decimal.induct)
  case (1 n)
  have d: "(case hex_digit_value (48 + of_nat m) of Some d \<Rightarrow> uint d | None \<Rightarrow> 0) = int m" if "m < 10" for m :: nat
  proof -
    have "list_all (\<lambda>m. (case hex_digit_value (48 + of_nat m) of Some d \<Rightarrow> uint d | None \<Rightarrow> 0) = int m) [0..<10]"
      by code_simp
    then show ?thesis
      using that by (simp add: list_all_iff)
  qed
  show ?case
  proof (cases "n < 10")
    case True
    then show ?thesis
      using d [of n] by (simp add: decimal.simps [of n] number_value_def)
  next
    case False
    have "number_value 10 (decimal n) = number_value 10 (decimal (n div 10)) * 10 + int (n mod 10)"
      using False d [of "n mod 10"] by (simp add: decimal.simps [of n] number_value_def)
    also have "\<dots> = int (n div 10 * 10 + n mod 10)"
      by (simp only: 1 [OF False] of_nat_add of_nat_mult of_nat_numeral)
    finally show ?thesis
      by (simp only: div_mult_mod_eq)
  qed
qed

lemma take_number_decimal: "take_number (decimal n) = Some (decimal n, True)"
proof -
  have all: "takeWhile isdigit (decimal n) = decimal n"
    using decimal_digits by (simp add: list_all_iff takeWhile_eq_all_conv)
  obtain c t where c: "decimal n = c # t" "isdigit c"
    using decimal_nonempty [of n] decimal_digits [of n] by (cases "decimal n") auto
  then have "hd0 (decimal n) \<noteq> 45"
    by (auto simp: isdigit_def)
  then show ?thesis
    using decimal_nonempty [of n] by (simp add: take_number_def Let_def take_fraction_def take_exponent_def all)
qed

section \<open>Strings\<close>

lemma hex_char_value: "n < 16 \<Longrightarrow> hex_digit_value (hex_char n) = Some (of_nat n)"
proof -
  have "list_all (\<lambda>n. hex_digit_value (hex_char n) = Some (of_nat n)) [0..<16]"
    by code_simp
  then show "n < 16 \<Longrightarrow> hex_digit_value (hex_char n) = Some (of_nat n)"
    by (simp add: list_all_iff)
qed

lemma escape_escaped:
  assumes "needs_escape c"
  shows "escape (tl (escaped c) @ r) = Some ([c], r)"
proof -
  have c: "unat c < 128"
    using assms by (auto simp: needs_escape_def word_le_nat_alt)
  have h: "hex_digit_value (hex_char (unat c div 16)) = Some (of_nat (unat c div 16))" "hex_digit_value (hex_char (unat c mod 16)) = Some (of_nat (unat c mod 16))"
    using c by (simp_all add: hex_char_value)
  have h0: "hex_digit_value 48 = Some 0"
    by (simp add: hex_digit_value_def)
  have four: "(4 :: nat) = Suc (Suc (Suc (Suc 0)))"
    by simp
  have "unicode_digits (Suc (Suc (Suc (Suc 0)))) 0 (48 # 48 # hex_char (unat c div 16) # hex_char (unat c mod 16) # r) =
      Some (push_bit 4 (of_nat (unat c div 16)) + of_nat (unat c mod 16), r)"
    by (simp add: h h0)
  moreover have "push_bit 4 (of_nat (unat c div 16)) + of_nat (unat c mod 16) = (ucast c :: u32)"
  proof -
    have "push_bit 4 (of_nat (unat c div 16)) + of_nat (unat c mod 16) = (of_nat (unat c div 16 * 16 + unat c mod 16) :: u32)"
      by (simp only: push_bit_eq_mult of_nat_add of_nat_mult of_nat_numeral) simp
    also have "\<dots> = of_nat (unat c)"
      by (simp only: div_mult_mod_eq)
    also have "\<dots> = ucast c"
      by simp
    finally show ?thesis .
  qed
  moreover have "(ucast (ucast c :: u32) :: u8) = c"
    by (rule bit_word_eqI) (simp add: bit_simps)
  then have "sxe_unicode_to_utf8 (ucast c) = (1, [c])"
    using c by (simp add: sxe_unicode_to_utf8_def word_le_nat_alt)
  moreover have "escaped c = [92, 117, 48, 48, hex_char (unat c div 16), hex_char (unat c mod 16)]"
    by (simp add: escaped_def ascii_def)
  ultimately show ?thesis
    by (simp add: escape_def simple_escapes_def flip: four)
qed

lemma string_chars_text: "string_chars (string_text s @ 34 # r) = Some (s, r)"
proof (induction s)
  case (Cons c s)
  show ?case
  proof (cases "needs_escape c")
    case True
    have e: "escaped c = 92 # tl (escaped c)"
      by (simp add: escaped_def ascii_def)
    have "string_text (c # s) @ 34 # r = 92 # tl (escaped c) @ string_text s @ 34 # r"
      using True e by (simp add: string_text_eq)
    then show ?thesis
      using Cons escape_escaped [OF True] by simp
  next
    case False
    then have "c \<noteq> 34" "c \<noteq> 92" "c \<noteq> 0"
      by (auto simp: needs_escape_def)
    then show ?thesis
      using False Cons by (simp add: string_text_eq)
  qed
qed (simp add: string_text_eq)

section \<open>Values\<close>

text \<open>The format of every double in a value is a JSON number, as that of a finite double is.\<close>

fun numbers_ok :: "(u64 \<Rightarrow> bytes) \<Rightarrow> jvalue \<Rightarrow> bool" where
  "numbers_ok fmt (JNumber w) \<longleftrightarrow> (\<exists>u. take_number (fmt w) = Some (fmt w, u))"
| "numbers_ok fmt (JArray vs) \<longleftrightarrow> list_all (numbers_ok fmt) vs"
| "numbers_ok fmt (JObject ms) \<longleftrightarrow> list_all (\<lambda>(k, v). numbers_ok fmt v) ms"
| "numbers_ok fmt _ \<longleftrightarrow> True"

text \<open>What becomes of the doubles of a value when it is printed and parsed: the double that is nearest to the digits that were printed,
  or an unsigned integer when these are digits only. Everything else stays as it is.\<close>

definition reread_number :: "(bytes \<Rightarrow> u64) \<Rightarrow> bytes \<Rightarrow> jvalue" where
  "reread_number dbl s = (if list_all isdigit s then JUint (saturate (number_value 10 s)) else JNumber (dbl s))"

fun reread :: "(bytes \<Rightarrow> u64) \<Rightarrow> (u64 \<Rightarrow> bytes) \<Rightarrow> jvalue \<Rightarrow> jvalue" where
  "reread dbl fmt (JNumber w) = reread_number dbl (fmt w)"
| "reread dbl fmt (JArray vs) = JArray (map (reread dbl fmt) vs)"
| "reread dbl fmt (JObject ms) = JObject (map (\<lambda>(k, v). (k, reread dbl fmt v)) ms)"
| "reread dbl fmt v = v"

lemma take_number_unsigned:
  assumes "take_number s = Some (s, u)"
  shows "u \<longleftrightarrow> list_all isdigit s"
proof -
  obtain sg ds f e where n: "sg = (if hd0 s = 45 then 1 else 0)" "ds = takeWhile isdigit (drop sg s)" "ds \<noteq> []"
    "take_fraction (drop (sg + length ds) s) = Some f" "take_exponent (drop (sg + length ds + length f) s) = Some e"
    "s = take (sg + length ds + length f + length e) s" "u = (sg = 0 \<and> f = [] \<and> e = [])"
    "sg + length ds + length f + length e \<le> length s"
    by (rule take_number_split [OF assms])
  have len: "length s = sg + length ds + length f + length e"
    using n(6,8) by (metis length_take min.absorb2)
  show ?thesis
  proof
    assume u
    then have "sg = 0" "length s = length (takeWhile isdigit s)"
      using n(2,7) len by auto
    then have "takeWhile isdigit s = s"
      by (metis append_eq_conv_conj takeWhile_eq_take take_all_iff order_refl)
    then show "list_all isdigit s"
      by (metis list_all_iff takeWhile_eq_all_conv)
  next
    assume all: "list_all isdigit s"
    have "sg = 0"
      using n(1) all by (cases s) (auto simp: isdigit_def)
    moreover from this have "ds = s"
      using n(2) all by (simp add: takeWhile_eq_all_conv list_all_iff)
    ultimately show u
      using n(7) len by simp
  qed
qed

lemma take_number_hd: "take_number s = Some (t, u) \<Longrightarrow> hd0 s = 45 \<or> isdigit (hd0 s)"
  by (cases s) (auto simp: take_number_def Let_def split: if_splits)

lemma class_of_digit: "c = 45 \<or> isdigit c \<Longrightarrow> \<not> isspace c \<and> c \<notin> {0, 34, 91, 93, 123, 125}"
  by (auto simp: isdigit_def isspace_def word_le_nat_alt)

lemma skip_space_start: "\<not> isspace (hd0 s) \<Longrightarrow> skip_space s = s"
  by (cases s) (simp_all add: skip_space_def)

text \<open>The first character of a text\<close>

lemma json_text_hd:
  assumes "numbers_ok fmt v"
  shows "json_text fmt v \<noteq> []" "\<not> isspace (hd0 (json_text fmt v @ r))" "hd0 (json_text fmt v @ r) \<notin> {93, 125}"
proof -
  have "json_text fmt v \<noteq> [] \<and> \<not> isspace (hd0 (json_text fmt v)) \<and> hd0 (json_text fmt v) \<notin> {93, 125}"
  proof (cases v)
    case (JUint n)
    then show ?thesis
      using take_number_hd [OF take_number_decimal [of "unat n"]] class_of_digit decimal_nonempty by fastforce
  next
    case (JNumber w)
    then obtain u where t: "take_number (fmt w) = Some (fmt w, u)"
      using assms by auto
    then show ?thesis
      using take_number_hd [OF t] class_of_digit [of "hd0 (fmt w)"] JNumber by (auto simp: hd0_def split: list.splits)
  qed (simp_all add: ascii_def isspace_def)
  then show "json_text fmt v \<noteq> []" "\<not> isspace (hd0 (json_text fmt v @ r))" "hd0 (json_text fmt v @ r) \<notin> {93, 125}"
    by (cases "json_text fmt v"; simp)+
qed

lemma parse_number_text:
  assumes "take_number s = Some (s, u)" and "stops r"
  shows "parse_value dbl (s @ r) = Some (if u then JUint (saturate (number_value 10 s)) else JNumber (dbl s), r)"
proof -
  obtain c t where s: "s = c # t" "c = 45 \<or> isdigit c"
    using take_number_hd [OF assms(1)] assms(1) by (cases s) (auto simp: take_number_def)
  have c: "\<not> isspace c" "c \<noteq> 34" "c \<noteq> 123" "c \<noteq> 91"
    using class_of_digit [OF s(2)] by auto
  have sk: "skip_space (s @ r) = c # t @ r"
    using c(1) s(1) by (simp add: skip_space_def)
  have n: "take_number (c # t @ r) = Some (s, u)" "drop (length s) (c # t @ r) = r"
    using take_number_stops [OF assms] s(1) by simp_all
  show ?thesis
    unfolding parse_value_Cons [OF sk] n(1) using s(2) c(2-4) n(2) by (simp only: if_False if_True simp_thms option.map case_prod_conv)
qed

lemma parse_literal_text:
  assumes "json_literal name = Some v" and "stops r"
  shows "parse_value dbl (name @ r) = Some (v, r)"
proof -
  have all: "list_all is_identifier_char name" and hd: "hd0 name \<in> {102, 110, 116}" "name \<noteq> []"
    using assms(1) by (auto simp: json_literal_def ascii_def is_identifier_char_def identifier_chars_def split: if_splits)
  obtain c t where c: "name = c # t"
    using hd(2) by (cases name) auto
  have tw: "takeWhile is_identifier_char (name @ r) = name"
    using takeWhile_stops [where P = is_identifier_char and s = name, OF stops_class(2) [OF assms(2)]] all by (simp add: list_all_iff takeWhile_eq_all_conv)
  have dw: "dropWhile is_identifier_char (name @ r) = r"
    using takeWhile_dropWhile_id [of is_identifier_char "name @ r"] tw by simp
  have cs: "c \<in> {102, 110, 116}"
    using hd(1) c by simp
  then have sk: "skip_space (name @ r) = c # t @ r"
    using c by (auto simp: skip_space_def isspace_def)
  have cc: "c \<noteq> 34" "c \<noteq> 123" "c \<noteq> 91" "c \<noteq> 45" "\<not> isdigit c"
    using cs by (auto simp: isdigit_def)
  have app: "c # t @ r = name @ r"
    using c by simp
  show ?thesis
    unfolding parse_value_Cons [OF sk] unfolding app tw dw assms(1) using cc by (simp only: if_False simp_thms option.map)
qed

lemma stops_after [simp]: "stops (44 # r)" "stops (93 # r)" "stops (125 # r)" "stops []"
  by (simp_all add: stops_def)

lemma parse_elements_text:
  assumes "\<And>v r. v \<in> set vs \<Longrightarrow> stops r \<Longrightarrow> parse_value dbl (json_text fmt v @ r) = Some (g v, r)" and "vs \<noteq> []"
  shows "parse_elements dbl (separated True (map (json_text fmt) vs) @ 93 # r) = Some (map g vs, r)"
  using assms
proof (induction vs)
  case (Cons v vs)
  show ?case
  proof (cases vs)
    case Nil
    then show ?thesis
      using Cons.prems(1) [of v "93 # r"] by (simp add: parse_elements_eq skip_space_def isspace_def)
  next
    case (Cons w ws)
    let ?rest = "separated True (map (json_text fmt) vs) @ 93 # r"
    have "separated True (map (json_text fmt) (v # vs)) @ 93 # r = json_text fmt v @ 44 # ?rest"
      by (simp add: Cons)
    moreover have "parse_value dbl (json_text fmt v @ 44 # ?rest) = Some (g v, 44 # ?rest)"
      by (rule Cons.prems(1)) simp_all
    moreover have "parse_elements dbl ?rest = Some (map g vs, r)"
      using Cons.IH Cons.prems(1) Cons by simp
    ultimately show ?thesis
      by (subst parse_elements_eq) (simp add: skip_space_def isspace_def)
  qed
qed simp

lemma parse_members_text:
  assumes "\<And>k v r. (k, v) \<in> set ms \<Longrightarrow> stops r \<Longrightarrow> parse_value dbl (json_text fmt v @ r) = Some (g v, r)" and "ms \<noteq> []"
  shows "parse_members dbl (separated True (map (\<lambda>(k, v). [34] @ string_text k @ [34, 58] @ json_text fmt v) ms) @ 125 # r) = Some (map (\<lambda>(k, v). (k, g v)) ms, r)"
  using assms
proof (induction ms)
  case (Cons x ms)
  obtain k v where x: "x = (k, v)"
    by (cases x)
  let ?f = "\<lambda>(k, v). [34] @ string_text k @ [34, 58] @ json_text fmt v"
  show ?case
  proof (cases ms)
    case Nil
    have "parse_value dbl (json_text fmt v @ 125 # r) = Some (g v, 125 # r)"
      by (rule Cons.prems(1) [of k]) (simp_all add: x)
    then show ?thesis
      using string_chars_text [of k "58 # json_text fmt v @ 125 # r"] Nil x
      by (subst parse_members_eq) (simp add: skip_space_def isspace_def)
  next
    case (Cons w ws)
    let ?rest = "separated True (map ?f ms) @ 125 # r"
    have "separated True (map ?f (x # ms)) @ 125 # r = 34 # string_text k @ 34 # 58 # json_text fmt v @ 44 # ?rest"
      by (simp add: Cons x case_prod_unfold)
    moreover have "parse_value dbl (json_text fmt v @ 44 # ?rest) = Some (g v, 44 # ?rest)"
      by (rule Cons.prems(1) [of k]) (simp_all add: x)
    moreover have "parse_members dbl ?rest = Some (map (\<lambda>(k, v). (k, g v)) ms, r)"
      using Cons.IH Cons.prems(1) Cons by force
    ultimately show ?thesis
      using string_chars_text [of k "58 # json_text fmt v @ 44 # ?rest"] x
      by (subst parse_members_eq) (simp add: skip_space_def isspace_def)
  qed
qed simp

text \<open>The reference parser reads a text back.\<close>

lemma parse_json_text:
  assumes "numbers_ok fmt v" and "stops r"
  shows "parse_value dbl (json_text fmt v @ r) = Some (reread dbl fmt v, r)"
  using assms
proof (induction v arbitrary: r)
  case JNull
  then show ?case
    using parse_literal_text [of "ascii ''null''" JNull] by (simp add: json_literal_def ascii_def)
next
  case (JBool b)
  then show ?case
    using parse_literal_text [of "if b then ascii ''true'' else ascii ''false''" "JBool b"] by (simp add: json_literal_def ascii_def split: if_splits)
next
  case (JUint n)
  have "uint n < 2 ^ 64"
    using unsigned_less [of n, where 'a = int] by simp
  then show ?case
    using parse_number_text [OF take_number_decimal JUint.prems(2), of dbl "unat n"] by (simp add: number_value_decimal saturate_def)
next
  case (JNumber w)
  then obtain u where "take_number (fmt w) = Some (fmt w, u)"
    by auto
  then show ?case
    using parse_number_text [of "fmt w" u r dbl] take_number_unsigned JNumber.prems(2) by (simp add: reread_number_def)
next
  case (JString s)
  have "skip_space (json_text fmt (JString s) @ r) = 34 # string_text s @ 34 # r"
    by (simp add: skip_space_def isspace_def)
  then show ?case
    by (simp add: parse_value_Cons string_chars_text)
next
  case (JArray vs)
  let ?s = "separated True (map (json_text fmt) vs) @ 93 # r"
  have sk: "skip_space (json_text fmt (JArray vs) @ r) = 91 # ?s"
    by (simp add: skip_space_def isspace_def)
  show ?case
  proof (cases vs)
    case Nil
    then show ?thesis
      unfolding parse_value_Cons [OF sk] by (simp add: skip_space_def isspace_def)
  next
    case (Cons v ws)
    have "hd0 (skip_space ?s) \<noteq> 93"
      using json_text_hd [of fmt v] JArray.prems(1) Cons by (simp add: skip_space_start)
    moreover have "parse_elements dbl ?s = Some (map (reread dbl fmt) vs, r)"
      by (rule parse_elements_text) (use JArray Cons in \<open>auto simp: list_all_iff\<close>)
    ultimately show ?thesis
      unfolding parse_value_Cons [OF sk] by simp
  qed
next
  case (JObject ms)
  let ?s = "separated True (map (\<lambda>(k, v). [34] @ string_text k @ [34, 58] @ json_text fmt v) ms) @ 125 # r"
  have sk: "skip_space (json_text fmt (JObject ms) @ r) = 123 # ?s"
    by (simp add: skip_space_def isspace_def)
  show ?case
  proof (cases ms)
    case Nil
    then show ?thesis
      unfolding parse_value_Cons [OF sk] by (simp add: skip_space_def isspace_def)
  next
    case (Cons x xs)
    have "hd0 (skip_space ?s) \<noteq> 125"
      by (cases x) (simp add: Cons skip_space_def isspace_def)
    moreover have "parse_members dbl ?s = Some (map (\<lambda>(k, v). (k, reread dbl fmt v)) ms, r)"
    proof (rule parse_members_text)
      show "parse_value dbl (json_text fmt v @ r) = Some (reread dbl fmt v, r)" if "(k, v) \<in> set ms" "stops r" for k v r
        using JObject.IH [OF that(1)] JObject.prems(1) that by (force simp: list_all_iff)
    qed (simp add: Cons)
    ultimately show ?thesis
      unfolding parse_value_Cons [OF sk] by simp
  qed
qed

section \<open>The order of members\<close>

lemma set_bucket_order: "set (bucket_order h ms) \<subseteq> set ms"
  by (auto simp: bucket_order_def)

lemma mset_split: "mset (filter P xs) + mset (filter (\<lambda>x. \<not> P x) xs) = mset xs"
  by (induction xs) auto

lemma filter_buckets:
  assumes "\<And>x. x \<in> set xs \<Longrightarrow> f x < n"
  shows "mset (concat (map (\<lambda>b. rev (filter (\<lambda>x. f x = b) xs)) [0..<n])) = mset xs"
  using assms
proof (induction n arbitrary: xs)
  case 0
  then show ?case
    by (cases xs) auto
next
  case (Suc n)
  let ?ys = "filter (\<lambda>x. f x < n) xs"
  have "filter (\<lambda>x. f x = b) xs = filter (\<lambda>x. f x = b) ?ys" if "b < n" for b
    using that by (auto intro: filter_cong)
  then have low: "map (\<lambda>b. rev (filter (\<lambda>x. f x = b) xs)) [0..<n] = map (\<lambda>b. rev (filter (\<lambda>x. f x = b) ?ys)) [0..<n]"
    by simp
  have IH: "mset (concat (map (\<lambda>b. rev (filter (\<lambda>x. f x = b) ?ys)) [0..<n])) = mset ?ys"
    by (rule Suc.IH) simp
  have high: "filter (\<lambda>x. f x = n) xs = filter (\<lambda>x. \<not> f x < n) xs"
    using Suc.prems by (intro filter_cong) (auto simp: less_Suc_eq)
  have "mset (concat (map (\<lambda>b. rev (filter (\<lambda>x. f x = b) xs)) [0..<Suc n])) =
      mset (concat (map (\<lambda>b. rev (filter (\<lambda>x. f x = b) xs)) [0..<n])) + mset (filter (\<lambda>x. f x = n) xs)"
    by simp
  then show ?case
    unfolding low IH high using mset_split [of "\<lambda>x. f x < n" xs] by (rule trans)
qed

lemma mset_bucket_order:
  assumes "length ms < 2 ^ 32"
  shows "mset (bucket_order h ms) = mset ms"
proof (cases "ms = []")
  case False
  then show ?thesis
    using filter_buckets [of ms "\<lambda>(k, _). bucket h (length ms) k" "length ms"] bucket_less [of "length ms" h] assms
    by (auto simp: bucket_order_def case_prod_unfold)
qed (simp add: bucket_order_def)

text \<open>Objects without duplicate names have the same members in another order.\<close>

lemma map_of_bucket_order:
  assumes "length ms < 2 ^ 32" and "distinct (map fst ms)"
  shows "map_of (rev (bucket_order h ms)) = map_of (rev ms)"
proof -
  have m: "mset (bucket_order h ms) = mset ms"
    using assms(1) by (rule mset_bucket_order)
  then have "mset (map fst (bucket_order h ms)) = mset (map fst ms)"
    by simp
  from mset_eq_imp_distinct_iff [OF this] have "distinct (map fst (rev (bucket_order h ms)))" "distinct (map fst (rev ms))"
    using assms(2) by (simp_all add: rev_map [symmetric])
  moreover have "set (rev (bucket_order h ms)) = set (rev ms)"
    using mset_eq_setD [OF m] by simp
  ultimately show ?thesis
    by (simp add: map_of_inject_set)
qed

lemma reorder_ok:
  "numbers_ok fmt v \<Longrightarrow> numbers_ok fmt (reorder h v)" "names_ok v \<Longrightarrow> names_ok (reorder h v)"
proof (induction v)
  case (JObject ms)
  let ?ms = "map (\<lambda>(k, v). (k, reorder h v)) ms"
  { case 1
    then show ?case
      using JObject.IH(1) set_bucket_order [of h ?ms] by (fastforce simp: list_all_iff) }
  { case 2
    then show ?case
      using JObject.IH(2) set_bucket_order [of h ?ms] by (fastforce simp: list_all_iff) }
qed (auto simp: list_all_iff)

section \<open>Printing and parsing\<close>

text \<open>C8: A value in memory, or any part of it, is converted to JSON whichever of its arrays and objects are indexed: unless memory runs
  out, the block that is returned holds the text of the value with a terminating zero, in which the members of objects are in the order of
  their buckets, and the memory still represents the value.\<close>

theorem to_json_correct:
  assumes "printable env k P V m" and "(p, v) \<in> set (parts P V)" and "plentiful alloc" and "fresh_indices env" and "provides env k"
    and "formats_ok (je_format env) v" and "length (value_text env v) + 32 < 2 ^ 63"
  shows "\<exists>json ln m'. sxe_jitson_to_json env alloc p m = Some (Some (json, ln), m') \<and> unat ln = length (value_text env v) \<and>
    take (unat ln + 1) json = value_text env v @ [0] \<and> value_at (je_hash env) m' P V"
  using to_json_result [OF assms] by metis

lemma reread_names: "names_ok (reread dbl fmt v) \<longleftrightarrow> names_ok v"
proof (induction v)
  case (JNumber w)
  then show ?case
    by (simp add: reread_number_def)
next
  case (JObject ms)
  then show ?case
    by (fastforce simp: list_all_iff)
qed (auto simp: list_all_iff)

text \<open>C7: Printing a value and parsing the text gives the value back in memory, with two differences: the members of its objects are in the
  order of their buckets, and each of its doubles is what is read for the digits it was printed with (the format keeps 16 digits, so this may
  be another double, or an unsigned integer). All other parts are the same. The format of a double must be a JSON number, which excludes
  infinities; no name may contain a zero, which would end it; and the text must not contain -0x, which \<^verbatim>\<open>strtod\<close> reads as hexadecimal.\<close>

theorem json_roundtrip:
  assumes "printable env k P V m" and "(p, v) \<in> set (parts P V)" and "plentiful alloc" and "fresh_indices env" and "provides env k"
    and "formats_ok (je_format env) v" and "numbers_ok (je_format env) v" and "names_ok v"
    and "no_hex (value_text env v)" and "16 * (length (value_text env v) + 1) \<le> 2 ^ 32"
    and "ample (env_alloc penv)" and "strict_flags flags" and "strtod_ok (env_strtod penv) dbl" and "on_stack (0, 0) st []"
  shows "\<exists>json ln m' bs st'. sxe_jitson_to_json env alloc p m = Some (Some (json, ln), m') \<and>
    sxe_jitson_new penv flags st (take (unat ln) json) = Some (Some bs, st') \<and>
    value_at h (memory_of bs) 0 (reread dbl (je_format env) (reorder (je_hash env) v))"
proof -
  let ?t = "value_text env v" and ?v = "reread dbl (je_format env) (reorder (je_hash env) v)"
  have "length ?t + 32 < 2 ^ 63"
    using assms(10) by simp
  then obtain json ln m' where json: "sxe_jitson_to_json env alloc p m = Some (Some (json, ln), m')" "unat ln = length ?t" "take (unat ln + 1) json = ?t @ [0]"
    by (rule to_json_result [OF assms(1-6)])
  have "take (unat ln) (take (unat ln + 1) json) = ?t"
    using json(2,3) by simp
  then have t: "take (unat ln) json = ?t"
    by (simp add: min_absorb1)
  have "parse_value dbl (?t @ []) = Some (?v, [])"
    by (rule parse_json_text) (simp_all add: reorder_ok(1) assms(7))
  then have "parse_value dbl ?t = Some (?v, [])"
    by simp
  from parsed_value_memory [OF assms(11-13,9,14,10) this, of h] show ?thesis
    using json(1) t reorder_ok(2) [OF assms(8)] by (auto simp: reread_names)
qed

section \<open>An example\<close>

text \<open>An allocator with two indices\<close>

definition two_indices :: jit_env where
  "two_indices = example_jit_env\<lparr>je_index := (\<lambda>m n. if indices m 1 = None then Some 1 else if indices m 2 = None then Some 2 else None)\<rparr>"

lemma two_indices_ok: "fresh_indices two_indices" "provides two_indices 2"
proof -
  show "fresh_indices two_indices"
    by (auto simp: two_indices_def fresh_indices_def split: if_splits)
  have "2 \<le> card (dom (indices m))" if "indices m 1 \<noteq> None" "indices m 2 \<noteq> None" for m
  proof -
    have "card {1, 2 :: u64} \<le> card (dom (indices m))"
      using that by (intro card_mono) auto
    then show ?thesis
      by simp
  qed
  then show "provides two_indices 2"
    by (fastforce simp: provides_def two_indices_def)
qed

lemma example_printable: "printable two_indices 2 0 example_value example_memory"
proof -
  have "unindexed 0 example_value example_memory \<subseteq> {0, 2}"
    by (auto simp: unindexed_def example_value_def ksize_def ascii_def)
  then have "card (unindexed 0 example_value example_memory) \<le> card {0 :: nat, 2}"
    by (intro card_mono) simp_all
  then show ?thesis
    by (simp add: printable_def example_memory_ok)
qed

text \<open>\<^verbatim>\<open>{"c":true,"c":null,"ab":[1,false]}\<close>\<close>

definition example_output :: bytes where
  "example_output = [123, 34, 99, 34, 58, 116, 114, 117, 101, 44, 34, 99, 34, 58, 110, 117, 108, 108, 44, 34, 97, 98, 34, 58, 91, 49, 44, 102, 97, 108, 115, 101, 93, 125]"

lemma example_output_text:
  "value_text two_indices example_value = example_output" "no_hex example_output" "length example_output = 34"
  "formats_ok (je_format two_indices) example_value"
  by code_simp+

lemma plentiful_zeros: "plentiful (\<lambda>n. Some (replicate n 0))"
  by (simp add: plentiful_def)

lemma example_whole: "(0, example_value) \<in> set (parts 0 example_value)"
  by (simp add: example_value_def)

theorem to_json_correct_witness:
  "\<exists>json ln m'. sxe_jitson_to_json two_indices (\<lambda>n. Some (replicate n 0)) 0 example_memory = Some (Some (json, ln), m') \<and> unat ln = 34 \<and>
     take (unat ln + 1) json = example_output @ [0] \<and> value_at (je_hash two_indices) m' 0 example_value"
  using to_json_correct [OF example_printable example_whole plentiful_zeros two_indices_ok example_output_text(4)]
  by (simp add: example_output_text)

text \<open>The text \<^verbatim>\<open>{"n":2.5,"a":[7.5,1]}\<close>. The doubles of the example are all printed as \<^verbatim>\<open>2.5\<close>.\<close>

definition number_value_example :: jvalue where
  "number_value_example = JObject [(ascii ''n'', JNumber 0), (ascii ''a'', JArray [JNumber 0, JUint 1])]"

definition number_json :: bytes where
  "number_json = [123, 34, 110, 34, 58, 50, 46, 53, 44, 34, 97, 34, 58, 91, 55, 46, 53, 44, 49, 93, 125]"

definition number_env :: jit_env where
  "number_env = two_indices\<lparr>je_format := (\<lambda>_. [50, 46, 53])\<rparr>"

definition number_memory :: jit_memory where
  "number_memory = memory_of (the (do { (res, _) \<leftarrow> sxe_jitson_new example_env 0 example_stack number_json; res }))"

lemma number_json_parsed:
  "parse_value (\<lambda>_. 0) number_json = Some (number_value_example, [])" "no_hex number_json" "length number_json = 21" "names_ok number_value_example"
  by code_simp+

lemma number_memory_ok: "value_at h number_memory 0 number_value_example" "indices number_memory = (\<lambda>_. None)"
proof -
  obtain bs st' where bs: "sxe_jitson_new example_env 0 example_stack number_json = Some (Some bs, st')"
      "value_at h (memory_of bs) 0 number_value_example"
    using parsed_value_memory [OF example_env_ok(1-3) number_json_parsed(2) example_env_ok(4) _ number_json_parsed(1,4), where h = h]
    by (auto simp: number_json_parsed)
  then show "value_at h number_memory 0 number_value_example" "indices number_memory = (\<lambda>_. None)"
    by (simp_all add: number_memory_def)
qed

lemma number_env_ok: "fresh_indices number_env" "provides number_env 2"
  using two_indices_ok by (simp_all add: number_env_def fresh_indices_def provides_def)

lemma number_printable: "printable number_env 2 0 number_value_example number_memory"
proof -
  have "unindexed 0 number_value_example number_memory \<subseteq> {0, 4}"
    by (auto simp: unindexed_def number_value_example_def ksize_def ascii_def)
  then have "card (unindexed 0 number_value_example number_memory) \<le> card {0 :: nat, 4}"
    by (intro card_mono) simp_all
  then show ?thesis
    by (simp add: printable_def number_memory_ok)
qed

lemma number_text_ok:
  "formats_ok (je_format number_env) number_value_example" "numbers_ok (je_format number_env) number_value_example"
  "no_hex (value_text number_env number_value_example)" "length (value_text number_env number_value_example) = 21"
proof -
  have "take_number [50, 46, 53] = Some ([50, 46, 53], False)"
    by code_simp
  then show "numbers_ok (je_format number_env) number_value_example"
    by (auto simp: number_value_example_def number_env_def)
qed code_simp+

theorem json_roundtrip_witness:
  "\<exists>json ln m' bs st'. sxe_jitson_to_json number_env (\<lambda>n. Some (replicate n 0)) 0 number_memory = Some (Some (json, ln), m') \<and>
    sxe_jitson_new example_env 0 example_stack (take (unat ln) json) = Some (Some bs, st') \<and>
    value_at (\<lambda>_. 0) (memory_of bs) 0 (reread (\<lambda>_. 0) (je_format number_env) (reorder (je_hash number_env) number_value_example))"
  by (rule json_roundtrip [OF number_printable _ plentiful_zeros number_env_ok number_text_ok(1,2) number_json_parsed(4) number_text_ok(3) _ example_env_ok])
    (simp_all add: number_text_ok, simp add: number_value_example_def)

end
