(* ===== verification/Spec2Isabelle.thy ===== *)
theory Spec2Isabelle
  imports Sxe_List Sxe_Spinlock Sxe_Pool_Ops Sxe_Hash_Spec Sxe_Dict_Spec Sxe_Hex Sxe_Cdb_Entry Kit_Base_Spec Kit_SortedArray_Spec
    Sxe_Jitson_Source_Spec Sxe_Factory Kit_Bits Kit_Strings Sxe_Jitson_Construct Sxe_Jitson_Roundtrip
begin

text \<open>
  Verification of libkit, a library of C components: intrusive lists and the pools, hash tables and dictionaries built
  for long running servers, codecs and string utilities, and jitson, a representation of JSON values with a parser, accessors and a printer.

  \<^bold>\<open>Parts and theories.\<close> \<open>Kit_Prelude\<close> holds the C types as words of their width, the assertions, C strings, buffers
  and relocatable pointers. Every other theory without the suffix \<open>_Spec\<close> holds the definitions translated from one component,
  and most of its theorems are in the theory with the suffix.

  \<^item> \<open>Sxe_List\<close>: \<^verbatim>\<open>lib-sxe-list/sxe-list.c\<close>, \<^verbatim>\<open>sxe-list-walker.c\<close> and \<^verbatim>\<open>sxe-list.h\<close>. The heap maps addresses to list
    nodes and headers; links are relative to the list as in the code. The locale \<open>deque\<close> is the contract of a doubly ended
    queue, interpreted on the operations.
  \<^item> \<open>Sxe_Spinlock\<close>: \<^verbatim>\<open>lib-sxe-mmap/sxe-spinlock.h\<close>, with the interleavings of processes as a step relation on the lock.
  \<^item> \<open>Sxe_Pool\<close>, \<open>Sxe_Pool_Spec\<close>: \<^verbatim>\<open>lib-sxe-pool/sxe-pool.c\<close>, \<^verbatim>\<open>sxe-pool-private.h\<close> and \<^verbatim>\<open>sxe-pool-walker.c\<close>, elements in one
    queue per state. A pool calls the list operations on the queues of its states and the spinlock; the locale
    \<open>state_queues\<close> is its contract. \<open>Sxe_Pool_Ops\<close> is about sequences of calls and the order of time.
  \<^item> \<open>Sxe_Hex\<close>, \<open>Sxe_Hash\<close>, \<open>Sxe_Hash_Spec\<close>: \<^verbatim>\<open>lib-sxe-util/sxe-hex.c\<close>, \<^verbatim>\<open>lib-sxe-hash/sxe-hash.c\<close>, \<^verbatim>\<open>sxe-hash-classic.c\<close> and
    \<^verbatim>\<open>sxe-hash-sha1.c\<close>. A hash table is a pool with a state per bucket. The hash function is a parameter.
  \<^item> \<open>Sxe_Dict\<close>, \<open>Sxe_Dict_Spec\<close>: \<^verbatim>\<open>lib-sxe-dict/sxe-dict.c\<close>, chained buckets that grow. The locale \<open>kv_store\<close> of
    \<open>Kit_Store\<close>, a store of values by key, is interpreted on the dictionaries, and the locale \<open>bounded_store\<close>, which extends
    it by a number of free places, on the classic hash.
  \<^item> \<open>Kit_Base_Encode\<close>, \<open>Kit_Base_Spec\<close>: \<^verbatim>\<open>lib-kit/kit-base-encode.c\<close>. The locale \<open>base_code\<close> states what a configuration has to
    satisfy and is interpreted on the six configurations of the code.
  \<^item> \<open>Kit_SortedArray\<close>, \<open>Kit_SortedArray_Spec\<close>: \<^verbatim>\<open>lib-kit/kit-sortedarray.c\<close>, with comparators as parameters and their contract in
    the locales \<open>key_class\<close> and \<open>visiting_class\<close>, interpreted on the comparator of the test arrays.
  \<^item> \<open>Kit_Bits\<close>: \<^verbatim>\<open>lib-kit/kit-bits.c\<close>, \<^verbatim>\<open>lib-sxe-util/sxe-uint64.c\<close> and \<^verbatim>\<open>sxe-unsigned.c\<close>.
  \<^item> \<open>Kit_Strings\<close>: \<^verbatim>\<open>lib-sxe-util/sxe-rot13.c\<close> and \<^verbatim>\<open>sxe-str.c\<close>, \<^verbatim>\<open>lib-kit/kit-bool.c\<close>, \<^verbatim>\<open>kit-basename.c\<close>, \<^verbatim>\<open>kit-guid.c\<close> and
    \<^verbatim>\<open>kit-deviceid.c\<close>.
  \<^item> \<open>Sxe_Cdb_Entry\<close>: the entries of the constant database, in \<^verbatim>\<open>lib-sxe-cdb/sxe-cdb.c\<close> and \<^verbatim>\<open>sxe-cdb-private.h\<close>.
  \<^item> \<open>Sxe_Factory\<close>: \<^verbatim>\<open>lib-sxe-jitson/sxe-factory.c\<close> and \<^verbatim>\<open>sxe-unicode.c\<close>.
  \<^item> \<open>Sxe_Jitson_Source\<close>, \<open>Sxe_Jitson_Source_Spec\<close>: \<^verbatim>\<open>lib-sxe-jitson/sxe-jitson-source.c\<close>.
  \<^item> \<open>Sxe_Jitson\<close>, \<open>Sxe_Jitson_Text\<close>, \<open>Sxe_Jitson_Stack_Spec\<close>, \<open>Sxe_Jitson_Spec\<close>: the parser of \<^verbatim>\<open>lib-sxe-jitson/sxe-jitson-stack.c\<close> and the
    parts of \<^verbatim>\<open>sxe-jitson.c\<close>, \<^verbatim>\<open>sxe-jitson-type.c\<close> and \<^verbatim>\<open>sxe-jitson-const.c\<close> it uses. A stack is a block of bytes in which every
    token takes 16. The second theory is a reference parser to an abstract value, the third relates stacks to their
    contents, and the fourth relates the parser to the reference parser.
  \<^item> \<open>Sxe_Jitson_Build\<close>, \<open>Sxe_Jitson_Build_Steps\<close>, \<open>Sxe_Jitson_Build_Spec\<close>: the functions of \<^verbatim>\<open>sxe-jitson-stack.c\<close> that construct values, what
    each does to the open collections, and their refinement of a machine of open collections, stated with the locale
    \<open>call_refinement\<close>. \<open>Sxe_Jitson_Construct\<close> shows that the calls for a value leave tokens that represent it.
  \<^item> \<open>Sxe_Jitson_Access\<close>, \<open>Sxe_Jitson_Layout\<close>, \<open>Sxe_Jitson_Access_Spec\<close>: the accessors of \<^verbatim>\<open>sxe-jitson.c\<close> and \<^verbatim>\<open>sxe-jitson-type.c\<close>, which index
    arrays and objects on first access. The second theory says when a memory of tokens represents a value, whichever of
    its parts are indexed, and the third that the accessors find the parts of the value and keep the representation.
  \<^item> \<open>Sxe_Jitson_Print\<close>, \<open>Sxe_Jitson_Print_Text\<close>, \<open>Sxe_Jitson_Print_Spec\<close>, \<open>Sxe_Jitson_Roundtrip\<close>: the conversion to JSON, \<^verbatim>\<open>sxe_jitson_to_json\<close> and the
    \<^verbatim>\<open>build_json\<close> functions of \<^verbatim>\<open>sxe-jitson-type.c\<close>, which use the factory and the accessors; the text of a value; that the
    conversion writes this text; and that the reference parser reads it back.

  \<^bold>\<open>What the theorems show.\<close> Lists refine sequences and are first in first out; a change of state of a pool element moves it from
  the front or the middle of one queue to the end of another and keeps the elements, the oldest element is the one that has been in
  a state the longest, sequences of calls neither lose nor duplicate elements and keep the order of time, the timeout check of a
  state moves exactly the expired elements, and no two processes hold a spinlock. Hash tables
  and dictionaries implement finite maps, also while a dictionary grows. The encoders spell the bits of their input and the
  decoders invert them, within their buffers. The binary search of sorted arrays agrees with a linear one, and additions, deletions
  and intersections are those of sorted sets; two examples show inputs on which the code of the sorted arrays fails. Bit
  masks, logarithms, alignment, searches, UTF-8 and identifiers agree with reference definitions, and entries of the constant
  database are unpacked to what was packed. The parser accepts exactly what the
  reference parser accepts, leaving the tokens of its value and otherwise the stack as it was, and any sequence of construction
  calls does what the machine of open collections allows and aborts on what it refuses. The tokens of a parsed value
  represent it, the accessors return its elements and members, and converting it to JSON and parsing the result gives the
  same value with the members of its objects in the order of their buckets, up to what is lost when a double is printed.

  \<^bold>\<open>Conventions.\<close> A failed assertion, an access outside a buffer and a loop that does not end are \<open>None\<close>; a theorem
  that a call returns \<open>Some\<close> excludes them. Loops that run over memory are recursive functions with a measure, and the two whose end
  depends on wrap-around or on the input (the size of a factory and the decoder of \<open>Kit_Base_Encode\<close>) are partial functions
  with a theorem that they return. The parser
  and the conversion to JSON call themselves for every nested value: they are partial functions, and their theorems say that they return, on
  every text and on every value in memory. The
  bound of 256 million tokens in the theorems on stacks keeps their sizes, which are 32 bit unsigned numbers, from wrapping around. Memory allocation, hash functions and comparators are parameters.

  \<^bold>\<open>Not modelled.\<close> The vendored time zone code, BSD queues and arc4random; logging, sockets, file events, memory mapping,
  threads and other system services; the mocks and the test support; the tensors, which are floating point arithmetic; the
  allocator and its counters; of the constant database the sheets, the counts and the ensembles; of jitson the identifiers, the operators, the ranges, the
  comparison, duplication and freeing of values and the debugging dump of a stack.
\<close>

end
